(* ===== verification/Prelude.thy ===== *)
theory Prelude
  imports Main "HOL-Library.Word"
begin

unbundle bit_operations_syntax

text \<open>
  Shared vocabulary of the development: the machine integer types of the C sources on the
  64-bit little-endian target of the application, byte-addressed memory with loads and stores,
  the two sequencing combinators that stand for the C idiom
  \<^verbatim>\<open>if (!f(x)) return false;\<close>, the fact collections \<open>c_defs\<close> and \<open>seq_simps\<close>, and the generic
  lemmas on words, lists and memory that the component theories rest on.
\<close>

section \<open>Machine types\<close>

type_synonym u8 = "8 word"
type_synonym u16 = "16 word"
type_synonym u32 = "32 word"
type_synonym u64 = "64 word"

type_synonym mem = "u64 \<Rightarrow> u8"

named_theorems c_defs \<open>definitions that model one C function\<close>
named_theorems seq_simps \<open>rules that execute the sequencing combinators\<close>

section \<open>Byte-addressed memory\<close>

definition load_bytes :: "mem \<Rightarrow> u64 \<Rightarrow> nat \<Rightarrow> u8 list" where
  "load_bytes h a n = map (\<lambda>i. h (a + of_nat i)) [0..<n]"

fun store_bytes :: "mem \<Rightarrow> u64 \<Rightarrow> u8 list \<Rightarrow> mem" where
  "store_bytes h a [] = h"
| "store_bytes h a (b # bs) = store_bytes (h(a := b)) (a + 1) bs"

text \<open>The little-endian reading of a byte string, the numeric specification of all loads.\<close>

fun le_nat :: "u8 list \<Rightarrow> nat" where
  "le_nat [] = 0"
| "le_nat (b # bs) = unat b + 256 * le_nat bs"

fun le_bytes :: "nat \<Rightarrow> nat \<Rightarrow> u8 list" where
  "le_bytes 0 v = []"
| "le_bytes (Suc n) v = of_nat v # le_bytes n (v div 256)"

definition load_u16 :: "mem \<Rightarrow> u64 \<Rightarrow> u16" where
  "load_u16 h a = of_nat (le_nat (load_bytes h a 2))"

definition load_u32 :: "mem \<Rightarrow> u64 \<Rightarrow> u32" where
  "load_u32 h a = of_nat (le_nat (load_bytes h a 4))"

definition load_u64 :: "mem \<Rightarrow> u64 \<Rightarrow> u64" where
  "load_u64 h a = of_nat (le_nat (load_bytes h a 8))"

definition store_u16 :: "mem \<Rightarrow> u64 \<Rightarrow> u16 \<Rightarrow> mem" where
  "store_u16 h a v = store_bytes h a (le_bytes 2 (unat v))"

definition store_u32 :: "mem \<Rightarrow> u64 \<Rightarrow> u32 \<Rightarrow> mem" where
  "store_u32 h a v = store_bytes h a (le_bytes 4 (unat v))"

definition store_u64 :: "mem \<Rightarrow> u64 \<Rightarrow> u64 \<Rightarrow> mem" where
  "store_u64 h a v = store_bytes h a (le_bytes 8 (unat v))"

section \<open>Sequencing\<close>

text \<open>
  A C function that returns \<open>bool\<close> and updates the object it is given is a function to
  \<open>bool \<times> 's\<close>; \<open>and_then\<close> continues only after \<open>true\<close>. A function that also produces a
  value through a pointer argument is a function to \<open>'a option \<times> 's\<close>, with \<open>None\<close> for
  \<open>false\<close> and the object kept; \<open>get_then\<close> hands the value on.
\<close>

definition and_then :: "bool \<times> 's \<Rightarrow> ('s \<Rightarrow> bool \<times> 's) \<Rightarrow> bool \<times> 's" where
  "and_then r k = (case r of (ok, s) \<Rightarrow> if ok then k s else (False, s))"

definition get_then :: "'a option \<times> 's \<Rightarrow> ('a \<Rightarrow> 's \<Rightarrow> 'b option \<times> 's) \<Rightarrow> 'b option \<times> 's" where
  "get_then r k = (case r of (None, s) \<Rightarrow> (None, s) | (Some x, s) \<Rightarrow> k x s)"

lemma and_then_simps [simp, seq_simps]:
  "and_then (True, s) k = k s"
  "and_then (False, s) k = (False, s)"
  by (simp_all add: and_then_def)

lemma and_then_True_iff:
  "and_then r k = (True, t) \<longleftrightarrow> (\<exists>s. r = (True, s) \<and> k s = (True, t))"
  by (auto simp: and_then_def split: prod.splits)

lemma and_then_assoc: "and_then (and_then r k) l = and_then r (\<lambda>s. and_then (k s) l)"
  by (auto simp: and_then_def split: prod.splits)

lemma get_then_simps [simp, seq_simps]:
  "get_then (Some x, s) k = k x s"
  "get_then (None, s) k = (None, s)"
  by (simp_all add: get_then_def)

lemma get_then_Some_iff:
  "get_then r k = (Some y, t) \<longleftrightarrow> (\<exists>x s. r = (Some x, s) \<and> k x s = (Some y, t))"
  by (auto simp: get_then_def split: prod.splits option.splits)

section \<open>Words and numbers\<close>

lemma unat_and_127 [simp]: "unat (w AND 0x7F :: 'a::len word) = unat w mod 128"
proof -
  have "w AND 0x7F = take_bit 7 w"
    by (simp add: take_bit_eq_mask mask_eq_exp_minus_1)
  then show ?thesis by (simp add: unsigned_take_bit_eq take_bit_nat_def)
qed

lemma unat_drop_bit [simp]: "unat (drop_bit n (w :: 'a::len word)) = unat w div 2 ^ n"
  by (simp add: unat_drop_bit_eq drop_bit_nat_def)

lemma unat_u8_lt: "unat (b :: u8) < 256"
  using unsigned_less [of b] by simp

lemma unat_u32_lt: "unat (b :: u32) < 4294967296"
  using unsigned_less [of b] by simp

lemma unat_u64_lt: "unat (b :: u64) < 18446744073709551616"
  using unsigned_less [of b] by simp

lemma unat_ucast_u8: "unat (ucast (v :: u64) :: u8) = unat v mod 256"
  by (simp add: unsigned_ucast_eq take_bit_nat_def)

lemma unat_of_nat_mod: "unat (of_nat n :: 'a::len word) = n mod 2 ^ LENGTH('a)"
  by (simp add: unsigned_of_nat take_bit_nat_def)

lemma unat_of_nat_u8 [simp]: "unat (of_nat n :: u8) = n mod 256"
  by (simp add: unat_of_nat_mod)

lemma unat_of_nat_u64_small: "n < 2 ^ 64 \<Longrightarrow> unat (of_nat n :: u64) = n"
  by (simp add: unat_of_nat_mod)

lemma unat_add_u64: "unat a + unat b < 2 ^ 64 \<Longrightarrow> unat (a + b :: u64) = unat a + unat b"
  by (simp add: unat_word_ariths)

lemma unat_add_of_nat_u64:
  assumes "unat (a :: u64) + n < 2 ^ 64"
  shows "unat (a + of_nat n) = unat a + n"
proof -
  have "unat (of_nat n :: u64) = n" using assms by (intro unat_of_nat_u64_small) simp
  with assms show ?thesis by (simp add: unat_add_u64)
qed

lemma unat_sub_u64: "unat b \<le> unat a \<Longrightarrow> unat (a - b :: u64) = unat a - unat b"
  by (simp add: unat_sub word_le_nat_alt)

lemma u64_add_wraps:
  assumes "2 ^ 64 \<le> unat (a :: u64) + unat b"
  shows "a + b < a"
proof -
  have "unat (a + b) = unat a + unat b - 2 ^ 64"
    using assms unat_u64_lt [of a] unat_u64_lt [of b] by (simp add: unat_word_ariths mod_if)
  then show ?thesis using assms unat_u64_lt [of b] by (simp add: word_less_nat_alt)
qed

lemma of_nat_unat_word: "of_nat (unat (w :: 'a::len word)) = w"
  by simp

lemma word_eq_unatI: "unat a = unat b \<Longrightarrow> a = b"
  by (simp add: word_unat_eq_iff)

lemma or_eq_plus_word:
  fixes a b :: "'a::len word"
  shows "a AND b = 0 \<Longrightarrow> a OR b = a + b"
  by (simp add: disjunctive_add_eq_or)

lemma unat_push_bit:
  fixes b :: "'a::len word"
  assumes "unat b * 2 ^ n < 2 ^ LENGTH('a)"
  shows "unat (push_bit n b) = unat b * 2 ^ n"
  using assms by (simp add: unsigned_push_bit_eq take_bit_nat_eq_self push_bit_nat_def)

lemma unat_or_push_bit:
  fixes a b :: "'a::len word"
  assumes a: "unat a < 2 ^ n" and b: "unat b * 2 ^ n < 2 ^ LENGTH('a)"
  shows "unat (a OR push_bit n b) = unat a + unat b * 2 ^ n"
proof -
  have "take_bit n (unat a) = unat a" using a by (simp add: take_bit_nat_eq_self)
  then have "\<not> bit (unat a) i" if "n \<le> i" for i using that by (metis bit_take_bit_iff not_le)
  then have "unat a AND push_bit n (unat b) = 0" by (auto simp: bit_eq_iff bit_simps)
  then have "unat a OR push_bit n (unat b) = unat a + push_bit n (unat b)"
    by (simp add: disjunctive_add_eq_or)
  moreover have "unat (push_bit n b) = push_bit n (unat b)"
    using unat_push_bit [OF b] by (simp add: push_bit_nat_def push_bit_eq_mult)
  ultimately show ?thesis by (simp add: unsigned_or_eq push_bit_eq_mult)
qed

lemma bit_unat_iff: "bit (w :: 'a::len word) n \<longleftrightarrow> odd (unat w div 2 ^ n)"
proof -
  have "bit w n \<longleftrightarrow> bit (unat w) n" by (simp add: bit_unsigned_iff)
  then show ?thesis by (simp only: bit_iff_odd [of "unat w"])
qed

lemma and_0x80_iff: "(b :: u8) AND 0x80 = 0 \<longleftrightarrow> unat b < 128"
proof -
  have "b AND 0x80 = 0 \<longleftrightarrow> \<not> bit b 7"
    using and_exp_eq_0_iff_not_bit [of b 7] by simp
  also have "bit b 7 \<longleftrightarrow> odd (unat b div 128)" by (simp add: bit_unat_iff)
  also have "odd (unat b div 128) \<longleftrightarrow> \<not> unat b < 128"
    using unat_u8_lt [of b] by (cases "unat b < 128") (auto simp: div_if)
  finally show ?thesis by simp
qed

section \<open>Little-endian bytes\<close>

lemma length_le_bytes [simp]: "length (le_bytes n v) = n"
  by (induction n arbitrary: v) auto

lemma le_nat_le_bytes: "le_nat (le_bytes n v) = v mod 256 ^ n"
proof (induction n arbitrary: v)
  case 0
  then show ?case by simp
next
  case (Suc n)
  have "v mod 256 + 256 * (v div 256 mod 256 ^ n) = v mod (256 * 256 ^ n)"
    by (simp add: mod_mult2_eq)
  with Suc show ?case by simp
qed

lemma le_nat_less: "le_nat bs < 256 ^ length bs"
proof (induction bs)
  case Nil
  then show ?case by simp
next
  case (Cons b bs)
  then have "le_nat bs + 1 \<le> 256 ^ length bs" by simp
  then have le: "256 * (le_nat bs + 1) \<le> 256 * 256 ^ length bs" by (rule mult_left_mono) simp
  have "unat b + 256 * le_nat bs < 256 * (le_nat bs + 1)"
    using unat_u8_lt [of b] by (simp only: add_mult_distrib2 mult_1_right add.commute add_less_cancel_left)
  from less_le_trans [OF this le] show ?case by (simp only: le_nat.simps list.size power_Suc add_Suc_right add_0_right)
qed

lemma le_bytes_le_nat [simp]: "le_bytes (length bs) (le_nat bs) = bs"
proof (induction bs)
  case Nil
  then show ?case by simp
next
  case (Cons b bs)
  have 1: "(unat b + 256 * le_nat bs) div 256 = le_nat bs"
    using unat_u8_lt [of b] by simp
  have 2: "(of_nat (unat b + 256 * le_nat bs) :: u8) = b"
    by (rule word_eq_unatI) (simp del: of_nat_add of_nat_mult add: mod_less unat_u8_lt)
  show ?case
    using Cons 1 2 by (simp del: of_nat_add of_nat_mult)
qed

section \<open>Loads and stores\<close>

lemma length_load_bytes [simp]: "length (load_bytes h a n) = n"
  by (simp add: load_bytes_def)

lemma nth_load_bytes [simp]: "i < n \<Longrightarrow> load_bytes h a n ! i = h (a + of_nat i)"
  by (simp add: load_bytes_def)

lemma load_bytes_0 [simp]: "load_bytes h a 0 = []"
  by (simp add: load_bytes_def)

lemma load_bytes_Suc: "load_bytes h a (Suc n) = h a # load_bytes h (a + 1) n"
  by (rule nth_equalityI) (auto simp: nth_Cons add.assoc split: nat.splits)

lemma load_bytes_add: "load_bytes h a (m + n) = load_bytes h a m @ load_bytes h (a + of_nat m) n"
  by (rule nth_equalityI) (auto simp: nth_append algebra_simps of_nat_diff)

lemma load_bytes_cong:
  "(\<And>i. i < n \<Longrightarrow> h (a + of_nat i) = h' (a + of_nat i)) \<Longrightarrow> load_bytes h a n = load_bytes h' a n"
  by (simp add: load_bytes_def)

definition in_range :: "u64 \<Rightarrow> nat \<Rightarrow> u64 \<Rightarrow> bool" where
  "in_range a n x \<longleftrightarrow> unat (x - a) < n"

lemma in_range_iff: "n \<le> 2 ^ 64 \<Longrightarrow> in_range a n x \<longleftrightarrow> (\<exists>i < n. x = a + of_nat i)"
proof
  assume "in_range a n x"
  then show "\<exists>i < n. x = a + of_nat i"
    by (intro exI [of _ "unat (x - a)"]) (simp add: in_range_def)
next
  assume "n \<le> 2 ^ 64" "\<exists>i < n. x = a + of_nat i"
  then show "in_range a n x"
    by (auto simp: in_range_def unat_of_nat_u64_small)
qed

lemma store_bytes_other:
  assumes "\<And>i. i < length bs \<Longrightarrow> x \<noteq> a + of_nat i"
  shows "store_bytes h a bs x = h x"
  using assms
proof (induction bs arbitrary: h a)
  case Nil
  then show ?case by simp
next
  case (Cons b bs)
  have "x \<noteq> a" using Cons.prems [of 0] by simp
  moreover have "\<And>i. i < length bs \<Longrightarrow> x \<noteq> (a + 1) + of_nat i"
    using Cons.prems [of "Suc _"] by (simp add: algebra_simps)
  ultimately show ?case by (simp add: Cons.IH)
qed

lemma load_store_bytes [simp]:
  assumes "length bs \<le> 2 ^ 64"
  shows "load_bytes (store_bytes h a bs) a (length bs) = bs"
  using assms
proof (induction bs arbitrary: h a)
  case Nil
  then show ?case by simp
next
  case (Cons b bs)
  have ne: "a \<noteq> a + 1 + of_nat i" if "i < length bs" for i
  proof
    assume "a = a + 1 + of_nat i"
    then have "of_nat (Suc i) = (0 :: u64)" by (simp add: add.assoc)
    moreover have "unat (of_nat (Suc i) :: u64) = Suc i"
      using that Cons.prems by (intro unat_of_nat_u64_small) simp
    ultimately show False by simp
  qed
  have "store_bytes (h(a := b)) (a + 1) bs a = b"
    using store_bytes_other [of bs a "a + 1" "h(a := b)"] ne by simp
  with Cons show ?case by (simp add: load_bytes_Suc)
qed

text \<open>Sequencing of calls that may also not return (\<open>None\<close>).\<close>

definition then_opt ::
  "(bool \<times> 's) option \<Rightarrow> ('s \<Rightarrow> (bool \<times> 's) option) \<Rightarrow> (bool \<times> 's) option" where
  "then_opt r k =
     (case r of None \<Rightarrow> None | Some (ok, s) \<Rightarrow> if ok then k s else Some (False, s))"

lemma then_opt_simps [simp, seq_simps]:
  "then_opt (Some (True, s)) k = k s"
  "then_opt (Some (False, s)) k = Some (False, s)"
  "then_opt None k = None"
  by (simp_all add: then_opt_def)

end
