(* ===== verification/PbStream.thy ===== *)
theory PbStream
  imports Prelude
begin

unbundle bit_operations_syntax

text \<open>
  The byte streams of nanopb (pb_encode.c, pb_decode.c): \<open>pb_ostream_t\<close> and \<open>pb_istream_t\<close> as
  records whose callback is a function on the opaque \<open>state\<close> pointer's referent, the memory
  buffer callbacks \<open>buf_write\<close> and \<open>buf_read\<close>, and the bounded primitives \<open>pb_write\<close>, \<open>pb_read\<close>
  and \<open>pb_readbyte\<close> that every encoder and decoder goes through.

  The contracts that the encoders and decoders rely on are the locales \<open>ostream_sink\<close> (a
  callback that appends what it is given) and \<open>istream_source\<close> (a callback that delivers the
  next bytes); both are interpreted on the memory buffer callbacks. As pb_encode.h and
  pb_decode.h require of user callbacks, a callback works on \<open>state\<close> only: the byte counters and
  the error message belong to the library.
\<close>

section \<open>Output streams\<close>

record 's pb_ostream =
  o_callback :: "('s \<Rightarrow> u8 list \<Rightarrow> bool \<times> 's) option"
  o_state :: 's
  max_size :: u64
  bytes_written :: u64
  o_errmsg :: "string option"

definition o_error :: "string \<Rightarrow> 's pb_ostream \<Rightarrow> bool \<times> 's pb_ostream" where
  "o_error msg s =
     (False, s\<lparr>o_errmsg := Some (case o_errmsg s of None \<Rightarrow> msg | Some m \<Rightarrow> m)\<rparr>)"

text \<open>The memory sink: all of memory and the \<open>dest\<close> pointer kept in \<open>stream->state\<close>.\<close>

type_synonym bufsink = "mem \<times> u64"

definition buf_write :: "bufsink \<Rightarrow> u8 list \<Rightarrow> bool \<times> bufsink" where
  "buf_write st buf =
     (case st of (h, dest) \<Rightarrow> (True, (store_bytes h dest buf, dest + of_nat (length buf))))"

definition pb_ostream_from_buffer :: "mem \<Rightarrow> u64 \<Rightarrow> u64 \<Rightarrow> bufsink pb_ostream" where
  "pb_ostream_from_buffer h buf bufsize =
     \<lparr>o_callback = Some buf_write, o_state = (h, buf), max_size = bufsize,
      bytes_written = 0, o_errmsg = None\<rparr>"

text \<open>
  \<open>PB_OSTREAM_SIZING\<close> has a null callback and a null state; the model takes the null state as an
  argument because the type of states is a parameter.
\<close>

definition PB_OSTREAM_SIZING :: "'s \<Rightarrow> 's pb_ostream" where
  "PB_OSTREAM_SIZING null =
     \<lparr>o_callback = None, o_state = null, max_size = 0, bytes_written = 0, o_errmsg = None\<rparr>"

definition pb_write :: "'s pb_ostream \<Rightarrow> u8 list \<Rightarrow> u64 \<Rightarrow> bool \<times> 's pb_ostream" where
  "pb_write s buf count =
     and_then
       (case o_callback s of
          None \<Rightarrow> (True, s)
        | Some cb \<Rightarrow>
            if count > 0 then
              if bytes_written s + count < bytes_written s \<or>
                 bytes_written s + count > max_size s
              then o_error ''stream full'' s
              else (case cb (o_state s) (take (unat count) buf) of
                      (ok, st) \<Rightarrow>
                        if ok then (True, s\<lparr>o_state := st\<rparr>)
                        else o_error ''io error'' (s\<lparr>o_state := st\<rparr>))
            else (True, s))
       (\<lambda>s. (True, s\<lparr>bytes_written := bytes_written s + count\<rparr>))"

section \<open>Input streams\<close>

record 's pb_istream =
  i_callback :: "'s \<Rightarrow> u64 \<Rightarrow> u8 list option \<times> 's"
  i_is_buf :: bool \<comment> \<open>whether the callback pointer equals \<open>buf_read\<close>\<close>
  i_state :: 's
  bytes_left :: u64
  i_errmsg :: "string option"

definition i_error :: "string \<Rightarrow> 's pb_istream \<Rightarrow> 'a option \<times> 's pb_istream" where
  "i_error msg s =
     (None, s\<lparr>i_errmsg := Some (case i_errmsg s of None \<Rightarrow> msg | Some m \<Rightarrow> m)\<rparr>)"

type_synonym bufsource = "mem \<times> u64"

definition buf_read :: "bufsource \<Rightarrow> u64 \<Rightarrow> u8 list option \<times> bufsource" where
  "buf_read st count =
     (case st of (h, source) \<Rightarrow> (Some (load_bytes h source (unat count)), (h, source + count)))"

definition pb_istream_from_buffer :: "mem \<Rightarrow> u64 \<Rightarrow> u64 \<Rightarrow> bufsource pb_istream" where
  "pb_istream_from_buffer h buf bufsize =
     \<lparr>i_callback = buf_read, i_is_buf = True, i_state = (h, buf), bytes_left = bufsize,
      i_errmsg = None\<rparr>"

text \<open>
  A buffer of \<open>n\<close> bytes after the callback stored \<open>bs\<close> at its start. A callback that returns \<open>true\<close>
  without filling the buffer leaves the other bytes as they were; the model reads them as zeros.
\<close>

definition filled :: "nat \<Rightarrow> u8 list \<Rightarrow> u8 list" where
  "filled n bs = take n (bs @ replicate n 0)"

text \<open>
  One bounded read through the callback: the part of \<open>pb_read\<close> after the skipping loop. The
  callback returns \<open>None\<close> for \<open>false\<close> and otherwise the bytes it stored in the buffer.
\<close>

definition pb_read_cb :: "'s pb_istream \<Rightarrow> u64 \<Rightarrow> u8 list option \<times> 's pb_istream" where
  "pb_read_cb s count =
     (if bytes_left s < count then i_error ''end-of-stream'' s
      else (case i_callback s (i_state s) count of
              (None, st) \<Rightarrow> i_error ''io error'' (s\<lparr>i_state := st\<rparr>)
            | (Some bs, st) \<Rightarrow>
                (Some (filled (unat count) bs),
                   s\<lparr>i_state := st, bytes_left := bytes_left s - count\<rparr>)))"

text \<open>
  The loop that skips input of a stream with a user callback in pieces of at most 16 bytes
  (\<open>tmp[16]\<close>), and the read into a null buffer that uses it.
\<close>

function pb_skip_chunks :: "'s pb_istream \<Rightarrow> u64 \<Rightarrow> u8 list option \<times> 's pb_istream" where
  "pb_skip_chunks s count =
     (if count > 16 then get_then (pb_read_cb s 16) (\<lambda>_ s. pb_skip_chunks s (count - 16))
      else if count = 0 then (Some [], s)
      else get_then (pb_read_cb s count) (\<lambda>_ s. (Some [], s)))"
  by pat_completeness auto
termination
proof (relation "measure (\<lambda>(s, count). unat count)")
  fix s :: "'s pb_istream" and count :: u64 and x :: "u8 list" and t :: "'s pb_istream"
  assume "16 < count"
  then have "count - 16 < count"
    by (simp add: word_less_nat_alt word_le_nat_alt unat_sub)
  then show "((t, count - 16), s, count) \<in> measure (\<lambda>(s, count). unat count)"
    by (simp add: word_less_nat_alt)
qed simp

declare pb_skip_chunks.simps [simp del]

text \<open>
  \<open>pb_read s null count\<close>: the argument \<open>null\<close> says whether \<open>buf\<close> is the null pointer; the bytes
  stored through a non-null \<open>buf\<close> are the result.
\<close>

definition pb_read :: "'s pb_istream \<Rightarrow> bool \<Rightarrow> u64 \<Rightarrow> u8 list option \<times> 's pb_istream" where
  "pb_read s null count =
     (if count = 0 then (Some [], s)
      else if null \<and> \<not> i_is_buf s then pb_skip_chunks s count
      else get_then (pb_read_cb s count) (\<lambda>bs s. (Some (if null then [] else bs), s)))"

definition pb_readbyte :: "'s pb_istream \<Rightarrow> u8 option \<times> 's pb_istream" where
  "pb_readbyte s =
     (if bytes_left s = 0 then i_error ''end-of-stream'' s
      else (case i_callback s (i_state s) 1 of
              (None, st) \<Rightarrow> i_error ''io error'' (s\<lparr>i_state := st\<rparr>)
            | (Some bs, st) \<Rightarrow>
                (Some (hd (filled 1 bs)), s\<lparr>i_state := st, bytes_left := bytes_left s - 1\<rparr>)))"

section \<open>The contract of an output sink\<close>

text \<open>
  \<open>ready cb room s n\<close>: the stream \<open>s\<close> has no error recorded and accepts \<open>n\<close> more bytes. A sizing stream always does; a
  stream with a callback needs the callback to be \<open>cb\<close>, space below \<open>max_size\<close> and room in the
  sink. \<open>emits out s bs t\<close>: \<open>t\<close> is \<open>s\<close> after \<open>bs\<close> has been written. \<open>writes cb out room f bs\<close>: the
  encoder \<open>f\<close> succeeds on every stream with space for \<open>bs\<close> and its effect is exactly \<open>bs\<close>.
\<close>

definition ready ::
  "('s \<Rightarrow> u8 list \<Rightarrow> bool \<times> 's) \<Rightarrow> ('s \<Rightarrow> nat) \<Rightarrow> 's pb_ostream \<Rightarrow> nat \<Rightarrow> bool" where
  "ready cb room s n \<longleftrightarrow>
     n < 2 ^ 64 \<and> o_errmsg s = None \<and>
     (o_callback s = None \<or>
      o_callback s = Some cb \<and> unat (bytes_written s) + n \<le> unat (max_size s) \<and>
      n \<le> room (o_state s))"

definition emits :: "('s \<Rightarrow> u8 list) \<Rightarrow> 's pb_ostream \<Rightarrow> u8 list \<Rightarrow> 's pb_ostream \<Rightarrow> bool" where
  "emits out s bs t \<longleftrightarrow>
     o_callback t = o_callback s \<and> max_size t = max_size s \<and> o_errmsg t = o_errmsg s \<and>
     bytes_written t = bytes_written s + of_nat (length bs) \<and>
     (o_callback s = None \<longrightarrow> o_state t = o_state s) \<and>
     (o_callback s \<noteq> None \<longrightarrow> out (o_state t) = out (o_state s) @ bs)"

definition writes ::
  "('s \<Rightarrow> u8 list \<Rightarrow> bool \<times> 's) \<Rightarrow> ('s \<Rightarrow> u8 list) \<Rightarrow> ('s \<Rightarrow> nat) \<Rightarrow>
   ('s pb_ostream \<Rightarrow> bool \<times> 's pb_ostream) \<Rightarrow> u8 list \<Rightarrow> bool" where
  "writes cb out room f bs \<longleftrightarrow>
     (\<forall>s. ready cb room s (length bs) \<longrightarrow>
        (\<exists>t. f s = (True, t) \<and> emits out s bs t \<and>
             (o_callback s \<noteq> None \<longrightarrow> room (o_state t) = room (o_state s) - length bs)))"

lemma writesD:
  assumes "writes cb out room f bs" and "ready cb room s (length bs)"
  obtains t where "f s = (True, t)" and "emits out s bs t"
    and "o_callback s \<noteq> None \<longrightarrow> room (o_state t) = room (o_state s) - length bs"
  using assms unfolding writes_def by blast

lemma writesI:
  assumes "\<And>s. ready cb room s (length bs) \<Longrightarrow>
     \<exists>t. f s = (True, t) \<and> emits out s bs t \<and>
         (o_callback s \<noteq> None \<longrightarrow> room (o_state t) = room (o_state s) - length bs)"
  shows "writes cb out room f bs"
  using assms unfolding writes_def by blast

lemma ready_mono: "ready cb room s n \<Longrightarrow> m \<le> n \<Longrightarrow> ready cb room s m"
  by (auto simp: ready_def)

lemma emits_trans: "emits out s xs t \<Longrightarrow> emits out t ys u \<Longrightarrow> emits out s (xs @ ys) u"
  by (auto simp: emits_def)

lemma ready_after:
  assumes "ready cb room s (length bs + n)" and "emits out s bs t"
    and "o_callback s \<noteq> None \<longrightarrow> room (o_state t) = room (o_state s) - length bs"
  shows "ready cb room t n"
proof (cases "o_callback s")
  case None
  with assms show ?thesis by (auto simp: ready_def emits_def)
next
  case (Some c)
  with assms(1) have cap: "unat (bytes_written s) + (length bs + n) \<le> unat (max_size s)" by (auto simp: ready_def)
  have "unat (bytes_written s + of_nat (length bs)) = unat (bytes_written s) + length bs"
    using cap unat_u64_lt [of "max_size s"] by (intro unat_add_of_nat_u64) simp
  with assms Some cap show ?thesis by (auto simp: ready_def emits_def)
qed

lemma writes_seq:
  assumes f: "writes cb out room f xs" and g: "writes cb out room g ys"
  shows "writes cb out room (\<lambda>s. and_then (f s) g) (xs @ ys)"
proof (rule writesI)
  fix s assume r: "ready cb room s (length (xs @ ys))"
  then have rx: "ready cb room s (length xs + length ys)" by simp
  then have "ready cb room s (length xs)" by (rule ready_mono) simp
  with f obtain t where t: "f s = (True, t)" "emits out s xs t"
    "o_callback s \<noteq> None \<longrightarrow> room (o_state t) = room (o_state s) - length xs"
    by (rule writesD)
  from rx t(2,3) have "ready cb room t (length ys)" by (rule ready_after)
  with g obtain u where u: "g t = (True, u)" "emits out t ys u"
    "o_callback t \<noteq> None \<longrightarrow> room (o_state u) = room (o_state t) - length ys"
    by (rule writesD)
  have "o_callback t = o_callback s" using t(2) by (simp add: emits_def)
  with t u show "\<exists>u. and_then (f s) g = (True, u) \<and> emits out s (xs @ ys) u \<and>
      (o_callback s \<noteq> None \<longrightarrow> room (o_state u) = room (o_state s) - length (xs @ ys))"
    by (auto intro: emits_trans)
qed

lemma writes_nothing: "writes cb out room (\<lambda>s. (True, s)) []"
  by (rule writesI) (simp add: emits_def)

lemma writes_cong:
  "writes cb out room f bs \<Longrightarrow> (\<And>s. ready cb room s (length bs) \<Longrightarrow> g s = f s) \<Longrightarrow>
   writes cb out room g bs"
  by (simp add: writes_def)

lemma writes_sizing:
  assumes "writes cb out room f bs" and "length bs < 2 ^ 64"
  shows "\<exists>t. f (PB_OSTREAM_SIZING null) = (True, t) \<and> bytes_written t = of_nat (length bs) \<and>
             o_callback t = None \<and> o_errmsg t = None"
proof -
  have "ready cb room (PB_OSTREAM_SIZING null) (length bs)"
    using assms(2) by (simp add: ready_def PB_OSTREAM_SIZING_def)
  with assms(1) show ?thesis
    by (rule writesD) (auto simp: emits_def PB_OSTREAM_SIZING_def)
qed

locale ostream_sink =
  fixes cb :: "'s \<Rightarrow> u8 list \<Rightarrow> bool \<times> 's"
    and out :: "'s \<Rightarrow> u8 list"
    and room :: "'s \<Rightarrow> nat"
  assumes cb_appends:
    "length bs \<le> room st \<Longrightarrow>
     \<exists>st'. cb st bs = (True, st') \<and> out st' = out st @ bs \<and> room st' = room st - length bs"
begin

lemma pb_write_writes: "writes cb out room (\<lambda>s. pb_write s bs (of_nat (length bs))) bs"
proof (rule writesI)
  fix s assume r: "ready cb room s (length bs)"
  let ?n = "of_nat (length bs) :: u64"
  have un: "unat ?n = length bs" using r by (intro unat_of_nat_u64_small) (simp add: ready_def)
  show "\<exists>t. pb_write s bs ?n = (True, t) \<and> emits out s bs t \<and>
      (o_callback s \<noteq> None \<longrightarrow> room (o_state t) = room (o_state s) - length bs)"
  proof (cases "o_callback s = None \<or> bs = []")
    case True
    then show ?thesis by (auto simp: pb_write_def emits_def split: option.splits)
  next
    case False
    with r have c: "o_callback s = Some cb"
      and cap: "unat (bytes_written s) + length bs \<le> unat (max_size s)"
      and rm: "length bs \<le> room (o_state s)" by (auto simp: ready_def)
    have sum: "unat (bytes_written s + ?n) = unat (bytes_written s) + length bs"
      using cap unat_u64_lt [of "max_size s"] by (intro unat_add_of_nat_u64) simp
    have pos: "0 < ?n" using False un by (simp add: word_less_nat_alt)
    have fits: "\<not> bytes_written s + ?n < bytes_written s" "\<not> bytes_written s + ?n > max_size s"
      using sum cap by (simp_all add: word_less_nat_alt)
    from cb_appends [OF rm] obtain st' where
      "cb (o_state s) bs = (True, st')" "out st' = out (o_state s) @ bs"
      "room st' = room (o_state s) - length bs" by blast
    with c pos fits un show ?thesis by (simp add: pb_write_def emits_def)
  qed
qed

lemma pb_write_full:
  assumes "o_callback s = Some cb" and "count > 0"
    and "unat (bytes_written s) + unat count > unat (max_size s)"
  shows "pb_write s bs count = o_error ''stream full'' s"
proof -
  have "bytes_written s + count < bytes_written s \<or> bytes_written s + count > max_size s"
  proof (cases "unat (bytes_written s) + unat count < 2 ^ 64")
    case True
    then have "unat (bytes_written s + count) = unat (bytes_written s) + unat count"
      by (simp add: unat_word_ariths)
    with assms(3) show ?thesis by (simp add: word_less_nat_alt)
  next
    case False
    then show ?thesis by (intro disjI1 u64_add_wraps) simp
  qed
  with assms(1,2) show ?thesis
    by (simp add: pb_write_def o_error_def)
qed

end

text \<open>The memory buffer is such a sink: its output is the memory from \<open>base\<close> to \<open>dest\<close>.\<close>

definition buf_out :: "u64 \<Rightarrow> bufsink \<Rightarrow> u8 list" where
  "buf_out base st = load_bytes (fst st) base (unat (snd st - base))"

definition buf_room :: "u64 \<Rightarrow> u64 \<Rightarrow> bufsink \<Rightarrow> nat" where
  "buf_room base cap st = unat cap - unat (snd st - base)"

lemma buf_write_appends:
  assumes "length bs \<le> buf_room base cap st"
  shows "\<exists>st'. buf_write st bs = (True, st') \<and> buf_out base st' = buf_out base st @ bs \<and>
               buf_room base cap st' = buf_room base cap st - length bs"
proof -
  obtain h d where st: "st = (h, d)" by (cases st)
  let ?k = "unat (d - base)"
  have "length bs \<le> unat cap - ?k" using assms st by (simp add: buf_room_def)
  then have le: "length bs = 0 \<or> ?k + length bs \<le> unat cap" by linarith
  have lt: "?k + length bs < 2 ^ 64"
    using le unat_u64_lt [of cap] unat_u64_lt [of "d - base"] by auto
  have "d + of_nat (length bs) - base = (d - base) + of_nat (length bs)" by simp
  then have k': "unat (d + of_nat (length bs) - base) = ?k + length bs"
    using lt by (simp only: unat_add_of_nat_u64)
  have pre: "load_bytes (store_bytes h d bs) base ?k = load_bytes h base ?k"
  proof (rule load_bytes_cong)
    fix i assume i: "i < ?k"
    show "store_bytes h d bs (base + of_nat i) = h (base + of_nat i)"
    proof (rule store_bytes_other)
      fix j assume j: "j < length bs"
      have "unat (of_nat (?k + j) :: u64) = ?k + j" "unat (of_nat i :: u64) = i"
        using lt i j by (auto intro!: unat_of_nat_u64_small simp del: of_nat_add)
      then have ne: "of_nat i \<noteq> (of_nat (?k + j) :: u64)" using i by fastforce
      show "base + of_nat i \<noteq> d + of_nat j"
      proof
        assume "base + of_nat i = d + of_nat j"
        then have "of_nat i = (d - base) + of_nat j" by (simp add: algebra_simps)
        also have "\<dots> = of_nat (?k + j)" by simp
        finally show False using ne by blast
      qed
    qed
  qed
  have "load_bytes (store_bytes h d bs) base (?k + length bs) = load_bytes h base ?k @ bs"
    using lt pre by (simp add: load_bytes_add)
  with st k' show ?thesis
    by (auto simp: buf_write_def buf_out_def buf_room_def)
qed

interpretation bufo: ostream_sink buf_write "buf_out base" "buf_room base cap" for base cap
  by unfold_locales (rule buf_write_appends)

section \<open>The contract of an input source\<close>

text \<open>
  \<open>avail rest s\<close> is what the stream \<open>s\<close> may still read: the first \<open>bytes_left\<close> bytes of its source.
  \<open>reads rd rest f xs v\<close>: on every stream whose input starts with \<open>xs\<close>, the decoder \<open>f\<close> succeeds
  with the value \<open>v\<close> and consumes exactly \<open>xs\<close>.
\<close>

definition avail :: "('s \<Rightarrow> u8 list) \<Rightarrow> 's pb_istream \<Rightarrow> u8 list" where
  "avail rest s = take (unat (bytes_left s)) (rest (i_state s))"

definition fed ::
  "('s \<Rightarrow> u64 \<Rightarrow> u8 list option \<times> 's) \<Rightarrow> ('s \<Rightarrow> u8 list) \<Rightarrow> 's pb_istream \<Rightarrow> bool" where
  "fed rd rest s \<longleftrightarrow> i_callback s = rd \<and> unat (bytes_left s) \<le> length (rest (i_state s))"

definition advanced :: "('s \<Rightarrow> u8 list) \<Rightarrow> 's pb_istream \<Rightarrow> nat \<Rightarrow> 's pb_istream \<Rightarrow> bool" where
  "advanced rest s n t \<longleftrightarrow>
     i_callback t = i_callback s \<and> i_is_buf t = i_is_buf s \<and> i_errmsg t = i_errmsg s \<and>
     bytes_left t = bytes_left s - of_nat n \<and> rest (i_state t) = drop n (rest (i_state s))"

definition reads ::
  "('s \<Rightarrow> u64 \<Rightarrow> u8 list option \<times> 's) \<Rightarrow> ('s \<Rightarrow> u8 list) \<Rightarrow>
   ('s pb_istream \<Rightarrow> 'a option \<times> 's pb_istream) \<Rightarrow> u8 list \<Rightarrow> 'a \<Rightarrow> bool" where
  "reads rd rest f xs v \<longleftrightarrow>
     (\<forall>s ys. fed rd rest s \<and> avail rest s = xs @ ys \<longrightarrow>
        (\<exists>t. f s = (Some v, t) \<and> advanced rest s (length xs) t))"

lemma filled_full [simp]: "length bs = n \<Longrightarrow> filled n bs = bs"
  by (simp add: filled_def)

lemma length_filled [simp]: "length (filled n bs) = n"
  by (simp add: filled_def)

lemma readsD:
  assumes "reads rd rest f xs v" and "fed rd rest s" and "avail rest s = xs @ ys"
  obtains t where "f s = (Some v, t)" and "advanced rest s (length xs) t"
  using assms unfolding reads_def by blast

lemma readsI:
  assumes "\<And>s ys. fed rd rest s \<Longrightarrow> avail rest s = xs @ ys \<Longrightarrow>
     \<exists>t. f s = (Some v, t) \<and> advanced rest s (length xs) t"
  shows "reads rd rest f xs v"
  using assms unfolding reads_def by blast

lemma length_avail: "fed rd rest s \<Longrightarrow> length (avail rest s) = unat (bytes_left s)"
  by (simp add: fed_def avail_def)

lemma advanced_fed:
  assumes "fed rd rest s" and "avail rest s = xs @ ys" and "advanced rest s (length xs) t"
  shows "fed rd rest t" and "avail rest t = ys"
proof -
  have len: "unat (bytes_left s) = length xs + length ys"
    using length_avail [OF assms(1)] assms(2) by simp
  have "length xs < 2 ^ 64" using len unat_u64_lt [of "bytes_left s"] by simp
  then have "unat (of_nat (length xs) :: u64) = length xs" by (rule unat_of_nat_u64_small)
  then have left: "unat (bytes_left t) = length ys"
    using assms(3) len by (simp add: advanced_def unat_sub_u64)
  have "length xs + length ys \<le> length (rest (i_state s))"
    using assms(1) len by (simp add: fed_def)
  then have "length ys \<le> length (rest (i_state s)) - length xs" by linarith
  then show "fed rd rest t"
    using assms(1,3) left by (simp add: fed_def advanced_def)
  have "avail rest t = drop (length xs) (avail rest s)"
    using left len assms(3) by (simp add: avail_def advanced_def take_drop add.commute)
  then show "avail rest t = ys" using assms(2) by simp
qed

lemma advanced_trans:
  "advanced rest s m t \<Longrightarrow> advanced rest t n u \<Longrightarrow> advanced rest s (m + n) u"
  by (simp add: advanced_def algebra_simps)

lemma advanced_0 [simp]: "advanced rest s 0 s"
  by (simp add: advanced_def)

lemma reads_seq:
  assumes f: "reads rd rest f xs v" and g: "reads rd rest (g v) ys w"
  shows "reads rd rest (\<lambda>s. get_then (f s) g) (xs @ ys) w"
proof (rule readsI)
  fix s zs assume s: "fed rd rest s" "avail rest s = (xs @ ys) @ zs"
  then have a: "avail rest s = xs @ (ys @ zs)" by simp
  with f s(1) obtain t where t: "f s = (Some v, t)" "advanced rest s (length xs) t"
    by (rule readsD)
  from advanced_fed [OF s(1) a t(2)] g obtain u where
    u: "g v t = (Some w, u)" "advanced rest t (length ys) u"
    by (auto elim: readsD)
  show "\<exists>t. get_then (f s) g = (Some w, t) \<and> advanced rest s (length (xs @ ys)) t"
    using t u advanced_trans by auto
qed

lemma reads_return: "reads rd rest (\<lambda>s. (Some v, s)) [] v"
  by (rule readsI) simp

lemma reads_map:
  assumes "reads rd rest f xs v"
  shows "reads rd rest (\<lambda>s. get_then (f s) (\<lambda>x s. (Some (h x), s))) xs (h v)"
proof -
  have "reads rd rest (\<lambda>s. get_then (f s) (\<lambda>x s. (Some (h x), s))) (xs @ []) (h v)"
    by (rule reads_seq [OF assms reads_return])
  then show ?thesis by simp
qed

lemma reads_map_eq:
  "reads rd rest f xs v \<Longrightarrow> h v = w \<Longrightarrow>
   reads rd rest (\<lambda>s. get_then (f s) (\<lambda>x s. (Some (h x), s))) xs w"
  by (drule reads_map [where h = h]) simp

locale istream_source =
  fixes rd :: "'s \<Rightarrow> u64 \<Rightarrow> u8 list option \<times> 's"
    and rest :: "'s \<Rightarrow> u8 list"
  assumes rd_delivers:
    "unat n \<le> length (rest st) \<Longrightarrow>
     \<exists>st'. rd st n = (Some (take (unat n) (rest st)), st') \<and> rest st' = drop (unat n) (rest st)"
begin

lemma pb_read_cb_exact:
  assumes "fed rd rest s" and "unat n \<le> unat (bytes_left s)"
  shows "\<exists>t. pb_read_cb s n = (Some (take (unat n) (avail rest s)), t) \<and> advanced rest s (unat n) t"
proof -
  have "unat n \<le> length (rest (i_state s))" using assms by (simp add: fed_def)
  from rd_delivers [OF this] obtain st' where
    "rd (i_state s) n = (Some (take (unat n) (rest (i_state s))), st')"
    "rest st' = drop (unat n) (rest (i_state s))" by blast
  with assms show ?thesis
    by (auto simp: pb_read_cb_def fed_def avail_def advanced_def word_less_nat_alt min_def)
qed

lemma pb_read_cb_reads:
  assumes "length xs < 2 ^ 64"
  shows "reads rd rest (\<lambda>s. pb_read_cb s (of_nat (length xs))) xs xs"
proof (rule readsI)
  fix s ys assume s: "fed rd rest s" "avail rest s = xs @ ys"
  have n: "unat (of_nat (length xs) :: u64) = length xs"
    using assms by (rule unat_of_nat_u64_small)
  moreover have "length xs \<le> unat (bytes_left s)" using length_avail [OF s(1)] s(2) by simp
  ultimately show "\<exists>t. pb_read_cb s (of_nat (length xs)) = (Some xs, t) \<and>
      advanced rest s (length xs) t"
    using pb_read_cb_exact [OF s(1), of "of_nat (length xs)"] s(2) by simp
qed

lemma pb_read_reads:
  assumes "length xs < 2 ^ 64"
  shows "reads rd rest (\<lambda>s. pb_read s False (of_nat (length xs))) xs xs"
proof (cases "xs = []")
  case True
  then show ?thesis by (auto intro: readsI simp: pb_read_def)
next
  case False
  have "unat (of_nat (length xs) :: u64) \<noteq> unat (0 :: u64)"
    using False unat_of_nat_u64_small [OF assms] by simp
  then have "(of_nat (length xs) :: u64) \<noteq> 0" by metis
  then show ?thesis
    using reads_map [OF pb_read_cb_reads [OF assms], of "\<lambda>x. x"] by (simp add: pb_read_def)
qed

lemma pb_skip_chunks_reads:
  "unat count = length xs \<Longrightarrow> reads rd rest (\<lambda>s. pb_skip_chunks s count) xs []"
proof (induction "length xs" arbitrary: xs count rule: less_induct)
  case less
  have xs: "length xs < 2 ^ 64" using less.prems unat_u64_lt [of count] by simp
  show ?case
  proof (cases "count > 16")
    case True
    let ?a = "take 16 xs" and ?b = "drop 16 xs"
    from True have 16: "16 < length xs" using less.prems by (simp add: word_less_nat_alt)
    have "unat (count - 16) = length ?b" using 16 less.prems by (simp add: unat_sub_u64)
    with 16 have b: "reads rd rest (\<lambda>s. pb_skip_chunks s (count - 16)) ?b []"
      by (intro less.hyps) auto
    have "reads rd rest (\<lambda>s. pb_read_cb s (of_nat (length ?a))) ?a ?a"
      by (rule pb_read_cb_reads) simp
    then have "reads rd rest (\<lambda>s. pb_read_cb s 16) ?a ?a" using 16 by simp
    from reads_seq [OF this b] True show ?thesis
      by (simp add: pb_skip_chunks.simps [of _ count])
  next
    case False
    have c: "count = of_nat (length xs)" by (simp flip: less.prems)
    show ?thesis
    proof (cases "xs = []")
      case True
      then have "count = 0" using less.prems by (simp add: unat_eq_0)
      with True show ?thesis
        by (auto intro: readsI simp: pb_skip_chunks.simps [of _ 0])
    next
      case ne: False
      then have "count \<noteq> 0" using less.prems by auto
      moreover have "reads rd rest (\<lambda>s. get_then (pb_read_cb s count) (\<lambda>_ s. (Some [], s))) xs []"
        unfolding c by (rule reads_map [OF pb_read_cb_reads [OF xs]])
      ultimately show ?thesis
        using False by (simp add: pb_skip_chunks.simps [of _ count])
    qed
  qed
qed

lemma pb_read_null_reads:
  assumes "unat count = length xs"
  shows "reads rd rest (\<lambda>s. pb_read s True count) xs []"
proof (rule readsI)
  fix s ys assume s: "fed rd rest s" "avail rest s = xs @ ys"
  have xs: "length xs < 2 ^ 64" using assms unat_u64_lt [of count] by simp
  have "reads rd rest (\<lambda>s. pb_read_cb s (of_nat (length xs))) xs xs"
    using xs by (rule pb_read_cb_reads)
  moreover have "of_nat (length xs) = count" by (simp flip: assms)
  ultimately have r: "reads rd rest (\<lambda>s. pb_read_cb s count) xs xs" by (simp only:)
  consider "count = 0" | "count \<noteq> 0" "i_is_buf s" | "count \<noteq> 0" "\<not> i_is_buf s" by blast
  then show "\<exists>t. pb_read s True count = (Some [], t) \<and> advanced rest s (length xs) t"
  proof cases
    case 1
    then show ?thesis using assms by (simp add: pb_read_def)
  next
    case 2
    from r s obtain t where "pb_read_cb s count = (Some xs, t)" "advanced rest s (length xs) t"
      by (rule readsD)
    with 2 show ?thesis by (simp add: pb_read_def)
  next
    case 3
    from pb_skip_chunks_reads [OF assms] s obtain t where
      "pb_skip_chunks s count = (Some [], t)" "advanced rest s (length xs) t" by (rule readsD)
    with 3 show ?thesis by (simp add: pb_read_def)
  qed
qed

lemma pb_readbyte_reads: "reads rd rest pb_readbyte [b] b"
proof (rule readsI)
  fix s ys assume s: "fed rd rest s" "avail rest s = [b] @ ys"
  have left: "1 \<le> unat (bytes_left s)" using length_avail [OF s(1)] s(2) by simp
  then have "unat (1 :: u64) \<le> length (rest (i_state s))" using s(1) by (simp add: fed_def)
  from rd_delivers [OF this] obtain st' where
    "rd (i_state s) 1 = (Some (take 1 (rest (i_state s))), st')"
    "rest st' = drop 1 (rest (i_state s))" by auto
  moreover have "take 1 (rest (i_state s)) = [b]"
  proof -
    have "take 1 (rest (i_state s)) = take 1 (avail rest s)"
      using left by (simp add: avail_def min_def)
    with s(2) show ?thesis by simp
  qed
  moreover have "bytes_left s \<noteq> 0" using left by auto
  ultimately show "\<exists>t. pb_readbyte s = (Some b, t) \<and> advanced rest s (length [b]) t"
    using s(1) by (simp add: pb_readbyte_def fed_def advanced_def)
qed

end

text \<open>Reading past the end fails with a message and leaves the counter alone.\<close>

lemma pb_readbyte_eof: "bytes_left s = 0 \<Longrightarrow> pb_readbyte s = i_error ''end-of-stream'' s"
  by (simp add: pb_readbyte_def)

text \<open>The memory buffer up to the address \<open>lim\<close> is a source.\<close>

definition buf_rest :: "u64 \<Rightarrow> bufsource \<Rightarrow> u8 list" where
  "buf_rest lim st = load_bytes (fst st) (snd st) (unat (lim - snd st))"

lemma buf_read_delivers:
  assumes "unat n \<le> length (buf_rest lim st)"
  shows "\<exists>st'. buf_read st n = (Some (take (unat n) (buf_rest lim st)), st') \<and>
               buf_rest lim st' = drop (unat n) (buf_rest lim st)"
proof -
  obtain h a where st: "st = (h, a)" by (cases st)
  let ?k = "unat (lim - a)"
  have n: "unat n \<le> ?k" using assms st by (simp add: buf_rest_def)
  have "lim - (a + n) = (lim - a) - n" by simp
  then have k: "unat (lim - (a + n)) = ?k - unat n" using n by (simp only: unat_sub_u64)
  have "load_bytes h a ?k = load_bytes h a (unat n) @ load_bytes h (a + n) (?k - unat n)"
    using n load_bytes_add [of h a "unat n" "?k - unat n"] by simp
  with st k n show ?thesis by (simp add: buf_read_def buf_rest_def)
qed

interpretation bufi: istream_source buf_read "buf_rest lim" for lim
  by unfold_locales (rule buf_read_delivers)

section \<open>From the contracts to buffers\<close>

lemma ready_from_buffer:
  "n \<le> unat cap \<Longrightarrow> ready buf_write (buf_room b cap) (pb_ostream_from_buffer h b cap) n"
  using unat_u64_lt [of cap] by (simp add: ready_def pb_ostream_from_buffer_def buf_room_def)

lemma writes_buffer:
  assumes "writes buf_write (buf_out b) (buf_room b cap) f bs" and "length bs \<le> unat cap"
  shows "\<exists>t. f (pb_ostream_from_buffer h b cap) = (True, t) \<and> bytes_written t = of_nat (length bs) \<and>
             load_bytes (fst (o_state t)) b (length bs) = bs"
proof -
  from assms(1) ready_from_buffer [OF assms(2), of b h] obtain t where
    t: "f (pb_ostream_from_buffer h b cap) = (True, t)"
    "emits (buf_out b) (pb_ostream_from_buffer h b cap) bs t" by (rule writesD)
  then have "buf_out b (o_state t) = bs" and w: "bytes_written t = of_nat (length bs)"
    by (simp_all add: emits_def pb_ostream_from_buffer_def buf_out_def)
  then have "load_bytes (fst (o_state t)) b (length bs) = bs"
    by (metis buf_out_def length_load_bytes)
  with t w show ?thesis by blast
qed

lemma fed_from_buffer:
  "fed buf_read (buf_rest (b + n)) (pb_istream_from_buffer h b n)"
  "avail (buf_rest (b + n)) (pb_istream_from_buffer h b n) = load_bytes h b (unat n)"
  by (simp_all add: fed_def avail_def buf_rest_def pb_istream_from_buffer_def)

lemma buffer_roundtrip:
  assumes w: "writes buf_write (buf_out b) (buf_room b cap) f bs"
    and r: "\<And>lim. reads buf_read (buf_rest lim) g bs v"
    and fits: "length bs \<le> unat cap"
  shows "\<exists>t u. f (pb_ostream_from_buffer h b cap) = (True, t) \<and>
           g (pb_istream_from_buffer (fst (o_state t)) b (bytes_written t)) = (Some v, u) \<and>
           bytes_left u = 0"
proof -
  from writes_buffer [OF w fits, of h] obtain t where t: "f (pb_ostream_from_buffer h b cap) = (True, t)"
    "bytes_written t = of_nat (length bs)" "load_bytes (fst (o_state t)) b (length bs) = bs" by blast
  let ?i = "pb_istream_from_buffer (fst (o_state t)) b (bytes_written t)"
  have "length bs < 2 ^ 64" using fits unat_u64_lt [of cap] by simp
  then have n: "unat (bytes_written t) = length bs" using t(2) by (simp add: unat_of_nat_u64_small)
  have "avail (buf_rest (b + bytes_written t)) ?i = bs @ []"
    using t(3) n by (simp add: fed_from_buffer)
  with r fed_from_buffer(1) obtain u where
    "g ?i = (Some v, u)" "advanced (buf_rest (b + bytes_written t)) ?i (length bs) u" by (rule readsD)
  moreover from this have "bytes_left u = 0"
    using t(2) by (simp add: advanced_def pb_istream_from_buffer_def)
  ultimately show ?thesis using t(1) by blast
qed

section \<open>Memory safety of the buffer stream\<close>

text \<open>
  \<open>buf_safe h0 base cap s\<close>: what the stream may still write lies inside the \<open>cap\<close> bytes at
  \<open>base\<close>, and memory outside them is as in \<open>h0\<close>. Substreams satisfy it too, since only the
  distance from \<open>dest\<close> to the end of the region matters.
\<close>

definition buf_safe :: "mem \<Rightarrow> u64 \<Rightarrow> nat \<Rightarrow> bufsink pb_ostream \<Rightarrow> bool" where
  "buf_safe h0 base cap s \<longleftrightarrow>
     o_callback s = Some buf_write \<and> unat (bytes_written s) \<le> unat (max_size s) \<and>
     unat (snd (o_state s) - base) + (unat (max_size s) - unat (bytes_written s)) \<le> cap \<and>
     cap < 2 ^ 64 \<and>
     (\<forall>x. \<not> in_range base cap x \<longrightarrow> fst (o_state s) x = h0 x)"

lemma buf_safe_from_buffer:
  "buf_safe h base (unat n) (pb_ostream_from_buffer h base n)"
  using unat_u64_lt [of n] by (simp add: buf_safe_def pb_ostream_from_buffer_def)

lemma buf_safe_o_error [simp]: "buf_safe h0 base cap (snd (o_error msg s)) = buf_safe h0 base cap s"
  by (simp add: buf_safe_def o_error_def)

lemma pb_write_safe:
  assumes s: "buf_safe h0 base cap s" and len: "unat count \<le> length buf"
  shows "buf_safe h0 base cap (snd (pb_write s buf count))"
proof -
  obtain h d where st: "o_state s = (h, d)" by (cases "o_state s")
  let ?k = "unat (d - base)" and ?bs = "take (unat count) buf"
  from s st have cb: "o_callback s = Some buf_write"
    and le: "unat (bytes_written s) \<le> unat (max_size s)"
    and cap: "?k + (unat (max_size s) - unat (bytes_written s)) \<le> cap" "cap < 2 ^ 64"
    and frame: "\<And>x. \<not> in_range base cap x \<Longrightarrow> h x = h0 x" by (auto simp: buf_safe_def)
  show ?thesis
  proof (cases "count = 0")
    case True
    then have "snd (pb_write s buf count) = s" using cb by (simp add: pb_write_def)
    with s show ?thesis by simp
  next
    case nz: False
    then have pos: "0 < count" by (simp add: word_gt_0)
    show ?thesis
    proof (cases "bytes_written s + count < bytes_written s \<or> bytes_written s + count > max_size s")
      case True
      with cb pos have "pb_write s buf count = o_error ''stream full'' s"
        by (simp add: pb_write_def o_error_def)
      with s show ?thesis by simp
    next
      case False
      then have nowrap: "unat (bytes_written s) + unat count < 2 ^ 64"
        using u64_add_wraps [of "bytes_written s" count] by linarith
      have sum: "unat (bytes_written s + count) = unat (bytes_written s) + unat count"
        using nowrap by (rule unat_add_u64)
      with False have fit: "unat (bytes_written s) + unat count \<le> unat (max_size s)"
        by (simp add: word_less_nat_alt)
      have bs: "length ?bs = unat count" using len by simp
      have kc: "?k + unat count \<le> cap" using fit cap(1) by linarith
      have "d + count - base = (d - base) + count" by simp
      then have k': "unat (d + count - base) = ?k + unat count"
        using kc cap(2) by (simp only: unat_add_u64)
      have frame': "store_bytes h d ?bs x = h0 x" if out: "\<not> in_range base cap x" for x
      proof -
        have "x \<noteq> d + of_nat i" if i: "i < length ?bs" for i
        proof
          assume "x = d + of_nat i"
          then have "x - base = (d - base) + of_nat i" by simp
          moreover have "?k + i < 2 ^ 64" using kc cap(2) i bs by linarith
          ultimately have "unat (x - base) = ?k + i" by (simp only: unat_add_of_nat_u64)
          with out kc i bs show False by (simp add: in_range_def)
        qed
        then show ?thesis using store_bytes_other frame [OF out] by metis
      qed
      have "pb_write s buf count = (True, s\<lparr>o_state := (store_bytes h d ?bs, d + count),
          bytes_written := bytes_written s + count\<rparr>)"
        using cb pos False st bs by (simp add: pb_write_def buf_write_def)
      then show ?thesis
        using cb sum fit cap k' frame' by (simp add: buf_safe_def)
    qed
  qed
qed

text \<open>
  C23. No sequence of writes to a buffer stream, of any lengths and whether they succeed or fail,
  changes memory outside the buffer the stream was made for.
\<close>

theorem pb_write_in_bounds:
  assumes "\<not> in_range base (unat cap) x"
  shows "fst (o_state (fold (\<lambda>b s. snd (pb_write s b (of_nat (length b)))) bufs
           (pb_ostream_from_buffer h base cap))) x = h x"
proof -
  have "unat (of_nat (length b) :: u64) \<le> length b" for b :: "u8 list"
    by (simp add: unat_of_nat_mod)
  then have "buf_safe h base (unat cap) s \<Longrightarrow>
      buf_safe h base (unat cap) (fold (\<lambda>b s. snd (pb_write s b (of_nat (length b)))) bufs s)" for s
    by (induction bufs arbitrary: s) (simp_all add: pb_write_safe)
  from this [OF buf_safe_from_buffer] assms show ?thesis by (simp add: buf_safe_def)
qed

theorem pb_write_in_bounds_witness:
  "fst (o_state (fold (\<lambda>b s. snd (pb_write s b (of_nat (length b)))) [[1, 2, 3], [4, 5]]
     (pb_ostream_from_buffer (\<lambda>_. 9) 0x100 4))) 0x104 = 9"
  using pb_write_in_bounds [of "0x100" 4 "0x104" "[[1, 2, 3], [4, 5]]" "\<lambda>_. 9"]
  by (simp add: in_range_def del: fold_simps)

end
