(* ===== verification/PbWire.thy ===== *)
theory PbWire
  imports PbStream
begin

unbundle bit_operations_syntax

text \<open>
  The wire format primitives of nanopb: base-128 varints, zig-zag varints, fixed-width values,
  field tags and length-prefixed strings, in both directions (the helper functions of
  pb_encode.c and pb_decode.c), with the substreams that bound nested values and the routines
  that skip unknown fields. The reference for varints is \<open>leb128\<close> on natural numbers; the
  round-trip theorems say that each decoder inverts its encoder on every value and leaves the
  rest of the input in place.
\<close>

section \<open>Encoders\<close>

text \<open>The loop of \<open>pb_encode_varint\<close>: the bytes it leaves in \<open>buffer\<close>.\<close>

function varint_loop :: "u64 \<Rightarrow> u8 list" where
  "varint_loop value =
     (if value \<noteq> 0 then ucast ((value AND 0x7F) OR 0x80) # varint_loop (drop_bit 7 value) else [])"
  by pat_completeness auto
termination
proof (relation "measure unat")
  fix v :: u64
  assume "v \<noteq> 0"
  then have "unat v \<noteq> 0" by (simp add: unat_eq_0)
  then show "(drop_bit 7 v, v) \<in> measure unat" by simp
qed simp

declare varint_loop.simps [simp del]

definition pb_encode_varint :: "'s pb_ostream \<Rightarrow> u64 \<Rightarrow> bool \<times> 's pb_ostream" where
  "pb_encode_varint s value =
     (if value \<le> 0x7F then pb_write s [ucast value] 1
      else let buffer = varint_loop value; i = length buffer;
               buffer = buffer[i - 1 := (buffer ! (i - 1)) AND 0x7F]
           in pb_write s buffer (of_nat i))"

text \<open>A signed 64-bit argument is its two's complement word; \<open>value < 0\<close> is its sign.\<close>

definition pb_encode_svarint :: "'s pb_ostream \<Rightarrow> u64 \<Rightarrow> bool \<times> 's pb_ostream" where
  "pb_encode_svarint s value =
     pb_encode_varint s (if sint value < 0 then NOT (push_bit 1 value) else push_bit 1 value)"

definition pb_encode_fixed32 :: "'s pb_ostream \<Rightarrow> u32 \<Rightarrow> bool \<times> 's pb_ostream" where
  "pb_encode_fixed32 s val =
     pb_write s [ucast (val AND 0xFF), ucast (drop_bit 8 val AND 0xFF),
                 ucast (drop_bit 16 val AND 0xFF), ucast (drop_bit 24 val AND 0xFF)] 4"

definition pb_encode_fixed64 :: "'s pb_ostream \<Rightarrow> u64 \<Rightarrow> bool \<times> 's pb_ostream" where
  "pb_encode_fixed64 s val =
     pb_write s [ucast (val AND 0xFF), ucast (drop_bit 8 val AND 0xFF),
                 ucast (drop_bit 16 val AND 0xFF), ucast (drop_bit 24 val AND 0xFF),
                 ucast (drop_bit 32 val AND 0xFF), ucast (drop_bit 40 val AND 0xFF),
                 ucast (drop_bit 48 val AND 0xFF), ucast (drop_bit 56 val AND 0xFF)] 8"

text \<open>\<open>pb_wire_type_t\<close>: an enum whose values travel in the three low bits of a tag.\<close>

abbreviation PB_WT_VARINT :: u32 where "PB_WT_VARINT \<equiv> 0"
abbreviation PB_WT_64BIT :: u32 where "PB_WT_64BIT \<equiv> 1"
abbreviation PB_WT_STRING :: u32 where "PB_WT_STRING \<equiv> 2"
abbreviation PB_WT_32BIT :: u32 where "PB_WT_32BIT \<equiv> 5"

definition pb_encode_tag :: "'s pb_ostream \<Rightarrow> u32 \<Rightarrow> u32 \<Rightarrow> bool \<times> 's pb_ostream" where
  "pb_encode_tag s wiretype field_number =
     pb_encode_varint s (push_bit 3 (ucast field_number) OR ucast wiretype)"

definition pb_encode_string :: "'s pb_ostream \<Rightarrow> u8 list \<Rightarrow> u64 \<Rightarrow> bool \<times> 's pb_ostream" where
  "pb_encode_string s buffer sz =
     and_then (pb_encode_varint s sz) (\<lambda>s. pb_write s buffer sz)"

section \<open>Decoders\<close>

text \<open>
  The 64-bit varint loop. \<open>bitpos\<close> is a \<open>uint_fast8_t\<close>, 8 bits wide on the target; it stays
  below 70 here because the loop stops at 64.
\<close>

function varint_dec_loop :: "'s pb_istream \<Rightarrow> u8 \<Rightarrow> u64 \<Rightarrow> u64 option \<times> 's pb_istream" where
  "varint_dec_loop s bitpos result =
     (if bitpos \<ge> 64 then i_error ''varint overflow'' s
      else get_then (pb_readbyte s) (\<lambda>byte s.
        let result = result OR push_bit (unat bitpos) (ucast (byte AND 0x7F))
        in if byte AND 0x80 \<noteq> 0 then varint_dec_loop s (bitpos + 7) result
           else (Some result, s)))"
  by pat_completeness auto
termination
proof (relation "measure (\<lambda>(s, bitpos, result). 71 - unat bitpos)")
  fix bitpos :: u8
  assume "\<not> 64 \<le> bitpos"
  then have "unat bitpos < 64" by (simp add: word_le_nat_alt)
  moreover from this have "unat (bitpos + 7) = unat bitpos + 7"
    by (simp add: unat_word_ariths)
  ultimately show "((a, bitpos + 7, b), c, bitpos, d) \<in>
      measure (\<lambda>(s :: 's pb_istream, bitpos :: u8, result :: u64). 71 - unat bitpos)"
    for a b c d by simp
qed simp

declare varint_dec_loop.simps [simp del]

definition pb_decode_varint :: "'s pb_istream \<Rightarrow> u64 option \<times> 's pb_istream" where
  "pb_decode_varint s = varint_dec_loop s 0 0"

lemma pb_readbyte_left:
  "pb_readbyte s = (Some b, t) \<Longrightarrow> unat (bytes_left t) < unat (bytes_left s)"
  by (auto simp: pb_readbyte_def i_error_def unat_minus_one unat_eq_0 unat_gt_0
      split: if_splits option.splits prod.splits)

text \<open>
  The multi-byte loop of \<open>pb_decode_varint32_eof\<close>. Its only bound is the input: \<open>bitpos\<close> is not
  checked against 64, and as an 8-bit counter it wraps around.
\<close>

function varint32_loop ::
  "'s pb_istream \<Rightarrow> u8 \<Rightarrow> u32 \<Rightarrow> u32 option \<times> 's pb_istream" where
  "varint32_loop s bitpos result =
     (case pb_readbyte s of
        (None, s) \<Rightarrow> (None, s)
      | (Some byte, s) \<Rightarrow>
          let sign_extension = (if bitpos < 63 then 0xFF else 0x01 :: u8) in
          if bitpos \<ge> 32 \<and> byte AND 0x7F \<noteq> 0 \<and>
             (drop_bit 31 result = 0 \<or> byte \<noteq> sign_extension)
          then i_error ''varint overflow'' s
          else
            let result = (if bitpos \<ge> 32 then result
                          else result OR push_bit (unat bitpos) (ucast (byte AND 0x7F)));
                bitpos = bitpos + 7
            in if byte AND 0x80 \<noteq> 0 then varint32_loop s bitpos result
               else if bitpos = 35 \<and> byte AND 0x70 \<noteq> 0 then i_error ''varint overflow'' s
               else (Some result, s))"
  by pat_completeness auto
termination
  by (relation "measure (\<lambda>(s, bitpos, result). unat (bytes_left s))")
    (auto dest: pb_readbyte_left [OF sym])

declare varint32_loop.simps [simp del]

text \<open>The value is paired with the \<open>*eof\<close> flag, which the caller has set to false.\<close>

definition pb_decode_varint32_eof ::
  "'s pb_istream \<Rightarrow> u32 option \<times> bool \<times> 's pb_istream" where
  "pb_decode_varint32_eof s =
     (case pb_readbyte s of
        (None, s) \<Rightarrow> (None, bytes_left s = 0, s)
      | (Some byte, s) \<Rightarrow>
          if byte AND 0x80 = 0 then (Some (ucast byte), False, s)
          else (case varint32_loop s 7 (ucast (byte AND 0x7F)) of (r, s) \<Rightarrow> (r, False, s)))"

definition pb_decode_varint32 :: "'s pb_istream \<Rightarrow> u32 option \<times> 's pb_istream" where
  "pb_decode_varint32 s = (case pb_decode_varint32_eof s of (r, _, s) \<Rightarrow> (r, s))"

lemma pb_read_one_left:
  "pb_read s False 1 = (Some bs, t) \<Longrightarrow> unat (bytes_left t) < unat (bytes_left s)"
  by (auto simp: pb_read_def pb_read_cb_def i_error_def get_then_def unat_minus_one unat_gt_0
      split: if_splits option.splits prod.splits)

function pb_skip_varint :: "'s pb_istream \<Rightarrow> unit option \<times> 's pb_istream" where
  "pb_skip_varint s =
     (case pb_read s False 1 of
        (None, s) \<Rightarrow> (None, s)
      | (Some bs, s) \<Rightarrow> if hd bs AND 0x80 \<noteq> 0 then pb_skip_varint s else (Some (), s))"
  by pat_completeness auto
termination
  by (relation "measure (\<lambda>s. unat (bytes_left s))") (auto dest: pb_read_one_left [OF sym])

declare pb_skip_varint.simps [simp del]

definition pb_skip_string :: "'s pb_istream \<Rightarrow> unit option \<times> 's pb_istream" where
  "pb_skip_string s =
     get_then (pb_decode_varint32 s) (\<lambda>len s.
     get_then (pb_read s True (ucast len)) (\<lambda>_ s. (Some (), s)))"

text \<open>The result is \<open>Some (wire_type, tag)\<close> for \<open>true\<close>; the flag is \<open>*eof\<close>.\<close>

definition pb_decode_tag :: "'s pb_istream \<Rightarrow> (u32 \<times> u32) option \<times> bool \<times> 's pb_istream" where
  "pb_decode_tag s =
     (case pb_decode_varint32_eof s of
        (None, eof, s) \<Rightarrow> (None, eof, s)
      | (Some temp, eof, s) \<Rightarrow>
          if temp = 0 then (None, True, s)
          else (Some (temp AND 7, drop_bit 3 temp), eof, s))"

definition pb_skip_field :: "'s pb_istream \<Rightarrow> u32 \<Rightarrow> unit option \<times> 's pb_istream" where
  "pb_skip_field s wire_type =
     (if wire_type = PB_WT_VARINT then pb_skip_varint s
      else if wire_type = PB_WT_64BIT then get_then (pb_read s True 8) (\<lambda>_ s. (Some (), s))
      else if wire_type = PB_WT_STRING then pb_skip_string s
      else if wire_type = PB_WT_32BIT then get_then (pb_read s True 4) (\<lambda>_ s. (Some (), s))
      else i_error ''invalid wire_type'' s)"

text \<open>
  \<open>read_raw_value\<close>: \<open>*size\<close> is the capacity on entry and the number of bytes stored on return, so
  the stored bytes are the result. The varint case counts before it reads.
\<close>

function raw_varint_loop ::
  "'s pb_istream \<Rightarrow> nat \<Rightarrow> nat \<Rightarrow> u8 list \<Rightarrow> u8 list option \<times> 's pb_istream" where
  "raw_varint_loop s max_sz sz buf =
     (if Suc sz > max_sz then (None, s)
      else get_then (pb_read s False 1) (\<lambda>bs s.
        let b = hd bs in
        if b AND 0x80 \<noteq> 0 then raw_varint_loop s max_sz (Suc sz) (buf @ [b])
        else (Some (buf @ [b]), s)))"
  by pat_completeness auto
termination
  by (relation "measure (\<lambda>(s, max_sz, sz, buf). max_sz - sz)") auto

declare raw_varint_loop.simps [simp del]

definition read_raw_value :: "'s pb_istream \<Rightarrow> u32 \<Rightarrow> nat \<Rightarrow> u8 list option \<times> 's pb_istream" where
  "read_raw_value s wire_type max_sz =
     (if wire_type = PB_WT_VARINT then raw_varint_loop s max_sz 0 []
      else if wire_type = PB_WT_64BIT then pb_read s False 8
      else if wire_type = PB_WT_32BIT then pb_read s False 4
      else i_error ''invalid wire_type'' s)"

definition pb_make_string_substream ::
  "'s pb_istream \<Rightarrow> 's pb_istream option \<times> 's pb_istream" where
  "pb_make_string_substream s =
     get_then (pb_decode_varint32 s) (\<lambda>sz s.
       if bytes_left s < ucast sz then i_error ''parent stream too short'' s
       else (Some (s\<lparr>bytes_left := ucast sz\<rparr>), s\<lparr>bytes_left := bytes_left s - ucast sz\<rparr>))"

definition pb_close_string_substream ::
  "'s pb_istream \<Rightarrow> 's pb_istream \<Rightarrow> bool \<times> 's pb_istream" where
  "pb_close_string_substream s sub =
     (case (if bytes_left sub \<noteq> 0 then pb_read sub True (bytes_left sub) else (Some [], sub)) of
        (None, sub) \<Rightarrow> (False, s)
      | (Some _, sub) \<Rightarrow> (True, s\<lparr>i_state := i_state sub, i_errmsg := i_errmsg sub\<rparr>))"

definition pb_decode_svarint :: "'s pb_istream \<Rightarrow> u64 option \<times> 's pb_istream" where
  "pb_decode_svarint s =
     get_then (pb_decode_varint s) (\<lambda>v s.
       (Some (if v AND 1 \<noteq> 0 then NOT (drop_bit 1 v) else drop_bit 1 v), s))"

definition pb_decode_fixed32 :: "'s pb_istream \<Rightarrow> u32 option \<times> 's pb_istream" where
  "pb_decode_fixed32 s =
     get_then (pb_read s False 4) (\<lambda>bytes s.
       (Some (push_bit 0 (ucast (bytes ! 0)) OR push_bit 8 (ucast (bytes ! 1)) OR
              push_bit 16 (ucast (bytes ! 2)) OR push_bit 24 (ucast (bytes ! 3))), s))"

definition pb_decode_fixed64 :: "'s pb_istream \<Rightarrow> u64 option \<times> 's pb_istream" where
  "pb_decode_fixed64 s =
     get_then (pb_read s False 8) (\<lambda>bytes s.
       (Some (push_bit 0 (ucast (bytes ! 0)) OR push_bit 8 (ucast (bytes ! 1)) OR
              push_bit 16 (ucast (bytes ! 2)) OR push_bit 24 (ucast (bytes ! 3)) OR
              push_bit 32 (ucast (bytes ! 4)) OR push_bit 40 (ucast (bytes ! 5)) OR
              push_bit 48 (ucast (bytes ! 6)) OR push_bit 56 (ucast (bytes ! 7))), s))"

text \<open>\<open>pb_dec_bool\<close> without the store, which \<open>pb_decode_bool\<close> shares.\<close>

definition pb_decode_bool :: "'s pb_istream \<Rightarrow> bool option \<times> 's pb_istream" where
  "pb_decode_bool s = get_then (pb_decode_varint32 s) (\<lambda>v s. (Some (v \<noteq> 0), s))"

section \<open>The reference encoding of varints\<close>

fun leb128 :: "nat \<Rightarrow> u8 list" where
  "leb128 n = (if n < 128 then [of_nat n] else of_nat (128 + n mod 128) # leb128 (n div 128))"

declare leb128.simps [simp del]

section \<open>Varints: the encoder emits the reference encoding\<close>

lemma leb128_not_Nil [simp]: "leb128 n \<noteq> []"
  by (subst leb128.simps) simp

lemma length_leb128_le: "n < 128 ^ k \<Longrightarrow> 0 < k \<Longrightarrow> length (leb128 n) \<le> k"
proof (induction k arbitrary: n)
  case 0
  then show ?case by simp
next
  case (Suc k)
  show ?case
  proof (cases "n < 128")
    case True
    then show ?thesis by (simp add: leb128.simps [of n])
  next
    case False
    then have k: "0 < k" using Suc.prems by (cases k) auto
    have "n div 128 < 128 ^ k"
      using Suc.prems by (simp add: less_mult_imp_div_less mult.commute)
    with Suc.IH k False show ?thesis by (simp add: leb128.simps [of n])
  qed
qed

lemma length_leb128_u64: "length (leb128 (unat (v :: u64))) \<le> 10"
proof -
  have "unat v < 128 ^ 10" using unat_u64_lt [of v] by simp
  then show ?thesis by (rule length_leb128_le) simp
qed

lemma varint_byte: "(ucast ((v AND 0x7F) OR 0x80 :: u64) :: u8) = of_nat (128 + unat v mod 128)"
proof -
  have "(v AND 0x7F) AND 0x80 = (0 :: u64)" by (simp add: and.assoc)
  then have "(v AND 0x7F) OR 0x80 = (v AND 0x7F) + 0x80" by (rule or_eq_plus_word)
  moreover have "unat ((v AND 0x7F) + 0x80 :: u64) = unat v mod 128 + 128"
    by (simp add: unat_add_u64)
  ultimately show ?thesis
    by (intro word_eq_unatI) (simp add: unat_ucast_u8 del: of_nat_add)
qed

lemma varint_last_byte: "(of_nat (128 + m) :: u8) AND 0x7F = of_nat m" if "m < 128"
  using that by (intro word_eq_unatI) (simp del: of_nat_add)

lemma varint_loop_leb128:
  assumes "v \<noteq> 0"
  shows "(let b = varint_loop v; i = length b in b[i - 1 := (b ! (i - 1)) AND 0x7F]) = leb128 (unat v)"
  using assms
proof (induction v rule: varint_loop.induct)
  case (1 v)
  let ?r = "varint_loop (drop_bit 7 v)"
  have unfold: "varint_loop v = of_nat (128 + unat v mod 128) # ?r"
    using "1.prems" by (simp add: varint_loop.simps [of v] varint_byte del: of_nat_add)
  show ?case
  proof (cases "drop_bit 7 v = 0")
    case True
    then have "unat (drop_bit 7 v) = 0" by simp
    then have "unat v < 128" by (simp add: div_eq_0_iff)
    then show ?thesis
      using True unfold varint_last_byte [of "unat v"]
      by (simp add: varint_loop.simps [of 0] leb128.simps [of "unat v"] del: of_nat_add)
  next
    case False
    then have "unat (drop_bit 7 v) \<noteq> 0" by (simp add: unat_eq_0 del: unat_drop_bit)
    then have ge: "\<not> unat v < 128" by auto
    have "?r \<noteq> []" using False by (simp add: varint_loop.simps [of "drop_bit 7 v"])
    then obtain m where m: "length ?r = Suc m" by (cases ?r) auto
    show ?thesis
      using "1.IH" [OF "1.prems" False] ge m
      by (simp add: unfold Let_def leb128.simps [of "unat v"] del: of_nat_add)
  qed
qed

lemma pb_encode_varint_leb128:
  "pb_encode_varint s v = pb_write s (leb128 (unat v)) (of_nat (length (leb128 (unat v))))"
proof (cases "v \<le> 0x7F")
  case True
  then have "unat v < 128" by (simp add: word_le_nat_alt)
  then have "leb128 (unat v) = [ucast v]"
    by (subst leb128.simps) (auto intro!: word_eq_unatI simp: unat_ucast_u8)
  with True show ?thesis by (simp add: pb_encode_varint_def)
next
  case False
  then have "v \<noteq> 0" by auto
  note l = varint_loop_leb128 [OF this]
  have "length (varint_loop v) = length (leb128 (unat v))"
    using arg_cong [OF l, of length] by (simp add: Let_def)
  with False l show ?thesis by (simp add: pb_encode_varint_def Let_def)
qed

context ostream_sink
begin

lemma pb_encode_varint_writes:
  "writes cb out room (\<lambda>s. pb_encode_varint s v) (leb128 (unat v))"
  unfolding pb_encode_varint_leb128 by (rule pb_write_writes)

lemma pb_encode_length_writes:
  "writes cb out room (\<lambda>s. and_then (pb_encode_varint s (of_nat n)) g) (leb128 n @ xs)"
  if "length xs = n" and g: "writes cb out room g xs"
proof (cases "n < 2 ^ 64")
  case True
  then have "writes cb out room (\<lambda>s. pb_encode_varint s (of_nat n)) (leb128 n)"
    using pb_encode_varint_writes [of "of_nat n"] by (simp add: unat_of_nat_u64_small)
  from writes_seq [OF this g] show ?thesis .
next
  case False
  with that(1) show ?thesis by (simp add: writes_def ready_def)
qed

lemma pb_encode_string_writes:
  "writes cb out room (\<lambda>s. pb_encode_string s bs (of_nat (length bs))) (leb128 (length bs) @ bs)"
  unfolding pb_encode_string_def by (rule pb_encode_length_writes [OF refl pb_write_writes])

end

section \<open>Varints: the decoder inverts the encoder\<close>

lemma more_of_nat [simp]: "m < 128 \<Longrightarrow> (of_nat (128 + m) :: u8) AND 0x80 \<noteq> 0"
  by (simp add: and_0x80_iff del: of_nat_add)

lemma stop_of_nat [simp]: "m < 128 \<Longrightarrow> (of_nat m :: u8) AND 0x80 = 0"
  by (simp add: and_0x80_iff)

lemma varint_payload:
  fixes res :: "'a::len word"
  assumes r: "unat res < 2 ^ k" and d: "unat b mod 128 * 2 ^ k < 2 ^ LENGTH('a)"
    and len: "8 \<le> LENGTH('a)"
  shows "unat (res OR push_bit k (ucast (b AND 0x7F :: u8))) = unat res + unat b mod 128 * 2 ^ k"
proof -
  have "unat b mod 128 < 2 ^ LENGTH('a)"
    using power_increasing [OF len, of "2 :: nat"] by simp
  then have "unat (ucast (b AND 0x7F) :: 'a word) = unat b mod 128"
    by (simp add: unsigned_ucast_eq take_bit_nat_eq_self)
  with r d show ?thesis by (simp add: unat_or_push_bit)
qed

lemma digit_split: "n div 128 * 2 ^ (7 * Suc k) + n mod 128 * 2 ^ (7 * k) = (n :: nat) * 2 ^ (7 * k)"
proof -
  have "2 ^ (7 * Suc k) = 128 * (2 :: nat) ^ (7 * k)" by (simp add: power_add)
  then have "n div 128 * 2 ^ (7 * Suc k) + n mod 128 * 2 ^ (7 * k) =
      (n div 128 * 128 + n mod 128) * 2 ^ (7 * k)"
    by (simp only: add_mult_distrib mult.assoc)
  then show ?thesis by (simp only: div_mult_mod_eq)
qed

lemma digit_bound:
  assumes "res < 2 ^ (7 * k)"
  shows "res + n mod 128 * 2 ^ (7 * k) < (2 :: nat) ^ (7 * Suc k)"
proof -
  have "Suc (n mod 128) * 2 ^ (7 * k) \<le> 128 * (2 :: nat) ^ (7 * k)"
    by (rule mult_right_mono) (simp_all add: Suc_le_eq)
  also have "\<dots> = 2 ^ (7 * Suc k)" by (simp add: power_add)
  finally have "2 ^ (7 * k) + n mod 128 * 2 ^ (7 * k) \<le> (2 :: nat) ^ (7 * Suc k)"
    by (simp only: mult_Suc)
  with assms show ?thesis by linarith
qed

lemma unat_bitpos: "k \<le> 9 \<Longrightarrow> unat (of_nat (7 * k) :: u8) = 7 * k"
  by (simp del: of_nat_mult)

lemma next_bitpos: "(of_nat (7 * k) :: u8) + 7 = of_nat (7 * Suc k)"
  by simp

context istream_source
begin

lemma varint_dec_loop_reads:
  assumes "n * 2 ^ (7 * k) < 2 ^ 64" and "k \<le> 9" and "unat res < 2 ^ (7 * k)"
  shows "reads rd rest (\<lambda>s. varint_dec_loop s (of_nat (7 * k)) res) (leb128 n)
           (of_nat (unat res + n * 2 ^ (7 * k)))"
  using assms
proof (induction n arbitrary: k res rule: leb128.induct)
  case (1 n)
  let ?b = "if n < 128 then of_nat n else of_nat (128 + n mod 128) :: u8"
  let ?res = "res OR push_bit (7 * k) (ucast (?b AND 0x7F))"
  have bp: "\<not> 64 \<le> (of_nat (7 * k) :: u8)"
    using "1.prems"(2) by (simp add: word_le_nat_alt unat_bitpos del: of_nat_mult)
  have b: "unat ?b mod 128 = n mod 128" by (simp del: of_nat_add)
  have split: "n div 128 * 2 ^ (7 * Suc k) + n mod 128 * 2 ^ (7 * k) = n * 2 ^ (7 * k)"
    by (rule digit_split)
  then have fits: "n mod 128 * 2 ^ (7 * k) < 2 ^ 64" "n div 128 * 2 ^ (7 * Suc k) < 2 ^ 64"
    using "1.prems"(1) by linarith+
  have res: "unat ?res = unat res + n mod 128 * 2 ^ (7 * k)"
    using varint_payload [of res "7 * k" ?b] "1.prems"(3) fits(1) b by simp
  define g where "g = (\<lambda>(byte :: u8) (s :: 's pb_istream).
      let result = res OR push_bit (7 * k) (ucast (byte AND 0x7F))
      in if byte AND 0x80 \<noteq> 0 then varint_dec_loop s (of_nat (7 * Suc k)) result
         else (Some result, s))"
  have step: "varint_dec_loop s (of_nat (7 * k)) res = get_then (pb_readbyte s) g" for s
    unfolding varint_dec_loop.simps [of s "of_nat (7 * k)"] next_bitpos g_def
    using bp unat_bitpos [OF "1.prems"(2)] by (simp del: of_nat_mult)
  show ?case
  proof (cases "n < 128")
    case True
    then have "of_nat (unat ?res) = (of_nat (unat res + n * 2 ^ (7 * k)) :: u64)"
      using res by (simp only: mod_less)
    then have "?res = of_nat (unat res + n * 2 ^ (7 * k))"
      by (simp only: of_nat_unat_word)
    with True have "reads rd rest (g ?b) [] (of_nat (unat res + n * 2 ^ (7 * k)))"
      unfolding g_def using reads_return by (simp add: Let_def)
    from reads_seq [where g = g and v = ?b, OF pb_readbyte_reads this] True show ?thesis
      unfolding step by (simp add: leb128.simps [of n])
  next
    case False
    have "2 ^ (7 * Suc k) \<le> n * 2 ^ (7 * k)"
      using False by (simp add: power_add)
    then have "(2 :: nat) ^ (7 * Suc k) < 2 ^ 64" using "1.prems"(1) by linarith
    then have k: "Suc k \<le> 9" by (simp only: power_strict_increasing_iff) simp
    have lt: "unat ?res < 2 ^ (7 * Suc k)"
      using res digit_bound [OF "1.prems"(3), of n] by simp
    have "unat ?res + n div 128 * 2 ^ (7 * Suc k) = unat res + n * 2 ^ (7 * k)"
      using res split by linarith
    then have IH: "reads rd rest (\<lambda>s. varint_dec_loop s (of_nat (7 * Suc k)) ?res) (leb128 (n div 128))
        (of_nat (unat res + n * 2 ^ (7 * k)))"
      using "1.IH" [OF False fits(2) k lt] by (simp only:)
    have "g ?b = (\<lambda>s. varint_dec_loop s (of_nat (7 * Suc k)) ?res)"
      unfolding g_def using False more_of_nat [of "n mod 128"] by (simp add: Let_def del: of_nat_add)
    with IH have "reads rd rest (g ?b) (leb128 (n div 128)) (of_nat (unat res + n * 2 ^ (7 * k)))"
      by (simp only:)
    from reads_seq [where g = g and v = ?b, OF pb_readbyte_reads this] False show ?thesis
      unfolding step by (simp add: leb128.simps [of n])
  qed
qed

lemma pb_decode_varint_reads: "reads rd rest pb_decode_varint (leb128 (unat v)) v"
  using varint_dec_loop_reads [of "unat v" 0 0] unat_u64_lt [of v]
  by (simp add: pb_decode_varint_def [abs_def])

end

lemma small_and_0x70: "m < 16 \<Longrightarrow> (of_nat m :: u8) AND 0x70 = 0"
proof -
  assume "m < 16"
  then have "take_bit 4 (of_nat m :: u8) = of_nat m"
    by (intro word_eq_unatI) (simp add: unsigned_take_bit_eq take_bit_nat_eq_self)
  then have "(of_nat m :: u8) AND 15 = of_nat m"
    by (simp add: take_bit_eq_mask mask_eq_exp_minus_1)
  then have "(of_nat m :: u8) AND 0x70 = (of_nat m AND 15) AND 0x70" by simp
  also have "\<dots> = 0" by (simp add: and.assoc)
  finally show ?thesis .
qed

lemma mult_exp_less_exp: "(n :: nat) * 2 ^ a < 2 ^ b \<Longrightarrow> a + c = b \<Longrightarrow> n < 2 ^ c"
proof -
  assume "n * 2 ^ a < 2 ^ b" and "a + c = b"
  then have "2 ^ a * n < 2 ^ a * 2 ^ c" by (metis mult.commute power_add)
  then show ?thesis by simp
qed

context istream_source
begin

lemma varint32_loop_reads:
  assumes "n * 2 ^ (7 * k) < 2 ^ 32" and "k \<le> 4" and "unat res < 2 ^ (7 * k)"
  shows "reads rd rest (\<lambda>s. varint32_loop s (of_nat (7 * k)) res) (leb128 n)
           (of_nat (unat res + n * 2 ^ (7 * k)))"
  using assms
proof (induction n arbitrary: k res rule: leb128.induct)
  case (1 n)
  let ?b = "if n < 128 then of_nat n else of_nat (128 + n mod 128) :: u8"
  let ?res = "res OR push_bit (7 * k) (ucast (?b AND 0x7F))"
  have bp: "\<not> 32 \<le> (of_nat (7 * k) :: u8)" "unat (of_nat (7 * k) :: u8) = 7 * k"
    using "1.prems"(2) by (simp_all add: word_le_nat_alt unat_bitpos del: of_nat_mult)
  have b: "unat ?b mod 128 = n mod 128" by (simp del: of_nat_add)
  have split: "n div 128 * 2 ^ (7 * Suc k) + n mod 128 * 2 ^ (7 * k) = n * 2 ^ (7 * k)"
    by (rule digit_split)
  then have fits: "n mod 128 * 2 ^ (7 * k) < 2 ^ 32" "n div 128 * 2 ^ (7 * Suc k) < 2 ^ 32"
    using "1.prems"(1) by linarith+
  have res: "unat ?res = unat res + n mod 128 * 2 ^ (7 * k)"
    using varint_payload [of res "7 * k" ?b] "1.prems"(3) fits(1) b by simp
  define g where "g = (\<lambda>(byte :: u8) (s :: 's pb_istream).
      let result = res OR push_bit (7 * k) (ucast (byte AND 0x7F))
      in if byte AND 0x80 \<noteq> 0 then varint32_loop s (of_nat (7 * Suc k)) result
         else if of_nat (7 * Suc k) = (35 :: u8) \<and> byte AND 0x70 \<noteq> 0
         then i_error ''varint overflow'' s
         else (Some result, s))"
  have step: "varint32_loop s (of_nat (7 * k)) res = get_then (pb_readbyte s) g" for s
    unfolding varint32_loop.simps [of s "of_nat (7 * k)"] next_bitpos g_def get_then_def
    using bp by (simp add: Let_def next_bitpos del: of_nat_mult mult_Suc_right split: prod.splits option.splits)
  show ?case
  proof (cases "n < 128")
    case True
    then have "of_nat (unat ?res) = (of_nat (unat res + n * 2 ^ (7 * k)) :: u32)"
      using res by (simp only: mod_less)
    then have r: "?res = of_nat (unat res + n * 2 ^ (7 * k))"
      by (simp only: of_nat_unat_word)
    have ok: "\<not> (of_nat (7 * Suc k) = (35 :: u8) \<and> ?b AND 0x70 \<noteq> 0)"
    proof (cases "k = 4")
      case True
      with "1.prems"(1) have "n < 2 ^ 4" by (intro mult_exp_less_exp [of n 28 32]) simp_all
      with \<open>n < 128\<close> show ?thesis by (simp add: small_and_0x70)
    next
      case False
      with "1.prems"(2) have "k = 0 \<or> k = 1 \<or> k = 2 \<or> k = 3" by arith
      then show ?thesis by auto
    qed
    have "g ?b = (\<lambda>s. (Some ?res, s))"
      unfolding g_def Let_def using True ok by (simp only: stop_of_nat if_False if_True not_True_eq_False refl simp_thms)
    then have "reads rd rest (g ?b) [] (of_nat (unat res + n * 2 ^ (7 * k)))"
      using reads_return r by metis
    from reads_seq [where g = g and v = ?b, OF pb_readbyte_reads this] True show ?thesis
      unfolding step by (simp add: leb128.simps [of n])
  next
    case False
    have "2 ^ (7 * Suc k) \<le> n * 2 ^ (7 * k)"
      using False by (simp add: power_add)
    then have "(2 :: nat) ^ (7 * Suc k) < 2 ^ 32" using "1.prems"(1) by linarith
    then have k: "Suc k \<le> 4" by (simp only: power_strict_increasing_iff) simp
    have lt: "unat ?res < 2 ^ (7 * Suc k)"
      using res digit_bound [OF "1.prems"(3), of n] by simp
    have "unat ?res + n div 128 * 2 ^ (7 * Suc k) = unat res + n * 2 ^ (7 * k)"
      using res split by linarith
    then have IH: "reads rd rest (\<lambda>s. varint32_loop s (of_nat (7 * Suc k)) ?res) (leb128 (n div 128))
        (of_nat (unat res + n * 2 ^ (7 * k)))"
      using "1.IH" [OF False fits(2) k lt] by (simp only:)
    have "g ?b = (\<lambda>s. varint32_loop s (of_nat (7 * Suc k)) ?res)"
      unfolding g_def using False more_of_nat [of "n mod 128"] by (simp add: Let_def del: of_nat_add)
    with IH have "reads rd rest (g ?b) (leb128 (n div 128)) (of_nat (unat res + n * 2 ^ (7 * k)))"
      by (simp only:)
    from reads_seq [where g = g and v = ?b, OF pb_readbyte_reads this] False show ?thesis
      unfolding step by (simp add: leb128.simps [of n])
  qed
qed

end

section \<open>Tags, strings, substreams and skipping\<close>

context istream_source
begin

lemma pb_decode_varint32_eof_reads:
  assumes "n < 2 ^ 32" and "fed rd rest s" and "avail rest s = leb128 n @ ys"
  shows "\<exists>t. pb_decode_varint32_eof s = (Some (of_nat n), False, t) \<and>
             advanced rest s (length (leb128 n)) t"
proof (cases "n < 128")
  case True
  then have l: "leb128 n = [of_nat n]" by (simp add: leb128.simps [of n])
  with assms obtain t where t: "pb_readbyte s = (Some (of_nat n), t)" "advanced rest s 1 t"
    using readsD [OF pb_readbyte_reads assms(2)] by (metis One_nat_def length_Cons list.size(3))
  have "ucast (of_nat n :: u8) = (of_nat n :: u32)"
    using True by (intro word_eq_unatI) (simp add: unsigned_ucast_eq take_bit_nat_eq_self unat_of_nat_mod)
  with t l True show ?thesis by (simp add: pb_decode_varint32_eof_def)
next
  case False
  let ?b = "of_nat (128 + n mod 128) :: u8" and ?r = "ucast (of_nat (128 + n mod 128) AND 0x7F :: u8) :: u32"
  have l: "leb128 n = [?b] @ leb128 (n div 128)" using False by (simp add: leb128.simps [of n])
  have av: "avail rest s = [?b] @ leb128 (n div 128) @ ys" using assms(3) l by simp
  obtain t where t: "pb_readbyte s = (Some ?b, t)" "advanced rest s (length [?b]) t"
    using readsD [OF pb_readbyte_reads assms(2) av] .
  have r: "unat ?r = n mod 128"
    by (simp add: unsigned_ucast_eq take_bit_nat_eq_self del: of_nat_add)
  have "reads rd rest (\<lambda>s. varint32_loop s (of_nat (7 * 1)) ?r) (leb128 (n div 128))
      (of_nat (unat ?r + n div 128 * 2 ^ (7 * 1)))"
    using assms(1) r by (intro varint32_loop_reads) auto
  then have loop: "reads rd rest (\<lambda>s. varint32_loop s 7 ?r) (leb128 (n div 128)) (of_nat n)"
    using r by (simp del: of_nat_add of_nat_mult)
  from readsD [OF loop advanced_fed [OF assms(2) av t(2)]] obtain u where
    u: "varint32_loop t 7 ?r = (Some (of_nat n), u)"
    "advanced rest t (length (leb128 (n div 128))) u" by blast
  have "advanced rest s (length (leb128 n)) u"
    using advanced_trans [OF t(2) u(2)] l by simp
  with t u more_of_nat [of "n mod 128"] show ?thesis
    by (simp add: pb_decode_varint32_eof_def del: of_nat_add)
qed

lemma pb_decode_varint32_reads:
  "n < 2 ^ 32 \<Longrightarrow> reads rd rest pb_decode_varint32 (leb128 n) (of_nat n)"
proof (rule readsI)
  fix s ys assume n: "n < 2 ^ 32" and s: "fed rd rest s" "avail rest s = leb128 n @ ys"
  from pb_decode_varint32_eof_reads [OF n s]
  show "\<exists>t. pb_decode_varint32 s = (Some (of_nat n), t) \<and> advanced rest s (length (leb128 n)) t"
    unfolding pb_decode_varint32_def by auto
qed

lemma pb_skip_varint_reads: "reads rd rest pb_skip_varint (leb128 n) ()"
proof (induction n rule: leb128.induct)
  case (1 n)
  let ?b = "if n < 128 then of_nat n else of_nat (128 + n mod 128) :: u8"
  define g where "g = (\<lambda>(bs :: u8 list) (s :: 's pb_istream).
      if hd bs AND 0x80 \<noteq> 0 then pb_skip_varint s else (Some (), s))"
  have step: "pb_skip_varint s = get_then (pb_read s False 1) g" for s
    by (simp add: pb_skip_varint.simps [of s] get_then_def g_def split: prod.splits option.splits)
  have one: "reads rd rest (\<lambda>s. pb_read s False 1) [?b] [?b]"
    using pb_read_reads [of "[?b]"] by simp
  show ?case
  proof (cases "n < 128")
    case True
    then have "reads rd rest (g [?b]) [] ()" unfolding g_def using reads_return by simp
    from reads_seq [where g = g and v = "[?b]", OF one this] True show ?thesis
      unfolding step by (simp add: leb128.simps [of n])
  next
    case False
    then have "g [?b] = pb_skip_varint"
      unfolding g_def using more_of_nat [of "n mod 128"] by (simp del: of_nat_add)
    with "1.IH" [OF False] have "reads rd rest (g [?b]) (leb128 (n div 128)) ()" by simp
    from reads_seq [where g = g and v = "[?b]", OF one this] False show ?thesis
      unfolding step by (simp add: leb128.simps [of n])
  qed
qed

lemma pb_skip_string_reads:
  assumes "length bs < 2 ^ 32"
  shows "reads rd rest pb_skip_string (leb128 (length bs) @ bs) ()"
proof -
  have "unat (ucast (of_nat (length bs) :: u32) :: u64) = length bs"
    using assms by (simp add: unsigned_ucast_eq take_bit_nat_eq_self unat_of_nat_mod)
  from reads_map [OF pb_read_null_reads [OF this], of "\<lambda>_. ()"]
  show ?thesis
    unfolding pb_skip_string_def
    by (rule reads_seq [OF pb_decode_varint32_reads [OF assms]])
qed

lemma pb_make_string_substream_splits:
  assumes "length bs < 2 ^ 32" and s: "fed rd rest s" and av: "avail rest s = leb128 (length bs) @ bs @ ys"
  shows "\<exists>sub t. pb_make_string_substream s = (Some sub, t) \<and>
           fed rd rest sub \<and> avail rest sub = bs \<and> i_is_buf sub = i_is_buf s \<and> i_errmsg sub = i_errmsg s \<and>
           rest (i_state sub) = drop (length (leb128 (length bs))) (rest (i_state s)) \<and>
           t = sub\<lparr>bytes_left := of_nat (length ys)\<rparr>"
proof -
  from readsD [OF pb_decode_varint32_reads [OF assms(1)] s av] obtain u where
    u: "pb_decode_varint32 s = (Some (of_nat (length bs)), u)"
    "advanced rest s (length (leb128 (length bs))) u" .
  note f = advanced_fed [OF s av u(2)]
  let ?n = "ucast (of_nat (length bs) :: u32) :: u64"
  have n: "unat ?n = length bs"
    using assms(1) by (simp add: unsigned_ucast_eq take_bit_nat_eq_self unat_of_nat_mod)
  have left: "unat (bytes_left u) = length bs + length ys"
    using length_avail [OF f(1)] f(2) by simp
  then have "bytes_left u - ?n = of_nat (length ys)"
    using n by (intro word_eq_unatI) (metis add_diff_cancel_left' le_add1 of_nat_unat_word unat_sub_u64)
  moreover have "\<not> bytes_left u < ?n" using left n by (simp add: word_less_nat_alt)
  moreover have "avail rest (u\<lparr>bytes_left := ?n\<rparr>) = take (length bs) (avail rest u)"
    using n left by (simp add: avail_def min_def)
  ultimately show ?thesis
    using u f n left by (simp add: pb_make_string_substream_def fed_def advanced_def)
qed

end

lemma unat_ucast_up: "unat (ucast (w :: u32) :: u64) = unat w"
  using unat_u32_lt [of w] by (simp add: unsigned_ucast_eq take_bit_nat_eq_self)

lemma unat_tag:
  assumes "unat wt < 8"
  shows "unat (push_bit 3 (ucast (f :: u32)) OR ucast (wt :: u32) :: u64) = unat f * 8 + unat wt"
proof -
  have "unat (ucast wt OR push_bit 3 (ucast f) :: u64) = unat (ucast wt :: u64) + unat (ucast f :: u64) * 2 ^ 3"
    using assms unat_u32_lt [of f] by (intro unat_or_push_bit) (simp_all add: unat_ucast_up)
  then show ?thesis by (simp add: unat_ucast_up or.commute)
qed

lemma pb_decode_tag_reads_aux:
  assumes "unat (wt :: u32) < 8" and "unat (f :: u32) < 2 ^ 29" and "f \<noteq> 0"
  shows "(of_nat (unat f * 8 + unat wt) :: u32) \<noteq> 0"
    and "of_nat (unat f * 8 + unat wt) AND 7 = wt"
    and "drop_bit 3 (of_nat (unat f * 8 + unat wt)) = f"
proof -
  let ?t = "of_nat (unat f * 8 + unat wt) :: u32"
  have t: "unat ?t = unat f * 8 + unat wt"
    using assms by (simp add: unat_of_nat_mod del: of_nat_add of_nat_mult)
  then show "?t \<noteq> 0" using assms(3) by (metis add_is_0 mult_is_0 unat_0 unat_eq_0 zero_neq_numeral)
  have "?t AND 7 = take_bit 3 ?t" by (simp add: take_bit_eq_mask mask_eq_exp_minus_1)
  then have "unat (?t AND 7) = (unat f * 8 + unat wt) mod 8"
    using t by (simp add: unsigned_take_bit_eq take_bit_nat_def)
  then show "?t AND 7 = wt" using assms(1) by (intro word_eq_unatI) simp
  show "drop_bit 3 ?t = f" using t assms(1) by (intro word_eq_unatI) simp
qed

text \<open>The zig-zag map and its inverse, as the two C functions compute them.\<close>

lemma zigzag_roundtrip:
  fixes v :: u64
  defines "z \<equiv> (if sint v < 0 then NOT (push_bit 1 v) else push_bit 1 v)"
  shows "(if z AND 1 \<noteq> 0 then NOT (drop_bit 1 z) else drop_bit 1 z) = v"
proof -
  define y where "y = push_bit 1 v"
  have z: "z = (if bit v 63 then NOT y else y)"
    using bit_last_iff [of v] by (simp add: z_def y_def)
  have "even y" by (simp add: y_def)
  then have odd: "odd z \<longleftrightarrow> bit v 63" by (simp add: z)
  have y: "bit y (Suc n) \<longleftrightarrow> bit v n" if "n < 63" for n
    using that by (simp only: y_def bit_push_bit_iff) (simp add: possible_bit_word)
  have "bit (drop_bit 1 z) n \<longleftrightarrow> (if bit v 63 then n < 63 \<and> \<not> bit v n else n < 63 \<and> bit v n)"
    if "n < 64" for n
    using that y [of n] by (cases "n = 63") (auto simp: z bit_drop_bit_eq bit_not_iff possible_bit_word
        dest: bit_imp_le_length)
  note d = this
  have "(if bit v 63 then NOT (drop_bit 1 z) else drop_bit 1 z) = v"
  proof (rule bit_word_eqI)
    fix n assume "n < LENGTH(64)"
    then have "n < 64" and "n = 63 \<or> n < 63" by auto
    with d [of n] show "bit (if bit v 63 then NOT (drop_bit 1 z) else drop_bit 1 z) n = bit v n"
      by (cases "bit v 63") (auto simp: bit_not_iff possible_bit_word)
  qed
  then show ?thesis using odd by (simp add: and_one_eq odd_iff_mod_2_eq_one)
qed

lemma unat_and_255: "unat (w AND 0xFF :: 'a::len word) = unat w mod 256"
proof -
  have "w AND 0xFF = take_bit 8 w" by (simp add: take_bit_eq_mask mask_eq_exp_minus_1)
  then show ?thesis by (simp add: unsigned_take_bit_eq take_bit_nat_def)
qed

lemma ucast_and_255: "(ucast (w AND 0xFF :: 'a::len word) :: u8) = of_nat (unat w)"
  by (rule word_eq_unatI) (simp add: unsigned_ucast_eq unat_and_255 take_bit_nat_def)

lemma le_bytes_4:
  "le_bytes 4 v = [of_nat v, of_nat (v div 256), of_nat (v div 65536), of_nat (v div 16777216)]"
proof -
  have "4 = Suc (Suc (Suc (Suc 0)))" by simp
  then show ?thesis by (simp only: le_bytes.simps div_mult2_eq [symmetric]) simp
qed

lemma le_bytes_8:
  "le_bytes 8 v = le_bytes 4 v @ le_bytes 4 (v div 4294967296)"
proof -
  have "8 = Suc (Suc (Suc (Suc 4)))" by simp
  then show ?thesis unfolding le_bytes_4
    by (simp only: le_bytes.simps div_mult2_eq [symmetric] le_bytes_4) simp
qed

lemma pb_encode_fixed32_le: "pb_encode_fixed32 s v = pb_write s (le_bytes 4 (unat v)) 4"
  by (simp add: pb_encode_fixed32_def ucast_and_255 le_bytes_4)

lemma pb_encode_fixed64_le: "pb_encode_fixed64 s v = pb_write s (le_bytes 8 (unat v)) 8"
  by (simp add: pb_encode_fixed64_def ucast_and_255 le_bytes_8 le_bytes_4 div_mult2_eq [symmetric])

lemma unat_bytes_or:
  fixes w :: "'a::len word"
  assumes len: "8 * length (a # bs) \<le> LENGTH('a)" and w: "unat w = le_nat bs"
  shows "unat (ucast a OR push_bit 8 w) = le_nat (a # bs)"
proof -
  have "(256 :: nat) ^ length (a # bs) = 2 ^ (8 * length (a # bs))"
    by (simp add: power_mult power_add)
  also have "\<dots> \<le> 2 ^ LENGTH('a)" using len by (rule power_increasing) simp
  finally have le: "256 * 256 ^ length bs \<le> (2 :: nat) ^ LENGTH('a)" by simp
  have "(256 :: nat) \<le> 256 * 256 ^ length bs" by simp
  then have "unat a < 2 ^ LENGTH('a)" using le unat_u8_lt [of a] by linarith
  then have "unat (ucast a :: 'a word) = unat a"
    by (simp add: unsigned_ucast_eq take_bit_nat_def)
  moreover have "unat w * 2 ^ 8 < 2 ^ LENGTH('a)"
    using le le_nat_less [of bs] w by simp
  ultimately show ?thesis
    using unat_or_push_bit [of "ucast a" 8 w] unat_u8_lt [of a] w by simp
qed

lemma list_of_length_8:
  "length xs = 8 \<Longrightarrow> [xs ! 0, xs ! 1, xs ! 2, xs ! 3, xs ! 4, xs ! 5, xs ! 6, xs ! 7] = xs"
  by (auto simp: eval_nat_numeral length_Suc_conv)

lemma le_word_4:
  fixes a b c d :: u8
  shows "unat (ucast a OR push_bit 8 (ucast b OR push_bit 8 (ucast c OR push_bit 8 (ucast d))) :: u32)
         = le_nat [a, b, c, d]"
proof -
  have "unat (ucast d :: u32) = le_nat [d]"
    by (simp add: unsigned_ucast_eq take_bit_nat_def less_trans [OF unat_u8_lt])
  then show ?thesis by (intro unat_bytes_or) simp_all
qed

lemma le_word_8:
  fixes a b c d e f g i :: u8
  shows "unat (ucast a OR push_bit 8 (ucast b OR push_bit 8 (ucast c OR push_bit 8 (ucast d OR
    push_bit 8 (ucast e OR push_bit 8 (ucast f OR push_bit 8 (ucast g OR push_bit 8 (ucast i))))))) :: u64)
         = le_nat [a, b, c, d, e, f, g, i]"
proof -
  have "unat (ucast i :: u64) = le_nat [i]"
    by (simp add: unsigned_ucast_eq take_bit_nat_def less_trans [OF unat_u8_lt])
  then show ?thesis by (intro unat_bytes_or) simp_all
qed

context istream_source
begin

lemma pb_decode_fixed32_reads: "reads rd rest pb_decode_fixed32 (le_bytes 4 (unat v)) v"
proof -
  let ?b = "le_bytes 4 (unat v)"
  have r: "reads rd rest (\<lambda>s. pb_read s False 4) ?b ?b"
    using pb_read_reads [of ?b] by simp
  have e: "push_bit 0 (ucast (?b ! 0)) OR push_bit 8 (ucast (?b ! 1)) OR
      push_bit 16 (ucast (?b ! 2)) OR push_bit 24 (ucast (?b ! 3)) = v" (is "?v = v")
  proof -
    have "?v = ucast (?b ! 0) OR push_bit 8 (ucast (?b ! 1) OR push_bit 8 (ucast (?b ! 2) OR
        push_bit 8 (ucast (?b ! 3))))"
      by (simp only: push_bit_or push_bit_push_bit) simp
    then have "unat ?v = le_nat [?b ! 0, ?b ! 1, ?b ! 2, ?b ! 3]" by (simp only: le_word_4)
    also have "[?b ! 0, ?b ! 1, ?b ! 2, ?b ! 3] = ?b" by (simp add: le_bytes_4)
    also have "le_nat ?b = unat v" using unat_u32_lt [of v] by (simp add: le_nat_le_bytes)
    finally show ?thesis by (rule word_eq_unatI)
  qed
  show ?thesis
    unfolding pb_decode_fixed32_def by (rule reads_map_eq) (fact r, fact e)
qed

lemma pb_decode_fixed64_reads: "reads rd rest pb_decode_fixed64 (le_bytes 8 (unat v)) v"
proof -
  let ?b = "le_bytes 8 (unat v)"
  have r: "reads rd rest (\<lambda>s. pb_read s False 8) ?b ?b"
    using pb_read_reads [of ?b] by simp
  have e: "push_bit 0 (ucast (?b ! 0)) OR push_bit 8 (ucast (?b ! 1)) OR
      push_bit 16 (ucast (?b ! 2)) OR push_bit 24 (ucast (?b ! 3)) OR
      push_bit 32 (ucast (?b ! 4)) OR push_bit 40 (ucast (?b ! 5)) OR
      push_bit 48 (ucast (?b ! 6)) OR push_bit 56 (ucast (?b ! 7)) = v" (is "?v = v")
  proof -
    have "?v = ucast (?b ! 0) OR push_bit 8 (ucast (?b ! 1) OR push_bit 8 (ucast (?b ! 2) OR
        push_bit 8 (ucast (?b ! 3) OR push_bit 8 (ucast (?b ! 4) OR push_bit 8 (ucast (?b ! 5) OR
        push_bit 8 (ucast (?b ! 6) OR push_bit 8 (ucast (?b ! 7))))))))"
      by (simp only: push_bit_or push_bit_push_bit) simp
    then have "unat ?v = le_nat [?b ! 0, ?b ! 1, ?b ! 2, ?b ! 3, ?b ! 4, ?b ! 5, ?b ! 6, ?b ! 7]"
      by (simp only: le_word_8)
    also have "[?b ! 0, ?b ! 1, ?b ! 2, ?b ! 3, ?b ! 4, ?b ! 5, ?b ! 6, ?b ! 7] = ?b"
      by (rule list_of_length_8) simp
    also have "le_nat ?b = unat v" using unat_u64_lt [of v] by (simp add: le_nat_le_bytes)
    finally show ?thesis by (rule word_eq_unatI)
  qed
  show ?thesis
    unfolding pb_decode_fixed64_def by (rule reads_map_eq) (fact r, fact e)
qed

lemma pb_decode_svarint_reads:
  "reads rd rest pb_decode_svarint
     (leb128 (unat (if sint v < 0 then NOT (push_bit 1 v) else push_bit 1 v))) v"
  unfolding pb_decode_svarint_def
  using reads_map [OF pb_decode_varint_reads
      [of "if sint v < 0 then NOT (push_bit 1 v) else push_bit 1 v"],
      of "\<lambda>z. if z AND 1 \<noteq> 0 then NOT (drop_bit 1 z) else drop_bit 1 z"]
  by (simp only: zigzag_roundtrip)

lemma pb_decode_tag_reads:
  assumes "unat (wt :: u32) < 8" and "unat (f :: u32) < 2 ^ 29" and "f \<noteq> 0"
    and "fed rd rest s" and "avail rest s = leb128 (unat f * 8 + unat wt) @ ys"
  shows "\<exists>t. pb_decode_tag s = (Some (wt, f), False, t) \<and>
             advanced rest s (length (leb128 (unat f * 8 + unat wt))) t"
proof -
  have "unat f * 8 + unat wt < 2 ^ 32" using assms(1,2) by simp
  from pb_decode_varint32_eof_reads [OF this assms(4,5)] obtain t where
    "pb_decode_varint32_eof s = (Some (of_nat (unat f * 8 + unat wt)), False, t)"
    "advanced rest s (length (leb128 (unat f * 8 + unat wt))) t" by blast
  with pb_decode_tag_reads_aux [OF assms(1,2,3)] show ?thesis
    by (simp add: pb_decode_tag_def del: of_nat_add of_nat_mult)
qed

end

section \<open>Properties of the wire format\<close>

text \<open>
  C21. Varint round trip. For every 64-bit value, \<open>pb_encode_varint\<close> into any buffer of at least 10
  bytes succeeds, and \<open>pb_decode_varint\<close> over exactly the bytes written returns the value and
  leaves no byte unread.
\<close>

theorem varint_roundtrip:
  assumes "10 \<le> unat bufsize"
  shows "\<exists>t u. pb_encode_varint (pb_ostream_from_buffer h buf bufsize) v = (True, t) \<and>
           pb_decode_varint (pb_istream_from_buffer (fst (o_state t)) buf (bytes_written t)) = (Some v, u) \<and>
           bytes_left u = 0"
  using buffer_roundtrip [OF bufo.pb_encode_varint_writes bufi.pb_decode_varint_reads]
    length_leb128_u64 [of v] assms by simp

theorem varint_roundtrip_witness:
  "\<exists>t u. pb_encode_varint (pb_ostream_from_buffer (\<lambda>_. 0) 4096 10) 18446744073709551615 = (True, t) \<and>
     pb_decode_varint (pb_istream_from_buffer (fst (o_state t)) 4096 (bytes_written t)) =
       (Some 18446744073709551615, u) \<and> bytes_left u = 0"
  by (rule varint_roundtrip) simp

text \<open>
  Zig-zag round trip. For every signed 64-bit value (as its two's complement word),
  \<open>pb_decode_svarint\<close> inverts \<open>pb_encode_svarint\<close>.
\<close>

theorem svarint_roundtrip:
  assumes "10 \<le> unat bufsize"
  shows "\<exists>t u. pb_encode_svarint (pb_ostream_from_buffer h buf bufsize) v = (True, t) \<and>
           pb_decode_svarint (pb_istream_from_buffer (fst (o_state t)) buf (bytes_written t)) = (Some v, u) \<and>
           bytes_left u = 0"
proof -
  let ?z = "if sint v < 0 then NOT (push_bit 1 v) else push_bit 1 v"
  have "writes buf_write (buf_out buf) (buf_room buf bufsize) (\<lambda>s. pb_encode_svarint s v) (leb128 (unat ?z))"
    unfolding pb_encode_svarint_def by (rule bufo.pb_encode_varint_writes)
  from buffer_roundtrip [OF this bufi.pb_decode_svarint_reads] show ?thesis
    using length_leb128_u64 [of ?z] assms by (meson le_trans)
qed

theorem svarint_roundtrip_witness:
  "\<exists>t u. pb_encode_svarint (pb_ostream_from_buffer (\<lambda>_. 0) 64 10) (- 3) = (True, t) \<and>
     pb_decode_svarint (pb_istream_from_buffer (fst (o_state t)) 64 (bytes_written t)) = (Some (- 3), u) \<and>
     bytes_left u = 0"
  by (rule svarint_roundtrip) simp

text \<open>
  Fixed-width round trips. The four-byte and eight-byte little-endian encoders are inverted by
  their decoders on every value, for every buffer that holds the bytes.
\<close>

theorem fixed_roundtrip:
  assumes "8 \<le> unat bufsize"
  shows "(\<exists>t u. pb_encode_fixed32 (pb_ostream_from_buffer h buf bufsize) v = (True, t) \<and>
            pb_decode_fixed32 (pb_istream_from_buffer (fst (o_state t)) buf (bytes_written t)) = (Some v, u) \<and>
            bytes_left u = 0) \<and>
         (\<exists>t u. pb_encode_fixed64 (pb_ostream_from_buffer h buf bufsize) w = (True, t) \<and>
            pb_decode_fixed64 (pb_istream_from_buffer (fst (o_state t)) buf (bytes_written t)) = (Some w, u) \<and>
            bytes_left u = 0)"
proof (intro conjI)
  have "writes buf_write (buf_out buf) (buf_room buf bufsize) (\<lambda>s. pb_encode_fixed32 s v) (le_bytes 4 (unat v))"
    using bufo.pb_write_writes [where bs = "le_bytes 4 (unat v)"] by (simp add: pb_encode_fixed32_le)
  from buffer_roundtrip [OF this bufi.pb_decode_fixed32_reads] assms
  show "\<exists>t u. pb_encode_fixed32 (pb_ostream_from_buffer h buf bufsize) v = (True, t) \<and>
            pb_decode_fixed32 (pb_istream_from_buffer (fst (o_state t)) buf (bytes_written t)) = (Some v, u) \<and>
            bytes_left u = 0" by simp
next
  have "writes buf_write (buf_out buf) (buf_room buf bufsize) (\<lambda>s. pb_encode_fixed64 s w) (le_bytes 8 (unat w))"
    using bufo.pb_write_writes [where bs = "le_bytes 8 (unat w)"] by (simp add: pb_encode_fixed64_le)
  from buffer_roundtrip [OF this bufi.pb_decode_fixed64_reads] assms
  show "\<exists>t u. pb_encode_fixed64 (pb_ostream_from_buffer h buf bufsize) w = (True, t) \<and>
            pb_decode_fixed64 (pb_istream_from_buffer (fst (o_state t)) buf (bytes_written t)) = (Some w, u) \<and>
            bytes_left u = 0" by simp
qed

theorem fixed_roundtrip_witness:
  "(\<exists>t u. pb_encode_fixed32 (pb_ostream_from_buffer (\<lambda>_. 7) 64 8) 0xDEADBEEF = (True, t) \<and>
      pb_decode_fixed32 (pb_istream_from_buffer (fst (o_state t)) 64 (bytes_written t)) =
        (Some 0xDEADBEEF, u) \<and> bytes_left u = 0) \<and>
   (\<exists>t u. pb_encode_fixed64 (pb_ostream_from_buffer (\<lambda>_. 7) 64 8) 0x0123456789ABCDEF = (True, t) \<and>
      pb_decode_fixed64 (pb_istream_from_buffer (fst (o_state t)) 64 (bytes_written t)) =
        (Some 0x0123456789ABCDEF, u) \<and> bytes_left u = 0)"
  by (rule fixed_roundtrip) simp

text \<open>
  Tag round trip. A field number below \<open>2 ^ 29\<close> (the protobuf limit) other than 0 and a wire
  type below 8, encoded by \<open>pb_encode_tag\<close>, come back from \<open>pb_decode_tag\<close> with \<open>eof\<close> false.
\<close>

theorem tag_roundtrip:
  assumes "10 \<le> unat bufsize" and "unat wt < 8" and "f \<noteq> 0" and "unat f < 2 ^ 29"
  shows "\<exists>t u. pb_encode_tag (pb_ostream_from_buffer h buf bufsize) wt f = (True, t) \<and>
           pb_decode_tag (pb_istream_from_buffer (fst (o_state t)) buf (bytes_written t)) =
             (Some (wt, f), False, u) \<and> bytes_left u = 0"
proof -
  let ?x = "push_bit 3 (ucast f) OR ucast wt :: u64"
  let ?g = "\<lambda>s :: bufsource pb_istream. case pb_decode_tag s of (r, eof, s) \<Rightarrow> (map_option (\<lambda>p. (p, eof)) r, s)"
  have x: "unat ?x = unat f * 8 + unat wt" using assms(2) by (rule unat_tag)
  have w: "writes buf_write (buf_out buf) (buf_room buf bufsize) (\<lambda>s. pb_encode_tag s wt f) (leb128 (unat ?x))"
    unfolding pb_encode_tag_def by (rule bufo.pb_encode_varint_writes)
  have r: "reads buf_read (buf_rest lim) ?g (leb128 (unat ?x)) ((wt, f), False)" for lim
  proof (rule readsI)
    fix s ys assume s: "fed buf_read (buf_rest lim) s" "avail (buf_rest lim) s = leb128 (unat ?x) @ ys"
    show "\<exists>t. ?g s = (Some ((wt, f), False), t) \<and> advanced (buf_rest lim) s (length (leb128 (unat ?x))) t"
      using bufi.pb_decode_tag_reads [OF assms(2,4,3) s(1), of ys] s(2) by (auto simp: x)
  qed
  have "length (leb128 (unat ?x)) \<le> unat bufsize" using length_leb128_u64 [of ?x] assms(1) by linarith
  from buffer_roundtrip [OF w r this, of h] obtain t u where
    t: "pb_encode_tag (pb_ostream_from_buffer h buf bufsize) wt f = (True, t)"
    "?g (pb_istream_from_buffer (fst (o_state t)) buf (bytes_written t)) = (Some ((wt, f), False), u)"
    "bytes_left u = 0" by blast
  then have "pb_decode_tag (pb_istream_from_buffer (fst (o_state t)) buf (bytes_written t)) =
      (Some (wt, f), False, u)"
    by (simp split: prod.splits)
  with t show ?thesis by blast
qed

theorem tag_roundtrip_witness:
  "\<exists>t u. pb_encode_tag (pb_ostream_from_buffer (\<lambda>_. 0) 64 16) PB_WT_STRING 536870911 = (True, t) \<and>
     pb_decode_tag (pb_istream_from_buffer (fst (o_state t)) 64 (bytes_written t)) =
       (Some (PB_WT_STRING, 536870911), False, u) \<and> bytes_left u = 0"
  by (rule tag_roundtrip) simp_all



text \<open>
  C24. Skipping an unknown field consumes exactly its encoding, whatever its wire type: the input
  after \<open>pb_skip_field\<close> is what followed the value, and no error is recorded.
\<close>

datatype wire_value = WVarint u64 | WFixed64 u64 | WString "u8 list" | WFixed32 u32

fun wire_type_of :: "wire_value \<Rightarrow> u32" where
  "wire_type_of (WVarint _) = PB_WT_VARINT"
| "wire_type_of (WFixed64 _) = PB_WT_64BIT"
| "wire_type_of (WString _) = PB_WT_STRING"
| "wire_type_of (WFixed32 _) = PB_WT_32BIT"

fun wire_bytes :: "wire_value \<Rightarrow> u8 list" where
  "wire_bytes (WVarint v) = leb128 (unat v)"
| "wire_bytes (WFixed64 v) = le_bytes 8 (unat v)"
| "wire_bytes (WString bs) = leb128 (length bs) @ bs"
| "wire_bytes (WFixed32 v) = le_bytes 4 (unat v)"

theorem skip_field_exact:
  assumes "length (wire_bytes w) < 2 ^ 32"
    and s: "fed buf_read (buf_rest lim) s" "avail (buf_rest lim) s = wire_bytes w @ ys"
  shows "\<exists>t. pb_skip_field s (wire_type_of w) = (Some (), t) \<and> avail (buf_rest lim) t = ys \<and>
             i_errmsg t = i_errmsg s"
proof -
  have read: "reads buf_read (buf_rest lim) (\<lambda>s. get_then (pb_read s True n) (\<lambda>_ s. (Some (), s))) xs ()"
    if "unat n = length xs" for n xs
    using reads_map [OF bufi.pb_read_null_reads [OF that], of lim "\<lambda>_. ()"] .
  have "reads buf_read (buf_rest lim) (\<lambda>s. pb_skip_field s (wire_type_of w)) (wire_bytes w) ()"
  proof (cases w)
    case (WVarint v)
    then show ?thesis by (simp add: pb_skip_field_def bufi.pb_skip_varint_reads)
  next
    case (WFixed64 v)
    then show ?thesis using read [of 8 "le_bytes 8 (unat v)"] by (simp add: pb_skip_field_def)
  next
    case (WString bs)
    with assms(1) have "length bs < 2 ^ 32" by simp
    from bufi.pb_skip_string_reads [OF this] WString show ?thesis by (simp add: pb_skip_field_def)
  next
    case (WFixed32 v)
    then show ?thesis using read [of 4 "le_bytes 4 (unat v)"] by (simp add: pb_skip_field_def)
  qed
  from this s obtain t where "pb_skip_field s (wire_type_of w) = (Some (), t)"
    "advanced (buf_rest lim) s (length (wire_bytes w)) t" by (rule readsD)
  with advanced_fed [OF s] show ?thesis by (auto simp: advanced_def)
qed

theorem skip_field_exact_witness:
  "\<exists>t. pb_skip_field (pb_istream_from_buffer (\<lambda>a. of_nat (unat a)) 1 3) (wire_type_of (WString [2])) =
         (Some (), t) \<and> avail (buf_rest (1 + 3)) t = [3] \<and> i_errmsg t = None"
proof -
  let ?s = "pb_istream_from_buffer (\<lambda>a. of_nat (unat a)) 1 3"
  have "wire_bytes (WString [2]) = [1, 2]" by (simp add: leb128.simps [of 1] leb128.simps [of "Suc 0"])
  moreover have "avail (buf_rest (1 + 3)) ?s = [1, 2, 3]"
    unfolding fed_from_buffer(2) by (simp add: load_bytes_def upt_conv_Cons)
  ultimately have "length (wire_bytes (WString [2])) < 2 ^ 32"
    and "avail (buf_rest (1 + 3)) ?s = wire_bytes (WString [2]) @ [3]" by simp_all
  from skip_field_exact [OF this(1) fed_from_buffer(1) this(2)] show ?thesis
    by (simp only: pb_istream_from_buffer_def pb_istream.select_convs)
qed

text \<open>
  C26. A varint with ten continuation bytes is rejected. The 64-bit decoder reads at most ten bytes
  of any input: after ten bytes with the top bit set it fails and records the overflow.
\<close>

lemma varint_dec_loop_long:
  assumes "k + length xs = 10" and "\<forall>b \<in> set xs. 128 \<le> unat b"
    and "fed buf_read (buf_rest lim) s" and "avail (buf_rest lim) s = xs @ ys"
  shows "\<exists>t. varint_dec_loop s (of_nat (7 * k)) res = i_error ''varint overflow'' t \<and>
             advanced (buf_rest lim) s (length xs) t"
  using assms
proof (induction xs arbitrary: k s res)
  case Nil
  then have "k = 10" by simp
  then have "varint_dec_loop s (of_nat (7 * k)) res = i_error ''varint overflow'' s"
    by (simp add: varint_dec_loop.simps [of s])
  then show ?case by (intro exI [of _ s]) simp
next
  case (Cons b xs)
  have av: "avail (buf_rest lim) s = [b] @ xs @ ys" using Cons.prems(4) by simp
  from bufi.pb_readbyte_reads Cons.prems(3) av obtain t where
    t: "pb_readbyte s = (Some b, t)" "advanced (buf_rest lim) s (length [b]) t" by (rule readsD)
  note f = advanced_fed [OF Cons.prems(3) av t(2)]
  have k: "\<not> 64 \<le> (of_nat (7 * k) :: u8)"
    using Cons.prems(1) by (simp add: word_le_nat_alt unat_bitpos del: of_nat_mult)
  have b: "b AND 0x80 \<noteq> 0" using Cons.prems(2) by (simp add: and_0x80_iff)
  let ?res = "res OR push_bit (unat (of_nat (7 * k) :: u8)) (ucast (b AND 0x7F))"
  have step: "varint_dec_loop s (of_nat (7 * k)) res = varint_dec_loop t (of_nat (7 * Suc k)) ?res"
    unfolding varint_dec_loop.simps [of s "of_nat (7 * k)"] next_bitpos
    using t(1) k b by (simp add: Let_def del: of_nat_mult)
  have "Suc k + length xs = 10" and "\<forall>b \<in> set xs. 128 \<le> unat b" using Cons.prems by simp_all
  from Cons.IH [OF this f] obtain u where
    "varint_dec_loop t (of_nat (7 * Suc k)) ?res = i_error ''varint overflow'' u"
    "advanced (buf_rest lim) t (length xs) u" by blast
  with step advanced_trans [OF t(2)] show ?case by auto
qed

theorem varint_too_long:
  assumes "length xs = 10" and "\<forall>b \<in> set xs. 128 \<le> unat b"
    and "fed buf_read (buf_rest lim) s" and "avail (buf_rest lim) s = xs @ ys"
  shows "\<exists>t. pb_decode_varint s = i_error ''varint overflow'' t \<and> advanced (buf_rest lim) s 10 t"
  using varint_dec_loop_long [of 0 xs lim s ys 0] assms by (simp add: pb_decode_varint_def)

theorem varint_too_long_witness:
  "\<exists>t. pb_decode_varint (pb_istream_from_buffer (\<lambda>_. 0x80) 0 10) = i_error ''varint overflow'' t \<and>
       advanced (buf_rest (0 + 10)) (pb_istream_from_buffer (\<lambda>_. 0x80) 0 10) 10 t"
proof (rule varint_too_long)
  show "avail (buf_rest (0 + 10)) (pb_istream_from_buffer (\<lambda>_. 0x80) 0 10) = replicate 10 0x80 @ []"
    unfolding fed_from_buffer(2) by (simp add: load_bytes_def map_replicate_const)
  show "fed buf_read (buf_rest (0 + 10)) (pb_istream_from_buffer (\<lambda>_. 0x80) 0 10)"
    by (rule fed_from_buffer(1))
qed simp_all


end
