(* ===== verification/PbCommon.thy ===== *)
theory PbCommon
  imports Prelude
begin

unbundle bit_operations_syntax

text \<open>
  Field descriptors (pb.h) and the field iterator (pb_common.c) of nanopb, with the build options
  of the nanopb pod: \<open>PB_FIELD_32BIT\<close> (so \<open>pb_size_t\<close> is 32 bits wide) and unpacked structs. A
  descriptor array is the list of its entries without the terminating \<open>PB_LAST_FIELD\<close>, which
  \<open>field_at\<close> supplies past the end. Arrays are constants of the program, known by their address
  to whoever holds a \<open>ptr\<close> to them. The lemmas show that the iterator is a cursor over the array:
  \<open>iter_at\<close> gives its whole state as a function of the index, \<open>pb_field_iter_next\<close> moves it
  cyclically, and \<open>pb_field_iter_find\<close> finds a tag from any position exactly if it occurs.
\<close>

section \<open>Field types\<close>

abbreviation PB_LTYPE_BOOL :: u8 where "PB_LTYPE_BOOL \<equiv> 0x00"
abbreviation PB_LTYPE_VARINT :: u8 where "PB_LTYPE_VARINT \<equiv> 0x01"
abbreviation PB_LTYPE_UVARINT :: u8 where "PB_LTYPE_UVARINT \<equiv> 0x02"
abbreviation PB_LTYPE_SVARINT :: u8 where "PB_LTYPE_SVARINT \<equiv> 0x03"
abbreviation PB_LTYPE_FIXED32 :: u8 where "PB_LTYPE_FIXED32 \<equiv> 0x04"
abbreviation PB_LTYPE_FIXED64 :: u8 where "PB_LTYPE_FIXED64 \<equiv> 0x05"
abbreviation PB_LTYPE_LAST_PACKABLE :: u8 where "PB_LTYPE_LAST_PACKABLE \<equiv> 0x05"
abbreviation PB_LTYPE_BYTES :: u8 where "PB_LTYPE_BYTES \<equiv> 0x06"
abbreviation PB_LTYPE_STRING :: u8 where "PB_LTYPE_STRING \<equiv> 0x07"
abbreviation PB_LTYPE_SUBMESSAGE :: u8 where "PB_LTYPE_SUBMESSAGE \<equiv> 0x08"
abbreviation PB_LTYPE_EXTENSION :: u8 where "PB_LTYPE_EXTENSION \<equiv> 0x09"
abbreviation PB_LTYPE_FIXED_LENGTH_BYTES :: u8 where "PB_LTYPE_FIXED_LENGTH_BYTES \<equiv> 0x0A"
abbreviation PB_HTYPE_REQUIRED :: u8 where "PB_HTYPE_REQUIRED \<equiv> 0x00"
abbreviation PB_HTYPE_OPTIONAL :: u8 where "PB_HTYPE_OPTIONAL \<equiv> 0x10"
abbreviation PB_HTYPE_REPEATED :: u8 where "PB_HTYPE_REPEATED \<equiv> 0x20"
abbreviation PB_HTYPE_ONEOF :: u8 where "PB_HTYPE_ONEOF \<equiv> 0x30"
abbreviation PB_ATYPE_STATIC :: u8 where "PB_ATYPE_STATIC \<equiv> 0x00"
abbreviation PB_ATYPE_POINTER :: u8 where "PB_ATYPE_POINTER \<equiv> 0x80"
abbreviation PB_ATYPE_CALLBACK :: u8 where "PB_ATYPE_CALLBACK \<equiv> 0x40"

definition PB_ATYPE :: "u8 \<Rightarrow> u8" where "PB_ATYPE x = x AND 0xC0"
definition PB_HTYPE :: "u8 \<Rightarrow> u8" where "PB_HTYPE x = x AND 0x30"
definition PB_LTYPE :: "u8 \<Rightarrow> u8" where "PB_LTYPE x = x AND 0x0F"

abbreviation PB_SIZE_MAX :: u32 where "PB_SIZE_MAX \<equiv> 0xFFFFFFFF"

text \<open>\<open>struct pb_field_s\<close>; \<open>size_offset\<close> is an \<open>int32_t\<close> kept as its two's complement word.\<close>

record pb_field =
  tag :: u32
  ftype :: u8
  data_offset :: u32
  size_offset :: u32
  data_size :: u32
  array_size :: u32
  ptr :: u64

definition PB_LAST_FIELD :: pb_field where
  "PB_LAST_FIELD = \<lparr>tag = 0, ftype = 0, data_offset = 0, size_offset = 0, data_size = 0,
                    array_size = 0, ptr = 0\<rparr>"

definition field_at :: "pb_field list \<Rightarrow> nat \<Rightarrow> pb_field" where
  "field_at fs i = (if i < length fs then fs ! i else PB_LAST_FIELD)"

section \<open>The iterator\<close>

record pb_field_iter =
  it_start :: "pb_field list"
  it_pos :: nat
  required_field_index :: u32
  dest_struct :: u64
  pData :: u64
  pSize :: u64

abbreviation it_field :: "pb_field_iter \<Rightarrow> pb_field" where
  "it_field it \<equiv> field_at (it_start it) (it_pos it)"

definition pb_field_iter_begin :: "pb_field list \<Rightarrow> u64 \<Rightarrow> bool \<times> pb_field_iter" where
  "pb_field_iter_begin fs dest =
     (let f = field_at fs 0;
          d = (if dest = 0 then 0 else dest + ucast (data_offset f));
          z = (if dest = 0 then 0 else d + scast (size_offset f))
      in (tag f \<noteq> 0,
          \<lparr>it_start = fs, it_pos = 0, required_field_index = 0, dest_struct = dest,
           pData = d, pSize = z\<rparr>))"

definition prev_field_size :: "pb_field \<Rightarrow> u64" where
  "prev_field_size prev =
     (if PB_ATYPE (ftype prev) = PB_ATYPE_STATIC \<and> PB_HTYPE (ftype prev) = PB_HTYPE_REPEATED
      then ucast (data_size prev) * ucast (array_size prev)
      else if PB_ATYPE (ftype prev) = PB_ATYPE_POINTER then 8
      else ucast (data_size prev))"

definition in_same_union :: "pb_field \<Rightarrow> pb_field \<Rightarrow> bool" where
  "in_same_union prev f \<longleftrightarrow>
     PB_HTYPE (ftype prev) = PB_HTYPE_ONEOF \<and> PB_HTYPE (ftype f) = PB_HTYPE_ONEOF \<and>
     data_offset f = PB_SIZE_MAX"

definition pb_field_iter_next :: "pb_field_iter \<Rightarrow> bool \<times> pb_field_iter" where
  "pb_field_iter_next it =
     (let prev = it_field it in
      if tag prev = 0 then (False, it)
      else
        let it = it\<lparr>it_pos := Suc (it_pos it)\<rparr>; f = it_field it in
        if tag f = 0 then (False, snd (pb_field_iter_begin (it_start it) (dest_struct it)))
        else if in_same_union prev f then (True, it)
        else
          let it = (if PB_HTYPE (ftype prev) = PB_HTYPE_REQUIRED
                    then it\<lparr>required_field_index := required_field_index it + 1\<rparr> else it);
              d = pData it + prev_field_size prev + ucast (data_offset f)
          in (True, it\<lparr>pData := d, pSize := d + scast (size_offset f)\<rparr>))"

text \<open>
  The search loop of \<open>pb_field_iter_find\<close>. A C iterator that points past an inner terminator would
  never meet its start again, so the loop carries fuel; \<open>find_returns\<close> below shows that
  one round is enough for every iterator over a well-formed array.
\<close>

fun iter_find_loop :: "nat \<Rightarrow> nat \<Rightarrow> pb_field_iter \<Rightarrow> u32 \<Rightarrow> (bool \<times> pb_field_iter) option" where
  "iter_find_loop 0 start it t = None"
| "iter_find_loop (Suc n) start it t =
     (if tag (it_field it) = t \<and> PB_LTYPE (ftype (it_field it)) \<noteq> PB_LTYPE_EXTENSION
      then Some (True, it)
      else let it = snd (pb_field_iter_next it)
           in if it_pos it \<noteq> start then iter_find_loop n start it t else Some (False, it))"

definition pb_field_iter_find :: "pb_field_iter \<Rightarrow> u32 \<Rightarrow> (bool \<times> pb_field_iter) option" where
  "pb_field_iter_find it t = iter_find_loop (Suc (length (it_start it))) (it_pos it) it t"

text \<open>
  The loop shape that the callers of the iterator share:
  \<^verbatim>\<open>do { if (!body(&iter)) return false; } while (pb_field_iter_next(&iter)); return true;\<close>
  with the state \<open>'a\<close> that the body works on. \<open>None\<close> is a body that does not return.
\<close>

lemma iter_next_True:
  assumes "pb_field_iter_next it = (True, it')"
  shows "it_start it' = it_start it" and "it_pos it' = Suc (it_pos it)"
    and "Suc (it_pos it) < length (it_start it)"
  using assms
  by (auto simp: pb_field_iter_next_def pb_field_iter_begin_def field_at_def PB_LAST_FIELD_def Let_def
      split: if_splits)

function for_fields ::
  "(pb_field_iter \<Rightarrow> 'a \<Rightarrow> (bool \<times> 'a) option) \<Rightarrow> pb_field_iter \<Rightarrow> 'a \<Rightarrow> (bool \<times> 'a) option" where
  "for_fields body it a =
     (case body it a of
        None \<Rightarrow> None
      | Some (ok, a) \<Rightarrow>
          if ok then
            (case pb_field_iter_next it of
               (again, it) \<Rightarrow> if again then for_fields body it a else Some (True, a))
          else Some (False, a))"
  by pat_completeness auto
termination
proof (relation "measure (\<lambda>(body, it, a). length (it_start it) - it_pos it)")
  fix body :: "pb_field_iter \<Rightarrow> 'a \<Rightarrow> (bool \<times> 'a) option" and it it' :: pb_field_iter
    and a a' :: 'a and again
  assume "(again, it') = pb_field_iter_next it" and again
  then have "pb_field_iter_next it = (True, it')" by simp
  note n = iter_next_True [OF this]
  show "((body, it', a'), body, it, a) \<in> measure (\<lambda>(body, it, a). length (it_start it) - it_pos it)"
    using n by simp
qed simp

declare for_fields.simps [simp del]

section \<open>The iterator as a cursor\<close>

definition wf_fields :: "pb_field list \<Rightarrow> bool" where
  "wf_fields fs \<longleftrightarrow> fs \<noteq> [] \<and> (\<forall>f \<in> set fs. tag f \<noteq> 0)"

fun iter_ptrs :: "pb_field list \<Rightarrow> u64 \<Rightarrow> nat \<Rightarrow> u64 \<times> u64" where
  "iter_ptrs fs dest 0 =
     (if dest = 0 then (0, 0)
      else (dest + ucast (data_offset (fs ! 0)),
            dest + ucast (data_offset (fs ! 0)) + scast (size_offset (fs ! 0))))"
| "iter_ptrs fs dest (Suc i) =
     (if in_same_union (fs ! i) (fs ! Suc i) then iter_ptrs fs dest i
      else let d = fst (iter_ptrs fs dest i) + prev_field_size (fs ! i) + ucast (data_offset (fs ! Suc i))
           in (d, d + scast (size_offset (fs ! Suc i))))"

definition required_before :: "pb_field list \<Rightarrow> nat \<Rightarrow> nat" where
  "required_before fs i =
     length (filter (\<lambda>f. PB_HTYPE (ftype f) = PB_HTYPE_REQUIRED) (take i fs))"

definition iter_at :: "pb_field list \<Rightarrow> u64 \<Rightarrow> nat \<Rightarrow> pb_field_iter" where
  "iter_at fs dest i =
     \<lparr>it_start = fs, it_pos = i, required_field_index = of_nat (required_before fs i),
      dest_struct = dest, pData = fst (iter_ptrs fs dest i), pSize = snd (iter_ptrs fs dest i)\<rparr>"

lemma iter_at_sel [simp]:
  "it_start (iter_at fs dest i) = fs" "it_pos (iter_at fs dest i) = i"
  "dest_struct (iter_at fs dest i) = dest"
  "pData (iter_at fs dest i) = fst (iter_ptrs fs dest i)"
  "pSize (iter_at fs dest i) = snd (iter_ptrs fs dest i)"
  by (simp_all add: iter_at_def)

lemma field_at_nth [simp]: "i < length fs \<Longrightarrow> field_at fs i = fs ! i"
  by (simp add: field_at_def)

lemma field_at_end: "length fs \<le> i \<Longrightarrow> tag (field_at fs i) = 0"
  by (simp add: field_at_def PB_LAST_FIELD_def)

lemma wf_fields_tag: "wf_fields fs \<Longrightarrow> i < length fs \<Longrightarrow> tag (fs ! i) \<noteq> 0"
  by (simp add: wf_fields_def)

lemma required_before_Suc:
  "i < length fs \<Longrightarrow>
   required_before fs (Suc i) =
     required_before fs i + (if PB_HTYPE (ftype (fs ! i)) = PB_HTYPE_REQUIRED then 1 else 0)"
  by (simp add: required_before_def take_Suc_conv_app_nth)

lemma iter_begin_at:
  "wf_fields fs \<Longrightarrow> pb_field_iter_begin fs dest = (True, iter_at fs dest 0)"
  by (simp add: pb_field_iter_begin_def wf_fields_def iter_at_def required_before_def Let_def)

lemma iter_begin_snd:
  "fs \<noteq> [] \<Longrightarrow> snd (pb_field_iter_begin fs dest) = iter_at fs dest 0"
  by (simp add: pb_field_iter_begin_def iter_at_def required_before_def Let_def)

lemma iter_begin_empty: "fst (pb_field_iter_begin [] dest) = False"
  by (simp add: pb_field_iter_begin_def field_at_def PB_LAST_FIELD_def Let_def)

lemma iter_next_at:
  assumes "wf_fields fs" and "i < length fs"
  shows "pb_field_iter_next (iter_at fs dest i) =
     (if Suc i < length fs then (True, iter_at fs dest (Suc i)) else (False, iter_at fs dest 0))"
proof (cases "Suc i < length fs")
  case True
  have "in_same_union (fs ! i) (fs ! Suc i) \<Longrightarrow> PB_HTYPE (ftype (fs ! i)) \<noteq> PB_HTYPE_REQUIRED"
    by (simp add: in_same_union_def)
  with True assms show ?thesis
    by (auto simp: pb_field_iter_next_def iter_at_def wf_fields_tag required_before_Suc Let_def)
next
  case False
  with assms show ?thesis
    by (auto simp: pb_field_iter_next_def wf_fields_tag field_at_end iter_begin_snd wf_fields_def Let_def)
qed

text \<open>A pass over all fields is a left fold over the indices.\<close>

fun fold_ok :: "('i \<Rightarrow> 'a \<Rightarrow> (bool \<times> 'a) option) \<Rightarrow> 'i list \<Rightarrow> 'a \<Rightarrow> (bool \<times> 'a) option" where
  "fold_ok f [] a = Some (True, a)"
| "fold_ok f (x # xs) a =
     (case f x a of
        None \<Rightarrow> None
      | Some (ok, a) \<Rightarrow> if ok then fold_ok f xs a else Some (False, a))"

lemma fold_ok_cong: "(\<And>x. x \<in> set xs \<Longrightarrow> f x = g x) \<Longrightarrow> fold_ok f xs a = fold_ok g xs a"
  by (induction xs arbitrary: a) (auto split: option.splits)

lemma for_fields_fold:
  assumes "wf_fields fs" and "i < length fs"
  shows "for_fields body (iter_at fs dest i) a =
         fold_ok (\<lambda>j. body (iter_at fs dest j)) [i..<length fs] a"
  using assms(2)
proof (induction "length fs - i" arbitrary: i a)
  case 0
  then show ?case by simp
next
  case (Suc n)
  have IH: "Suc i < length fs \<Longrightarrow> for_fields body (iter_at fs dest (Suc i)) a =
      fold_ok (\<lambda>j. body (iter_at fs dest j)) [Suc i..<length fs] a" for a
    using Suc by simp
  show ?case
    using Suc.prems iter_next_at [OF assms(1) Suc.prems, of dest] IH
    by (cases "Suc i < length fs")
      (auto simp: for_fields.simps [of body "iter_at fs dest i"] upt_conv_Cons split: option.splits)
qed

section \<open>Searching\<close>

definition tag_matches :: "u32 \<Rightarrow> pb_field \<Rightarrow> bool" where
  "tag_matches t f \<longleftrightarrow> tag f = t \<and> PB_LTYPE (ftype f) \<noteq> PB_LTYPE_EXTENSION"

lemma iter_find_loop_at:
  assumes wf: "wf_fields fs" and start: "start < length fs"
  shows "d < length fs \<Longrightarrow> length fs - d \<le> m \<Longrightarrow>
    \<exists>b j. iter_find_loop m start (iter_at fs dest ((start + d) mod length fs)) t =
            Some (b, iter_at fs dest j) \<and> j < length fs \<and>
          (b \<longrightarrow> tag_matches t (fs ! j)) \<and>
          (\<not> b \<longrightarrow> j = start \<and>
             (\<forall>k. d \<le> k \<and> k < length fs \<longrightarrow> \<not> tag_matches t (fs ! ((start + k) mod length fs))))"
proof (induction m arbitrary: d)
  case 0
  then show ?case by simp
next
  case (Suc m)
  let ?n = "length fs" and ?i = "(start + d) mod length fs"
  have "0 < ?n" using Suc.prems by linarith
  then have i: "?i < ?n" by (rule mod_less_divisor)
  have nxt: "snd (pb_field_iter_next (iter_at fs dest ?i)) = iter_at fs dest ((start + Suc d) mod ?n)"
    using iter_next_at [OF wf i, of dest] i by (auto simp: mod_Suc)
  show ?case
  proof (cases "tag_matches t (fs ! ?i)")
    case True
    with i show ?thesis by (auto simp: tag_matches_def)
  next
    case no: False
    show ?thesis
    proof (cases "Suc d < ?n")
      case True
      have "(start + Suc d) mod ?n \<noteq> start"
        using True start by (auto simp: mod_if split: if_splits)
      with no nxt i have step: "iter_find_loop (Suc m) start (iter_at fs dest ?i) t =
          iter_find_loop m start (iter_at fs dest ((start + Suc d) mod ?n)) t"
        by (auto simp: tag_matches_def Let_def)
      have "?n - Suc d \<le> m" using Suc.prems by simp
      from Suc.IH [OF True this] step no show ?thesis
        by (simp only: step) (metis Suc_leI le_neq_implies_less)
    next
      case False
      then have d: "Suc d = ?n" using Suc.prems by simp
      then have "(start + Suc d) mod ?n = start" using start by simp
      with no nxt i start have "iter_find_loop (Suc m) start (iter_at fs dest ?i) t =
          Some (False, iter_at fs dest start)"
        by (auto simp: tag_matches_def Let_def)
      with no start d show ?thesis by (metis le_antisym not_less_eq_eq not_le)
    qed
  qed
qed

lemma find_returns:
  assumes "wf_fields fs" and "i < length fs"
  shows "\<exists>b j. pb_field_iter_find (iter_at fs dest i) t = Some (b, iter_at fs dest j) \<and> j < length fs \<and>
           (b \<longrightarrow> tag_matches t (fs ! j)) \<and>
           (\<not> b \<longrightarrow> j = i \<and> (\<forall>f \<in> set fs. \<not> tag_matches t f))"
proof -
  let ?n = "length fs"
  have "0 < ?n" and "?n - 0 \<le> Suc ?n" using assms(2) by linarith+
  from iter_find_loop_at [OF assms this, of dest t] assms(2) obtain b j where
    f: "pb_field_iter_find (iter_at fs dest i) t = Some (b, iter_at fs dest j)" "j < ?n"
    "b \<longrightarrow> tag_matches t (fs ! j)"
    "\<not> b \<longrightarrow> j = i \<and> (\<forall>k < ?n. \<not> tag_matches t (fs ! ((i + k) mod ?n)))"
    unfolding pb_field_iter_find_def by (auto simp del: iter_find_loop.simps)
  have "\<not> tag_matches t g" if "\<not> b" "g \<in> set fs" for g
  proof -
    from that(2) obtain k where k: "k < ?n" "g = fs ! k" by (auto simp: in_set_conv_nth)
    let ?k = "if i \<le> k then k - i else k + ?n - i"
    have "?k < ?n" "(i + ?k) mod ?n = k" using k assms(2) by auto
    with f(4) that(1) k(2) show ?thesis by metis
  qed
  with f show ?thesis by blast
qed

section \<open>Properties of the iterator\<close>

text \<open>
  What the descriptor macros compute (\<open>PB_DATAOFFSET_FIRST\<close>, \<open>PB_DATAOFFSET_OTHER\<close> and
  \<open>PB_DATAOFFSET_UNION\<close> in pb.h): the first offset is \<open>offsetof\<close>, every other one is the distance from
  the end of the previous member, and a later member of a union has \<open>PB_SIZE_MAX\<close> and lies where the
  union lies. \<open>offs\<close> are the true offsets of the members.
\<close>

definition laid_out :: "u64 list \<Rightarrow> pb_field list \<Rightarrow> bool" where
  "laid_out offs fs \<longleftrightarrow>
     length offs = length fs \<and> fs \<noteq> [] \<and> ucast (data_offset (fs ! 0)) = offs ! 0 \<and>
     (\<forall>i < length fs - 1.
        if in_same_union (fs ! i) (fs ! Suc i) then offs ! Suc i = offs ! i
        else ucast (data_offset (fs ! Suc i)) = offs ! Suc i - (offs ! i + prev_field_size (fs ! i)))"

lemma iter_ptrs_laid_out:
  assumes "laid_out offs fs" and "dest \<noteq> 0"
  shows "i < length fs \<Longrightarrow> fst (iter_ptrs fs dest i) = dest + offs ! i"
proof (induction i)
  case 0
  then show ?case using assms by (simp add: laid_out_def)
next
  case (Suc i)
  then have IH: "fst (iter_ptrs fs dest i) = dest + offs ! i" by simp
  have "i < length fs - 1" using Suc.prems by simp
  with assms(1) have "if in_same_union (fs ! i) (fs ! Suc i) then offs ! Suc i = offs ! i
      else ucast (data_offset (fs ! Suc i)) = offs ! Suc i - (offs ! i + prev_field_size (fs ! i))"
    by (simp add: laid_out_def)
  with IH show ?case by (simp add: Let_def split: if_splits)
qed

lemma iter_steps_at:
  assumes "wf_fields fs"
  shows "i < length fs \<Longrightarrow>
    ((snd \<circ> pb_field_iter_next) ^^ i) (snd (pb_field_iter_begin fs dest)) = iter_at fs dest i"
proof (induction i)
  case 0
  then show ?case using iter_begin_at [OF assms] by simp
next
  case (Suc i)
  then show ?case using iter_next_at [OF assms, of i dest] by simp
qed


definition demo_desc :: "pb_field list" where
  "demo_desc =
     [\<lparr>tag = 1, ftype = PB_HTYPE_REPEATED OR PB_LTYPE_FIXED32, data_offset = 4, size_offset = - 4,
       data_size = 4, array_size = 3, ptr = 0\<rparr>,
      \<lparr>tag = 4, ftype = PB_HTYPE_ONEOF OR PB_LTYPE_UVARINT, data_offset = 4, size_offset = - 4,
       data_size = 8, array_size = 0, ptr = 0\<rparr>,
      \<lparr>tag = 5, ftype = PB_HTYPE_ONEOF OR PB_LTYPE_BOOL, data_offset = PB_SIZE_MAX, size_offset = - 4,
       data_size = 1, array_size = 0, ptr = 0\<rparr>,
      \<lparr>tag = 9, ftype = PB_ATYPE_POINTER OR PB_HTYPE_OPTIONAL OR PB_LTYPE_STRING, data_offset = 7,
       size_offset = 0, data_size = 1, array_size = 0, ptr = 0\<rparr>]"

lemma demo_desc_wf: "wf_fields demo_desc" "laid_out [4, 20, 20, 28] demo_desc" "length demo_desc = 4"
  by code_simp+


text \<open>
  \<open>pb_field_iter_find\<close> always returns, from any position of the iterator: with true it is at
  a field with that tag, with false no field that is not an extension range has the tag and the
  iterator is where it was.
\<close>

theorem iterator_find:
  assumes "wf_fields fs" and "i < length fs"
  shows "let it = ((snd \<circ> pb_field_iter_next) ^^ i) (snd (pb_field_iter_begin fs dest)) in
         \<exists>found it'. pb_field_iter_find it t = Some (found, it') \<and>
           found = (\<exists>f \<in> set fs. tag_matches t f) \<and>
           (if found then tag_matches t (it_field it') \<and> it_pos it' < length fs else it' = it)"
proof -
  from find_returns [OF assms, of dest t] obtain b j where
    "pb_field_iter_find (iter_at fs dest i) t = Some (b, iter_at fs dest j)" "j < length fs"
    "b \<longrightarrow> tag_matches t (fs ! j)" "\<not> b \<longrightarrow> j = i \<and> (\<forall>f \<in> set fs. \<not> tag_matches t f)" by blast
  with iter_steps_at [OF assms, of dest] nth_mem [of j fs] show ?thesis
    by (cases b) (auto simp: Let_def)
qed

theorem iterator_find_witness:
  "\<exists>it'. pb_field_iter_find (((snd \<circ> pb_field_iter_next) ^^ 2) (snd (pb_field_iter_begin demo_desc 0x100))) 4 =
      Some (True, it') \<and> tag_matches 4 (it_field it') \<and> it_pos it' < 4"
proof -
  have m: "\<exists>f \<in> set demo_desc. tag_matches 4 f" and l: "2 < length demo_desc" by code_simp+
  from iterator_find [OF demo_desc_wf(1) l, of "0x100" 4] show ?thesis
    unfolding Let_def demo_desc_wf(3) eqTrueI [OF m] by (elim exE conjE) (simp only: if_True, blast)
qed

end
