(* ===== verification/PbEncode.thy ===== *)
theory PbEncode
  imports PbWire PbCommon
begin

unbundle bit_operations_syntax

text \<open>
  The message encoder of nanopb (pb_encode.c). The source struct and everything it points to are
  the memory \<open>h\<close>, which the encoder only reads (\<open>const void *src_struct\<close>); the output goes to the
  stream, whose sink does not overlap the struct. Descriptor arrays are found by address in
  \<open>descs\<close>; user callbacks and extension encoders are found by their function pointer in \<open>enc_cb\<close>
  and \<open>ext_enc\<close>, parameters of the model because the library only calls them.

  Results are \<open>Some (ok, stream)\<close>; \<open>None\<close> is a call that does not return: the recursion or the
  extension list is deeper than the fuel, or a null entry of \<open>PB_ENCODERS\<close> would be called. The
  reference encoding is \<open>msg_bytes\<close>, one pass over the fields that returns the bytes of a message;
  the main theorem says that the encoder, with its separate sizing passes, writes exactly those
  bytes, and \<open>fuel\<close> is enough as soon as it is for the reference.
\<close>

section \<open>Environment and layouts\<close>

record 's enc_env =
  descs :: "u64 \<Rightarrow> pb_field list"
  enc_cb :: "u64 \<Rightarrow> 's pb_ostream \<Rightarrow> pb_field \<Rightarrow> u64 \<Rightarrow> bool \<times> 's pb_ostream"
  ext_enc :: "u64 \<Rightarrow> 's pb_ostream \<Rightarrow> u64 \<Rightarrow> bool \<times> 's pb_ostream"

text \<open>
  Struct layouts on the target: \<open>pb_callback_t\<close> is the function pointer and \<open>arg\<close> at 8;
  \<open>pb_extension_t\<close> is \<open>type\<close>, \<open>dest\<close> at 8, \<open>next\<close> at 16, \<open>found\<close> at 24; \<open>pb_extension_type_t\<close> is
  \<open>decode\<close>, \<open>encode\<close> at 8, \<open>arg\<close> at 16; \<open>pb_bytes_array_t\<close> is \<open>size\<close> and \<open>bytes\<close> at 4.
\<close>

section \<open>Encoders of single values\<close>

definition safe_read_bool :: "mem \<Rightarrow> u64 \<Rightarrow> bool" where
  "safe_read_bool h p = list_ex (\<lambda>b. b \<noteq> 0) (load_bytes h p 1)"

definition pb_encode_tag_for_field :: "'s pb_ostream \<Rightarrow> pb_field \<Rightarrow> bool \<times> 's pb_ostream" where
  "pb_encode_tag_for_field s field =
     (let lt = PB_LTYPE (ftype field) in
      if lt \<in> {PB_LTYPE_BOOL, PB_LTYPE_VARINT, PB_LTYPE_UVARINT, PB_LTYPE_SVARINT}
      then pb_encode_tag s PB_WT_VARINT (tag field)
      else if lt = PB_LTYPE_FIXED32 then pb_encode_tag s PB_WT_32BIT (tag field)
      else if lt = PB_LTYPE_FIXED64 then pb_encode_tag s PB_WT_64BIT (tag field)
      else if lt \<in> {PB_LTYPE_BYTES, PB_LTYPE_STRING, PB_LTYPE_SUBMESSAGE,
                     PB_LTYPE_FIXED_LENGTH_BYTES}
      then pb_encode_tag s PB_WT_STRING (tag field)
      else o_error ''invalid field type'' s)"

definition pb_enc_bool :: "mem \<Rightarrow> 's pb_ostream \<Rightarrow> pb_field \<Rightarrow> u64 \<Rightarrow> bool \<times> 's pb_ostream" where
  "pb_enc_bool h s field src = pb_encode_varint s (if safe_read_bool h src then 1 else 0)"

text \<open>The sign-extending loads of \<open>pb_enc_varint\<close> and \<open>pb_enc_svarint\<close>, by \<open>data_size\<close>.\<close>

definition load_signed :: "mem \<Rightarrow> pb_field \<Rightarrow> u64 \<Rightarrow> u64 option" where
  "load_signed h field src =
     (if data_size field = 1 then Some (scast (h src))
      else if data_size field = 2 then Some (scast (load_u16 h src))
      else if data_size field = 4 then Some (scast (load_u32 h src))
      else if data_size field = 8 then Some (load_u64 h src)
      else None)"

definition load_unsigned :: "mem \<Rightarrow> pb_field \<Rightarrow> u64 \<Rightarrow> u64 option" where
  "load_unsigned h field src =
     (if data_size field = 1 then Some (ucast (h src))
      else if data_size field = 2 then Some (ucast (load_u16 h src))
      else if data_size field = 4 then Some (ucast (load_u32 h src))
      else if data_size field = 8 then Some (load_u64 h src)
      else None)"

definition pb_enc_varint :: "mem \<Rightarrow> 's pb_ostream \<Rightarrow> pb_field \<Rightarrow> u64 \<Rightarrow> bool \<times> 's pb_ostream" where
  "pb_enc_varint h s field src =
     (case load_signed h field src of
        None \<Rightarrow> o_error ''invalid data_size'' s
      | Some v \<Rightarrow> pb_encode_varint s v)"

definition pb_enc_uvarint :: "mem \<Rightarrow> 's pb_ostream \<Rightarrow> pb_field \<Rightarrow> u64 \<Rightarrow> bool \<times> 's pb_ostream" where
  "pb_enc_uvarint h s field src =
     (case load_unsigned h field src of
        None \<Rightarrow> o_error ''invalid data_size'' s
      | Some v \<Rightarrow> pb_encode_varint s v)"

definition pb_enc_svarint :: "mem \<Rightarrow> 's pb_ostream \<Rightarrow> pb_field \<Rightarrow> u64 \<Rightarrow> bool \<times> 's pb_ostream" where
  "pb_enc_svarint h s field src =
     (case load_signed h field src of
        None \<Rightarrow> o_error ''invalid data_size'' s
      | Some v \<Rightarrow> pb_encode_svarint s v)"

definition pb_enc_fixed32 :: "mem \<Rightarrow> 's pb_ostream \<Rightarrow> pb_field \<Rightarrow> u64 \<Rightarrow> bool \<times> 's pb_ostream" where
  "pb_enc_fixed32 h s field src = pb_encode_fixed32 s (load_u32 h src)"

definition pb_enc_fixed64 :: "mem \<Rightarrow> 's pb_ostream \<Rightarrow> pb_field \<Rightarrow> u64 \<Rightarrow> bool \<times> 's pb_ostream" where
  "pb_enc_fixed64 h s field src = pb_encode_fixed64 s (load_u64 h src)"

definition pb_enc_bytes :: "mem \<Rightarrow> 's pb_ostream \<Rightarrow> pb_field \<Rightarrow> u64 \<Rightarrow> bool \<times> 's pb_ostream" where
  "pb_enc_bytes h s field src =
     (if src = 0 then pb_encode_string s [] 0
      else
        let sz = load_u32 h src in
        if PB_ATYPE (ftype field) = PB_ATYPE_STATIC \<and> ucast sz > (ucast (data_size field) - 4 :: u64)
        then o_error ''bytes size exceeded'' s
        else pb_encode_string s (load_bytes h (src + 4) (unat sz)) (ucast sz))"

text \<open>The \<open>strnlen\<close> loop of \<open>pb_enc_string\<close>.\<close>

function strnlen_loop :: "mem \<Rightarrow> u64 \<Rightarrow> nat \<Rightarrow> nat \<Rightarrow> nat" where
  "strnlen_loop h p max_sz sz =
     (if sz < max_sz \<and> h (p + of_nat sz) \<noteq> 0 then strnlen_loop h p max_sz (Suc sz) else sz)"
  by pat_completeness auto
termination
  by (relation "measure (\<lambda>(h, p, max_sz, sz). max_sz - sz)") auto

declare strnlen_loop.simps [simp del]

definition string_size :: "mem \<Rightarrow> pb_field \<Rightarrow> u64 \<Rightarrow> nat" where
  "string_size h field src =
     (let max_sz = (if PB_ATYPE (ftype field) = PB_ATYPE_POINTER then - 1
                    else ucast (data_size field) :: u64)
      in if src = 0 then 0 else strnlen_loop h src (unat max_sz) 0)"

definition pb_enc_string :: "mem \<Rightarrow> 's pb_ostream \<Rightarrow> pb_field \<Rightarrow> u64 \<Rightarrow> bool \<times> 's pb_ostream" where
  "pb_enc_string h s field src =
     (let sz = string_size h field src in pb_encode_string s (load_bytes h src sz) (of_nat sz))"

definition pb_enc_fixed_length_bytes ::
  "mem \<Rightarrow> 's pb_ostream \<Rightarrow> pb_field \<Rightarrow> u64 \<Rightarrow> bool \<times> 's pb_ostream" where
  "pb_enc_fixed_length_bytes h s field src =
     pb_encode_string s (load_bytes h src (unat (data_size field))) (ucast (data_size field))"

section \<open>Submessages\<close>

text \<open>\<open>enc\<close> is \<open>pb_encode\<close> for the fields and struct at hand.\<close>

definition pb_encode_submessage ::
  "('s pb_ostream \<Rightarrow> (bool \<times> 's pb_ostream) option) \<Rightarrow> 's pb_ostream \<Rightarrow>
   (bool \<times> 's pb_ostream) option" where
  "pb_encode_submessage enc s =
     (case enc (PB_OSTREAM_SIZING (o_state s)) of
        None \<Rightarrow> None
      | Some (False, sub) \<Rightarrow> Some (False, s\<lparr>o_errmsg := o_errmsg sub\<rparr>)
      | Some (True, sub) \<Rightarrow>
          let sz = bytes_written sub in
          then_opt (Some (pb_encode_varint s sz)) (\<lambda>s.
            if o_callback s = None then Some (pb_write s [] sz)
            else if bytes_written s + sz > max_size s then Some (o_error ''stream full'' s)
            else
              (case enc (sub\<lparr>o_callback := o_callback s, o_state := o_state s, max_size := sz,
                            bytes_written := 0, o_errmsg := None\<rparr>) of
                 None \<Rightarrow> None
               | Some (status, sub) \<Rightarrow>
                   let s = s\<lparr>bytes_written := bytes_written s + bytes_written sub,
                             o_state := o_state sub, o_errmsg := o_errmsg sub\<rparr>
                   in if bytes_written sub \<noteq> sz
                      then Some (o_error ''submsg size changed'' s)
                      else Some (status, s))))"

definition pb_enc_submessage ::
  "(pb_field list \<Rightarrow> u64 \<Rightarrow> 's pb_ostream \<Rightarrow> (bool \<times> 's pb_ostream) option) \<Rightarrow> 's enc_env \<Rightarrow>
   's pb_ostream \<Rightarrow> pb_field \<Rightarrow> u64 \<Rightarrow> (bool \<times> 's pb_ostream) option" where
  "pb_enc_submessage enc env s field src =
     (if ptr field = 0 then Some (o_error ''invalid field descriptor'' s)
      else pb_encode_submessage (enc (descs env (ptr field)) src) s)"

text \<open>The dispatch table \<open>PB_ENCODERS\<close>.\<close>

definition PB_ENCODERS ::
  "(pb_field list \<Rightarrow> u64 \<Rightarrow> 's pb_ostream \<Rightarrow> (bool \<times> 's pb_ostream) option) \<Rightarrow> 's enc_env \<Rightarrow> mem \<Rightarrow>
   u8 \<Rightarrow> 's pb_ostream \<Rightarrow> pb_field \<Rightarrow> u64 \<Rightarrow> (bool \<times> 's pb_ostream) option" where
  "PB_ENCODERS enc env h lt s field src =
     (if lt = PB_LTYPE_BOOL then Some (pb_enc_bool h s field src)
      else if lt = PB_LTYPE_VARINT then Some (pb_enc_varint h s field src)
      else if lt = PB_LTYPE_UVARINT then Some (pb_enc_uvarint h s field src)
      else if lt = PB_LTYPE_SVARINT then Some (pb_enc_svarint h s field src)
      else if lt = PB_LTYPE_FIXED32 then Some (pb_enc_fixed32 h s field src)
      else if lt = PB_LTYPE_FIXED64 then Some (pb_enc_fixed64 h s field src)
      else if lt = PB_LTYPE_BYTES then Some (pb_enc_bytes h s field src)
      else if lt = PB_LTYPE_STRING then Some (pb_enc_string h s field src)
      else if lt = PB_LTYPE_SUBMESSAGE then pb_enc_submessage enc env s field src
      else if lt = PB_LTYPE_FIXED_LENGTH_BYTES then Some (pb_enc_fixed_length_bytes h s field src)
      else None)"

section \<open>Arrays\<close>

text \<open>
  \<open>for (i = 0; i < count; i++) { if (!func(stream, field, p)) return false; p += step; }\<close>
\<close>

fun each_item ::
  "(u64 \<Rightarrow> 's pb_ostream \<Rightarrow> (bool \<times> 's pb_ostream) option) \<Rightarrow> u64 \<Rightarrow> u64 \<Rightarrow> nat \<Rightarrow> 's pb_ostream \<Rightarrow>
   (bool \<times> 's pb_ostream) option" where
  "each_item func p step 0 s = Some (True, s)"
| "each_item func p step (Suc n) s = then_opt (func p s) (each_item func (p + step) step n)"

definition encode_array ::
  "mem \<Rightarrow> ('s pb_ostream \<Rightarrow> pb_field \<Rightarrow> u64 \<Rightarrow> (bool \<times> 's pb_ostream) option) \<Rightarrow>
   's pb_ostream \<Rightarrow> pb_field \<Rightarrow> u64 \<Rightarrow> u32 \<Rightarrow> (bool \<times> 's pb_ostream) option" where
  "encode_array h func s field data count =
     (let lt = PB_LTYPE (ftype field); n = unat count; step = ucast (data_size field) :: u64 in
      if count = 0 then Some (True, s)
      else if PB_ATYPE (ftype field) \<noteq> PB_ATYPE_POINTER \<and> count > array_size field
      then Some (o_error ''array max size exceeded'' s)
      else if lt \<le> PB_LTYPE_LAST_PACKABLE then
        then_opt (Some (pb_encode_tag s PB_WT_STRING (tag field))) (\<lambda>s.
          case (if lt = PB_LTYPE_FIXED32 then Some (True, 4 * ucast count)
                else if lt = PB_LTYPE_FIXED64 then Some (True, 8 * ucast count)
                else map_option (\<lambda>(ok, z). (ok, bytes_written z))
                       (each_item (\<lambda>p z. func z field p) data step n (PB_OSTREAM_SIZING (o_state s)))) of
            None \<Rightarrow> None
          | Some (False, _) \<Rightarrow> Some (False, s)
          | Some (True, sz) \<Rightarrow>
              then_opt (Some (pb_encode_varint s sz)) (\<lambda>s.
                if o_callback s = None then Some (pb_write s [] sz)
                else each_item (\<lambda>p s. func s field p) data step n s))
      else
        each_item (\<lambda>p s.
          then_opt (Some (pb_encode_tag_for_field s field)) (\<lambda>s.
            if PB_ATYPE (ftype field) = PB_ATYPE_POINTER \<and>
               (lt = PB_LTYPE_STRING \<or> lt = PB_LTYPE_BYTES)
            then func s field (load_u64 h p)
            else func s field p)) data step n s)"

section \<open>The default-value check of proto3 fields\<close>

definition default_value_catchall :: "mem \<Rightarrow> pb_field \<Rightarrow> u64 \<Rightarrow> bool" where
  "default_value_catchall h field data =
     list_all (\<lambda>b. b = 0) (load_bytes h data (unat (data_size field)))"

fun pb_check_proto3_default_value ::
  "nat \<Rightarrow> (u64 \<Rightarrow> pb_field list) \<Rightarrow> mem \<Rightarrow> pb_field \<Rightarrow> u64 \<Rightarrow> bool option" where
  "pb_check_proto3_default_value 0 ds h field data = None"
| "pb_check_proto3_default_value (Suc fuel) ds h field data =
     (let ty = ftype field; at = PB_ATYPE ty; ht = PB_HTYPE ty; lt = PB_LTYPE ty;
          sizep = data + scast (size_offset field);
          rest =
            (if at = PB_ATYPE_STATIC \<and> lt = PB_LTYPE_BYTES then Some (load_u32 h data = 0)
             else if at = PB_ATYPE_STATIC \<and> lt = PB_LTYPE_STRING then Some (h data = 0)
             else if at = PB_ATYPE_STATIC \<and> lt = PB_LTYPE_FIXED_LENGTH_BYTES
             then Some (data_size field = 0)
             else if at = PB_ATYPE_STATIC \<and> lt = PB_LTYPE_SUBMESSAGE then
               (case pb_field_iter_begin (ds (ptr field)) data of
                  (False, _) \<Rightarrow> Some True
                | (True, it) \<Rightarrow>
                    map_option fst
                      (for_fields (\<lambda>it u. map_option (\<lambda>b. (b, u))
                         (pb_check_proto3_default_value fuel ds h (it_field it) (pData it))) it ()))
             else if at = PB_ATYPE_POINTER \<and> lt > PB_LTYPE_LAST_PACKABLE
             then Some (load_u64 h data = 0)
             else Some (default_value_catchall h field data))
      in
      if ht = PB_HTYPE_REQUIRED then Some False
      else if ht = PB_HTYPE_REPEATED then
        if size_offset field \<noteq> 0 then Some (load_u32 h sizep = 0)
        else if at = PB_ATYPE_STATIC then Some False
        else rest
      else if ht = PB_HTYPE_ONEOF then Some (load_u32 h sizep = 0)
      else if ht = PB_HTYPE_OPTIONAL \<and> size_offset field \<noteq> 0 then Some (\<not> safe_read_bool h sizep)
      else rest)"

section \<open>Fields\<close>

text \<open>
  \<open>encode_basic_field\<close>. \<open>present\<close> is what \<open>safe_read_bool(pSize)\<close> reads: the \<open>has_\<close> variable of the
  struct, or the local \<open>implicit_has\<close>.
\<close>

definition encode_basic_field ::
  "nat \<Rightarrow> (pb_field list \<Rightarrow> u64 \<Rightarrow> 's pb_ostream \<Rightarrow> (bool \<times> 's pb_ostream) option) \<Rightarrow>
   's enc_env \<Rightarrow> mem \<Rightarrow> 's pb_ostream \<Rightarrow> pb_field \<Rightarrow> u64 \<Rightarrow> (bool \<times> 's pb_ostream) option" where
  "encode_basic_field fuel enc env h s field data =
     (let ty = ftype field; ht = PB_HTYPE ty;
          func = PB_ENCODERS enc env h (PB_LTYPE ty);
          sizep = data + scast (size_offset field);
          implicit =
            (if size_offset field \<noteq> 0 then Some True
             else if ht = PB_HTYPE_OPTIONAL
             then map_option Not (pb_check_proto3_default_value fuel (descs env) h field data)
             else Some True);
          is_ptr = (PB_ATYPE ty = PB_ATYPE_POINTER);
          data' = (if is_ptr then load_u64 h data else data);
          one = (\<lambda>s. then_opt (Some (pb_encode_tag_for_field s field)) (\<lambda>s. func s field data'))
      in
      case implicit of
        None \<Rightarrow> None
      | Some implicit_has \<Rightarrow>
          let implicit_has = (if is_ptr then data' \<noteq> 0 else implicit_has);
              present = (if size_offset field \<noteq> 0 then safe_read_bool h sizep else implicit_has)
          in
          if ht = PB_HTYPE_REQUIRED then
            if data' = 0 then Some (o_error ''missing required field'' s) else one s
          else if ht = PB_HTYPE_OPTIONAL then if present then one s else Some (True, s)
          else if ht = PB_HTYPE_REPEATED then
            encode_array h func s field data'
              (if size_offset field \<noteq> 0 then load_u32 h sizep else array_size field)
          else if load_u32 h sizep = tag field then one s
          else Some (True, s))"

definition encode_callback_field ::
  "'s enc_env \<Rightarrow> mem \<Rightarrow> 's pb_ostream \<Rightarrow> pb_field \<Rightarrow> u64 \<Rightarrow> bool \<times> 's pb_ostream" where
  "encode_callback_field env h s field data =
     (if load_u64 h data \<noteq> 0 then
        (case enc_cb env (load_u64 h data) s field (data + 8) of
           (ok, s) \<Rightarrow> if ok then (True, s) else o_error ''callback error'' s)
      else (True, s))"

definition encode_field ::
  "nat \<Rightarrow> (pb_field list \<Rightarrow> u64 \<Rightarrow> 's pb_ostream \<Rightarrow> (bool \<times> 's pb_ostream) option) \<Rightarrow>
   's enc_env \<Rightarrow> mem \<Rightarrow> 's pb_ostream \<Rightarrow> pb_field \<Rightarrow> u64 \<Rightarrow> (bool \<times> 's pb_ostream) option" where
  "encode_field fuel enc env h s field data =
     (if PB_ATYPE (ftype field) = PB_ATYPE_STATIC \<or> PB_ATYPE (ftype field) = PB_ATYPE_POINTER
      then encode_basic_field fuel enc env h s field data
      else if PB_ATYPE (ftype field) = PB_ATYPE_CALLBACK
      then Some (encode_callback_field env h s field data)
      else Some (o_error ''invalid field type'' s))"

definition default_extension_encoder ::
  "nat \<Rightarrow> (pb_field list \<Rightarrow> u64 \<Rightarrow> 's pb_ostream \<Rightarrow> (bool \<times> 's pb_ostream) option) \<Rightarrow>
   's enc_env \<Rightarrow> mem \<Rightarrow> 's pb_ostream \<Rightarrow> u64 \<Rightarrow> (bool \<times> 's pb_ostream) option" where
  "default_extension_encoder fuel enc env h s extension =
     (let field = field_at (descs env (load_u64 h (load_u64 h extension + 16))) 0 in
      if PB_ATYPE (ftype field) = PB_ATYPE_POINTER
      then encode_field fuel enc env h s field (extension + 8)
      else encode_field fuel enc env h s field (load_u64 h (extension + 8)))"

fun extension_loop ::
  "nat \<Rightarrow> nat \<Rightarrow> (pb_field list \<Rightarrow> u64 \<Rightarrow> 's pb_ostream \<Rightarrow> (bool \<times> 's pb_ostream) option) \<Rightarrow>
   's enc_env \<Rightarrow> mem \<Rightarrow> 's pb_ostream \<Rightarrow> u64 \<Rightarrow> (bool \<times> 's pb_ostream) option" where
  "extension_loop 0 fuel enc env h s extension = (if extension = 0 then Some (True, s) else None)"
| "extension_loop (Suc k) fuel enc env h s extension =
     (if extension = 0 then Some (True, s)
      else
        let encode = load_u64 h (load_u64 h extension + 8) in
        then_opt
          (if encode \<noteq> 0 then Some (ext_enc env encode s extension)
           else default_extension_encoder fuel enc env h s extension)
          (\<lambda>s. extension_loop k fuel enc env h s (load_u64 h (extension + 16))))"

definition encode_extension_field ::
  "nat \<Rightarrow> (pb_field list \<Rightarrow> u64 \<Rightarrow> 's pb_ostream \<Rightarrow> (bool \<times> 's pb_ostream) option) \<Rightarrow>
   's enc_env \<Rightarrow> mem \<Rightarrow> 's pb_ostream \<Rightarrow> u64 \<Rightarrow> (bool \<times> 's pb_ostream) option" where
  "encode_extension_field fuel enc env h s data =
     extension_loop fuel fuel enc env h s (load_u64 h data)"

section \<open>Messages\<close>

fun pb_encode ::
  "nat \<Rightarrow> 's enc_env \<Rightarrow> mem \<Rightarrow> pb_field list \<Rightarrow> u64 \<Rightarrow> 's pb_ostream \<Rightarrow>
   (bool \<times> 's pb_ostream) option" where
  "pb_encode 0 env h fs src s = None"
| "pb_encode (Suc fuel) env h fs src s =
     (case pb_field_iter_begin fs src of
        (False, _) \<Rightarrow> Some (True, s)
      | (True, it) \<Rightarrow>
          for_fields (\<lambda>it s.
            if PB_LTYPE (ftype (it_field it)) = PB_LTYPE_EXTENSION
            then encode_extension_field fuel (pb_encode fuel env h) env h s (pData it)
            else encode_field fuel (pb_encode fuel env h) env h s (it_field it) (pData it)) it s)"

definition pb_encode_delimited ::
  "nat \<Rightarrow> 's enc_env \<Rightarrow> mem \<Rightarrow> pb_field list \<Rightarrow> u64 \<Rightarrow> 's pb_ostream \<Rightarrow>
   (bool \<times> 's pb_ostream) option" where
  "pb_encode_delimited fuel env h fs src s = pb_encode_submessage (pb_encode fuel env h fs src) s"

definition pb_encode_nullterminated ::
  "nat \<Rightarrow> 's enc_env \<Rightarrow> mem \<Rightarrow> pb_field list \<Rightarrow> u64 \<Rightarrow> 's pb_ostream \<Rightarrow>
   (bool \<times> 's pb_ostream) option" where
  "pb_encode_nullterminated fuel env h fs src s =
     then_opt (pb_encode fuel env h fs src s) (\<lambda>s. Some (pb_write s [0] 1))"

text \<open>The outer option is the fuel; the inner one is \<open>false\<close> or the value stored in \<open>*size\<close>.\<close>

definition pb_get_encoded_size ::
  "nat \<Rightarrow> 's enc_env \<Rightarrow> mem \<Rightarrow> pb_field list \<Rightarrow> u64 \<Rightarrow> 's \<Rightarrow> u64 option option" where
  "pb_get_encoded_size fuel env h fs src null =
     map_option (\<lambda>(ok, s). if ok then Some (bytes_written s) else None)
       (pb_encode fuel env h fs src (PB_OSTREAM_SIZING null))"

section \<open>The reference encoding\<close>

text \<open>
  The bytes of a message as a function of memory: no streams, no sizing pass. \<open>None\<close> where the
  message has no encoding of its own (an error, a user callback or an extension, which the
  library cannot know the bytes of).
\<close>

fun concat_opt :: "'a list option list \<Rightarrow> 'a list option" where
  "concat_opt [] = Some []"
| "concat_opt (None # xs) = None"
| "concat_opt (Some x # xs) = map_option ((@) x) (concat_opt xs)"

fun item_addrs :: "u64 \<Rightarrow> u64 \<Rightarrow> nat \<Rightarrow> u64 list" where
  "item_addrs p step 0 = []"
| "item_addrs p step (Suc n) = p # item_addrs (p + step) step n"

definition tag_bytes :: "u32 \<Rightarrow> u32 \<Rightarrow> u8 list" where
  "tag_bytes wt t = leb128 (unat t * 8 + unat wt)"

definition wire_type_for :: "u8 \<Rightarrow> u32 option" where
  "wire_type_for lt =
     (if lt \<in> {PB_LTYPE_BOOL, PB_LTYPE_VARINT, PB_LTYPE_UVARINT, PB_LTYPE_SVARINT}
      then Some PB_WT_VARINT
      else if lt = PB_LTYPE_FIXED32 then Some PB_WT_32BIT
      else if lt = PB_LTYPE_FIXED64 then Some PB_WT_64BIT
      else if lt \<in> {PB_LTYPE_BYTES, PB_LTYPE_STRING, PB_LTYPE_SUBMESSAGE, PB_LTYPE_FIXED_LENGTH_BYTES}
      then Some PB_WT_STRING
      else None)"

definition with_length :: "u8 list \<Rightarrow> u8 list" where
  "with_length bs = leb128 (length bs) @ bs"

definition value_bytes ::
  "(pb_field list \<Rightarrow> u64 \<Rightarrow> u8 list option) \<Rightarrow> (u64 \<Rightarrow> pb_field list) \<Rightarrow> mem \<Rightarrow> u8 \<Rightarrow>
   pb_field \<Rightarrow> u64 \<Rightarrow> u8 list option" where
  "value_bytes rec ds h lt field src =
     (if lt = PB_LTYPE_BOOL then Some (leb128 (if h src \<noteq> 0 then 1 else 0))
      else if lt = PB_LTYPE_VARINT then map_option (\<lambda>v. leb128 (unat v)) (load_signed h field src)
      else if lt = PB_LTYPE_UVARINT then map_option (\<lambda>v. leb128 (unat v)) (load_unsigned h field src)
      else if lt = PB_LTYPE_SVARINT
      then map_option (\<lambda>v. leb128 (unat (if sint v < 0 then NOT (push_bit 1 v) else push_bit 1 v)))
             (load_signed h field src)
      else if lt = PB_LTYPE_FIXED32 then Some (load_bytes h src 4)
      else if lt = PB_LTYPE_FIXED64 then Some (load_bytes h src 8)
      else if lt = PB_LTYPE_BYTES then
        if src = 0 then Some [0]
        else if PB_ATYPE (ftype field) = PB_ATYPE_STATIC \<and>
                ucast (load_u32 h src) > (ucast (data_size field) - 4 :: u64) then None
        else Some (with_length (load_bytes h (src + 4) (unat (load_u32 h src))))
      else if lt = PB_LTYPE_STRING
      then Some (with_length (load_bytes h src (string_size h field src)))
      else if lt = PB_LTYPE_SUBMESSAGE then
        if ptr field = 0 then None else map_option with_length (rec (ds (ptr field)) src)
      else if lt = PB_LTYPE_FIXED_LENGTH_BYTES
      then Some (with_length (load_bytes h src (unat (data_size field))))
      else None)"

definition tagged_bytes :: "pb_field \<Rightarrow> u8 list option \<Rightarrow> u8 list option" where
  "tagged_bytes field v =
     (case (wire_type_for (PB_LTYPE (ftype field)), v) of
        (Some wt, Some bs) \<Rightarrow> Some (tag_bytes wt (tag field) @ bs)
      | _ \<Rightarrow> None)"

definition array_bytes ::
  "mem \<Rightarrow> (u64 \<Rightarrow> u8 list option) \<Rightarrow> pb_field \<Rightarrow> u64 \<Rightarrow> u32 \<Rightarrow> u8 list option" where
  "array_bytes h val field data count =
     (let lt = PB_LTYPE (ftype field);
          items = item_addrs data (ucast (data_size field)) (unat count) in
      if count = 0 then Some []
      else if PB_ATYPE (ftype field) \<noteq> PB_ATYPE_POINTER \<and> count > array_size field then None
      else if lt \<le> PB_LTYPE_LAST_PACKABLE
      then map_option (\<lambda>body. tag_bytes PB_WT_STRING (tag field) @ with_length body)
             (concat_opt (map val items))
      else concat_opt (map (\<lambda>p. tagged_bytes field
             (val (if PB_ATYPE (ftype field) = PB_ATYPE_POINTER \<and>
                      (lt = PB_LTYPE_STRING \<or> lt = PB_LTYPE_BYTES)
                   then load_u64 h p else p))) items))"

text \<open>Whether a singular field is present, as the encoder decides it.\<close>

definition field_present ::
  "nat \<Rightarrow> (u64 \<Rightarrow> pb_field list) \<Rightarrow> mem \<Rightarrow> pb_field \<Rightarrow> u64 \<Rightarrow> bool option" where
  "field_present fuel ds h field data =
     (if size_offset field \<noteq> 0 then Some (safe_read_bool h (data + scast (size_offset field)))
      else case pb_check_proto3_default_value fuel ds h field data of
             None \<Rightarrow> None
           | Some dflt \<Rightarrow>
               Some (if PB_ATYPE (ftype field) = PB_ATYPE_POINTER then load_u64 h data \<noteq> 0 else \<not> dflt))"

definition field_bytes ::
  "nat \<Rightarrow> (pb_field list \<Rightarrow> u64 \<Rightarrow> u8 list option) \<Rightarrow> (u64 \<Rightarrow> pb_field list) \<Rightarrow> mem \<Rightarrow>
   pb_field \<Rightarrow> u64 \<Rightarrow> u8 list option" where
  "field_bytes fuel rec ds h field data =
     (let ty = ftype field; ht = PB_HTYPE ty; lt = PB_LTYPE ty;
          sizep = data + scast (size_offset field);
          data' = (if PB_ATYPE ty = PB_ATYPE_POINTER then load_u64 h data else data);
          one = tagged_bytes field (value_bytes rec ds h lt field data')
      in
      if lt = PB_LTYPE_EXTENSION then if load_u64 h data = 0 then Some [] else None
      else if PB_ATYPE ty = PB_ATYPE_CALLBACK then if load_u64 h data = 0 then Some [] else None
      else if PB_ATYPE ty \<noteq> PB_ATYPE_STATIC \<and> PB_ATYPE ty \<noteq> PB_ATYPE_POINTER then None
      else if ht = PB_HTYPE_REQUIRED then if data' = 0 then None else one
      else if ht = PB_HTYPE_OPTIONAL then
        (case field_present fuel ds h field data of
           None \<Rightarrow> None
         | Some present \<Rightarrow> if present then one else Some [])
      else if ht = PB_HTYPE_REPEATED then
        array_bytes h (value_bytes rec ds h lt field) field data'
          (if size_offset field \<noteq> 0 then load_u32 h sizep else array_size field)
      else if load_u32 h sizep = tag field then one
      else Some [])"

fun msg_bytes ::
  "nat \<Rightarrow> (u64 \<Rightarrow> pb_field list) \<Rightarrow> mem \<Rightarrow> pb_field list \<Rightarrow> u64 \<Rightarrow> u8 list option" where
  "msg_bytes 0 ds h fs src = None"
| "msg_bytes (Suc fuel) ds h fs src =
     (if fs = [] then Some []
      else if \<not> wf_fields fs then None
      else concat_opt (map (\<lambda>i. field_bytes fuel (msg_bytes fuel ds h) ds h (fs ! i)
                                 (fst (iter_ptrs fs src i))) [0..<length fs]))"

section \<open>The encoder writes the reference encoding\<close>

definition owrites ::
  "('s \<Rightarrow> u8 list \<Rightarrow> bool \<times> 's) \<Rightarrow> ('s \<Rightarrow> u8 list) \<Rightarrow> ('s \<Rightarrow> nat) \<Rightarrow>
   ('s pb_ostream \<Rightarrow> (bool \<times> 's pb_ostream) option) \<Rightarrow> u8 list \<Rightarrow> bool" where
  "owrites cb out room f bs \<longleftrightarrow>
     (\<forall>s. ready cb room s (length bs) \<longrightarrow>
        (\<exists>t. f s = Some (True, t) \<and> emits out s bs t \<and>
             (o_callback s \<noteq> None \<longrightarrow> room (o_state t) = room (o_state s) - length bs)))"

lemma owritesD:
  assumes "owrites cb out room f bs" and "ready cb room s (length bs)"
  obtains t where "f s = Some (True, t)" and "emits out s bs t"
    and "o_callback s \<noteq> None \<longrightarrow> room (o_state t) = room (o_state s) - length bs"
  using assms unfolding owrites_def by blast

lemma owritesI:
  assumes "\<And>s. ready cb room s (length bs) \<Longrightarrow>
     \<exists>t. f s = Some (True, t) \<and> emits out s bs t \<and>
         (o_callback s \<noteq> None \<longrightarrow> room (o_state t) = room (o_state s) - length bs)"
  shows "owrites cb out room f bs"
  using assms unfolding owrites_def by blast

lemma owrites_the:
  "owrites cb out room f bs \<longleftrightarrow>
     writes cb out room (\<lambda>s. the (f s)) bs \<and> (\<forall>s. ready cb room s (length bs) \<longrightarrow> f s \<noteq> None)"
  unfolding owrites_def writes_def by (metis option.sel option.distinct(1) option.exhaust_sel)

lemma owrites_Some: "writes cb out room f bs \<Longrightarrow> owrites cb out room (\<lambda>s. Some (f s)) bs"
  by (auto simp: owrites_def writes_def)

lemma owrites_nothing: "owrites cb out room (\<lambda>s. Some (True, s)) []"
  by (rule owrites_Some [OF writes_nothing])

lemma owrites_seq:
  assumes f: "owrites cb out room f xs" and g: "owrites cb out room g ys"
  shows "owrites cb out room (\<lambda>s. then_opt (f s) g) (xs @ ys)"
proof (rule owritesI)
  fix s assume r: "ready cb room s (length (xs @ ys))"
  then have rx: "ready cb room s (length xs + length ys)" by simp
  then have "ready cb room s (length xs)" by (rule ready_mono) simp
  with f obtain t where t: "f s = Some (True, t)" "emits out s xs t"
    "o_callback s \<noteq> None \<longrightarrow> room (o_state t) = room (o_state s) - length xs"
    by (rule owritesD)
  from rx t(2,3) have "ready cb room t (length ys)" by (rule ready_after)
  with g obtain u where u: "g t = Some (True, u)" "emits out t ys u"
    "o_callback t \<noteq> None \<longrightarrow> room (o_state u) = room (o_state t) - length ys"
    by (rule owritesD)
  have "o_callback t = o_callback s" using t(2) by (simp add: emits_def)
  with t u show "\<exists>u. then_opt (f s) g = Some (True, u) \<and> emits out s (xs @ ys) u \<and>
      (o_callback s \<noteq> None \<longrightarrow> room (o_state u) = room (o_state s) - length (xs @ ys))"
    by (auto intro: emits_trans)
qed

lemma owrites_if:
  assumes "c \<Longrightarrow> owrites cb out room f bs" and "\<not> c \<Longrightarrow> owrites cb out room g bs"
  shows "owrites cb out room (\<lambda>s. if c then f s else g s) bs"
  using assms by (cases c) simp_all

lemma concat_opt_ConsE:
  assumes "concat_opt (x # xs) = Some bs"
  obtains b c where "x = Some b" and "concat_opt xs = Some c" and "bs = b @ c"
  using assms by (cases x) auto

lemma owrites_fold:
  assumes "concat_opt (map g xs) = Some bs"
    and "\<And>x b. x \<in> set xs \<Longrightarrow> g x = Some b \<Longrightarrow> owrites cb out room (f x) b"
  shows "owrites cb out room (fold_ok f xs) bs"
  using assms
proof (induction xs arbitrary: bs)
  case Nil
  have "fold_ok f [] = (\<lambda>s. Some (True, s))" by (simp add: fun_eq_iff)
  with Nil show ?case using owrites_nothing by simp
next
  case (Cons x xs)
  from Cons.prems(1) obtain b c where b: "g x = Some b" and c: "concat_opt (map g xs) = Some c"
    and bs: "bs = b @ c" by (auto elim: concat_opt_ConsE)
  have "owrites cb out room (f x) b" using Cons.prems(2) b by simp
  moreover have "owrites cb out room (fold_ok f xs) c" using Cons.IH [OF c] Cons.prems(2) by simp
  ultimately have "owrites cb out room (\<lambda>s. then_opt (f x s) (fold_ok f xs)) (b @ c)"
    by (rule owrites_seq)
  moreover have "fold_ok f (x # xs) = (\<lambda>s. then_opt (f x s) (fold_ok f xs))"
    by (simp add: then_opt_def fun_eq_iff)
  ultimately show ?case using bs by simp
qed

lemma owrites_each_item:
  assumes "concat_opt (map g (item_addrs p step n)) = Some bs"
    and "\<And>a b. g a = Some b \<Longrightarrow> owrites cb out room (f a) b"
  shows "owrites cb out room (each_item f p step n) bs"
  using assms(1)
proof (induction n arbitrary: p bs)
  case 0
  have "each_item f p step 0 = (\<lambda>s. Some (True, s))" by (simp add: fun_eq_iff)
  with 0 show ?case using owrites_nothing by simp
next
  case (Suc n)
  from Suc.prems obtain b c where b: "g p = Some b" and bs: "bs = b @ c"
    and c: "concat_opt (map g (item_addrs (p + step) step n)) = Some c"
    by (auto elim: concat_opt_ConsE)
  have "owrites cb out room (\<lambda>s. then_opt (f p s) (each_item f (p + step) step n)) (b @ c)"
    by (rule owrites_seq [OF assms(2) [OF b] Suc.IH [OF c]])
  moreover have "each_item f p step (Suc n) = (\<lambda>s. then_opt (f p s) (each_item f (p + step) step n))"
    by (simp add: fun_eq_iff)
  ultimately show ?case using bs by simp
qed

lemma le_bytes_load:
  "le_bytes 4 (unat (load_u32 h a)) = load_bytes h a 4"
  "le_bytes 8 (unat (load_u64 h a)) = load_bytes h a 8"
proof -
  have "le_nat (load_bytes h a 4) < 256 ^ 4" "le_nat (load_bytes h a 8) < 256 ^ 8"
    using le_nat_less [of "load_bytes h a 4"] le_nat_less [of "load_bytes h a 8"] by simp_all
  then have "unat (load_u32 h a) = le_nat (load_bytes h a 4)"
    "unat (load_u64 h a) = le_nat (load_bytes h a 8)"
    by (simp_all add: load_u32_def load_u64_def unat_of_nat_mod)
  then show "le_bytes 4 (unat (load_u32 h a)) = load_bytes h a 4"
    "le_bytes 8 (unat (load_u64 h a)) = load_bytes h a 8"
    using le_bytes_le_nat [of "load_bytes h a 4"] le_bytes_le_nat [of "load_bytes h a 8"] by simp_all
qed

lemma safe_read_bool_iff: "safe_read_bool h p \<longleftrightarrow> h p \<noteq> 0"
  by (simp add: safe_read_bool_def load_bytes_def)

lemma strnlen_loop_le: "sz \<le> max_sz \<Longrightarrow> strnlen_loop h p max_sz sz \<le> max_sz"
proof (induction h p max_sz sz rule: strnlen_loop.induct)
  case (1 h p max_sz sz)
  then show ?case by (cases "sz < max_sz \<and> h (p + of_nat sz) \<noteq> 0") (auto simp: strnlen_loop.simps [of h p max_sz sz])
qed

lemma string_size_lt: "string_size h field src < 2 ^ 64"
proof -
  have "strnlen_loop h src (unat m) 0 < 2 ^ 64" for m :: u64
    using strnlen_loop_le [of 0 "unat m" h src] unat_u64_lt [of m] by simp
  then show ?thesis by (simp add: string_size_def Let_def)
qed

context ostream_sink
begin

lemma pb_encode_submessage_writes:
  assumes enc: "owrites cb out room enc m"
  shows "owrites cb out room (pb_encode_submessage enc) (with_length m)"
proof (rule owritesI)
  fix s assume r: "ready cb room s (length (with_length m))"
  let ?n = "of_nat (length m) :: u64" and ?l = "leb128 (length m)"
  have m: "length m < 2 ^ 64" using r by (simp add: ready_def with_length_def)
  then have un: "unat ?n = length m" by (rule unat_of_nat_u64_small)
  have "ready cb room (PB_OSTREAM_SIZING (o_state s)) (length m)"
    using m by (simp add: ready_def PB_OSTREAM_SIZING_def)
  with enc obtain z where z: "enc (PB_OSTREAM_SIZING (o_state s)) = Some (True, z)"
    "emits out (PB_OSTREAM_SIZING (o_state s)) m z" by (rule owritesD)
  then have zn: "bytes_written z = ?n" by (simp add: emits_def PB_OSTREAM_SIZING_def)
  have rl: "ready cb room s (length ?l + length m)" using r by (simp add: with_length_def)
  then have "ready cb room s (length (leb128 (unat ?n)))" unfolding un by (rule ready_mono) simp
  with pb_encode_varint_writes [of ?n] obtain t where t: "pb_encode_varint s ?n = (True, t)"
    "emits out s ?l t" "o_callback s \<noteq> None \<longrightarrow> room (o_state t) = room (o_state s) - length ?l"
    by (rule writesD) (simp add: un)
  from rl t(2,3) have rt: "ready cb room t (length m)" by (rule ready_after)
  have cbt: "o_callback t = o_callback s" using t(2) by (simp add: emits_def)
  show "\<exists>u. pb_encode_submessage enc s = Some (True, u) \<and> emits out s (with_length m) u \<and>
      (o_callback s \<noteq> None \<longrightarrow> room (o_state u) = room (o_state s) - length (with_length m))"
  proof (cases "o_callback t")
    case None
    then have w: "pb_write t [] ?n = (True, t\<lparr>bytes_written := bytes_written t + ?n\<rparr>)"
      by (simp add: pb_write_def)
    have "emits out t m (t\<lparr>bytes_written := bytes_written t + ?n\<rparr>)"
      using None by (simp add: emits_def)
    then show ?thesis
      using emits_trans [OF t(2)] z zn t(1) w None cbt
      by (simp add: pb_encode_submessage_def with_length_def)
  next
    case (Some c)
    from rt Some have cap: "unat (bytes_written t) + length m \<le> unat (max_size t)"
      and c: "c = cb" and rm: "length m \<le> room (o_state t)" and err: "o_errmsg t = None"
      by (auto simp: ready_def)
    have "unat (bytes_written t + ?n) = unat (bytes_written t) + length m"
      using cap unat_u64_lt [of "max_size t"] by (intro unat_add_of_nat_u64) simp
    with cap have fit: "\<not> bytes_written t + ?n > max_size t" by (simp add: word_less_nat_alt)
    let ?sub = "z\<lparr>o_callback := o_callback t, o_state := o_state t, max_size := ?n,
        bytes_written := 0, o_errmsg := None\<rparr>"
    have "ready cb room ?sub (length m)" using Some c rm m un by (simp add: ready_def)
    with enc obtain u where u: "enc ?sub = Some (True, u)" "emits out ?sub m u"
      "room (o_state u) = room (o_state t) - length m"
      by (rule owritesD) (simp add: Some)
    let ?t = "t\<lparr>bytes_written := bytes_written t + bytes_written u, o_state := o_state u,
        o_errmsg := o_errmsg u\<rparr>"
    have un': "bytes_written u = ?n" using u(2) by (simp add: emits_def)
    have "emits out t m ?t" using u(2) Some err by (simp add: emits_def)
    moreover have "pb_encode_submessage enc s = Some (True, ?t)"
      using z zn t(1) Some fit u(1) un' by (simp add: pb_encode_submessage_def Let_def)
    ultimately show ?thesis
      using emits_trans [OF t(2), of m ?t] t(3) u(3) by (auto simp: with_length_def)
  qed
qed

lemma encoded_string_writes:
  assumes "unat n = length bs"
  shows "writes cb out room (\<lambda>s. pb_encode_string s bs n) (with_length bs)"
proof -
  have "n = of_nat (length bs)" by (simp flip: assms)
  then show ?thesis
    unfolding with_length_def using pb_encode_string_writes [of bs] by (simp only:)
qed

lemma pb_encode_tag_writes:
  "unat wt < 8 \<Longrightarrow> writes cb out room (\<lambda>s. pb_encode_tag s wt t) (tag_bytes wt t)"
  unfolding pb_encode_tag_def tag_bytes_def
  using pb_encode_varint_writes [of "push_bit 3 (ucast t) OR ucast wt"] by (simp only: unat_tag)

lemma tag_for_field_writes:
  assumes "wire_type_for (PB_LTYPE (ftype field)) = Some wt"
  shows "writes cb out room (\<lambda>s. pb_encode_tag_for_field s field) (tag_bytes wt (tag field))"
proof -
  have "pb_encode_tag_for_field s field = pb_encode_tag s wt (tag field)" for s :: "'s pb_ostream"
    using assms by (auto simp: pb_encode_tag_for_field_def wire_type_for_def Let_def split: if_splits)
  moreover have "unat wt < 8" using assms by (auto simp: wire_type_for_def split: if_splits)
  ultimately show ?thesis using pb_encode_tag_writes by simp
qed

end

lemma length_fixed_items:
  "concat_opt (map (\<lambda>a. Some (load_bytes h a k)) (item_addrs p step n)) = Some bs \<Longrightarrow> length bs = k * n"
  by (induction n arbitrary: p bs) auto

context ostream_sink
begin

lemma PB_ENCODERS_writes:
  assumes v: "value_bytes rec ds h lt field src = Some bs"
    and rec: "\<And>fs a m. rec fs a = Some m \<Longrightarrow> owrites cb out room (enc fs a) m"
    and ds: "descs env = ds"
  shows "owrites cb out room (\<lambda>s. PB_ENCODERS enc env h lt s field src) bs"
proof -
  consider "lt = PB_LTYPE_BOOL" | "lt = PB_LTYPE_VARINT" | "lt = PB_LTYPE_UVARINT"
    | "lt = PB_LTYPE_SVARINT" | "lt = PB_LTYPE_FIXED32" | "lt = PB_LTYPE_FIXED64"
    | "lt = PB_LTYPE_BYTES" | "lt = PB_LTYPE_STRING" | "lt = PB_LTYPE_SUBMESSAGE"
    | "lt = PB_LTYPE_FIXED_LENGTH_BYTES"
    using v by (auto simp: value_bytes_def split: if_splits)
  then show ?thesis
  proof cases
    case 1
    then show ?thesis
      using v pb_encode_varint_writes [of "if h src \<noteq> 0 then 1 else 0"]
      by (auto simp: PB_ENCODERS_def value_bytes_def pb_enc_bool_def safe_read_bool_iff
          intro!: owrites_Some split: if_splits)
  next
    case 2
    then obtain w where "load_signed h field src = Some w" "bs = leb128 (unat w)"
      using v by (auto simp: value_bytes_def)
    with 2 pb_encode_varint_writes [of w] show ?thesis
      by (auto simp: PB_ENCODERS_def pb_enc_varint_def intro: owrites_Some)
  next
    case 3
    then obtain w where "load_unsigned h field src = Some w" "bs = leb128 (unat w)"
      using v by (auto simp: value_bytes_def)
    with 3 pb_encode_varint_writes [of w] show ?thesis
      by (auto simp: PB_ENCODERS_def pb_enc_uvarint_def intro: owrites_Some)
  next
    case 4
    then obtain w where w: "load_signed h field src = Some w"
      "bs = leb128 (unat (if sint w < 0 then NOT (push_bit 1 w) else push_bit 1 w))"
      using v by (auto simp: value_bytes_def)
    have "writes cb out room (\<lambda>s. pb_encode_svarint s w) bs"
      unfolding w(2) pb_encode_svarint_def by (rule pb_encode_varint_writes)
    with 4 w(1) show ?thesis by (auto simp: PB_ENCODERS_def pb_enc_svarint_def intro: owrites_Some)
  next
    case 5
    with v pb_write_writes [of "load_bytes h src 4"] show ?thesis
      by (auto simp: PB_ENCODERS_def value_bytes_def pb_enc_fixed32_def pb_encode_fixed32_le
          le_bytes_load intro: owrites_Some)
  next
    case 6
    with v pb_write_writes [of "load_bytes h src 8"] show ?thesis
      by (auto simp: PB_ENCODERS_def value_bytes_def pb_enc_fixed64_def pb_encode_fixed64_le
          le_bytes_load intro: owrites_Some)
  next
    case 7
    show ?thesis
    proof (cases "src = 0")
      case True
      have "with_length [] = [0]" by (simp add: with_length_def leb128.simps [of 0])
      with encoded_string_writes [of 0 "[]"] 7 True v show ?thesis
        by (auto simp: PB_ENCODERS_def value_bytes_def pb_enc_bytes_def intro: owrites_Some)
    next
      case False
      with encoded_string_writes [of "ucast (load_u32 h src)" "load_bytes h (src + 4) (unat (load_u32 h src))"] 7 v
      show ?thesis
        by (auto simp: PB_ENCODERS_def value_bytes_def pb_enc_bytes_def Let_def unat_ucast_up
            intro!: owrites_Some split: if_splits)
    qed
  next
    case 8
    let ?n = "string_size h field src"
    have "unat (of_nat ?n :: u64) = ?n" using string_size_lt by (rule unat_of_nat_u64_small)
    with encoded_string_writes [of "of_nat ?n" "load_bytes h src ?n"] 8 v show ?thesis
      by (auto simp: PB_ENCODERS_def value_bytes_def pb_enc_string_def Let_def intro: owrites_Some)
  next
    case 9
    with v obtain m where p: "ptr field \<noteq> 0" "rec (ds (ptr field)) src = Some m" "bs = with_length m"
      by (auto simp: value_bytes_def split: if_splits)
    from pb_encode_submessage_writes [OF rec [OF p(2)]] p 9 ds show ?thesis
      by (simp add: PB_ENCODERS_def pb_enc_submessage_def)
  next
    case 10
    with encoded_string_writes [of "ucast (data_size field)" "load_bytes h src (unat (data_size field))"] v
    show ?thesis
      by (auto simp: PB_ENCODERS_def value_bytes_def pb_enc_fixed_length_bytes_def unat_ucast_up
          intro: owrites_Some)
  qed
qed

lemma tagged_writes:
  assumes "tagged_bytes field v = Some bs" and "\<And>b. v = Some b \<Longrightarrow> owrites cb out room f b"
  shows "owrites cb out room (\<lambda>s. then_opt (Some (pb_encode_tag_for_field s field)) f) bs"
proof -
  from assms(1) obtain wt b where "wire_type_for (PB_LTYPE (ftype field)) = Some wt" "v = Some b"
    "bs = tag_bytes wt (tag field) @ b"
    by (auto simp: tagged_bytes_def split: option.splits)
  with owrites_seq [OF owrites_Some [OF tag_for_field_writes] assms(2)] show ?thesis by simp
qed

lemma packed_body_writes:
  assumes "owrites cb out room items body"
  shows "owrites cb out room (\<lambda>s. then_opt (Some (pb_encode_varint s (of_nat (length body)))) (\<lambda>s.
           if o_callback s = None then Some (pb_write s [] (of_nat (length body))) else items s))
         (with_length body)"
proof (cases "length body < 2 ^ 64")
  case False
  then show ?thesis by (simp add: owrites_def ready_def with_length_def)
next
  case True
  then have "writes cb out room (\<lambda>s. pb_encode_varint s (of_nat (length body))) (leb128 (length body))"
    using pb_encode_varint_writes [of "of_nat (length body)"] by (simp only: unat_of_nat_u64_small)
  moreover have "owrites cb out room (\<lambda>s. if o_callback s = None
      then Some (pb_write s [] (of_nat (length body))) else items s) body"
  proof (rule owritesI)
    fix s assume r: "ready cb room s (length body)"
    show "\<exists>t. (if o_callback s = None then Some (pb_write s [] (of_nat (length body))) else items s) =
          Some (True, t) \<and> emits out s body t \<and>
        (o_callback s \<noteq> None \<longrightarrow> room (o_state t) = room (o_state s) - length body)"
    proof (cases "o_callback s = None")
      case True
      then show ?thesis by (simp add: pb_write_def emits_def)
    next
      case False
      from assms r obtain t where "items s = Some (True, t)" "emits out s body t"
        "o_callback s \<noteq> None \<longrightarrow> room (o_state t) = room (o_state s) - length body"
        by (rule owritesD)
      with False show ?thesis by auto
    qed
  qed
  ultimately show ?thesis
    unfolding with_length_def by (intro owrites_seq owrites_Some)
qed

lemma sizing_items:
  assumes "owrites cb out room items body" and "length body < 2 ^ 64"
  shows "\<exists>z. items (PB_OSTREAM_SIZING null) = Some (True, z) \<and> bytes_written z = of_nat (length body)"
proof -
  have "ready cb room (PB_OSTREAM_SIZING null) (length body)"
    using assms(2) by (simp add: ready_def PB_OSTREAM_SIZING_def)
  with assms(1) obtain z where "items (PB_OSTREAM_SIZING null) = Some (True, z)"
    "emits out (PB_OSTREAM_SIZING null) body z" by (rule owritesD)
  then show ?thesis by (simp add: emits_def PB_OSTREAM_SIZING_def)
qed

end

text \<open>The size the encoder computes for a packed array is the size of its body.\<close>

lemma value_bytes_fixed:
  "value_bytes rec ds h PB_LTYPE_FIXED32 field = (\<lambda>a. Some (load_bytes h a 4))"
  "value_bytes rec ds h PB_LTYPE_FIXED64 field = (\<lambda>a. Some (load_bytes h a 8))"
  by (simp_all add: value_bytes_def fun_eq_iff)

lemma packed_fixed_length:
  assumes "concat_opt (map (value_bytes rec ds h lt field) (item_addrs p step n)) = Some body"
  shows "lt = PB_LTYPE_FIXED32 \<Longrightarrow> length body = 4 * n"
    and "lt = PB_LTYPE_FIXED64 \<Longrightarrow> length body = 8 * n"
  using assms length_fixed_items by (auto simp: value_bytes_fixed)

lemma ucast_eq_of_nat: "(ucast (x :: u32) :: u64) = of_nat (unat x)"
  by (rule word_eq_unatI) (use unat_u32_lt [of x] in \<open>simp add: unat_ucast_up unat_of_nat_u64_small\<close>)

context ostream_sink
begin

lemma packed_array_writes:
  assumes lt: "lt = PB_LTYPE (ftype field)"
    and items: "owrites cb out room items body"
    and f32: "lt = PB_LTYPE_FIXED32 \<Longrightarrow> length body = 4 * unat count"
    and f64: "lt = PB_LTYPE_FIXED64 \<Longrightarrow> length body = 8 * unat count"
  shows "owrites cb out room (\<lambda>s.
        then_opt (Some (pb_encode_tag s PB_WT_STRING (tag field))) (\<lambda>s.
          case (if lt = PB_LTYPE_FIXED32 then Some (True, 4 * ucast (count :: u32))
                else if lt = PB_LTYPE_FIXED64 then Some (True, 8 * ucast count)
                else map_option (\<lambda>(ok, z). (ok, bytes_written z)) (items (PB_OSTREAM_SIZING (o_state s)))) of
            None \<Rightarrow> None
          | Some (False, _) \<Rightarrow> Some (False, s)
          | Some (True, sz) \<Rightarrow>
              then_opt (Some (pb_encode_varint s sz)) (\<lambda>s.
                if o_callback s = None then Some (pb_write s [] sz) else items s)))
      (tag_bytes PB_WT_STRING (tag field) @ with_length body)"
    (is "owrites _ _ _ (\<lambda>s. then_opt (?tag s) ?rest) _")
proof (rule owrites_seq)
  show "owrites cb out room ?tag (tag_bytes PB_WT_STRING (tag field))"
    by (intro owrites_Some pb_encode_tag_writes) simp
  show "owrites cb out room ?rest (with_length body)"
  proof (rule owritesI)
    fix s assume r: "ready cb room s (length (with_length body))"
    then have body: "length body < 2 ^ 64" by (simp add: ready_def with_length_def)
    let ?n = "of_nat (length body) :: u64"
    have eq: "?rest s = then_opt (Some (pb_encode_varint s ?n)) (\<lambda>s.
        if o_callback s = None then Some (pb_write s [] ?n) else items s)"
    proof -
      consider "lt = PB_LTYPE_FIXED32" | "lt = PB_LTYPE_FIXED64"
        | "lt \<noteq> PB_LTYPE_FIXED32" "lt \<noteq> PB_LTYPE_FIXED64" by blast
      then show ?thesis
      proof cases
        case 1
        with f32 have "?n = 4 * ucast count" by (simp only: ucast_eq_of_nat of_nat_mult of_nat_numeral)
        with 1 show ?thesis by (simp cong: if_cong)
      next
        case 2
        with f64 have "?n = 8 * ucast count" by (simp only: ucast_eq_of_nat of_nat_mult of_nat_numeral)
        with 2 show ?thesis by (simp cong: if_cong)
      next
        case 3
        with sizing_items [OF items body, of "o_state s"] show ?thesis by (auto cong: if_cong)
      qed
    qed
    from packed_body_writes [OF items] r obtain t where
      "?rest s = Some (True, t)" "emits out s (with_length body) t"
      "o_callback s \<noteq> None \<longrightarrow> room (o_state t) = room (o_state s) - length (with_length body)"
      unfolding eq by (rule owritesD)
    then show "\<exists>t. ?rest s = Some (True, t) \<and> emits out s (with_length body) t \<and>
      (o_callback s \<noteq> None \<longrightarrow> room (o_state t) = room (o_state s) - length (with_length body))"
      by blast
  qed
qed

end

context ostream_sink
begin

lemma encode_array_writes:
  assumes a: "array_bytes h val field data count = Some bs"
    and val: "\<And>p b. val p = Some b \<Longrightarrow> owrites cb out room (\<lambda>s. func s field p) b"
    and v: "val = value_bytes rec ds h (PB_LTYPE (ftype field)) field"
  shows "owrites cb out room (\<lambda>s. encode_array h func s field data count) bs"
proof -
  let ?lt = "PB_LTYPE (ftype field)" and ?step = "ucast (data_size field) :: u64"
  let ?ptr = "PB_ATYPE (ftype field) = PB_ATYPE_POINTER \<and>
      (?lt = PB_LTYPE_STRING \<or> ?lt = PB_LTYPE_BYTES)"
  consider "count = 0"
    | "count \<noteq> 0" "\<not> (PB_ATYPE (ftype field) \<noteq> PB_ATYPE_POINTER \<and> count > array_size field)"
      "?lt \<le> PB_LTYPE_LAST_PACKABLE"
    | "count \<noteq> 0" "\<not> (PB_ATYPE (ftype field) \<noteq> PB_ATYPE_POINTER \<and> count > array_size field)"
      "\<not> ?lt \<le> PB_LTYPE_LAST_PACKABLE"
    using a by (auto simp: array_bytes_def Let_def split: if_splits)
  then show ?thesis
  proof cases
    case 1
    with a show ?thesis using owrites_nothing by (simp add: array_bytes_def encode_array_def)
  next
    case 2
    with a obtain body where
      body: "concat_opt (map val (item_addrs data ?step (unat count))) = Some body"
      and bs: "bs = tag_bytes PB_WT_STRING (tag field) @ with_length body"
      by (auto simp: array_bytes_def Let_def)
    note len = packed_fixed_length [OF body [unfolded v]]
    have "owrites cb out room (each_item (\<lambda>p s. func s field p) data ?step (unat count)) body"
      using body val by (rule owrites_each_item)
    from packed_array_writes [OF refl this len] 2 bs show ?thesis
      by (simp only: encode_array_def Let_def if_False if_True)
  next
    case 3
    have "concat_opt (map (\<lambda>p. tagged_bytes field (val (if ?ptr then load_u64 h p else p)))
        (item_addrs data ?step (unat count))) = Some bs"
      using a 3 by (simp only: array_bytes_def Let_def if_False)
    then have "owrites cb out room (each_item (\<lambda>p s.
          then_opt (Some (pb_encode_tag_for_field s field)) (\<lambda>s.
            if ?ptr then func s field (load_u64 h p) else func s field p))
        data ?step (unat count)) bs"
    proof (rule owrites_each_item)
      fix p b assume "tagged_bytes field (val (if ?ptr then load_u64 h p else p)) = Some b"
      then show "owrites cb out room (\<lambda>s. then_opt (Some (pb_encode_tag_for_field s field)) (\<lambda>s.
            if ?ptr then func s field (load_u64 h p) else func s field p)) b"
        by (rule tagged_writes) (rule owrites_if; simp add: val split: if_splits)
    qed
    with 3 show ?thesis by (simp only: encode_array_def Let_def if_False)
  qed
qed

lemma encode_basic_field_writes:
  assumes b: "field_bytes fuel rec (descs env) h field data = Some bs"
    and rec: "\<And>fs a m. rec fs a = Some m \<Longrightarrow> owrites cb out room (enc fs a) m"
    and at: "PB_ATYPE (ftype field) = PB_ATYPE_STATIC \<or> PB_ATYPE (ftype field) = PB_ATYPE_POINTER"
    and lt: "PB_LTYPE (ftype field) \<noteq> PB_LTYPE_EXTENSION"
  shows "owrites cb out room (\<lambda>s. encode_basic_field fuel enc env h s field data) bs"
proof -
  let ?val = "value_bytes rec (descs env) h (PB_LTYPE (ftype field)) field"
  let ?func = "PB_ENCODERS enc env h (PB_LTYPE (ftype field))"
  let ?data = "if PB_ATYPE (ftype field) = PB_ATYPE_POINTER then load_u64 h data else data"
  have val: "?val p = Some c \<Longrightarrow> owrites cb out room (\<lambda>s. ?func s field p) c" for p c
    by (rule PB_ENCODERS_writes [OF _ rec]) simp_all
  have one: "tagged_bytes field (?val ?data) = Some bs \<Longrightarrow>
      owrites cb out room
        (\<lambda>s. then_opt (Some (pb_encode_tag_for_field s field)) (\<lambda>s. ?func s field ?data)) bs"
    by (rule tagged_writes [OF _ val])
  have arr: "array_bytes h ?val field ?data c = Some bs \<Longrightarrow>
      owrites cb out room (\<lambda>s. encode_array h ?func s field ?data c) bs" for c
    by (rule encode_array_writes [where val = ?val]) (simp_all add: val)
  let ?ht = "PB_HTYPE (ftype field)"
  consider "?ht = PB_HTYPE_REQUIRED" | "?ht = PB_HTYPE_OPTIONAL" | "?ht = PB_HTYPE_REPEATED"
    | "?ht \<noteq> PB_HTYPE_REQUIRED" "?ht \<noteq> PB_HTYPE_OPTIONAL" "?ht \<noteq> PB_HTYPE_REPEATED" by blast
  then show ?thesis
  proof cases
    case 1
    then have "?data \<noteq> 0" "tagged_bytes field (?val ?data) = Some bs"
      using b lt at by (auto simp: field_bytes_def Let_def split: if_splits)
    with 1 one show ?thesis by (simp add: encode_basic_field_def Let_def)
  next
    case 2
    then obtain present where p: "field_present fuel (descs env) h field data = Some present"
      "(if present then tagged_bytes field (?val ?data) else Some []) = Some bs"
      using b lt at by (auto simp: field_bytes_def Let_def split: if_splits option.splits)
    have "encode_basic_field fuel enc env h s field data =
        (if present then then_opt (Some (pb_encode_tag_for_field s field)) (\<lambda>s. ?func s field ?data)
         else Some (True, s))" for s
      using p(1) 2 by (auto simp: encode_basic_field_def field_present_def Let_def
          split: if_splits option.splits)
    with p(2) one owrites_nothing show ?thesis by (auto split: if_splits)
  next
    case 3
    with b lt at arr show ?thesis
      by (auto simp: encode_basic_field_def field_bytes_def Let_def split: if_splits)
  next
    case 4
    with b lt at one owrites_nothing show ?thesis
      by (auto simp: encode_basic_field_def field_bytes_def Let_def split: if_splits)
  qed
qed

end

lemma extension_loop_null: "extension_loop k fuel enc env h s 0 = Some (True, s)"
  by (cases k) simp_all

context ostream_sink
begin

lemma field_writes:
  assumes b: "field_bytes fuel rec (descs env) h field data = Some bs"
    and rec: "\<And>fs a m. rec fs a = Some m \<Longrightarrow> owrites cb out room (enc fs a) m"
  shows "owrites cb out room (\<lambda>s.
     if PB_LTYPE (ftype field) = PB_LTYPE_EXTENSION then encode_extension_field fuel enc env h s data
     else encode_field fuel enc env h s field data) bs"
proof (rule owrites_if)
  assume "PB_LTYPE (ftype field) = PB_LTYPE_EXTENSION"
  with b have "load_u64 h data = 0" "bs = []" by (auto simp: field_bytes_def Let_def split: if_splits)
  then show "owrites cb out room (\<lambda>s. encode_extension_field fuel enc env h s data) bs"
    using owrites_nothing by (simp add: encode_extension_field_def extension_loop_null)
next
  assume lt: "PB_LTYPE (ftype field) \<noteq> PB_LTYPE_EXTENSION"
  show "owrites cb out room (\<lambda>s. encode_field fuel enc env h s field data) bs"
  proof (cases "PB_ATYPE (ftype field) = PB_ATYPE_CALLBACK")
    case True
    with b lt have "load_u64 h data = 0" "bs = []"
      by (auto simp: field_bytes_def Let_def split: if_splits)
    with True show ?thesis
      using owrites_nothing by (simp add: encode_field_def encode_callback_field_def)
  next
    case False
    with b lt have at: "PB_ATYPE (ftype field) = PB_ATYPE_STATIC \<or> PB_ATYPE (ftype field) = PB_ATYPE_POINTER"
      by (auto simp: field_bytes_def Let_def split: if_splits)
    from encode_basic_field_writes [OF b rec at lt] at show ?thesis
      by (simp only: encode_field_def if_True)
  qed
qed

lemma pb_encode_writes:
  "msg_bytes fuel (descs env) h fs src = Some bs \<Longrightarrow> owrites cb out room (pb_encode fuel env h fs src) bs"
proof (induction fuel arbitrary: fs src bs)
  case 0
  then show ?case by simp
next
  case (Suc fuel)
  show ?case
  proof (cases "fs = []")
    case True
    have "pb_encode (Suc fuel) env h [] src = (\<lambda>s. Some (True, s))"
      using iter_begin_empty [of src] by (auto simp: fun_eq_iff split: prod.splits)
    with Suc.prems True owrites_nothing show ?thesis by simp
  next
    case False
    let ?f = "\<lambda>i s. if PB_LTYPE (ftype (fs ! i)) = PB_LTYPE_EXTENSION
        then encode_extension_field fuel (pb_encode fuel env h) env h s (fst (iter_ptrs fs src i))
        else encode_field fuel (pb_encode fuel env h) env h s (fs ! i) (fst (iter_ptrs fs src i))"
    from Suc.prems False have wf: "wf_fields fs" by (auto split: if_splits)
    have "pb_encode (Suc fuel) env h fs src s = fold_ok ?f [0..<length fs] s" for s
    proof -
      have "pb_encode (Suc fuel) env h fs src s = fold_ok (\<lambda>i s.
            if PB_LTYPE (ftype (it_field (iter_at fs src i))) = PB_LTYPE_EXTENSION
            then encode_extension_field fuel (pb_encode fuel env h) env h s (pData (iter_at fs src i))
            else encode_field fuel (pb_encode fuel env h) env h s (it_field (iter_at fs src i))
                   (pData (iter_at fs src i))) [0..<length fs] s"
        using False by (simp add: iter_begin_at [OF wf] for_fields_fold [OF wf])
      also have "\<dots> = fold_ok ?f [0..<length fs] s"
        by (rule fold_ok_cong) (simp add: fun_eq_iff)
      finally show ?thesis .
    qed
    then have "pb_encode (Suc fuel) env h fs src = fold_ok ?f [0..<length fs]" by (simp add: fun_eq_iff)
    moreover have "owrites cb out room (fold_ok ?f [0..<length fs]) bs"
    proof (rule owrites_fold)
      show "concat_opt (map (\<lambda>i. field_bytes fuel (msg_bytes fuel (descs env) h) (descs env) h (fs ! i)
          (fst (iter_ptrs fs src i))) [0..<length fs]) = Some bs"
        using Suc.prems False wf by simp
    qed (erule field_writes, rule Suc.IH)
    ultimately show ?thesis by simp
  qed
qed

end

section \<open>Properties of the encoder\<close>

lemma owrites_buffer:
  assumes "owrites buf_write (buf_out b) (buf_room b cap) f bs" and "length bs \<le> unat cap"
  shows "\<exists>t. f (pb_ostream_from_buffer h b cap) = Some (True, t) \<and>
             bytes_written t = of_nat (length bs) \<and> load_bytes (fst (o_state t)) b (length bs) = bs"
proof -
  from assms(1) ready_from_buffer [OF assms(2)] obtain u where
    u: "f (pb_ostream_from_buffer h b cap) = Some (True, u)" by (rule owritesD)
  have "writes buf_write (buf_out b) (buf_room b cap) (\<lambda>s. the (f s)) bs"
    using assms(1) by (simp add: owrites_the)
  from writes_buffer [OF this assms(2), of h] u show ?thesis by simp
qed

text \<open>
  C1. The encoder refines the reference encoding: whatever the message, its nested submessages,
  arrays and optional fields, \<open>pb_encode\<close> into a buffer that is large enough returns true, and
  the bytes in the buffer are exactly \<open>msg_bytes\<close>. In particular the two passes over every
  submessage and packed array agree on the size.
\<close>

theorem pb_encode_refines:
  assumes "msg_bytes fuel (descs env) h fs src = Some bs" and "length bs \<le> unat cap"
  shows "\<exists>t. pb_encode fuel env h fs src (pb_ostream_from_buffer h' b cap) = Some (True, t) \<and>
             bytes_written t = of_nat (length bs) \<and> load_bytes (fst (o_state t)) b (length bs) = bs"
  using bufo.pb_encode_writes [OF assms(1)] assms(2) by (rule owrites_buffer)

text \<open>A message with a required \<open>uint32\<close>, an optional string and an optional submessage.\<close>

definition demo_fields :: "pb_field list" where
  "demo_fields =
     [\<lparr>tag = 1, ftype = PB_LTYPE_UVARINT, data_offset = 0, size_offset = 0, data_size = 4,
       array_size = 0, ptr = 0\<rparr>,
      \<lparr>tag = 2, ftype = PB_HTYPE_OPTIONAL OR PB_LTYPE_STRING, data_offset = 1, size_offset = - 1,
       data_size = 3, array_size = 0, ptr = 0\<rparr>,
      \<lparr>tag = 3, ftype = PB_HTYPE_OPTIONAL OR PB_LTYPE_SUBMESSAGE, data_offset = 1, size_offset = - 1,
       data_size = 4, array_size = 0, ptr = 0x500\<rparr>]"

definition demo_sub :: "pb_field list" where
  "demo_sub = [\<lparr>tag = 7, ftype = PB_LTYPE_SVARINT, data_offset = 0, size_offset = 0, data_size = 4,
     array_size = 0, ptr = 0\<rparr>]"

definition demo_env :: "'s enc_env" where
  "demo_env = \<lparr>descs = (\<lambda>a. if a = 0x500 then demo_sub else []),
     enc_cb = (\<lambda>_ s _ _. (False, s)), ext_enc = (\<lambda>_ s _. (False, s))\<rparr>"

definition demo_mem :: mem where
  "demo_mem a = (if a = 0x100 then 0x2C else if a = 0x101 then 1 else if a = 0x104 then 1
     else if a = 0x105 then 0x68 else if a = 0x106 then 0x69 else if a = 0x108 then 1
     else if a = 0x109 then 5 else 0)"

definition demo_bytes :: "u8 list" where
  "demo_bytes = [0x08, 0xAC, 0x02, 0x12, 2, 0x68, 0x69, 0x1A, 2, 0x38, 10]"

lemma length_demo_bytes [simp]: "length demo_bytes = 11"
  by (simp add: demo_bytes_def)

lemma demo_msg_bytes:
  "msg_bytes 3 (descs demo_env) demo_mem demo_fields 0x100 =
     Some demo_bytes"
  by code_simp

theorem pb_encode_refines_witness:
  "\<exists>t. pb_encode 3 demo_env demo_mem demo_fields 0x100 (pb_ostream_from_buffer demo_mem 0x1000 16) =
         Some (True, t) \<and> bytes_written t = 11 \<and>
       load_bytes (fst (o_state t)) 0x1000 11 = demo_bytes"
  using pb_encode_refines [OF demo_msg_bytes, of 16 demo_mem "0x1000"] by simp



text \<open>
  \<open>pb_encode_delimited\<close> writes the length as a varint and then the message: a buffer of
  the size of the message plus ten bytes always suffices, and the prefix is the exact length.
\<close>

theorem delimited_refines:
  assumes "msg_bytes fuel (descs env) h fs src = Some bs" and "length bs + 10 \<le> unat cap"
  shows "\<exists>t. pb_encode_delimited fuel env h fs src (pb_ostream_from_buffer h' b cap) = Some (True, t) \<and>
             load_bytes (fst (o_state t)) b (unat (bytes_written t)) = leb128 (length bs) @ bs"
proof -
  have "owrites buf_write (buf_out b) (buf_room b cap) (pb_encode_delimited fuel env h fs src)
      (with_length bs)"
    using bufo.pb_encode_submessage_writes [OF bufo.pb_encode_writes [OF assms(1)]]
    by (simp add: pb_encode_delimited_def [abs_def])
  moreover have lt: "length bs < 2 ^ 64" and len: "length (with_length bs) \<le> unat cap"
    using assms(2) unat_u64_lt [of cap] length_leb128_u64 [of "of_nat (length bs)"]
    by (simp_all add: with_length_def unat_of_nat_u64_small)
  ultimately obtain t where "pb_encode_delimited fuel env h fs src (pb_ostream_from_buffer h' b cap) =
      Some (True, t)" "bytes_written t = of_nat (length (with_length bs))"
    "load_bytes (fst (o_state t)) b (length (with_length bs)) = with_length bs"
    using owrites_buffer by blast
  moreover have "length (with_length bs) < 2 ^ 64" using len unat_u64_lt [of cap] by simp
  ultimately show ?thesis
    by (simp add: unat_of_nat_u64_small flip: with_length_def)
qed

theorem delimited_refines_witness:
  "\<exists>t. pb_encode_delimited 3 demo_env demo_mem demo_fields 0x100
         (pb_ostream_from_buffer demo_mem 0x1000 32) = Some (True, t) \<and>
       load_bytes (fst (o_state t)) 0x1000 (unat (bytes_written t)) =
         leb128 11 @ demo_bytes"
  using delimited_refines [OF demo_msg_bytes, of 32 demo_mem "0x1000"] by simp

end
