(* ===== verification/PbDecode.thy ===== *)
theory PbDecode
  imports PbWire PbCommon
begin

unbundle bit_operations_syntax

text \<open>
  The message decoder of nanopb (pb_decode.c from \<open>decode_static_field\<close> on). The state of a decoder
  is its input stream, the memory that holds the message structs, and the live heap blocks.

  The allocator is modelled up to the choice of addresses: \<open>pick\<close> is a parameter that returns the
  address of a new block, or the null pointer; \<open>realloc\<close> copies the old contents and \<open>free\<close> removes the
  block. Freeing or growing an address that is not a live block is undefined in C. User callbacks and
  extension decoders are parameters found by their function pointer. The local variable
  \<open>fixed_count_size\<close> of \<open>pb_decode_noinit\<close>, whose address is stored in the iterator, lives at \<open>frame k\<close>
  in the activation that has \<open>k\<close> levels of fuel left.

  Results are \<open>Some (ok, state)\<close>; \<open>None\<close> is a call that does not return or is undefined: the fuel is
  used up, a null entry of \<open>PB_DECODERS\<close> is called, a division by a zero \<open>data_size\<close>, a bad \<open>free\<close>.
\<close>

section \<open>State and allocator\<close>

record 's dstate =
  dstr :: "'s pb_istream"
  dmem :: mem
  blocks :: "(u64 \<times> nat) list"

record 's dec_env =
  ddescs :: "u64 \<Rightarrow> pb_field list"
  dec_cb :: "u64 \<Rightarrow> 's pb_istream \<Rightarrow> pb_field \<Rightarrow> u64 \<Rightarrow> mem \<Rightarrow> bool \<times> 's pb_istream \<times> mem"
  dec_cb_raw :: "u64 \<Rightarrow> u8 list \<Rightarrow> pb_field \<Rightarrow> u64 \<Rightarrow> mem \<Rightarrow> bool \<times> mem"
  ext_dec :: "u64 \<Rightarrow> 's pb_istream \<Rightarrow> u64 \<Rightarrow> u32 \<Rightarrow> u32 \<Rightarrow> mem \<Rightarrow> bool \<times> 's pb_istream \<times> mem"
  pick :: "(u64 \<times> nat) list \<Rightarrow> u64 \<Rightarrow> u64"
  frame :: "nat \<Rightarrow> u64"

definition d_error :: "string \<Rightarrow> 's dstate \<Rightarrow> (bool \<times> 's dstate) option" where
  "d_error msg d = Some (False, d\<lparr>dstr := snd (i_error msg (dstr d) :: unit option \<times> _)\<rparr>)"

text \<open>A call of a stream operation from the decoder, and a store to memory.\<close>

definition on_stream ::
  "('s pb_istream \<Rightarrow> 'v option \<times> 's pb_istream) \<Rightarrow> ('v \<Rightarrow> 's dstate \<Rightarrow> (bool \<times> 's dstate) option) \<Rightarrow>
   's dstate \<Rightarrow> (bool \<times> 's dstate) option" where
  "on_stream f k d =
     (case f (dstr d) of
        (None, s) \<Rightarrow> Some (False, d\<lparr>dstr := s\<rparr>)
      | (Some v, s) \<Rightarrow> k v (d\<lparr>dstr := s\<rparr>))"

definition put :: "u64 \<Rightarrow> u8 list \<Rightarrow> 's dstate \<Rightarrow> 's dstate" where
  "put a bs d = d\<lparr>dmem := store_bytes (dmem d) a bs\<rparr>"

definition put32 :: "u64 \<Rightarrow> u32 \<Rightarrow> 's dstate \<Rightarrow> 's dstate" where
  "put32 a v d = d\<lparr>dmem := store_u32 (dmem d) a v\<rparr>"

definition put64 :: "u64 \<Rightarrow> u64 \<Rightarrow> 's dstate \<Rightarrow> 's dstate" where
  "put64 a v d = d\<lparr>dmem := store_u64 (dmem d) a v\<rparr>"

definition pb_free :: "u64 \<Rightarrow> (u64 \<times> nat) list \<Rightarrow> (u64 \<times> nat) list option" where
  "pb_free p bl =
     (if p = 0 then Some bl
      else if p \<in> fst ` set bl then Some (filter (\<lambda>(a, n). a \<noteq> p) bl) else None)"

definition pb_realloc :: "'s dec_env \<Rightarrow> u64 \<Rightarrow> u64 \<Rightarrow> 's dstate \<Rightarrow> (u64 \<times> 's dstate) option" where
  "pb_realloc env p n d =
     (case (if p = 0 then Some 0 else map_of (blocks d) p) of
        None \<Rightarrow> None
      | Some old \<Rightarrow>
          let q = pick env (blocks d) n in
          if q = 0 then Some (0, d)
          else Some (q, d\<lparr>dmem := store_bytes (dmem d) q (load_bytes (dmem d) p (min old (unat n))),
                          blocks := (q, unat n) # filter (\<lambda>(a, k). a \<noteq> p) (blocks d)\<rparr>))"

definition allocate_field ::
  "'s dec_env \<Rightarrow> u64 \<Rightarrow> u64 \<Rightarrow> u64 \<Rightarrow> 's dstate \<Rightarrow> (bool \<times> 's dstate) option" where
  "allocate_field env pdata dsize asize d =
     (let p = load_u64 (dmem d) pdata; check_limit = push_bit 32 1 in
      if dsize = 0 \<or> asize = 0 then d_error ''invalid size'' d
      else if (dsize \<ge> check_limit \<or> asize \<ge> check_limit) \<and> (- 1) div asize < dsize
      then d_error ''size too large'' d
      else (case pb_realloc env p (asize * dsize) d of
              None \<Rightarrow> None
            | Some (q, d) \<Rightarrow>
                if q = 0 then d_error ''realloc failed'' d else Some (True, put64 pdata q d)))"

section \<open>Default values\<close>

definition iter_from_extension :: "(u64 \<Rightarrow> pb_field list) \<Rightarrow> mem \<Rightarrow> u64 \<Rightarrow> pb_field_iter" where
  "iter_from_extension ds h ext =
     (let fs = ds (load_u64 h (load_u64 h ext + 16));
          it = (snd (pb_field_iter_begin fs (load_u64 h (ext + 8))))
                 \<lparr>pData := load_u64 h (ext + 8), pSize := ext + 24\<rparr>
      in if PB_ATYPE (ftype (field_at fs 0)) = PB_ATYPE_POINTER then it\<lparr>pData := ext + 8\<rparr> else it)"

fun pb_field_set_to_default ::
  "nat \<Rightarrow> (u64 \<Rightarrow> pb_field list) \<Rightarrow> pb_field_iter \<Rightarrow> mem \<Rightarrow> mem option"
and default_ext_loop ::
  "nat \<Rightarrow> (u64 \<Rightarrow> pb_field list) \<Rightarrow> u64 \<Rightarrow> mem \<Rightarrow> mem option"
and pb_message_set_to_defaults ::
  "nat \<Rightarrow> (u64 \<Rightarrow> pb_field list) \<Rightarrow> pb_field list \<Rightarrow> u64 \<Rightarrow> mem \<Rightarrow> mem option" where
  "pb_field_set_to_default 0 ds it h = None"
| "pb_field_set_to_default (Suc fuel) ds it h =
     (let f = it_field it; ty = ftype f; ht = PB_HTYPE ty; n = unat (data_size f) in
      if PB_LTYPE ty = PB_LTYPE_EXTENSION then default_ext_loop fuel ds (load_u64 h (pData it)) h
      else if PB_ATYPE ty = PB_ATYPE_STATIC then
        let count = (ht = PB_HTYPE_REPEATED \<or> ht = PB_HTYPE_ONEOF);
            h = (if ht = PB_HTYPE_OPTIONAL \<and> pSize it \<noteq> pData it then store_bytes h (pSize it) [0]
                 else if count then store_u32 h (pSize it) 0 else h)
        in if count then Some h
           else if PB_LTYPE ty = PB_LTYPE_SUBMESSAGE
           then pb_message_set_to_defaults fuel ds (ds (ptr f)) (pData it) h
           else if ptr f \<noteq> 0 then Some (store_bytes h (pData it) (load_bytes h (ptr f) n))
           else Some (store_bytes h (pData it) (replicate n 0))
      else if PB_ATYPE ty = PB_ATYPE_POINTER then
        let h = store_u64 h (pData it) 0
        in Some (if ht = PB_HTYPE_REPEATED \<or> ht = PB_HTYPE_ONEOF then store_u32 h (pSize it) 0 else h)
      else Some h)"
| "default_ext_loop 0 ds ext h = (if ext = 0 then Some h else None)"
| "default_ext_loop (Suc fuel) ds ext h =
     (if ext = 0 then Some h
      else
        let h = store_bytes h (ext + 24) [0] in
        (case pb_field_set_to_default fuel ds (iter_from_extension ds h ext) h of
           None \<Rightarrow> None
         | Some h \<Rightarrow> default_ext_loop fuel ds (load_u64 h (ext + 16)) h))"
| "pb_message_set_to_defaults 0 ds fs dest h = None"
| "pb_message_set_to_defaults (Suc fuel) ds fs dest h =
     (case pb_field_iter_begin fs dest of
        (False, _) \<Rightarrow> Some h
      | (True, it) \<Rightarrow>
          map_option snd
            (for_fields (\<lambda>it h. map_option (Pair True) (pb_field_set_to_default fuel ds it h)) it h))"

section \<open>Releasing messages\<close>

text \<open>
  \<open>pb_release_single_field\<close> and \<open>pb_release\<close> on memory and the live blocks. \<open>release_items\<close> is the
  loop over the submessages of an array, \<open>free_items\<close> the one over an array of strings.
\<close>

fun free_items :: "nat \<Rightarrow> u64 \<Rightarrow> mem \<times> (u64 \<times> nat) list \<Rightarrow> (mem \<times> (u64 \<times> nat) list) option" where
  "free_items 0 p (h, bl) = Some (h, bl)"
| "free_items (Suc n) p (h, bl) =
     (case pb_free (load_u64 h p) bl of
        None \<Rightarrow> None
      | Some bl \<Rightarrow> free_items n (p + 8) (store_u64 h p 0, bl))"

fun release_items ::
  "(u64 \<Rightarrow> 'a \<Rightarrow> 'a option) \<Rightarrow> nat \<Rightarrow> u64 \<Rightarrow> u64 \<Rightarrow> 'a \<Rightarrow> 'a option" where
  "release_items rel 0 p step m = Some m"
| "release_items rel (Suc n) p step m =
     (case rel p m of None \<Rightarrow> None | Some m \<Rightarrow> release_items rel n (p + step) step m)"

definition submsg_count :: "mem \<Rightarrow> pb_field_iter \<Rightarrow> u32" where
  "submsg_count h it =
     (let f = it_field it; ty = ftype f; static = (PB_ATYPE ty = PB_ATYPE_STATIC) in
      if PB_HTYPE ty = PB_HTYPE_REPEATED then
        let count = (if static \<and> pSize it = pData it then array_size f else load_u32 h (pSize it))
        in if static \<and> count > array_size f then array_size f else count
      else 1)"

definition release_pointer ::
  "pb_field_iter \<Rightarrow> mem \<times> (u64 \<times> nat) list \<Rightarrow> (mem \<times> (u64 \<times> nat) list) option" where
  "release_pointer it m =
     (let ty = ftype (it_field it); lt = PB_LTYPE ty; repeated = (PB_HTYPE ty = PB_HTYPE_REPEATED) in
      case (if repeated \<and> (lt = PB_LTYPE_STRING \<or> lt = PB_LTYPE_BYTES)
            then free_items (unat (load_u32 (fst m) (pSize it))) (load_u64 (fst m) (pData it)) m
            else Some m) of
        None \<Rightarrow> None
      | Some (h, bl) \<Rightarrow>
          let h = (if repeated then store_u32 h (pSize it) 0 else h) in
          map_option (Pair (store_u64 h (pData it) 0)) (pb_free (load_u64 h (pData it)) bl))"

text \<open>The body of \<open>pb_release_single_field\<close>, given the extension loop and \<open>pb_release\<close> it calls.\<close>

definition release_field_body ::
  "(u64 \<Rightarrow> mem \<times> (u64 \<times> nat) list \<Rightarrow> (mem \<times> (u64 \<times> nat) list) option) \<Rightarrow>
   (pb_field list \<Rightarrow> u64 \<Rightarrow> mem \<times> (u64 \<times> nat) list \<Rightarrow> (mem \<times> (u64 \<times> nat) list) option) \<Rightarrow>
   (u64 \<Rightarrow> pb_field list) \<Rightarrow> pb_field_iter \<Rightarrow> mem \<times> (u64 \<times> nat) list \<Rightarrow>
   (mem \<times> (u64 \<times> nat) list) option" where
  "release_field_body rel_exts rel ds it m =
     (let f = it_field it; ty = ftype f; at = PB_ATYPE ty in
      if PB_HTYPE ty = PB_HTYPE_ONEOF \<and> load_u32 (fst m) (pSize it) \<noteq> tag f then Some m
      else
        case (if PB_LTYPE ty = PB_LTYPE_EXTENSION then rel_exts (load_u64 (fst m) (pData it)) m
              else if PB_LTYPE ty = PB_LTYPE_SUBMESSAGE \<and> at \<noteq> PB_ATYPE_CALLBACK then
                let item = (if at = PB_ATYPE_POINTER then load_u64 (fst m) (pData it) else pData it)
                in if item \<noteq> 0
                   then release_items (rel (ds (ptr f))) (unat (submsg_count (fst m) it))
                          item (ucast (data_size f)) m
                   else Some m
              else Some m) of
          None \<Rightarrow> None
        | Some m \<Rightarrow> if at = PB_ATYPE_POINTER then release_pointer it m else Some m)"

fun pb_release_single_field ::
  "nat \<Rightarrow> (u64 \<Rightarrow> pb_field list) \<Rightarrow> pb_field_iter \<Rightarrow> mem \<times> (u64 \<times> nat) list \<Rightarrow>
   (mem \<times> (u64 \<times> nat) list) option"
and release_ext_loop ::
  "nat \<Rightarrow> (u64 \<Rightarrow> pb_field list) \<Rightarrow> u64 \<Rightarrow> mem \<times> (u64 \<times> nat) list \<Rightarrow>
   (mem \<times> (u64 \<times> nat) list) option"
and pb_release ::
  "nat \<Rightarrow> (u64 \<Rightarrow> pb_field list) \<Rightarrow> pb_field list \<Rightarrow> u64 \<Rightarrow> mem \<times> (u64 \<times> nat) list \<Rightarrow>
   (mem \<times> (u64 \<times> nat) list) option" where
  "pb_release_single_field 0 ds it m = None"
| "pb_release_single_field (Suc fuel) ds it m =
     release_field_body (release_ext_loop fuel ds) (pb_release fuel ds) ds it m"
| "release_ext_loop 0 ds ext m = (if ext = 0 then Some m else None)"
| "release_ext_loop (Suc fuel) ds ext m =
     (if ext = 0 then Some m
      else case pb_release_single_field fuel ds (iter_from_extension ds (fst m) ext) m of
             None \<Rightarrow> None
           | Some m \<Rightarrow> release_ext_loop fuel ds (load_u64 (fst m) (ext + 16)) m)"
| "pb_release 0 ds fs dest m = None"
| "pb_release (Suc fuel) ds fs dest m =
     (if dest = 0 then Some m
      else case pb_field_iter_begin fs dest of
             (False, _) \<Rightarrow> Some m
           | (True, it) \<Rightarrow>
               map_option snd
                 (for_fields (\<lambda>it m. map_option (Pair True) (pb_release_single_field fuel ds it m)) it m))"

definition released ::
  "(mem \<times> (u64 \<times> nat) list \<Rightarrow> (mem \<times> (u64 \<times> nat) list) option) \<Rightarrow> 's dstate \<Rightarrow> 's dstate option" where
  "released rel d =
     map_option (\<lambda>(h, bl). d\<lparr>dmem := h, blocks := bl\<rparr>) (rel (dmem d, blocks d))"

text \<open>
  \<open>pb_release_union_field\<close> returns the state and the iterator, which the two searches move.
\<close>

definition pb_release_union_field ::
  "nat \<Rightarrow> 's dec_env \<Rightarrow> pb_field_iter \<Rightarrow> 's dstate \<Rightarrow> (bool \<times> pb_field_iter \<times> 's dstate) option" where
  "pb_release_union_field fuel env it d =
     (let old_tag = load_u32 (dmem d) (pSize it); new_tag = tag (it_field it) in
      if old_tag = 0 \<or> old_tag = new_tag then Some (True, it, d)
      else
        case pb_field_iter_find it old_tag of
          None \<Rightarrow> None
        | Some (False, it) \<Rightarrow> map_option (\<lambda>(ok, d). (ok, it, d)) (d_error ''invalid union tag'' d)
        | Some (True, it) \<Rightarrow>
            (case released (pb_release_single_field fuel (ddescs env) it) d of
               None \<Rightarrow> None
             | Some d \<Rightarrow>
                 (case pb_field_iter_find it new_tag of
                    None \<Rightarrow> None
                  | Some (False, it) \<Rightarrow> map_option (\<lambda>(ok, d). (ok, it, d)) (d_error ''iterator error'' d)
                  | Some (True, it) \<Rightarrow>
                      Some (True, it,
                        if PB_ATYPE (ftype (it_field it)) = PB_ATYPE_POINTER
                        then put64 (pData it) 0 d else d))))"

section \<open>Decoders of single values\<close>

definition pb_dec_bool :: "pb_field \<Rightarrow> u64 \<Rightarrow> 's dstate \<Rightarrow> (bool \<times> 's dstate) option" where
  "pb_dec_bool field dest =
     on_stream pb_decode_varint32 (\<lambda>v d. Some (True, put dest [if v \<noteq> 0 then 1 else 0] d))"

text \<open>
  The stores of \<open>pb_dec_varint\<close>, \<open>pb_dec_svarint\<close> and \<open>pb_dec_uvarint\<close>, by \<open>data_size\<close>: the new memory
  and \<open>clamped\<close>, the stored value read back.
\<close>

definition store_signed :: "pb_field \<Rightarrow> u64 \<Rightarrow> u64 \<Rightarrow> mem \<Rightarrow> (mem \<times> u64) option" where
  "store_signed field dest v h =
     (if data_size field = 8 then Some (store_u64 h dest v, v)
      else if data_size field = 4 then Some (store_u32 h dest (ucast v), scast (ucast v :: u32))
      else if data_size field = 2 then Some (store_u16 h dest (ucast v), scast (ucast v :: u16))
      else if data_size field = 1 then Some (store_bytes h dest [ucast v], scast (ucast v :: u8))
      else None)"

definition store_unsigned :: "pb_field \<Rightarrow> u64 \<Rightarrow> u64 \<Rightarrow> mem \<Rightarrow> (mem \<times> u64) option" where
  "store_unsigned field dest v h =
     (if data_size field = 8 then Some (store_u64 h dest v, v)
      else if data_size field = 4 then Some (store_u32 h dest (ucast v), ucast (ucast v :: u32))
      else if data_size field = 2 then Some (store_u16 h dest (ucast v), ucast (ucast v :: u16))
      else if data_size field = 1 then Some (store_bytes h dest [ucast v], ucast (ucast v :: u8))
      else None)"

definition store_checked ::
  "(mem \<Rightarrow> (mem \<times> u64) option) \<Rightarrow> u64 \<Rightarrow> 's dstate \<Rightarrow> (bool \<times> 's dstate) option" where
  "store_checked store v d =
     (case store (dmem d) of
        None \<Rightarrow> d_error ''invalid data_size'' d
      | Some (h, clamped) \<Rightarrow>
          let d = d\<lparr>dmem := h\<rparr> in if clamped \<noteq> v then d_error ''integer too large'' d else Some (True, d))"

definition pb_dec_varint :: "pb_field \<Rightarrow> u64 \<Rightarrow> 's dstate \<Rightarrow> (bool \<times> 's dstate) option" where
  "pb_dec_varint field dest =
     on_stream pb_decode_varint (\<lambda>v.
       let svalue = (if data_size field = 8 then v else scast (ucast v :: u32)) in
       store_checked (store_signed field dest svalue) svalue)"

definition pb_dec_uvarint :: "pb_field \<Rightarrow> u64 \<Rightarrow> 's dstate \<Rightarrow> (bool \<times> 's dstate) option" where
  "pb_dec_uvarint field dest =
     on_stream pb_decode_varint (\<lambda>v. store_checked (store_unsigned field dest v) v)"

definition pb_dec_svarint :: "pb_field \<Rightarrow> u64 \<Rightarrow> 's dstate \<Rightarrow> (bool \<times> 's dstate) option" where
  "pb_dec_svarint field dest =
     on_stream pb_decode_svarint (\<lambda>v. store_checked (store_signed field dest v) v)"

definition pb_dec_fixed32 :: "pb_field \<Rightarrow> u64 \<Rightarrow> 's dstate \<Rightarrow> (bool \<times> 's dstate) option" where
  "pb_dec_fixed32 field dest = on_stream pb_decode_fixed32 (\<lambda>v d. Some (True, put32 dest v d))"

definition pb_dec_fixed64 :: "pb_field \<Rightarrow> u64 \<Rightarrow> 's dstate \<Rightarrow> (bool \<times> 's dstate) option" where
  "pb_dec_fixed64 field dest = on_stream pb_decode_fixed64 (\<lambda>v d. Some (True, put64 dest v d))"

text \<open>\<open>pb_read(stream, dest, n)\<close> with a destination in memory.\<close>

definition read_into :: "u64 \<Rightarrow> u64 \<Rightarrow> 's dstate \<Rightarrow> (bool \<times> 's dstate) option" where
  "read_into dest n = on_stream (\<lambda>s. pb_read s False n) (\<lambda>bs d. Some (True, put dest bs d))"

definition pb_dec_bytes :: "'s dec_env \<Rightarrow> pb_field \<Rightarrow> u64 \<Rightarrow> 's dstate \<Rightarrow> (bool \<times> 's dstate) option" where
  "pb_dec_bytes env field dest =
     on_stream pb_decode_varint32 (\<lambda>sz d.
       let alloc_size = ucast sz + 4 :: u64 in
       if sz > PB_SIZE_MAX then d_error ''bytes overflow'' d
       else if ucast sz > alloc_size then d_error ''size too large'' d
       else if PB_ATYPE (ftype field) = PB_ATYPE_POINTER then
         if bytes_left (dstr d) < ucast sz then d_error ''end-of-stream'' d
         else then_opt (allocate_field env dest alloc_size 1 d) (\<lambda>d.
                let bdest = load_u64 (dmem d) dest in read_into (bdest + 4) (ucast sz) (put32 bdest sz d))
       else if alloc_size > ucast (data_size field) then d_error ''bytes overflow'' d
       else read_into (dest + 4) (ucast sz) (put32 dest sz d))"

definition read_string :: "u64 \<Rightarrow> u32 \<Rightarrow> 's dstate \<Rightarrow> (bool \<times> 's dstate) option" where
  "read_string dest sz d =
     map_option (\<lambda>(status, d). (status, put (dest + ucast sz) [0] d)) (read_into dest (ucast sz) d)"

definition pb_dec_string :: "'s dec_env \<Rightarrow> pb_field \<Rightarrow> u64 \<Rightarrow> 's dstate \<Rightarrow> (bool \<times> 's dstate) option" where
  "pb_dec_string env field dest =
     on_stream pb_decode_varint32 (\<lambda>sz d.
       let alloc_size = ucast (sz + 1) :: u64 in
       if alloc_size < ucast sz then d_error ''size too large'' d
       else if PB_ATYPE (ftype field) = PB_ATYPE_POINTER then
         if bytes_left (dstr d) < ucast sz then d_error ''end-of-stream'' d
         else then_opt (allocate_field env dest alloc_size 1 d) (\<lambda>d.
                read_string (load_u64 (dmem d) dest) sz d)
       else if alloc_size > ucast (data_size field) then d_error ''string overflow'' d
       else read_string dest sz d)"

definition pb_dec_fixed_length_bytes ::
  "pb_field \<Rightarrow> u64 \<Rightarrow> 's dstate \<Rightarrow> (bool \<times> 's dstate) option" where
  "pb_dec_fixed_length_bytes field dest =
     on_stream pb_decode_varint32 (\<lambda>sz d.
       if sz > PB_SIZE_MAX then d_error ''bytes overflow'' d
       else if sz = 0 then Some (True, put dest (replicate (unat (data_size field)) 0) d)
       else if sz \<noteq> data_size field then d_error ''incorrect fixed length bytes size'' d
       else read_into dest (ucast (data_size field)) d)"

text \<open>
  A body that runs on a substream, and the close that hands the state back to the parent stream;
  \<open>status\<close> is the result of the body.
\<close>

definition close_substream ::
  "'s pb_istream \<Rightarrow> bool \<Rightarrow> 's dstate \<Rightarrow> (bool \<times> 's dstate) option" where
  "close_substream s status d =
     (case pb_close_string_substream s (dstr d) of
        (ok, s) \<Rightarrow> Some (ok \<and> status, d\<lparr>dstr := s\<rparr>))"

definition with_substream ::
  "('s dstate \<Rightarrow> (bool \<times> 's dstate) option) \<Rightarrow> 's dstate \<Rightarrow> (bool \<times> 's dstate) option" where
  "with_substream body d =
     (case pb_make_string_substream (dstr d) of
        (None, s) \<Rightarrow> Some (False, d\<lparr>dstr := s\<rparr>)
      | (Some sub, s) \<Rightarrow>
          (case body (d\<lparr>dstr := sub\<rparr>) of
             None \<Rightarrow> None
           | Some (status, d) \<Rightarrow> close_substream s status d))"

text \<open>\<open>dec init\<close> is \<open>pb_decode\<close> or \<open>pb_decode_noinit\<close>, whose recursion is tied at the end.\<close>

definition pb_dec_submessage ::
  "(bool \<Rightarrow> pb_field list \<Rightarrow> u64 \<Rightarrow> 's dstate \<Rightarrow> (bool \<times> 's dstate) option) \<Rightarrow> 's dec_env \<Rightarrow>
   pb_field \<Rightarrow> u64 \<Rightarrow> 's dstate \<Rightarrow> (bool \<times> 's dstate) option" where
  "pb_dec_submessage dec env field dest d =
     (if ptr field = 0
      then on_stream pb_make_string_substream (\<lambda>sub. d_error ''invalid field descriptor'') d
      else with_substream
             (dec (PB_HTYPE (ftype field) = PB_HTYPE_REPEATED) (ddescs env (ptr field)) dest) d)"

definition PB_DECODERS ::
  "(bool \<Rightarrow> pb_field list \<Rightarrow> u64 \<Rightarrow> 's dstate \<Rightarrow> (bool \<times> 's dstate) option) \<Rightarrow> 's dec_env \<Rightarrow>
   u8 \<Rightarrow> pb_field \<Rightarrow> u64 \<Rightarrow> 's dstate \<Rightarrow> (bool \<times> 's dstate) option" where
  "PB_DECODERS dec env lt field dest d =
     (if lt = PB_LTYPE_BOOL then pb_dec_bool field dest d
      else if lt = PB_LTYPE_VARINT then pb_dec_varint field dest d
      else if lt = PB_LTYPE_UVARINT then pb_dec_uvarint field dest d
      else if lt = PB_LTYPE_SVARINT then pb_dec_svarint field dest d
      else if lt = PB_LTYPE_FIXED32 then pb_dec_fixed32 field dest d
      else if lt = PB_LTYPE_FIXED64 then pb_dec_fixed64 field dest d
      else if lt = PB_LTYPE_BYTES then pb_dec_bytes env field dest d
      else if lt = PB_LTYPE_STRING then pb_dec_string env field dest d
      else if lt = PB_LTYPE_SUBMESSAGE then pb_dec_submessage dec env field dest d
      else if lt = PB_LTYPE_FIXED_LENGTH_BYTES then pb_dec_fixed_length_bytes field dest d
      else None)"

section \<open>Fields\<close>

type_synonym 's decoder = "pb_field \<Rightarrow> u64 \<Rightarrow> 's dstate \<Rightarrow> (bool \<times> 's dstate) option"

text \<open>
  The address of entry \<open>sz\<close> of an array: \<open>data_size * ( *size)\<close> is a product of two \<open>pb_size_t\<close>, so it is
  taken in 32 bits.
\<close>

definition item_addr :: "pb_field \<Rightarrow> u64 \<Rightarrow> u32 \<Rightarrow> u64" where
  "item_addr f base sz = base + ucast (data_size f * sz)"

text \<open>The loop over a packed array in a static field; its fuel is the length of the substream.\<close>

fun static_items :: "nat \<Rightarrow> 's decoder \<Rightarrow> pb_field_iter \<Rightarrow> 's dstate \<Rightarrow> (bool \<times> 's dstate) option" where
  "static_items 0 func it d = None"
| "static_items (Suc n) func it d =
     (let f = it_field it; sz = load_u32 (dmem d) (pSize it) in
      if bytes_left (dstr d) > 0 \<and> sz < array_size f then
        then_opt (func f (item_addr f (pData it) sz) d) (\<lambda>d.
          static_items n func it (put32 (pSize it) (load_u32 (dmem d) (pSize it) + 1) d))
      else Some (True, d))"

definition decode_static_packed ::
  "'s decoder \<Rightarrow> pb_field_iter \<Rightarrow> 's dstate \<Rightarrow> (bool \<times> 's dstate) option" where
  "decode_static_packed func it d =
     (case pb_make_string_substream (dstr d) of
        (None, s) \<Rightarrow> Some (False, d\<lparr>dstr := s\<rparr>)
      | (Some sub, s) \<Rightarrow>
          (case static_items (Suc (unat (bytes_left sub))) func it (d\<lparr>dstr := sub\<rparr>) of
             None \<Rightarrow> None
           | Some (status, d) \<Rightarrow>
               if bytes_left (dstr d) \<noteq> 0 then d_error ''array overflow'' (d\<lparr>dstr := s\<rparr>)
               else close_substream s status d))"

definition decode_static_field ::
  "nat \<Rightarrow> (bool \<Rightarrow> pb_field list \<Rightarrow> u64 \<Rightarrow> 's dstate \<Rightarrow> (bool \<times> 's dstate) option) \<Rightarrow> 's dec_env \<Rightarrow>
   u32 \<Rightarrow> pb_field_iter \<Rightarrow> 's dstate \<Rightarrow> (bool \<times> 's dstate) option" where
  "decode_static_field fuel dec env wire_type it d =
     (let f = it_field it; ty = ftype f; ht = PB_HTYPE ty; func = PB_DECODERS dec env (PB_LTYPE ty) in
      if ht = PB_HTYPE_REQUIRED then func f (pData it) d
      else if ht = PB_HTYPE_OPTIONAL then
        func f (pData it) (if pSize it \<noteq> pData it then put (pSize it) [1] d else d)
      else if ht = PB_HTYPE_REPEATED then
        if wire_type = PB_WT_STRING \<and> PB_LTYPE ty \<le> PB_LTYPE_LAST_PACKABLE
        then decode_static_packed func it d
        else
          let sz = load_u32 (dmem d) (pSize it); d = put32 (pSize it) (sz + 1) d in
          if sz \<ge> array_size f then d_error ''array overflow'' d
          else func f (item_addr f (pData it) sz) d
      else
        case (if PB_LTYPE ty = PB_LTYPE_SUBMESSAGE \<and> load_u32 (dmem d) (pSize it) \<noteq> tag f
              then pb_message_set_to_defaults fuel (ddescs env) (ddescs env (ptr f)) (pData it)
                     (store_bytes (dmem d) (pData it) (replicate (unat (data_size f)) 0))
              else Some (dmem d)) of
          None \<Rightarrow> None
        | Some h \<Rightarrow> func f (pData it) (put32 (pSize it) (tag f) (d\<lparr>dmem := h\<rparr>)))"

definition initialize_pointer_field ::
  "nat \<Rightarrow> 's dec_env \<Rightarrow> u64 \<Rightarrow> pb_field \<Rightarrow> mem \<Rightarrow> mem option" where
  "initialize_pointer_field fuel env item f h =
     (let lt = PB_LTYPE (ftype f) in
      if lt = PB_LTYPE_STRING \<or> lt = PB_LTYPE_BYTES then Some (store_u64 h item 0)
      else if lt = PB_LTYPE_SUBMESSAGE then
        pb_message_set_to_defaults fuel (ddescs env) (ddescs env (ptr f)) item
          (store_bytes h item (replicate (unat (data_size f)) 0))
      else Some h)"

definition init_then ::
  "nat \<Rightarrow> 's dec_env \<Rightarrow> 's decoder \<Rightarrow> pb_field \<Rightarrow> u64 \<Rightarrow> 's dstate \<Rightarrow> (bool \<times> 's dstate) option" where
  "init_then fuel env func f item d =
     (case initialize_pointer_field fuel env item f (dmem d) of
        None \<Rightarrow> None
      | Some h \<Rightarrow> func f item (d\<lparr>dmem := h\<rparr>))"

text \<open>
  The loop over a packed array in a pointer field; \<open>asz\<close> is \<open>allocated_size\<close>. The message ``too many
  array entries'' goes to the parent stream, the flag of the result.
\<close>

fun pointer_items ::
  "nat \<Rightarrow> nat \<Rightarrow> 's dec_env \<Rightarrow> 's decoder \<Rightarrow> pb_field_iter \<Rightarrow> u64 \<Rightarrow> 's dstate \<Rightarrow>
   (bool \<times> bool \<times> 's dstate) option" where
  "pointer_items 0 fuel env func it asz d = None"
| "pointer_items (Suc n) fuel env func it asz d =
     (let f = it_field it; sz = load_u32 (dmem d) (pSize it) in
      if bytes_left (dstr d) = 0 then Some (True, False, d)
      else if sz = PB_SIZE_MAX then Some (False, True, d)
      else
        let grow = (ucast sz + 1 > asz);
            remain = (bytes_left (dstr d) - 1) div ucast (data_size f) + 1;
            asz = (if grow then asz + (if remain < ucast (PB_SIZE_MAX :: u32) - asz then remain else 1)
                   else asz)
        in
        if grow \<and> data_size f = 0 then None
        else
          case (if grow then allocate_field env (pData it) (ucast (data_size f)) asz d
                else Some (True, d)) of
            None \<Rightarrow> None
          | Some (False, d) \<Rightarrow> Some (False, False, d)
          | Some (True, d) \<Rightarrow>
              let item = item_addr f (load_u64 (dmem d) (pData it)) sz in
              if item = 0 then Some (False, False, d)
              else
                (case init_then fuel env func f item d of
                   None \<Rightarrow> None
                 | Some (False, d) \<Rightarrow> Some (False, False, d)
                 | Some (True, d) \<Rightarrow>
                     pointer_items n fuel env func it asz
                       (put32 (pSize it) (load_u32 (dmem d) (pSize it) + 1) d)))"

definition decode_pointer_packed ::
  "nat \<Rightarrow> 's dec_env \<Rightarrow> 's decoder \<Rightarrow> pb_field_iter \<Rightarrow> 's dstate \<Rightarrow> (bool \<times> 's dstate) option" where
  "decode_pointer_packed fuel env func it d =
     (case pb_make_string_substream (dstr d) of
        (None, s) \<Rightarrow> Some (False, d\<lparr>dstr := s\<rparr>)
      | (Some sub, s) \<Rightarrow>
          (case pointer_items (Suc (unat (bytes_left sub))) fuel env func it
                  (ucast (load_u32 (dmem d) (pSize it))) (d\<lparr>dstr := sub\<rparr>) of
             None \<Rightarrow> None
           | Some (status, full, d) \<Rightarrow>
               close_substream (if full then s\<lparr>i_errmsg := Some ''too many array entries''\<rparr> else s) status d))"

definition decode_pointer_field ::
  "nat \<Rightarrow> (bool \<Rightarrow> pb_field list \<Rightarrow> u64 \<Rightarrow> 's dstate \<Rightarrow> (bool \<times> 's dstate) option) \<Rightarrow> 's dec_env \<Rightarrow>
   u32 \<Rightarrow> pb_field_iter \<Rightarrow> 's dstate \<Rightarrow> (bool \<times> 's dstate) option" where
  "decode_pointer_field fuel dec env wire_type it d =
     (let f = it_field it; ty = ftype f; ht = PB_HTYPE ty; lt = PB_LTYPE ty;
          func = PB_DECODERS dec env lt in
      if ht = PB_HTYPE_REPEATED then
        if wire_type = PB_WT_STRING \<and> lt \<le> PB_LTYPE_LAST_PACKABLE
        then decode_pointer_packed fuel env func it d
        else
          let sz = load_u32 (dmem d) (pSize it) in
          if sz = PB_SIZE_MAX then d_error ''too many array entries'' d
          else
            then_opt (allocate_field env (pData it) (ucast (data_size f)) (ucast (sz + 1)) d) (\<lambda>d.
              init_then fuel env func f (item_addr f (load_u64 (dmem d) (pData it)) sz)
                (put32 (pSize it) (sz + 1) d))
      else
        case (if lt = PB_LTYPE_SUBMESSAGE \<and> load_u64 (dmem d) (pData it) \<noteq> 0
              then released (pb_release_single_field fuel (ddescs env) it) d else Some d) of
          None \<Rightarrow> None
        | Some d \<Rightarrow>
            let d = (if ht = PB_HTYPE_ONEOF then put32 (pSize it) (tag f) d else d) in
            if lt = PB_LTYPE_STRING \<or> lt = PB_LTYPE_BYTES then func f (pData it) d
            else
              then_opt (allocate_field env (pData it) (ucast (data_size f)) 1 d) (\<lambda>d.
                init_then fuel env func f (load_u64 (dmem d) (pData it)) d))"

text \<open>\<open>do { decode } while (substream.bytes_left)\<close>: a callback that reads nothing would loop.\<close>

fun callback_loop ::
  "nat \<Rightarrow> ('s pb_istream \<Rightarrow> mem \<Rightarrow> bool \<times> 's pb_istream \<times> mem) \<Rightarrow> 's dstate \<Rightarrow>
   (bool \<times> 's dstate) option" where
  "callback_loop 0 cb d = None"
| "callback_loop (Suc n) cb d =
     (case cb (dstr d) (dmem d) of
        (ok, s, h) \<Rightarrow>
          let d = d\<lparr>dstr := s, dmem := h\<rparr> in
          if \<not> ok then Some (False, d)
          else if bytes_left s \<noteq> 0 then callback_loop n cb d
          else Some (True, d))"

definition decode_callback_field ::
  "nat \<Rightarrow> 's dec_env \<Rightarrow> u32 \<Rightarrow> pb_field_iter \<Rightarrow> 's dstate \<Rightarrow> (bool \<times> 's dstate) option" where
  "decode_callback_field fuel env wire_type it d =
     (let f = it_field it; cb = load_u64 (dmem d) (pData it); arg = pData it + 8 in
      if pData it = 0 \<or> cb = 0
      then on_stream (\<lambda>s. pb_skip_field s wire_type) (\<lambda>_ d. Some (True, d)) d
      else if wire_type = PB_WT_STRING then
        (case pb_make_string_substream (dstr d) of
           (None, s) \<Rightarrow> Some (False, d\<lparr>dstr := s\<rparr>)
         | (Some sub, s) \<Rightarrow>
             (case callback_loop fuel (\<lambda>s h. dec_cb env cb s f arg h) (d\<lparr>dstr := sub\<rparr>) of
                None \<Rightarrow> None
              | Some (False, d) \<Rightarrow> d_error ''callback failed'' (d\<lparr>dstr := s\<rparr>)
              | Some (True, d) \<Rightarrow> close_substream s True d))
      else
        on_stream (\<lambda>s. read_raw_value s wire_type 10) (\<lambda>bs d.
          case dec_cb_raw env cb bs f arg (dmem d) of (ok, h) \<Rightarrow> Some (ok, d\<lparr>dmem := h\<rparr>)) d)"

text \<open>\<open>decode_field\<close> also returns the iterator, which \<open>pb_release_union_field\<close> may have moved and restored.\<close>

definition decode_field ::
  "nat \<Rightarrow> (bool \<Rightarrow> pb_field list \<Rightarrow> u64 \<Rightarrow> 's dstate \<Rightarrow> (bool \<times> 's dstate) option) \<Rightarrow> 's dec_env \<Rightarrow>
   u32 \<Rightarrow> pb_field_iter \<Rightarrow> 's dstate \<Rightarrow> (bool \<times> pb_field_iter \<times> 's dstate) option" where
  "decode_field fuel dec env wire_type it d =
     (case (if PB_HTYPE (ftype (it_field it)) = PB_HTYPE_ONEOF
            then pb_release_union_field fuel env it d else Some (True, it, d)) of
        None \<Rightarrow> None
      | Some (False, it, d) \<Rightarrow> Some (False, it, d)
      | Some (True, it, d) \<Rightarrow>
          let at = PB_ATYPE (ftype (it_field it)) in
          map_option (\<lambda>(ok, d). (ok, it, d))
            (if at = PB_ATYPE_STATIC then decode_static_field fuel dec env wire_type it d
             else if at = PB_ATYPE_POINTER then decode_pointer_field fuel dec env wire_type it d
             else if at = PB_ATYPE_CALLBACK then decode_callback_field fuel env wire_type it d
             else d_error ''invalid field type'' d))"

definition default_extension_decoder ::
  "nat \<Rightarrow> (bool \<Rightarrow> pb_field list \<Rightarrow> u64 \<Rightarrow> 's dstate \<Rightarrow> (bool \<times> 's dstate) option) \<Rightarrow> 's dec_env \<Rightarrow>
   u64 \<Rightarrow> u32 \<Rightarrow> u32 \<Rightarrow> 's dstate \<Rightarrow> (bool \<times> 's dstate) option" where
  "default_extension_decoder fuel dec env ext t wire_type d =
     (let field = field_at (ddescs env (load_u64 (dmem d) (load_u64 (dmem d) ext + 16))) 0 in
      if tag field \<noteq> t then Some (True, d)
      else map_option (\<lambda>(ok, _, d). (ok, d))
             (decode_field fuel dec env wire_type (iter_from_extension (ddescs env) (dmem d) ext)
               (put (ext + 24) [1] d)))"

fun decode_extension_loop ::
  "nat \<Rightarrow> nat \<Rightarrow> (bool \<Rightarrow> pb_field list \<Rightarrow> u64 \<Rightarrow> 's dstate \<Rightarrow> (bool \<times> 's dstate) option) \<Rightarrow> 's dec_env \<Rightarrow>
   u64 \<Rightarrow> u64 \<Rightarrow> u32 \<Rightarrow> u32 \<Rightarrow> 's dstate \<Rightarrow> (bool \<times> 's dstate) option" where
  "decode_extension_loop n fuel dec env pos ext t wire_type d =
     (if ext = 0 \<or> pos \<noteq> bytes_left (dstr d) then Some (True, d)
      else case n of
             0 \<Rightarrow> None
           | Suc n \<Rightarrow>
               let decode = load_u64 (dmem d) (load_u64 (dmem d) ext) in
               then_opt
                 (if decode \<noteq> 0 then
                    (case ext_dec env decode (dstr d) ext t wire_type (dmem d) of
                       (ok, s, h) \<Rightarrow> Some (ok, d\<lparr>dstr := s, dmem := h\<rparr>))
                  else default_extension_decoder fuel dec env ext t wire_type d)
                 (\<lambda>d. decode_extension_loop n fuel dec env pos (load_u64 (dmem d) (ext + 16)) t wire_type d))"

definition decode_extension ::
  "nat \<Rightarrow> (bool \<Rightarrow> pb_field list \<Rightarrow> u64 \<Rightarrow> 's dstate \<Rightarrow> (bool \<times> 's dstate) option) \<Rightarrow> 's dec_env \<Rightarrow>
   u32 \<Rightarrow> u32 \<Rightarrow> pb_field_iter \<Rightarrow> 's dstate \<Rightarrow> (bool \<times> 's dstate) option" where
  "decode_extension fuel dec env t wire_type it d =
     decode_extension_loop fuel fuel dec env (bytes_left (dstr d)) (load_u64 (dmem d) (pData it)) t wire_type d"

fun find_ext_loop :: "nat \<Rightarrow> nat \<Rightarrow> pb_field_iter \<Rightarrow> (bool \<times> pb_field_iter) option" where
  "find_ext_loop 0 start it = None"
| "find_ext_loop (Suc n) start it =
     (if PB_LTYPE (ftype (it_field it)) = PB_LTYPE_EXTENSION then Some (True, it)
      else let it = snd (pb_field_iter_next it)
           in if it_pos it \<noteq> start then find_ext_loop n start it else Some (False, it))"

definition find_extension_field :: "pb_field_iter \<Rightarrow> (bool \<times> pb_field_iter) option" where
  "find_extension_field it = find_ext_loop (Suc (length (it_start it))) (it_pos it) it"

section \<open>Messages\<close>

text \<open>
  The locals of \<open>pb_decode_noinit\<close> that live across iterations. \<open>fixed_count_field\<close> is a position in
  the descriptor array.
\<close>

record noinit_locals =
  fields_seen :: "u32 list"
  extension_range_start :: u32
  iter :: pb_field_iter
  fixed_count_field :: "nat option"

definition PB_MAX_REQUIRED_FIELDS :: u32 where
  "PB_MAX_REQUIRED_FIELDS = 64"

text \<open>
  The loop that seeks to the last field: \<open>req_field_count\<close>, \<open>last_type\<close> and the iterator after it.
\<close>

function seek_last :: "pb_field_iter \<Rightarrow> u32 \<times> u8 \<times> pb_field_iter" where
  "seek_last it =
     (case pb_field_iter_next it of
        (again, it') \<Rightarrow>
          if again then seek_last it' else (required_field_index it, ftype (it_field it), it'))"
  by pat_completeness auto
termination
proof (relation "measure (\<lambda>it. length (it_start it) - it_pos it)")
  fix it it' :: pb_field_iter and again
  assume "(again, it') = pb_field_iter_next it" and again
  then have "pb_field_iter_next it = (True, it')" by simp
  note n = iter_next_True [OF this]
  show "(it', it) \<in> measure (\<lambda>it. length (it_start it) - it_pos it)" using n by simp
qed simp

declare seek_last.simps [simp del]

definition req_field_count :: "pb_field_iter \<Rightarrow> u32" where
  "req_field_count it =
     (case seek_last it of
        (count, last_type, it) \<Rightarrow>
          let count = (if PB_HTYPE last_type = PB_HTYPE_REQUIRED \<and> tag (it_field it) \<noteq> 0
                       then count + 1 else count)
          in if count > PB_MAX_REQUIRED_FIELDS then PB_MAX_REQUIRED_FIELDS else count)"

definition all_seen :: "u32 \<Rightarrow> u32 list \<Rightarrow> bool" where
  "all_seen count seen \<longleftrightarrow>
     count = 0 \<or>
     (list_all (\<lambda>w. w = - 1) (take (unat (drop_bit 5 count)) seen) \<and>
      (count AND 31 \<noteq> 0 \<longrightarrow>
         seen ! unat (drop_bit 5 count) = drop_bit (unat (32 - (count AND 31))) (- 1)))"

definition mark_seen :: "pb_field_iter \<Rightarrow> u32 list \<Rightarrow> u32 list" where
  "mark_seen it seen =
     (let i = required_field_index it in
      if PB_HTYPE (ftype (it_field it)) = PB_HTYPE_REQUIRED \<and> i < PB_MAX_REQUIRED_FIELDS
      then let w = unat (drop_bit 5 i) in seen[w := seen ! w OR push_bit (unat (i AND 31)) 1]
      else seen)"

definition fixed_count_wrong :: "u64 \<Rightarrow> noinit_locals \<Rightarrow> mem \<Rightarrow> bool" where
  "fixed_count_wrong local l h =
     (case fixed_count_field l of
        None \<Rightarrow> False
      | Some i \<Rightarrow> load_u32 h local \<noteq> array_size (field_at (it_start (iter l)) i))"

text \<open>What \<open>pb_decode_noinit\<close> checks after the loop.\<close>

definition noinit_end :: "u64 \<Rightarrow> noinit_locals \<Rightarrow> 's dstate \<Rightarrow> (bool \<times> 's dstate) option" where
  "noinit_end local l d =
     (if fixed_count_wrong local l (dmem d) then d_error ''wrong size for fixed count field'' d
      else if \<not> all_seen (req_field_count (iter l)) (fields_seen l)
      then d_error ''missing required field'' d
      else Some (True, d))"

text \<open>The branch for a tag that no field has: an extension, or data to skip.\<close>

definition unknown_field ::
  "nat \<Rightarrow> (bool \<Rightarrow> pb_field list \<Rightarrow> u64 \<Rightarrow> 's dstate \<Rightarrow> (bool \<times> 's dstate) option) \<Rightarrow> 's dec_env \<Rightarrow>
   u32 \<Rightarrow> u32 \<Rightarrow> noinit_locals \<Rightarrow> 's dstate \<Rightarrow> (bool \<times> noinit_locals \<times> 's dstate) option" where
  "unknown_field fuel dec env t wire_type l d =
     (let skip = (\<lambda>l d. map_option (\<lambda>(ok, d). (ok, l, d))
                    (on_stream (\<lambda>s. pb_skip_field s wire_type) (\<lambda>_ d. Some (True, d)) d)) in
      if t \<ge> extension_range_start l then
        (case find_extension_field (iter l) of
           None \<Rightarrow> None
         | Some (found, it) \<Rightarrow>
             let l = l\<lparr>iter := it, extension_range_start := if found then tag (it_field it) else - 1\<rparr> in
             if t \<ge> extension_range_start l then
               (case decode_extension fuel dec env t wire_type it d of
                  None \<Rightarrow> None
                | Some (False, d') \<Rightarrow> Some (False, l, d')
                | Some (True, d') \<Rightarrow>
                    if bytes_left (dstr d) \<noteq> bytes_left (dstr d') then Some (True, l, d') else skip l d')
             else skip l d)
      else skip l d)"

text \<open>The branch for a known field.\<close>

definition known_field ::
  "nat \<Rightarrow> u64 \<Rightarrow> (bool \<Rightarrow> pb_field list \<Rightarrow> u64 \<Rightarrow> 's dstate \<Rightarrow> (bool \<times> 's dstate) option) \<Rightarrow> 's dec_env \<Rightarrow>
   u32 \<Rightarrow> noinit_locals \<Rightarrow> 's dstate \<Rightarrow> (bool \<times> noinit_locals \<times> 's dstate) option" where
  "known_field fuel local dec env wire_type l d =
     (let it = iter l;
          fixed = (PB_HTYPE (ftype (it_field it)) = PB_HTYPE_REPEATED \<and> pSize it = pData it);
          fresh = (fixed \<and> fixed_count_field l \<noteq> Some (it_pos it)) in
      if fresh \<and> fixed_count_wrong local l (dmem d)
      then map_option (\<lambda>(ok, d). (ok, l, d)) (d_error ''wrong size for fixed count field'' d)
      else
        let d = (if fresh then put32 local 0 d else d);
            it = (if fixed then it\<lparr>pSize := local\<rparr> else it);
            l = l\<lparr>iter := it, fields_seen := mark_seen it (fields_seen l),
                   fixed_count_field := if fresh then Some (it_pos it) else fixed_count_field l\<rparr>
        in map_option (\<lambda>(ok, it, d). (ok, l\<lparr>iter := it\<rparr>, d))
             (decode_field fuel dec env wire_type it d))"

fun noinit_loop ::
  "nat \<Rightarrow> nat \<Rightarrow> u64 \<Rightarrow> (bool \<Rightarrow> pb_field list \<Rightarrow> u64 \<Rightarrow> 's dstate \<Rightarrow> (bool \<times> 's dstate) option) \<Rightarrow>
   's dec_env \<Rightarrow> noinit_locals \<Rightarrow> 's dstate \<Rightarrow> (bool \<times> 's dstate) option" where
  "noinit_loop n fuel local dec env l d =
     (if bytes_left (dstr d) = 0 then noinit_end local l d
      else case n of
        0 \<Rightarrow> None
      | Suc n \<Rightarrow>
          (case pb_decode_tag (dstr d) of
             (None, eof, s) \<Rightarrow>
               if eof then noinit_end local l (d\<lparr>dstr := s\<rparr>) else Some (False, d\<lparr>dstr := s\<rparr>)
           | (Some (wire_type, t), eof, s) \<Rightarrow>
               let d = d\<lparr>dstr := s\<rparr> in
               (case pb_field_iter_find (iter l) t of
                  None \<Rightarrow> None
                | Some (found, it) \<Rightarrow>
                    let l = l\<lparr>iter := it\<rparr> in
                    (case (if found then known_field fuel local dec env wire_type l d
                           else unknown_field fuel dec env t wire_type l d) of
                       None \<Rightarrow> None
                     | Some (False, l, d) \<Rightarrow> Some (False, d)
                     | Some (True, l, d) \<Rightarrow> noinit_loop n fuel local dec env l d))))"

definition pb_decode_using ::
  "(pb_field list \<Rightarrow> u64 \<Rightarrow> 's dstate \<Rightarrow> (bool \<times> 's dstate) option) \<Rightarrow> nat \<Rightarrow> 's dec_env \<Rightarrow>
   pb_field list \<Rightarrow> u64 \<Rightarrow> 's dstate \<Rightarrow> (bool \<times> 's dstate) option" where
  "pb_decode_using noinit fuel env fs dest d =
     (case pb_message_set_to_defaults fuel (ddescs env) fs dest (dmem d) of
        None \<Rightarrow> None
      | Some h \<Rightarrow>
          (case noinit fs dest (d\<lparr>dmem := h\<rparr>) of
             None \<Rightarrow> None
           | Some (True, d) \<Rightarrow> Some (True, d)
           | Some (False, d) \<Rightarrow>
               map_option (Pair False) (released (pb_release fuel (ddescs env) fs dest) d)))"

fun pb_decode_noinit ::
  "nat \<Rightarrow> 's dec_env \<Rightarrow> pb_field list \<Rightarrow> u64 \<Rightarrow> 's dstate \<Rightarrow> (bool \<times> 's dstate) option" where
  "pb_decode_noinit 0 env fs dest d = None"
| "pb_decode_noinit (Suc fuel) env fs dest d =
     noinit_loop (unat (bytes_left (dstr d))) fuel (frame env fuel)
       (\<lambda>init. if init then pb_decode_using (pb_decode_noinit fuel env) fuel env
               else pb_decode_noinit fuel env)
       env
       \<lparr>fields_seen = [0, 0], extension_range_start = 0, iter = snd (pb_field_iter_begin fs dest),
        fixed_count_field = None\<rparr>
       (put32 (frame env fuel) 0 d)"

definition pb_decode ::
  "nat \<Rightarrow> 's dec_env \<Rightarrow> pb_field list \<Rightarrow> u64 \<Rightarrow> 's dstate \<Rightarrow> (bool \<times> 's dstate) option" where
  "pb_decode fuel env = pb_decode_using (pb_decode_noinit fuel env) fuel env"

definition pb_decode_delimited_noinit ::
  "nat \<Rightarrow> 's dec_env \<Rightarrow> pb_field list \<Rightarrow> u64 \<Rightarrow> 's dstate \<Rightarrow> (bool \<times> 's dstate) option" where
  "pb_decode_delimited_noinit fuel env fs dest = with_substream (pb_decode_noinit fuel env fs dest)"

definition pb_decode_delimited ::
  "nat \<Rightarrow> 's dec_env \<Rightarrow> pb_field list \<Rightarrow> u64 \<Rightarrow> 's dstate \<Rightarrow> (bool \<times> 's dstate) option" where
  "pb_decode_delimited fuel env fs dest = with_substream (pb_decode fuel env fs dest)"

definition pb_decode_nullterminated ::
  "nat \<Rightarrow> 's dec_env \<Rightarrow> pb_field list \<Rightarrow> u64 \<Rightarrow> 's dstate \<Rightarrow> (bool \<times> 's dstate) option" where
  "pb_decode_nullterminated = pb_decode"

section \<open>The overflow check of the allocator\<close>

lemma max_div_less_iff:
  fixes a b :: u64
  assumes "a \<noteq> 0"
  shows "(- 1) div a < b \<longleftrightarrow> 2 ^ 64 \<le> unat a * unat b"
proof -
  have a: "0 < unat a" using assms by (simp add: unat_gt_0)
  have "unat (- 1 :: u64) = 2 ^ 64 - 1" by (simp add: unsigned_minus_1_eq_mask mask_eq_exp_minus_1)
  then have "(- 1) div a < b \<longleftrightarrow> (2 ^ 64 - 1) div unat a < unat b"
    by (simp add: word_less_nat_alt unat_div)
  also have "\<dots> \<longleftrightarrow> 2 ^ 64 - 1 < unat b * unat a" using a by (rule div_less_iff_less_mult)
  also have "\<dots> \<longleftrightarrow> 2 ^ 64 \<le> unat a * unat b" by (auto simp: mult.commute)
  finally show ?thesis .
qed

lemma small_product: "unat (a :: u64) < 2 ^ 32 \<Longrightarrow> unat (b :: u64) < 2 ^ 32 \<Longrightarrow> unat a * unat b < 2 ^ 64"
  using mult_strict_mono [of "unat a" "2 ^ 32" "unat b" "2 ^ 32"] by simp

text \<open>
  The overflow check of \<open>allocate_field\<close>, which divides only when one factor has more than half
  the bits, is exact: the function fails for a zero or overflowing product and otherwise asks
  \<open>realloc\<close> for the true product of the two sizes.
\<close>

theorem allocate_field_exact:
  "allocate_field env pdata dsize asize d =
     (let n = unat dsize * unat asize in
      if n = 0 then d_error ''invalid size'' d
      else if 2 ^ 64 \<le> n then d_error ''size too large'' d
      else (case pb_realloc env (load_u64 (dmem d) pdata) (of_nat n) d of
              None \<Rightarrow> None
            | Some (q, d) \<Rightarrow>
                if q = 0 then d_error ''realloc failed'' d else Some (True, put64 pdata q d)))"
proof -
  have limit: "(push_bit 32 1 :: u64) \<le> w \<longleftrightarrow> 2 ^ 32 \<le> unat w" for w
    by (simp add: word_le_nat_alt push_bit_eq_mult)
  have check: "(dsize \<ge> push_bit 32 1 \<or> asize \<ge> push_bit 32 1) \<and> (- 1) div asize < dsize \<longleftrightarrow>
      2 ^ 64 \<le> unat dsize * unat asize" if "asize \<noteq> 0"
    using max_div_less_iff [OF that, of dsize] small_product [of dsize asize]
    unfolding limit by (fastforce simp: mult.commute not_le intro: leI)
  have zero: "dsize = 0 \<or> asize = 0 \<longleftrightarrow> unat dsize * unat asize = 0" by (simp add: unat_eq_0)
  have "of_nat (unat dsize * unat asize) = asize * dsize" by (simp add: mult.commute)
  with zero check show ?thesis
    unfolding allocate_field_def Let_def by (cases "asize = 0") (simp_all add: mult.commute)
qed

end
