(* ===== verification/PbSafety.thy ===== *)
theory PbSafety
  imports PbDecode
begin

unbundle bit_operations_syntax

text \<open>
  Memory safety of the decoder for messages without heap data: whatever bytes arrive, decoding into a
  struct whose descriptor is consistent with its layout changes memory only inside the struct (and the
  stack cell of \<open>fixed_count_size\<close>). \<open>msg_ok\<close> is the consistency that the generated descriptors are meant
  to have; the bounds checks of the code on array counts, string and bytes lengths do the rest.
\<close>

section \<open>Confined state changes\<close>

definition confined :: "u64 set \<Rightarrow> ('s dstate \<Rightarrow> (bool \<times> 's dstate) option) \<Rightarrow> bool" where
  "confined A f \<longleftrightarrow> (\<forall>d ok d'. f d = Some (ok, d') \<longrightarrow> (\<forall>x. x \<notin> A \<longrightarrow> dmem d' x = dmem d x))"

definition span :: "u64 \<Rightarrow> nat \<Rightarrow> u64 set" where
  "span base n = {x. in_range base n x}"

lemma confinedI:
  "(\<And>d ok d' x. f d = Some (ok, d') \<Longrightarrow> x \<notin> A \<Longrightarrow> dmem d' x = dmem d x) \<Longrightarrow> confined A f"
  unfolding confined_def by blast

lemma confinedD: "confined A f \<Longrightarrow> f d = Some (ok, d') \<Longrightarrow> x \<notin> A \<Longrightarrow> dmem d' x = dmem d x"
  by (auto simp: confined_def)

lemma confined_mono: "confined A f \<Longrightarrow> A \<subseteq> B \<Longrightarrow> confined B f"
  unfolding confined_def by blast

lemma store_bytes_span: "x \<notin> span a (length bs) \<Longrightarrow> store_bytes h a bs x = h x"
proof -
  assume x: "x \<notin> span a (length bs)"
  have "x \<noteq> a + of_nat i" if "i < length bs" for i
  proof
    assume "x = a + of_nat i"
    then have "unat (x - a) \<le> i" by (simp add: unat_of_nat_mod)
    with that x show False by (simp add: span_def in_range_def)
  qed
  then show ?thesis by (rule store_bytes_other)
qed

lemma span_mono: "m \<le> n \<Longrightarrow> span a m \<subseteq> span a n"
  by (auto simp: span_def in_range_def)

lemma span_self [simp]: "0 < n \<Longrightarrow> a \<in> span a n"
  by (simp add: span_def in_range_def)

lemma span_sub:
  assumes "unat off + k \<le> n" and "n \<le> 2 ^ 64"
  shows "span (a + off) k \<subseteq> span a n"
proof
  fix x assume "x \<in> span (a + off) k"
  then have k: "unat (x - (a + off)) < k" by (simp add: span_def in_range_def)
  have "x - a = (x - (a + off)) + off" by simp
  moreover have "unat (x - (a + off)) + unat off < 2 ^ 64" using k assms by linarith
  ultimately have "unat (x - a) = unat (x - (a + off)) + unat off" by (simp only: unat_add_u64)
  with k assms(1) show "x \<in> span a n" by (simp add: span_def in_range_def)
qed

lemma put_other [simp]:
  "x \<notin> span a (length bs) \<Longrightarrow> dmem (put a bs d) x = dmem d x"
  "x \<notin> span a 4 \<Longrightarrow> dmem (put32 a v d) x = dmem d x"
  "x \<notin> span a 8 \<Longrightarrow> dmem (put64 a w d) x = dmem d x"
  by (simp_all add: put_def put32_def put64_def store_u32_def store_u64_def store_bytes_span)

lemma put_outside:
  "span a (length bs) \<subseteq> A \<Longrightarrow> x \<notin> A \<Longrightarrow> dmem (put a bs d) x = dmem d x"
  "span a 4 \<subseteq> A \<Longrightarrow> x \<notin> A \<Longrightarrow> dmem (put32 a v d) x = dmem d x"
  "span a 8 \<subseteq> A \<Longrightarrow> x \<notin> A \<Longrightarrow> dmem (put64 a w d) x = dmem d x"
  by (auto intro: put_other)

lemma d_error_mem: "d_error msg d = Some (ok, d') \<Longrightarrow> dmem d' = dmem d"
  by (auto simp: d_error_def)

lemma confined_error [simp]: "confined A (d_error msg)"
  by (auto simp: confined_def dest: d_error_mem)

lemma confined_on_stream:
  assumes "\<And>v. confined A (k v)"
  shows "confined A (on_stream f k)"
  using assms by (fastforce simp: confined_def on_stream_def split: prod.splits option.splits)

lemma confined_then:
  "confined A f \<Longrightarrow> confined A g \<Longrightarrow> confined A (\<lambda>d. then_opt (f d) g)"
  by (fastforce simp: confined_def then_opt_def split: option.splits if_splits)

lemma confined_put:
  "span a (length bs) \<subseteq> A \<Longrightarrow> confined A (\<lambda>d. Some (True, put a bs d))"
  "span a 4 \<subseteq> A \<Longrightarrow> confined A (\<lambda>d. Some (True, put32 a v d))"
  "span a 8 \<subseteq> A \<Longrightarrow> confined A (\<lambda>d. Some (True, put64 a w d))"
  by (auto intro!: confinedI intro: put_outside)

lemma confined_return [simp]: "confined A (\<lambda>d. Some (ok, d))"
  by (simp add: confined_def)

lemma confined_if:
  "(c \<Longrightarrow> confined A f) \<Longrightarrow> (\<not> c \<Longrightarrow> confined A g) \<Longrightarrow> confined A (\<lambda>d. if c then f d else g d)"
  by (cases c) simp_all

lemma confined_after_put:
  assumes "confined A f" "span a (length bs) \<subseteq> A"
  shows "confined A (\<lambda>d. f (put a bs d))"
  using confinedD [OF assms(1)] put_outside(1) [OF assms(2)] by (metis confinedI)

lemma confined_after_put32:
  assumes "confined A f" "span a 4 \<subseteq> A"
  shows "confined A (\<lambda>d. f (put32 a (v d) d))"
proof (rule confinedI)
  fix d ok d' x assume "f (put32 a (v d) d) = Some (ok, d')" "x \<notin> A"
  from confinedD [OF assms(1) this] put_outside(2) [OF assms(2) this(2)] show "dmem d' x = dmem d x" by simp
qed

section \<open>Single values\<close>

text \<open>A static member of this type and \<open>data_size\<close> is large enough for what its decoder stores.\<close>

definition value_ok ::
  "(pb_field list \<Rightarrow> nat \<Rightarrow> bool) \<Rightarrow> (u64 \<Rightarrow> pb_field list) \<Rightarrow> pb_field \<Rightarrow> bool" where
  "value_ok rec ds f \<longleftrightarrow>
     (let lt = PB_LTYPE (ftype f); n = unat (data_size f) in
      PB_ATYPE (ftype f) = PB_ATYPE_STATIC \<and> lt \<noteq> PB_LTYPE_EXTENSION \<and>
      (lt = PB_LTYPE_BOOL \<longrightarrow> 1 \<le> n) \<and> (lt = PB_LTYPE_FIXED32 \<longrightarrow> 4 \<le> n) \<and>
      (lt = PB_LTYPE_FIXED64 \<longrightarrow> 8 \<le> n) \<and>
      (lt = PB_LTYPE_SUBMESSAGE \<longrightarrow> ptr f \<noteq> 0 \<and> 0 < n \<and> rec (ds (ptr f)) n))"

lemma unat_ucast_u32_u64 [simp]: "unat (ucast (w :: u32) :: u64) = unat w"
  by (rule unat_ucast_up)

lemma store_checked_confined:
  assumes "\<And>h h' c x. store h = Some (h', c) \<Longrightarrow> x \<notin> A \<Longrightarrow> h' x = h x"
  shows "confined A (store_checked store v)"
proof (rule confinedI)
  fix d ok d' x assume s: "store_checked store v d = Some (ok, d')" and x: "x \<notin> A"
  show "dmem d' x = dmem d x"
  proof (cases "store (dmem d)")
    case None
    with s show ?thesis by (auto simp: store_checked_def dest: d_error_mem)
  next
    case (Some p)
    then obtain h c where p: "store (dmem d) = Some (h, c)" by (cases p) auto
    with s have "dmem d' = h"
      by (auto simp: store_checked_def Let_def split: if_splits dest: d_error_mem)
    with assms [OF p x] show ?thesis by simp
  qed
qed

lemma store_signed_span:
  "store_signed f a v h = Some (h', c) \<Longrightarrow> x \<notin> span a (unat (data_size f)) \<Longrightarrow> h' x = h x"
  by (auto simp: store_signed_def store_u64_def store_u32_def store_u16_def store_bytes_span
      split: if_splits)

lemma store_unsigned_span:
  "store_unsigned f a v h = Some (h', c) \<Longrightarrow> x \<notin> span a (unat (data_size f)) \<Longrightarrow> h' x = h x"
  by (auto simp: store_unsigned_def store_u64_def store_u32_def store_u16_def store_bytes_span
      split: if_splits)

lemma length_pb_read_cb: "pb_read_cb s n = (Some bs, t) \<Longrightarrow> length bs = unat n"
  by (auto simp: pb_read_cb_def i_error_def split: if_splits prod.splits option.splits)

lemma length_pb_read: "pb_read s False n = (Some bs, t) \<Longrightarrow> length bs = unat n"
  by (auto simp: pb_read_def get_then_def split: if_splits prod.splits option.splits dest: length_pb_read_cb)

lemma read_into_confined:
  assumes "span dest (unat n) \<subseteq> A"
  shows "confined A (read_into dest n)"
proof (rule confinedI)
  fix d :: "'s dstate" and ok d' x
  assume r: "read_into dest n d = Some (ok, d')" and x: "x \<notin> A"
  show "dmem d' x = dmem d x"
  proof (cases "pb_read (dstr d) False n")
    case (Pair r' s)
    show ?thesis
    proof (cases r')
      case None
      with r Pair show ?thesis by (auto simp: read_into_def on_stream_def)
    next
      case (Some bs)
      then have "length bs = unat n" using Pair length_pb_read by simp
      with r Pair Some assms x put_outside(1) [of dest bs A x "d\<lparr>dstr := s\<rparr>"] show ?thesis
        by (auto simp: read_into_def on_stream_def)
    qed
  qed
qed

lemma read_string_confined:
  assumes "span dest (Suc (unat sz)) \<subseteq> A"
  shows "confined A (read_string dest sz)"
proof (rule confinedI)
  fix d :: "'s dstate" and ok d' x
  assume r: "read_string dest sz d = Some (ok, d')" and x: "x \<notin> A"
  have "span dest (unat (ucast sz :: u64)) \<subseteq> A" using assms span_mono [of "unat sz" "Suc (unat sz)" dest] by auto
  then have c: "confined A (read_into dest (ucast sz))" by (rule read_into_confined)
  have "span (dest + ucast sz) 1 \<subseteq> span dest (Suc (unat sz))"
    using unat_u32_lt [of sz] by (intro span_sub) simp_all
  with assms have z: "span (dest + ucast sz) (length [0 :: u8]) \<subseteq> A" by simp
  from r obtain e where "read_into dest (ucast sz) d = Some (ok, e)" "d' = put (dest + ucast sz) [0] e"
    by (auto simp: read_string_def)
  with confinedD [OF c _ x] put_outside(1) [OF z x] show "dmem d' x = dmem d x" by metis
qed

lemma unat_le_u32_data:
  "\<not> (ucast (w :: u32) :: u64) < v \<Longrightarrow> unat v \<le> unat w"
  by (simp add: word_less_nat_alt)

lemma dec_bytes_confined:
  assumes st: "PB_ATYPE (ftype f) = PB_ATYPE_STATIC"
  shows "confined (span dest (unat (data_size f))) (pb_dec_bytes env f dest)"
  unfolding pb_dec_bytes_def
proof (rule confined_on_stream)
  fix sz :: u32
  let ?A = "span dest (unat (data_size f))" and ?n = "ucast sz + 4 :: u64"
  have n: "unat ?n = unat sz + 4" using unat_u32_lt [of sz] by (subst unat_add_u64) simp_all
  have fits: "span (dest + 4) (unat sz) \<subseteq> ?A" "span dest 4 \<subseteq> ?A" if "\<not> ?n > ucast (data_size f)"
  proof -
    have le: "unat sz + 4 \<le> unat (data_size f)" using unat_le_u32_data [OF that] n by simp
    then show "span dest 4 \<subseteq> ?A" by (intro span_mono) simp
    show "span (dest + 4) (unat sz) \<subseteq> ?A"
      using le unat_u32_lt [of "data_size f"] by (intro span_sub) simp_all
  qed
  show "confined ?A (\<lambda>d. let alloc_size = ?n in
       if sz > PB_SIZE_MAX then d_error ''bytes overflow'' d
       else if ucast sz > alloc_size then d_error ''size too large'' d
       else if PB_ATYPE (ftype f) = PB_ATYPE_POINTER then
         if bytes_left (dstr d) < ucast sz then d_error ''end-of-stream'' d
         else then_opt (allocate_field env dest alloc_size 1 d) (\<lambda>d.
                let bdest = load_u64 (dmem d) dest in read_into (bdest + 4) (ucast sz) (put32 bdest sz d))
       else if alloc_size > ucast (data_size f) then d_error ''bytes overflow'' d
       else read_into (dest + 4) (ucast sz) (put32 dest sz d))"
    unfolding Let_def using st fits
    by (intro confined_if) (auto intro!: confined_after_put32 read_into_confined)
qed

lemma dec_string_confined:
  assumes st: "PB_ATYPE (ftype f) = PB_ATYPE_STATIC"
  shows "confined (span dest (unat (data_size f))) (pb_dec_string env f dest)"
  unfolding pb_dec_string_def
proof (rule confined_on_stream)
  fix sz :: u32
  let ?A = "span dest (unat (data_size f))" and ?n = "ucast (sz + 1) :: u64"
  have fits: "span dest (Suc (unat sz)) \<subseteq> ?A" if "\<not> ?n < ucast sz" "\<not> ?n > ucast (data_size f)"
  proof -
    have "unat (sz + 1) = Suc (unat sz)"
    proof (rule ccontr)
      assume "unat (sz + 1) \<noteq> Suc (unat sz)"
      then have "sz + 1 = 0" by (metis Suc_eq_plus1 add.commute unatSuc)
      with that(1) show False by (auto simp: word_less_nat_alt unat_eq_0)
    qed
    then have "Suc (unat sz) \<le> unat (data_size f)" using unat_le_u32_data [OF that(2)] by simp
    then show ?thesis by (rule span_mono)
  qed
  show "confined ?A (\<lambda>d. let alloc_size = ?n in
       if alloc_size < ucast sz then d_error ''size too large'' d
       else if PB_ATYPE (ftype f) = PB_ATYPE_POINTER then
         if bytes_left (dstr d) < ucast sz then d_error ''end-of-stream'' d
         else then_opt (allocate_field env dest alloc_size 1 d) (\<lambda>d.
                read_string (load_u64 (dmem d) dest) sz d)
       else if alloc_size > ucast (data_size f) then d_error ''string overflow'' d
       else read_string dest sz d)"
    unfolding Let_def using st fits by (intro confined_if) (auto intro!: read_string_confined)
qed

lemma dec_fixed_length_confined:
  "confined (span dest (unat (data_size f))) (pb_dec_fixed_length_bytes f dest)"
  unfolding pb_dec_fixed_length_bytes_def
  by (intro confined_on_stream confined_if)
    (auto intro!: confined_error confined_put(1) read_into_confined)

lemma close_substream_mem: "close_substream s st d = Some (ok, d') \<Longrightarrow> dmem d' = dmem d"
  by (auto simp: close_substream_def split: prod.splits)

lemma with_substream_confined:
  assumes "confined A body"
  shows "confined A (with_substream body)"
proof (rule confinedI)
  fix d ok d' x
  assume w: "with_substream body d = Some (ok, d')" and x: "x \<notin> A"
  show "dmem d' x = dmem d x"
  proof (cases "pb_make_string_substream (dstr d)")
    case (Pair r s)
    show ?thesis
    proof (cases r)
      case None
      with w Pair show ?thesis by (auto simp: with_substream_def)
    next
      case (Some sub)
      with w Pair obtain st e where b: "body (d\<lparr>dstr := sub\<rparr>) = Some (st, e)"
        and c: "close_substream s st e = Some (ok, d')"
        by (auto simp: with_substream_def split: option.splits)
      from confinedD [OF assms b x] close_substream_mem [OF c] show ?thesis by simp
    qed
  qed
qed

lemma PB_DECODERS_confined:
  assumes ok: "value_ok rec ds f" and A: "span dest (unat (data_size f)) \<subseteq> A"
    and sub: "\<And>init. PB_LTYPE (ftype f) = PB_LTYPE_SUBMESSAGE \<Longrightarrow>
      confined A (dec init (ddescs env (ptr f)) dest)"
  shows "confined A (PB_DECODERS dec env (PB_LTYPE (ftype f)) f dest)"
proof -
  let ?lt = "PB_LTYPE (ftype f)"
  have st: "PB_ATYPE (ftype f) = PB_ATYPE_STATIC" and ne: "?lt \<noteq> PB_LTYPE_EXTENSION"
    using ok by (simp_all add: value_ok_def Let_def)
  have sp: "k \<le> unat (data_size f) \<Longrightarrow> span dest k \<subseteq> A" for k
    using A span_mono [of k "unat (data_size f)" dest] by blast
  have eq: "PB_DECODERS dec env lt f dest = g" if "\<And>d. PB_DECODERS dec env lt f dest d = g d" for lt g
    using that by (rule ext)
  consider "?lt = PB_LTYPE_BOOL" | "?lt = PB_LTYPE_VARINT" | "?lt = PB_LTYPE_UVARINT"
    | "?lt = PB_LTYPE_SVARINT" | "?lt = PB_LTYPE_FIXED32" | "?lt = PB_LTYPE_FIXED64"
    | "?lt = PB_LTYPE_BYTES" | "?lt = PB_LTYPE_STRING" | "?lt = PB_LTYPE_SUBMESSAGE"
    | "?lt = PB_LTYPE_FIXED_LENGTH_BYTES" | "?lt \<notin> {PB_LTYPE_BOOL, PB_LTYPE_VARINT, PB_LTYPE_UVARINT,
        PB_LTYPE_SVARINT, PB_LTYPE_FIXED32, PB_LTYPE_FIXED64, PB_LTYPE_BYTES, PB_LTYPE_STRING,
        PB_LTYPE_SUBMESSAGE, PB_LTYPE_FIXED_LENGTH_BYTES}"
    by blast
  then show ?thesis
  proof cases
    case 1
    with ok have "1 \<le> unat (data_size f)" by (simp add: value_ok_def)
    then have "confined A (pb_dec_bool f dest)"
      unfolding pb_dec_bool_def by (intro confined_on_stream confined_put(1)) (simp add: sp)
    with 1 show ?thesis by (simp add: eq [of _ "pb_dec_bool f dest"] PB_DECODERS_def)
  next
    case 2
    have "confined A (pb_dec_varint f dest)"
      unfolding pb_dec_varint_def Let_def using A
      by (intro confined_on_stream store_checked_confined) (blast intro: store_signed_span)
    with 2 show ?thesis by (simp add: eq [of _ "pb_dec_varint f dest"] PB_DECODERS_def)
  next
    case 3
    have "confined A (pb_dec_uvarint f dest)"
      unfolding pb_dec_uvarint_def using A
      by (intro confined_on_stream store_checked_confined) (blast intro: store_unsigned_span)
    with 3 show ?thesis by (simp add: eq [of _ "pb_dec_uvarint f dest"] PB_DECODERS_def)
  next
    case 4
    have "confined A (pb_dec_svarint f dest)"
      unfolding pb_dec_svarint_def using A
      by (intro confined_on_stream store_checked_confined) (blast intro: store_signed_span)
    with 4 show ?thesis by (simp add: eq [of _ "pb_dec_svarint f dest"] PB_DECODERS_def)
  next
    case 5
    with ok have "4 \<le> unat (data_size f)" by (simp add: value_ok_def)
    then have "confined A (pb_dec_fixed32 f dest)"
      unfolding pb_dec_fixed32_def by (intro confined_on_stream confined_put(2) sp)
    with 5 show ?thesis by (simp add: eq [of _ "pb_dec_fixed32 f dest"] PB_DECODERS_def)
  next
    case 6
    with ok have "8 \<le> unat (data_size f)" by (simp add: value_ok_def)
    then have "confined A (pb_dec_fixed64 f dest)"
      unfolding pb_dec_fixed64_def by (intro confined_on_stream confined_put(3) sp)
    with 6 show ?thesis by (simp add: eq [of _ "pb_dec_fixed64 f dest"] PB_DECODERS_def)
  next
    case 7
    from confined_mono [OF dec_bytes_confined [OF st] A] 7 show ?thesis
      by (simp add: eq [of _ "pb_dec_bytes env f dest"] PB_DECODERS_def)
  next
    case 8
    from confined_mono [OF dec_string_confined [OF st] A] 8 show ?thesis
      by (simp add: eq [of _ "pb_dec_string env f dest"] PB_DECODERS_def)
  next
    case 9
    have "ptr f \<noteq> 0" using ok 9 by (simp add: value_ok_def Let_def)
    then have "confined A (pb_dec_submessage dec env f dest)"
      using with_substream_confined [OF sub [OF 9]] by (simp add: pb_dec_submessage_def [abs_def])
    with 9 show ?thesis by (simp add: eq [of _ "pb_dec_submessage dec env f dest"] PB_DECODERS_def)
  next
    case 10
    from confined_mono [OF dec_fixed_length_confined A] 10 show ?thesis
      by (simp add: eq [of _ "pb_dec_fixed_length_bytes f dest"] PB_DECODERS_def)
  next
    case 11
    then show ?thesis by (simp add: confined_def PB_DECODERS_def)
  qed
qed

section \<open>Descriptors that fit their struct\<close>

text \<open>Offsets of a member and of its size cell, as the iterator computes them.\<close>

fun member_offs :: "pb_field list \<Rightarrow> nat \<Rightarrow> u64 \<times> u64" where
  "member_offs fs 0 =
     (ucast (data_offset (fs ! 0)), ucast (data_offset (fs ! 0)) + scast (size_offset (fs ! 0)))"
| "member_offs fs (Suc i) =
     (if in_same_union (fs ! i) (fs ! Suc i) then member_offs fs i
      else let d = fst (member_offs fs i) + prev_field_size (fs ! i) + ucast (data_offset (fs ! Suc i))
           in (d, d + scast (size_offset (fs ! Suc i))))"

lemma iter_ptrs_offs:
  "dest \<noteq> 0 \<Longrightarrow>
   iter_ptrs fs dest i = (dest + fst (member_offs fs i), dest + snd (member_offs fs i))"
  by (induction i) (simp_all add: Let_def)

definition field_ok ::
  "(pb_field list \<Rightarrow> nat \<Rightarrow> bool) \<Rightarrow> (u64 \<Rightarrow> pb_field list) \<Rightarrow> nat \<Rightarrow> pb_field list \<Rightarrow> nat \<Rightarrow> bool" where
  "field_ok rec ds n fs i \<longleftrightarrow>
     (let f = fs ! i; ht = PB_HTYPE (ftype f); po = fst (member_offs fs i); so = snd (member_offs fs i) in
      value_ok rec ds f \<and>
      unat po + unat (data_size f) * (if ht = PB_HTYPE_REPEATED then unat (array_size f) else 1) \<le> n \<and>
      (ht = PB_HTYPE_OPTIONAL \<and> so \<noteq> po \<longrightarrow> unat so + 1 \<le> n) \<and>
      (ht = PB_HTYPE_REPEATED \<or> ht = PB_HTYPE_ONEOF \<longrightarrow> unat so + 4 \<le> n))"

text \<open>
  \<open>msg_ok k ds fs n\<close>: the descriptor \<open>fs\<close> is consistent with a struct of \<open>n\<close> bytes, nested at most \<open>k\<close> deep.
\<close>

fun msg_ok :: "nat \<Rightarrow> (u64 \<Rightarrow> pb_field list) \<Rightarrow> pb_field list \<Rightarrow> nat \<Rightarrow> bool" where
  "msg_ok 0 ds fs n = False"
| "msg_ok (Suc k) ds fs n =
     (wf_fields fs \<and> n < 2 ^ 32 \<and> list_all (field_ok (msg_ok k ds) ds n fs) [0..<length fs])"

definition struct_at :: "u64 \<Rightarrow> nat \<Rightarrow> bool" where
  "struct_at dest n \<longleftrightarrow> dest \<noteq> 0 \<and> unat dest + n \<le> 2 ^ 64"

lemma struct_at_member:
  assumes "struct_at dest n" and "unat off + m \<le> n" and "0 < m"
  shows "struct_at (dest + off) m"
proof -
  have "unat (dest + off) = unat dest + unat off"
    using assms by (intro unat_add_u64) (simp add: struct_at_def)
  with assms show ?thesis by (auto simp: struct_at_def unat_eq_0)
qed

lemma msg_ok_field:
  assumes "msg_ok k ds fs n" and "i < length fs"
  obtains k' where "k = Suc k'" and "field_ok (msg_ok k' ds) ds n fs i"
  using assms by (cases k) (auto simp: list_all_iff)

lemma msg_ok_wf: "msg_ok k ds fs n \<Longrightarrow> wf_fields fs \<and> n < 2 ^ 32"
  by (cases k) simp_all

lemma field_ok_value: "field_ok rec ds n fs i \<Longrightarrow> value_ok rec ds (fs ! i)"
  by (simp add: field_ok_def Let_def)

lemma member_span:
  assumes "field_ok rec ds n fs i" and "n < 2 ^ 32" and "dest \<noteq> 0"
  shows "span (fst (iter_ptrs fs dest i)) (unat (data_size (fs ! i)) *
      (if PB_HTYPE (ftype (fs ! i)) = PB_HTYPE_REPEATED then unat (array_size (fs ! i)) else 1)) \<subseteq> span dest n"
    and "PB_HTYPE (ftype (fs ! i)) = PB_HTYPE_OPTIONAL \<Longrightarrow>
      snd (iter_ptrs fs dest i) \<noteq> fst (iter_ptrs fs dest i) \<Longrightarrow> span (snd (iter_ptrs fs dest i)) 1 \<subseteq> span dest n"
    and "PB_HTYPE (ftype (fs ! i)) = PB_HTYPE_REPEATED \<or> PB_HTYPE (ftype (fs ! i)) = PB_HTYPE_ONEOF \<Longrightarrow>
      span (snd (iter_ptrs fs dest i)) 4 \<subseteq> span dest n"
  unfolding iter_ptrs_offs [OF assms(3)] fst_conv snd_conv
proof -
  let ?f = "fs ! i" and ?po = "fst (member_offs fs i)" and ?so = "snd (member_offs fs i)"
  have n: "n \<le> 2 ^ 64" using assms(2) by simp
  show "span (dest + ?po) (unat (data_size ?f) *
      (if PB_HTYPE (ftype ?f) = PB_HTYPE_REPEATED then unat (array_size ?f) else 1)) \<subseteq> span dest n"
    using assms(1) n by (intro span_sub) (simp_all add: field_ok_def Let_def)
  show "span (dest + ?so) 1 \<subseteq> span dest n"
    if "PB_HTYPE (ftype ?f) = PB_HTYPE_OPTIONAL" "dest + ?so \<noteq> dest + ?po"
    using assms(1) n that by (intro span_sub) (simp_all add: field_ok_def Let_def)
  show "span (dest + ?so) 4 \<subseteq> span dest n"
    if "PB_HTYPE (ftype ?f) = PB_HTYPE_REPEATED \<or> PB_HTYPE (ftype ?f) = PB_HTYPE_ONEOF"
    using assms(1) n that by (intro span_sub) (auto simp: field_ok_def Let_def)
qed

lemma fold_ok_preserves:
  assumes "fold_ok f xs a = Some (ok, b)" and "P a"
    and "\<And>x a ok b. x \<in> set xs \<Longrightarrow> P a \<Longrightarrow> f x a = Some (ok, b) \<Longrightarrow> P b"
  shows "P b"
  using assms
proof (induction xs arbitrary: a)
  case Nil
  then show ?case by simp
next
  case (Cons x xs)
  from Cons.prems(1) obtain ok' a' where f: "f x a = Some (ok', a')"
    "(if ok' then fold_ok f xs a' else Some (False, a')) = Some (ok, b)"
    by (auto split: option.splits)
  have "P a'" using Cons.prems(3) [OF _ Cons.prems(2) f(1)] by simp
  with f(2) Cons.IH [of a'] Cons.prems(3) show ?case by (auto split: if_splits)
qed

lemma for_fields_preserves:
  assumes "for_fields body (iter_at fs dest 0) a = Some (ok, b)" and "wf_fields fs" and "P a"
    and "\<And>i a ok b. i < length fs \<Longrightarrow> P a \<Longrightarrow> body (iter_at fs dest i) a = Some (ok, b) \<Longrightarrow> P b"
  shows "P b"
proof -
  have "0 < length fs" using assms(2) by (simp add: wf_fields_def)
  with assms(1,2) have "fold_ok (\<lambda>j. body (iter_at fs dest j)) [0..<length fs] a = Some (ok, b)"
    by (simp add: for_fields_fold)
  then show ?thesis using assms(3) by (rule fold_ok_preserves) (use assms(4) in auto)
qed

section \<open>Defaults and releasing\<close>

lemma set_defaults_confined:
  "(\<forall>k n fs i dest h h' x. field_ok (msg_ok k ds) ds n fs i \<longrightarrow> n < 2 ^ 32 \<longrightarrow> i < length fs \<longrightarrow>
      struct_at dest n \<longrightarrow> pb_field_set_to_default fuel ds (iter_at fs dest i) h = Some h' \<longrightarrow>
      x \<notin> span dest n \<longrightarrow> h' x = h x) \<and>
   (\<forall>k n fs dest h h' x. msg_ok k ds fs n \<longrightarrow> struct_at dest n \<longrightarrow>
      pb_message_set_to_defaults fuel ds fs dest h = Some h' \<longrightarrow> x \<notin> span dest n \<longrightarrow> h' x = h x)"
proof (induction fuel)
  case 0
  then show ?case by simp
next
  case (Suc fuel)
  have "h' x = h x"
    if ok: "field_ok (msg_ok k ds) ds n fs i" and n: "n < 2 ^ 32" and i: "i < length fs"
      and at: "struct_at dest n" and s: "pb_field_set_to_default (Suc fuel) ds (iter_at fs dest i) h = Some h'"
      and x: "x \<notin> span dest n" for k n fs i dest h h' x
  proof -
    let ?f = "fs ! i" and ?p = "fst (iter_ptrs fs dest i)" and ?q = "snd (iter_ptrs fs dest i)"
    let ?ht = "PB_HTYPE (ftype ?f)"
    have dest: "dest \<noteq> 0" using at by (simp add: struct_at_def)
    have out: "span a m \<subseteq> span dest n \<Longrightarrow> length bs \<le> m \<Longrightarrow> store_bytes g a bs x = g x" for a m bs g
      using x span_mono [of "length bs" m a] by (intro store_bytes_span) blast
    note sp = member_span [OF ok n dest]
    have v: "value_ok (msg_ok k ds) ds ?f" by (rule field_ok_value [OF ok])
    then have st: "PB_ATYPE (ftype ?f) = PB_ATYPE_STATIC" and ne: "PB_LTYPE (ftype ?f) \<noteq> PB_LTYPE_EXTENSION"
      by (simp_all add: value_ok_def Let_def)
    consider (count) "?ht = PB_HTYPE_REPEATED \<or> ?ht = PB_HTYPE_ONEOF"
      | (data) "?ht \<noteq> PB_HTYPE_REPEATED" "?ht \<noteq> PB_HTYPE_ONEOF" by blast
    then show ?thesis
    proof cases
      case count
      then have "h' = store_u32 h ?q 0" using s st ne i by (auto simp: Let_def)
      with out [OF sp(3) [OF count]] show ?thesis by (simp add: store_u32_def)
    next
      case data
      define h1 where "h1 = (if ?ht = PB_HTYPE_OPTIONAL \<and> ?q \<noteq> ?p then store_bytes h ?q [0] else h)"
      have h1: "h1 x = h x" using out [OF sp(2), of "[0]" h] by (simp add: h1_def del: store_bytes.simps)
      have "h' x = h1 x"
      proof (cases "PB_LTYPE (ftype ?f) = PB_LTYPE_SUBMESSAGE")
        case True
        with v obtain "msg_ok k ds (ds (ptr ?f)) (unat (data_size ?f))" "0 < unat (data_size ?f)"
          by (auto simp: value_ok_def Let_def)
        moreover have "struct_at ?p (unat (data_size ?f))"
          using ok data at dest calculation(2)
          by (auto simp: iter_ptrs_offs field_ok_def Let_def intro!: struct_at_member)
        moreover have "pb_message_set_to_defaults fuel ds (ds (ptr ?f)) ?p h1 = Some h'"
          using s st ne i data True by (simp add: Let_def h1_def cong: if_cong)
        moreover have "x \<notin> span ?p (unat (data_size ?f))" using sp(1) data x by auto
        ultimately show ?thesis using Suc.IH by blast
      next
        case False
        then have "h' = store_bytes h1 ?p (if ptr ?f \<noteq> 0 then load_bytes h1 (ptr ?f) (unat (data_size ?f))
            else replicate (unat (data_size ?f)) 0)"
          using s st ne i data by (auto simp: Let_def h1_def split: if_splits)
        with out [OF sp(1)] data show ?thesis by simp
      qed
      with h1 show ?thesis by simp
    qed
  qed
  moreover have "h' x = h x"
    if ok: "msg_ok k ds fs n" and at: "struct_at dest n"
      and s: "pb_message_set_to_defaults (Suc fuel) ds fs dest h = Some h'" and x: "x \<notin> span dest n"
    for k n fs dest h h' x
  proof -
    have wf: "wf_fields fs" and n: "n < 2 ^ 32" using msg_ok_wf [OF ok] by simp_all
    from s obtain b where "for_fields (\<lambda>it h. map_option (Pair True) (pb_field_set_to_default fuel ds it h))
        (iter_at fs dest 0) h = Some (b, h')"
      by (auto simp: iter_begin_at [OF wf])
    then show ?thesis using wf
    proof (rule for_fields_preserves [where P = "\<lambda>g. g x = h x"])
      fix i g b g'
      assume i: "i < length fs" and g: "g x = h x"
        and "map_option (Pair True) (pb_field_set_to_default fuel ds (iter_at fs dest i) g) = Some (b, g')"
      then have "pb_field_set_to_default fuel ds (iter_at fs dest i) g = Some g'" by auto
      moreover obtain k' where "field_ok (msg_ok k' ds) ds n fs i" using msg_ok_field [OF ok i] by metis
      ultimately show "g' x = h x" using Suc.IH n i at x g by metis
    qed simp
  qed
  ultimately show ?case by blast
qed

lemmas message_defaults_confined = set_defaults_confined [THEN conjunct2, rule_format]

lemma release_items_same:
  assumes "release_items rel c p step m = Some m'" and "\<And>p m m'. rel p m = Some m' \<Longrightarrow> m' = m"
  shows "m' = m"
  using assms(1) by (induction c arbitrary: p) (auto split: option.splits dest: assms(2))

lemma release_static:
  "(\<forall>k it m m'. value_ok (msg_ok k ds) ds (it_field it) \<longrightarrow>
      pb_release_single_field fuel ds it m = Some m' \<longrightarrow> m' = m) \<and>
   (\<forall>k fs n dest m m'. msg_ok k ds fs n \<longrightarrow> pb_release fuel ds fs dest m = Some m' \<longrightarrow> m' = m)"
proof (induction fuel)
  case 0
  then show ?case by simp
next
  case (Suc fuel)
  have "m' = m" if ok: "value_ok (msg_ok k ds) ds (it_field it)"
    and r: "pb_release_single_field (Suc fuel) ds it m = Some m'" for k it m m'
  proof -
    let ?f = "it_field it"
    have st: "PB_ATYPE (ftype ?f) = PB_ATYPE_STATIC" and ne: "PB_LTYPE (ftype ?f) \<noteq> PB_LTYPE_EXTENSION"
      and sub: "PB_LTYPE (ftype ?f) = PB_LTYPE_SUBMESSAGE \<Longrightarrow> msg_ok k ds (ds (ptr ?f)) (unat (data_size ?f))"
      using ok by (simp_all add: value_ok_def Let_def)
    have same: "release_items (pb_release fuel ds (ds (ptr ?f))) c p step a = Some a' \<Longrightarrow> a' = a"
      if "PB_LTYPE (ftype ?f) = PB_LTYPE_SUBMESSAGE" for c p step a a'
      by (erule release_items_same) (use Suc.IH sub [OF that] in blast)
    from r st ne same show ?thesis
      by (auto simp: release_field_body_def Let_def split: if_splits option.splits)
  qed
  moreover have "m' = m" if ok: "msg_ok k ds fs n" and r: "pb_release (Suc fuel) ds fs dest m = Some m'"
    for k fs n dest m m'
  proof (cases "dest = 0")
    case True
    with r show ?thesis by simp
  next
    case False
    have wf: "wf_fields fs" using msg_ok_wf [OF ok] by simp
    from r False obtain b where
      "for_fields (\<lambda>it m. map_option (Pair True) (pb_release_single_field fuel ds it m))
         (iter_at fs dest 0) m = Some (b, m')"
      by (auto simp: iter_begin_at [OF wf])
    then show ?thesis using wf
    proof (rule for_fields_preserves [where P = "\<lambda>a. a = m"])
      fix i a b a'
      assume i: "i < length fs" and a: "a = m"
        and "map_option (Pair True) (pb_release_single_field fuel ds (iter_at fs dest i) a) = Some (b, a')"
      then have "pb_release_single_field fuel ds (iter_at fs dest i) a = Some a'" by auto
      moreover obtain k' where "value_ok (msg_ok k' ds) ds (it_field (iter_at fs dest i))"
        using msg_ok_field [OF ok i] field_ok_value i by (metis field_at_nth iter_at_sel(1,2))
      ultimately show "a' = m" using Suc.IH a by blast
    qed simp
  qed
  ultimately show ?case by blast
qed

section \<open>Fields\<close>

lemma PB_HTYPE_cases:
  "PB_HTYPE x = PB_HTYPE_REQUIRED \<or> PB_HTYPE x = PB_HTYPE_OPTIONAL \<or> PB_HTYPE x = PB_HTYPE_REPEATED \<or>
   PB_HTYPE x = PB_HTYPE_ONEOF"
proof -
  define y where "y = take_bit 2 (drop_bit 4 x)"
  have "(0x30 :: u8) = push_bit 4 (mask 2)" by (simp add: mask_eq_exp_minus_1)
  moreover have "x AND push_bit 4 (mask 2) = push_bit 4 y"
    unfolding y_def by (rule bit_word_eqI) (auto simp: bit_simps)
  ultimately have "PB_HTYPE x = push_bit 4 y" by (simp only: PB_HTYPE_def)
  moreover have "unat y < 4" unfolding y_def by (simp only: unsigned_take_bit_eq) (simp add: take_bit_eq_mod)
  then have "unat y \<in> {0, 1, 2, 3}" by auto
  then have "y \<in> {0, 1, 2, 3}" by (auto simp: word_unat_eq_iff)
  ultimately show ?thesis by auto
qed

text \<open>
  The iterator is at field \<open>i\<close>, possibly with its size pointer redirected to the local counter.
\<close>

definition at_field :: "u64 \<Rightarrow> pb_field list \<Rightarrow> u64 \<Rightarrow> nat \<Rightarrow> pb_field_iter \<Rightarrow> bool" where
  "at_field local fs dest i it \<longleftrightarrow>
     i < length fs \<and>
     (it = iter_at fs dest i \<or>
      PB_HTYPE (ftype (fs ! i)) = PB_HTYPE_REPEATED \<and> it = (iter_at fs dest i)\<lparr>pSize := local\<rparr>)"

lemma at_field_sel:
  assumes "at_field local fs dest i it"
  shows "it_field it = fs ! i" and "pData it = fst (iter_ptrs fs dest i)" and "i < length fs"
  using assms by (auto simp: at_field_def)

lemma item_inside:
  assumes f: "unat off + unat (data_size f) * unat (array_size f) \<le> n" and n: "n < 2 ^ 32"
    and sz: "sz < array_size f"
  shows "item_addr f (base + off) sz = base + (off + ucast (data_size f * sz))"
    and "unat (off + ucast (data_size f * sz)) + unat (data_size f) \<le> n"
proof -
  let ?d = "unat (data_size f)"
  have s: "Suc (unat sz) \<le> unat (array_size f)" using sz by (simp add: word_less_nat_alt Suc_leI)
  then have le: "?d * unat sz + ?d \<le> ?d * unat (array_size f)"
    using mult_le_mono2 [OF s, of ?d] by simp
  then have m: "unat (data_size f * sz) = ?d * unat sz"
    using f n by (simp add: unat_word_ariths)
  have "unat (off + ucast (data_size f * sz)) = unat off + ?d * unat sz"
    using f n le m by (subst unat_add_u64) simp_all
  then show "unat (off + ucast (data_size f * sz)) + ?d \<le> n" using f le by simp
  show "item_addr f (base + off) sz = base + (off + ucast (data_size f * sz))"
    by (simp add: item_addr_def)
qed

text \<open>The facts about one field that the proofs below share.\<close>

definition safe_field ::
  "(bool \<Rightarrow> pb_field list \<Rightarrow> u64 \<Rightarrow> 's dstate \<Rightarrow> (bool \<times> 's dstate) option) \<Rightarrow> 's dec_env \<Rightarrow> nat \<Rightarrow>
   nat \<Rightarrow> pb_field list \<Rightarrow> u64 \<Rightarrow> u64 \<Rightarrow> u64 set \<Rightarrow> bool" where
  "safe_field dec env k n fs dest local A \<longleftrightarrow>
     msg_ok (Suc k) (ddescs env) fs n \<and> struct_at dest n \<and> span dest n \<subseteq> A \<and> span local 4 \<subseteq> A \<and>
     (\<forall>init gs a m. msg_ok k (ddescs env) gs m \<longrightarrow> struct_at a m \<longrightarrow> span a m \<subseteq> A \<longrightarrow>
        confined A (dec init gs a))"

lemma safe_fieldD:
  assumes "safe_field dec env k n fs dest local A"
  shows "wf_fields fs" and "n < 2 ^ 32" and "dest \<noteq> 0" and "struct_at dest n"
    and "span dest n \<subseteq> A" and "span local 4 \<subseteq> A"
    and "i < length fs \<Longrightarrow> field_ok (msg_ok k (ddescs env)) (ddescs env) n fs i"
    and "msg_ok k (ddescs env) gs m \<Longrightarrow> struct_at a m \<Longrightarrow> span a m \<subseteq> A \<Longrightarrow> confined A (dec init gs a)"
  using assms by (simp_all add: safe_field_def struct_at_def list_all_iff)

lemma func_confined:
  assumes sf: "safe_field dec env k n fs dest local A" and i: "i < length fs" and a: "a = dest + off" "unat off + unat (data_size (fs ! i)) \<le> n"
  shows "confined A (PB_DECODERS dec env (PB_LTYPE (ftype (fs ! i))) (fs ! i) a)"
proof -
  have ok: "value_ok (msg_ok k (ddescs env)) (ddescs env) (fs ! i)"
    using safe_fieldD(7) [OF sf i] by (rule field_ok_value)
  have "span a (unat (data_size (fs ! i))) \<subseteq> span dest n"
    unfolding a(1) using a(2) safe_fieldD(2) [OF sf] by (intro span_sub) simp_all
  with safe_fieldD(5) [OF sf] have s: "span a (unat (data_size (fs ! i))) \<subseteq> A" by blast
  show ?thesis
  proof (rule PB_DECODERS_confined [OF ok s])
    fix init assume "PB_LTYPE (ftype (fs ! i)) = PB_LTYPE_SUBMESSAGE"
    with ok have "msg_ok k (ddescs env) (ddescs env (ptr (fs ! i))) (unat (data_size (fs ! i)))"
      "0 < unat (data_size (fs ! i))" by (simp_all add: value_ok_def Let_def)
    with struct_at_member [OF safe_fieldD(4) [OF sf] a(2)] a(1) s show "confined A (dec init (ddescs env (ptr (fs ! i))) a)"
      by (intro safe_fieldD(8) [OF sf]) auto
  qed
qed

lemma data_confined:
  assumes sf: "safe_field dec env k n fs dest local A"
    and it: "at_field local fs dest i it" and ht: "PB_HTYPE (ftype (fs ! i)) \<noteq> PB_HTYPE_REPEATED"
  shows "confined A (PB_DECODERS dec env (PB_LTYPE (ftype (fs ! i))) (fs ! i) (pData it))"
proof (rule func_confined [OF sf])
  note sel = at_field_sel [OF it]
  show "i < length fs" "pData it = dest + fst (member_offs fs i)"
    using safe_fieldD(3) [OF sf] sel by (simp_all add: iter_ptrs_offs)
  show "unat (fst (member_offs fs i)) + unat (data_size (fs ! i)) \<le> n"
    using safe_fieldD(7) [OF sf sel(3)] ht by (simp add: field_ok_def Let_def)
qed

lemma item_confined:
  assumes sf: "safe_field dec env k n fs dest local A" and it: "at_field local fs dest i it" and ht: "PB_HTYPE (ftype (fs ! i)) = PB_HTYPE_REPEATED"
    and sz: "sz < array_size (fs ! i)"
  shows "confined A (PB_DECODERS dec env (PB_LTYPE (ftype (fs ! i))) (fs ! i)
           (item_addr (fs ! i) (pData it) sz))"
proof -
  note sel = at_field_sel [OF it]
  have "unat (fst (member_offs fs i)) + unat (data_size (fs ! i)) * unat (array_size (fs ! i)) \<le> n"
    using safe_fieldD(7) [OF sf sel(3)] ht by (simp add: field_ok_def Let_def)
  from item_inside [OF this safe_fieldD(2) [OF sf] sz] show ?thesis
    using sel safe_fieldD(3) [OF sf] by (intro func_confined [OF sf]) (auto simp: iter_ptrs_offs)
qed

lemma size_span:
  assumes sf: "safe_field dec env k n fs dest local A" and it: "at_field local fs dest i it"
  shows "PB_HTYPE (ftype (fs ! i)) = PB_HTYPE_REPEATED \<or> PB_HTYPE (ftype (fs ! i)) = PB_HTYPE_ONEOF \<Longrightarrow>
      span (pSize it) 4 \<subseteq> A"
    and "PB_HTYPE (ftype (fs ! i)) = PB_HTYPE_OPTIONAL \<Longrightarrow> pSize it \<noteq> pData it \<Longrightarrow> span (pSize it) 1 \<subseteq> A"
proof -
  have i: "i < length fs" using it by (simp add: at_field_def)
  note sp = member_span [OF safe_fieldD(7) [OF sf i] safe_fieldD(2,3) [OF sf]]
  show "span (pSize it) 4 \<subseteq> A"
    if "PB_HTYPE (ftype (fs ! i)) = PB_HTYPE_REPEATED \<or> PB_HTYPE (ftype (fs ! i)) = PB_HTYPE_ONEOF"
    using it sp(3) [OF that] safe_fieldD(5,6) [OF sf] by (auto simp: at_field_def)
  show "span (pSize it) 1 \<subseteq> A" if "PB_HTYPE (ftype (fs ! i)) = PB_HTYPE_OPTIONAL" "pSize it \<noteq> pData it"
    using it that sp(2) safe_fieldD(5) [OF sf] by (auto simp: at_field_def)
qed

lemma static_items_confined:
  assumes sf: "safe_field dec env k n fs dest local A" and it: "at_field local fs dest i it" and ht: "PB_HTYPE (ftype (fs ! i)) = PB_HTYPE_REPEATED"
  shows "confined A (static_items m (PB_DECODERS dec env (PB_LTYPE (ftype (fs ! i)))) it)"
proof (induction m)
  case 0
  show ?case by (simp add: confined_def)
next
  case (Suc m)
  let ?f = "fs ! i" and ?func = "PB_DECODERS dec env (PB_LTYPE (ftype (fs ! i)))"
  show ?case
  proof (rule confinedI)
    fix d ok d' x
    assume s: "static_items (Suc m) ?func it d = Some (ok, d')" and x: "x \<notin> A"
    let ?sz = "load_u32 (dmem d) (pSize it)"
    show "dmem d' x = dmem d x"
    proof (cases "bytes_left (dstr d) > 0 \<and> ?sz < array_size ?f")
      case False
      with s show ?thesis by (auto simp: at_field_sel [OF it] Let_def)
    next
      case True
      then have c: "confined A (?func ?f (item_addr ?f (pData it) ?sz))"
        using item_confined [OF sf it ht] by blast
      have "confined A (\<lambda>d. static_items m ?func it
          (put32 (pSize it) (load_u32 (dmem d) (pSize it) + 1) d))"
        by (rule confined_after_put32 [OF Suc.IH size_span(1) [OF sf it]]) (simp add: ht)
      note both = confined_then [OF c this]
      from s True have "then_opt (?func ?f (item_addr ?f (pData it) ?sz) d) (\<lambda>d. static_items m ?func it
          (put32 (pSize it) (load_u32 (dmem d) (pSize it) + 1) d)) = Some (ok, d')"
        by (simp add: at_field_sel [OF it] Let_def)
      from confinedD [OF both this x] show ?thesis .
    qed
  qed
qed

lemma static_packed_confined:
  assumes sf: "safe_field dec env k n fs dest local A" and it: "at_field local fs dest i it"
    and ht: "PB_HTYPE (ftype (fs ! i)) = PB_HTYPE_REPEATED"
  shows "confined A (decode_static_packed (PB_DECODERS dec env (PB_LTYPE (ftype (fs ! i)))) it)"
proof (rule confinedI)
  let ?func = "PB_DECODERS dec env (PB_LTYPE (ftype (fs ! i)))"
  fix d ok d' x assume s: "decode_static_packed ?func it d = Some (ok, d')" and x: "x \<notin> A"
  show "dmem d' x = dmem d x"
  proof (cases "pb_make_string_substream (dstr d)")
    case (Pair r t)
    show ?thesis
    proof (cases r)
      case None
      with s Pair show ?thesis by (auto simp: decode_static_packed_def)
    next
      case (Some sub)
      with s Pair obtain st e where
        e: "static_items (Suc (unat (bytes_left sub))) ?func it (d\<lparr>dstr := sub\<rparr>) = Some (st, e)"
        and r: "(if bytes_left (dstr e) \<noteq> 0 then d_error ''array overflow'' (e\<lparr>dstr := t\<rparr>)
            else close_substream t st e) = Some (ok, d')"
        by (auto simp: decode_static_packed_def simp del: static_items.simps split: option.splits)
      from confinedD [OF static_items_confined [OF sf it ht] e x] have "dmem e x = dmem d x" by simp
      with r show ?thesis
        by (auto split: if_splits dest!: d_error_mem close_substream_mem)
    qed
  qed
qed

lemma oneof_defaults:
  assumes sf: "safe_field dec env k n fs dest local A" and it: "at_field local fs dest i it"
    and lt: "PB_LTYPE (ftype (fs ! i)) = PB_LTYPE_SUBMESSAGE"
    and ht: "PB_HTYPE (ftype (fs ! i)) \<noteq> PB_HTYPE_REPEATED"
    and s: "pb_message_set_to_defaults fuel (ddescs env) (ddescs env (ptr (fs ! i))) (pData it)
        (store_bytes h (pData it) (replicate (unat (data_size (fs ! i))) 0)) = Some h'"
    and x: "x \<notin> A"
  shows "h' x = h x"
proof -
  let ?f = "fs ! i" and ?m = "unat (data_size (fs ! i))"
  note sel = at_field_sel [OF it]
  note ok = safe_fieldD(7) [OF sf sel(3)]
  have m: "msg_ok k (ddescs env) (ddescs env (ptr ?f)) ?m" "0 < ?m"
    using field_ok_value [OF ok] lt by (simp_all add: value_ok_def Let_def)
  have a: "struct_at (pData it) ?m"
    using ok ht m(2) safe_fieldD(3,4) [OF sf] sel
    by (auto simp: iter_ptrs_offs field_ok_def Let_def intro!: struct_at_member)
  have "span (pData it) ?m \<subseteq> span dest n"
    using member_span(1) [OF ok safe_fieldD(2,3) [OF sf]] ht sel by simp
  with safe_fieldD(5) [OF sf] x have o: "x \<notin> span (pData it) ?m" by blast
  from message_defaults_confined [OF m(1) a s o] o show ?thesis by (simp add: store_bytes_span)
qed

lemma static_field_confined:
  assumes sf: "safe_field dec env k n fs dest local A" and it: "at_field local fs dest i it"
  shows "confined A (decode_static_field fuel dec env wt it)"
proof -
  let ?f = "fs ! i" and ?ht = "PB_HTYPE (ftype (fs ! i))"
  let ?func = "PB_DECODERS dec env (PB_LTYPE (ftype (fs ! i)))"
  note sel = at_field_sel [OF it]
  have eq: "confined A (decode_static_field fuel dec env wt it)" if "confined A g"
    "\<And>d. decode_static_field fuel dec env wt it d = g d" for g
    using that unfolding confined_def by simp
  consider (req) "?ht = PB_HTYPE_REQUIRED" | (opt) "?ht = PB_HTYPE_OPTIONAL"
    | (packed) "?ht = PB_HTYPE_REPEATED" "wt = PB_WT_STRING \<and> PB_LTYPE (ftype ?f) \<le> PB_LTYPE_LAST_PACKABLE"
    | (rep) "?ht = PB_HTYPE_REPEATED" "\<not> (wt = PB_WT_STRING \<and> PB_LTYPE (ftype ?f) \<le> PB_LTYPE_LAST_PACKABLE)"
    | (oneof) "?ht \<noteq> PB_HTYPE_REQUIRED" "?ht \<noteq> PB_HTYPE_OPTIONAL" "?ht \<noteq> PB_HTYPE_REPEATED" by blast
  then show ?thesis
  proof cases
    case req
    from data_confined [OF sf it] req show ?thesis
      by (intro eq [of "?func ?f (pData it)"]) (simp_all add: decode_static_field_def sel(1) Let_def)
  next
    case opt
    have "confined A (\<lambda>d. if pSize it \<noteq> pData it then ?func ?f (pData it) (put (pSize it) [1] d)
        else ?func ?f (pData it) d)"
      using opt data_confined [OF sf it] size_span(2) [OF sf it]
      by (intro confined_if confined_after_put) auto
    from eq [OF this] opt show ?thesis by (auto simp: decode_static_field_def sel(1) Let_def)
  next
    case packed
    from static_packed_confined [OF sf it packed(1)] packed show ?thesis
      by (intro eq [of "decode_static_packed ?func it"]) (simp_all add: decode_static_field_def sel(1) Let_def)
  next
    case rep
    show ?thesis
    proof (rule confinedI)
      fix d ok d' x assume s: "decode_static_field fuel dec env wt it d = Some (ok, d')" and x: "x \<notin> A"
      let ?sz = "load_u32 (dmem d) (pSize it)"
      let ?e = "put32 (pSize it) (?sz + 1) d"
      have e: "dmem ?e x = dmem d x" by (rule put_outside(2) [OF size_span(1) [OF sf it] x]) (simp add: rep)
      show "dmem d' x = dmem d x"
      proof (cases "?sz < array_size ?f")
        case True
        with s rep have "?func ?f (item_addr ?f (pData it) ?sz) ?e = Some (ok, d')"
          by (auto simp: decode_static_field_def sel(1) Let_def split: if_splits)
        from confinedD [OF item_confined [OF sf it rep(1) True] this x] e show ?thesis by simp
      next
        case False
        with s rep have "d_error ''array overflow'' ?e = Some (ok, d')"
          by (auto simp: decode_static_field_def sel(1) Let_def split: if_splits)
        with e show ?thesis by (metis d_error_mem)
      qed
    qed
  next
    case oneof
    show ?thesis
    proof (rule confinedI)
      fix d ok d' x assume s: "decode_static_field fuel dec env wt it d = Some (ok, d')" and x: "x \<notin> A"
      from s oneof obtain h where
        h: "(if PB_LTYPE (ftype ?f) = PB_LTYPE_SUBMESSAGE \<and> load_u32 (dmem d) (pSize it) \<noteq> tag ?f
              then pb_message_set_to_defaults fuel (ddescs env) (ddescs env (ptr ?f)) (pData it)
                     (store_bytes (dmem d) (pData it) (replicate (unat (data_size ?f)) 0))
              else Some (dmem d)) = Some h"
        and f: "?func ?f (pData it) (put32 (pSize it) (tag ?f) (d\<lparr>dmem := h\<rparr>)) = Some (ok, d')"
        by (auto simp: decode_static_field_def sel(1) Let_def split: option.splits)
      have "h x = dmem d x" using h oneof_defaults [OF sf it _ oneof(3) _ x] by (auto split: if_splits)
      moreover have "?ht = PB_HTYPE_ONEOF" using oneof PB_HTYPE_cases [of "ftype ?f"] by blast
      then have "dmem (put32 (pSize it) (tag ?f) (d\<lparr>dmem := h\<rparr>)) x = h x"
        by (subst put_outside(2) [OF size_span(1) [OF sf it] x]) simp_all
      ultimately show "dmem d' x = dmem d x"
        using confinedD [OF data_confined [OF sf it oneof(3)] f x] by simp
    qed
  qed
qed

section \<open>The iterator during decoding\<close>

lemma next_redirected:
  assumes "wf_fields fs" "i < length fs" "PB_HTYPE (ftype (fs ! i)) = PB_HTYPE_REPEATED"
  shows "pb_field_iter_next ((iter_at fs dest i)\<lparr>pSize := p\<rparr>) = pb_field_iter_next (iter_at fs dest i)"
proof (cases "Suc i < length fs")
  case True
  with assms show ?thesis
    by (simp add: pb_field_iter_next_def wf_fields_tag in_same_union_def Let_def)
next
  case False
  with assms show ?thesis by (simp add: pb_field_iter_next_def wf_fields_tag field_at_end Let_def)
qed

lemma next_at_field:
  assumes wf: "wf_fields fs" and it: "at_field local fs dest i it"
  shows "pb_field_iter_next it = pb_field_iter_next (iter_at fs dest i)"
  using it next_redirected [OF wf] by (auto simp: at_field_def)

lemma next_stays:
  assumes wf: "wf_fields fs" and it: "at_field local fs dest i it"
  shows "\<exists>j < length fs. snd (pb_field_iter_next it) = iter_at fs dest j"
proof -
  have i: "i < length fs" using it by (simp add: at_field_def)
  have "0 < length fs" using i by linarith
  with next_at_field [OF wf it] iter_next_at [OF wf i, of dest] show ?thesis
    by (cases "Suc i < length fs") auto
qed

lemma find_at_field:
  assumes wf: "wf_fields fs" and it: "at_field local fs dest i it"
    and f: "pb_field_iter_find it t = Some (b, it')"
  shows "\<exists>j. at_field local fs dest j it' \<and> (b \<longrightarrow> tag (fs ! j) = t)"
proof -
  note sel = at_field_sel [OF it]
  show ?thesis
  proof (cases "tag_matches t (fs ! i)")
    case True
    then have "b" "it' = it" using f sel(1) by (auto simp: pb_field_iter_find_def tag_matches_def)
    with it True show ?thesis by (auto simp: tag_matches_def)
  next
    case False
    have "it_start it = fs" "it_pos it = i" using it by (auto simp: at_field_def)
    with False have "pb_field_iter_find it t = pb_field_iter_find (iter_at fs dest i) t"
      using sel next_at_field [OF wf it] by (auto simp: pb_field_iter_find_def tag_matches_def Let_def)
    with find_returns [OF wf sel(3), of dest t] f show ?thesis
      by (auto simp: at_field_def tag_matches_def)
  qed
qed

lemma find_ext_none:
  assumes wf: "wf_fields fs" and ne: "\<And>i. i < length fs \<Longrightarrow> PB_LTYPE (ftype (fs ! i)) \<noteq> PB_LTYPE_EXTENSION"
  shows "at_field local fs dest i it \<Longrightarrow> find_ext_loop m start it = Some (b, it') \<Longrightarrow>
    \<not> b \<and> (\<exists>j < length fs. it' = iter_at fs dest j)"
proof (induction m arbitrary: i it)
  case 0
  then show ?case by simp
next
  case (Suc m)
  note sel = at_field_sel [OF Suc.prems(1)]
  from next_stays [OF wf Suc.prems(1)] obtain j where
    j: "j < length fs" "snd (pb_field_iter_next it) = iter_at fs dest j" by blast
  then have "at_field local fs dest j (iter_at fs dest j)" by (simp add: at_field_def)
  with Suc.IH Suc.prems(2) ne [OF sel(3)] sel(1) j show ?case
    by (auto simp: Let_def split: if_splits)
qed

lemma release_union_mem:
  assumes sf: "safe_field dec env k n fs dest local A" and it: "at_field local fs dest i it"
    and r: "pb_release_union_field fuel env it d = Some (ok, it', d')"
  shows "dmem d' = dmem d \<and> (\<exists>j. at_field local fs dest j it')"
proof -
  note wf = safe_fieldD(1) [OF sf]
  have static: "PB_ATYPE (ftype (it_field c)) = PB_ATYPE_STATIC \<and>
      value_ok (msg_ok k (ddescs env)) (ddescs env) (it_field c)" if "at_field local fs dest j c" for j c
    using field_ok_value [OF safe_fieldD(7) [OF sf]] at_field_sel [OF that]
    by (auto simp: value_ok_def Let_def)
  have rel: "dmem e' = dmem e" if "released (pb_release_single_field fuel (ddescs env) c) e = Some e'"
    and "at_field local fs dest j c" for c j and e e' :: "'a dstate"
    using that(1) release_static [THEN conjunct1, rule_format, of k "ddescs env" c fuel "(dmem e, blocks e)"]
      static [OF that(2)] by (auto simp: released_def)
  show ?thesis
  proof (cases "load_u32 (dmem d) (pSize it) = 0 \<or> load_u32 (dmem d) (pSize it) = tag (it_field it)")
    case True
    with r it show ?thesis by (auto simp: pb_release_union_field_def Let_def)
  next
    case False
    with r obtain b1 c1 where f1: "pb_field_iter_find it (load_u32 (dmem d) (pSize it)) = Some (b1, c1)"
      by (auto simp: pb_release_union_field_def Let_def split: option.splits)
    from find_at_field [OF wf it f1] obtain j1 where j1: "at_field local fs dest j1 c1" by blast
    show ?thesis
    proof (cases b1)
      case False
      with r f1 \<open>\<not> (load_u32 (dmem d) (pSize it) = 0 \<or> _)\<close> j1 show ?thesis
        by (auto simp: pb_release_union_field_def Let_def d_error_def)
    next
      case True
      with r f1 \<open>\<not> (load_u32 (dmem d) (pSize it) = 0 \<or> _)\<close> obtain e b2 c2 where
        e: "released (pb_release_single_field fuel (ddescs env) c1) d = Some e"
        and f2: "pb_field_iter_find c1 (tag (it_field it)) = Some (b2, c2)"
        by (auto simp: pb_release_union_field_def Let_def split: option.splits)
      from find_at_field [OF wf j1 f2] obtain j2 where j2: "at_field local fs dest j2 c2" by blast
      from r f1 True e f2 False static [OF j2] rel [OF e j1] j2 show ?thesis
        by (cases b2) (auto simp: pb_release_union_field_def Let_def d_error_def)
    qed
  qed
qed

section \<open>Messages\<close>

lemma decode_field_safe:
  assumes sf: "safe_field dec env k n fs dest local A" and it: "at_field local fs dest i it"
    and r: "decode_field fuel dec env wt it d = Some (ok, it', d')" and x: "x \<notin> A"
  shows "dmem d' x = dmem d x \<and> (\<exists>j. at_field local fs dest j it')"
proof -
  from r obtain b c e where
    u: "(if PB_HTYPE (ftype (it_field it)) = PB_HTYPE_ONEOF
         then pb_release_union_field fuel env it d else Some (True, it, d)) = Some (b, c, e)"
    by (auto simp: decode_field_def split: option.splits)
  then have "dmem e = dmem d \<and> (\<exists>j. at_field local fs dest j c)"
    using release_union_mem [OF sf it] it by (auto split: if_splits)
  then obtain j where e: "dmem e = dmem d" and j: "at_field local fs dest j c" by blast
  show ?thesis
  proof (cases b)
    case False
    with r u e j show ?thesis by (auto simp: decode_field_def)
  next
    case True
    note sel = at_field_sel [OF j]
    have "PB_ATYPE (ftype (it_field c)) = PB_ATYPE_STATIC"
      using field_ok_value [OF safe_fieldD(7) [OF sf sel(3)]] sel(1) by (simp add: value_ok_def Let_def)
    with r u True have "decode_static_field fuel dec env wt c e = Some (ok, d')" "it' = c"
      by (auto simp: decode_field_def)
    with confinedD [OF static_field_confined [OF sf j] _ x] e j show ?thesis by metis
  qed
qed

lemma pb_decode_tag_small: "pb_decode_tag s = (Some (wt, t), eof, s') \<Longrightarrow> t < 0xFFFFFFFF"
proof -
  assume "pb_decode_tag s = (Some (wt, t), eof, s')"
  then obtain v where "t = drop_bit 3 v"
    by (auto simp: pb_decode_tag_def split: prod.splits option.splits if_splits)
  then have "unat t = unat v div 8" by (simp add: drop_bit_eq_div unat_div)
  then show ?thesis using unat_u32_lt [of v] by (simp add: word_less_nat_alt)
qed

lemma unknown_field_safe:
  assumes sf: "safe_field dec env k n fs dest local A" and it: "at_field local fs dest i (iter l)"
    and r: "unknown_field fuel dec env t wt l d = Some (ok, l', d')" and t: "t < 0xFFFFFFFF"
  shows "dmem d' = dmem d \<and> (\<exists>j. at_field local fs dest j (iter l'))"
proof -
  have ne: "PB_LTYPE (ftype (fs ! i)) \<noteq> PB_LTYPE_EXTENSION" if "i < length fs" for i
    using field_ok_value [OF safe_fieldD(7) [OF sf that]] by (simp add: value_ok_def Let_def)
  have skip: "dmem e' = dmem e" if "on_stream (\<lambda>s. pb_skip_field s wt) (\<lambda>_ d. Some (True, d)) e = Some (b, e')"
    for b and e e' :: "'a dstate"
    using that by (auto simp: on_stream_def split: prod.splits option.splits)
  show ?thesis
  proof (cases "extension_range_start l \<le> t")
    case False
    with r it show ?thesis by (auto simp: unknown_field_def Let_def dest: skip)
  next
    case True
    with r obtain b c where f: "find_extension_field (iter l) = Some (b, c)"
      by (auto simp: unknown_field_def Let_def split: option.splits)
    with find_ext_none [OF safe_fieldD(1) [OF sf] ne it] obtain j where
      j: "\<not> b" "j < length fs" "c = iter_at fs dest j"
      unfolding find_extension_field_def by blast
    have "(- 1 :: u32) = 0xFFFFFFFF" by simp
    then have "\<not> (- 1 :: u32) \<le> t" using t by (simp only: not_le)
    with r True f j(1) have "dmem d' = dmem d" "iter l' = c"
      by (auto simp: unknown_field_def Let_def dest: skip)
    with j show ?thesis by (auto simp: at_field_def)
  qed
qed

lemma known_field_safe:
  assumes sf: "safe_field dec env k n fs dest local A" and it: "at_field local fs dest i (iter l)"
    and r: "known_field fuel local dec env wt l d = Some (ok, l', d')" and x: "x \<notin> A"
  shows "dmem d' x = dmem d x \<and> (\<exists>j. at_field local fs dest j (iter l'))"
proof -
  let ?it = "iter l" and ?fixed = "PB_HTYPE (ftype (it_field (iter l))) = PB_HTYPE_REPEATED \<and>
    pSize (iter l) = pData (iter l)"
  let ?fresh = "?fixed \<and> fixed_count_field l \<noteq> Some (it_pos (iter l))"
  define e where "e = (if ?fresh then put32 local 0 d else d)"
  define c where "c = (if ?fixed then ?it\<lparr>pSize := local\<rparr> else ?it)"
  have e: "dmem e x = dmem d x" by (simp add: e_def put_outside(2) [OF safe_fieldD(6) [OF sf] x])
  have c: "at_field local fs dest i c"
    using it at_field_sel [OF it] by (auto simp: at_field_def c_def)
  show ?thesis
  proof (cases "?fresh \<and> fixed_count_wrong local l (dmem d)")
    case True
    with r it show ?thesis by (auto simp: known_field_def Let_def d_error_def)
  next
    case False
    then obtain g c' where g: "decode_field fuel dec env wt c e = Some (ok, c', d')" "iter l' = c'"
      using r unfolding known_field_def Let_def e_def c_def by (auto split: if_splits)
    from decode_field_safe [OF sf c g(1) x] e g(2) show ?thesis by simp
  qed
qed

lemma noinit_end_mem: "noinit_end local l d = Some (ok, d') \<Longrightarrow> dmem d' = dmem d"
  by (auto simp: noinit_end_def d_error_def split: if_splits)

lemma noinit_loop_safe:
  assumes sf: "safe_field dec env k n fs dest local A" and x: "x \<notin> A"
  shows "at_field local fs dest i (iter l) \<Longrightarrow> noinit_loop m fuel local dec env l d = Some (ok, d') \<Longrightarrow>
    dmem d' x = dmem d x"
proof (induction m arbitrary: i l d)
  case 0
  then show ?case
    by (auto simp: noinit_loop.simps [of 0] split: if_splits dest: noinit_end_mem)
next
  case (Suc m)
  show ?case
  proof (cases "bytes_left (dstr d) = 0")
    case True
    with Suc.prems show ?thesis by (auto simp: noinit_loop.simps [of "Suc m"] dest: noinit_end_mem)
  next
    case more: False
    obtain r eof s where p: "pb_decode_tag (dstr d) = (r, eof, s)" by (cases "pb_decode_tag (dstr d)") auto
    show ?thesis
    proof (cases r)
      case None
      with Suc.prems more p show ?thesis
        by (auto simp: noinit_loop.simps [of "Suc m"] split: if_splits dest: noinit_end_mem)
    next
      case (Some w)
      obtain wt t where w: "w = (wt, t)" by (cases w)
      have small: "t < 0xFFFFFFFF" using p Some w by (auto intro: pb_decode_tag_small)
      from Suc.prems more p Some w obtain b c where f: "pb_field_iter_find (iter l) t = Some (b, c)"
        by (auto simp: noinit_loop.simps [of "Suc m"] Let_def split: option.splits)
      from find_at_field [OF safe_fieldD(1) [OF sf] Suc.prems(1) f] obtain j where
        j: "at_field local fs dest j (iter (l\<lparr>iter := c\<rparr>))" by auto
      let ?d = "d\<lparr>dstr := s\<rparr>" and ?l = "l\<lparr>iter := c\<rparr>"
      from Suc.prems more p Some w f obtain b2 l2 d2 where
        st: "(if b then known_field fuel local dec env wt ?l ?d
              else unknown_field fuel dec env t wt ?l ?d) = Some (b2, l2, d2)"
        and rest: "(if b2 then noinit_loop m fuel local dec env l2 d2 else Some (False, d2)) = Some (ok, d')"
        by (auto simp: noinit_loop.simps [of "Suc m"] Let_def split: option.splits bool.splits)
      have "dmem d2 x = dmem d x \<and> (\<exists>j. at_field local fs dest j (iter l2))"
        using st known_field_safe [OF sf j _ x, where d = ?d] unknown_field_safe [OF sf j _ small, where d = ?d]
        by (auto split: if_splits)
      with rest Suc.IH show ?thesis by (auto split: if_splits)
    qed
  qed
qed

lemma decode_confined:
  assumes F: "\<And>j. span (frame env j) 4 \<subseteq> A"
  shows "msg_ok k (ddescs env) fs n \<Longrightarrow> struct_at dest n \<Longrightarrow> span dest n \<subseteq> A \<Longrightarrow>
    confined A (pb_decode_noinit fuel env fs dest) \<and>
    confined A (pb_decode_using (pb_decode_noinit fuel env) fuel env fs dest)"
proof (induction fuel arbitrary: k fs n dest)
  case 0
  then show ?case by (auto simp: confined_def pb_decode_using_def split: option.splits)
next
  case (Suc fuel)
  let ?dec = "\<lambda>init. if init then pb_decode_using (pb_decode_noinit fuel env) fuel env
      else pb_decode_noinit fuel env"
  obtain k' where k: "k = Suc k'" using Suc.prems(1) by (cases k) auto
  have wf: "wf_fields fs" using msg_ok_wf [OF Suc.prems(1)] by simp
  then have at: "at_field (frame env fuel) fs dest 0 (snd (pb_field_iter_begin fs dest))"
    by (simp add: iter_begin_at at_field_def wf_fields_def)
  have sf: "safe_field ?dec env k' n fs dest (frame env fuel) A"
    using Suc.prems Suc.IH F k by (simp add: safe_field_def)
  let ?l = "\<lparr>fields_seen = [0, 0], extension_range_start = 0, iter = snd (pb_field_iter_begin fs dest),
       fixed_count_field = None\<rparr>"
  have loop: "dmem d' x = dmem e x" if "x \<notin> A"
    "noinit_loop m fuel (frame env fuel) ?dec env ?l e = Some (ok, d')" for m x ok d' e
    by (rule noinit_loop_safe [where i = 0, OF sf that(1) _ that(2)]) (simp add: at)
  have noinit: "confined A (pb_decode_noinit (Suc fuel) env fs dest)"
    using loop put_outside(2) [OF F] by (auto simp del: noinit_loop.simps intro!: confinedI)
  have full: "confined A (pb_decode_using (pb_decode_noinit (Suc fuel) env) (Suc fuel) env fs dest)"
  proof (rule confinedI)
    fix d ok d' x
    assume r: "pb_decode_using (pb_decode_noinit (Suc fuel) env) (Suc fuel) env fs dest d = Some (ok, d')"
      and x: "x \<notin> A"
    from r obtain h b e where
      h: "pb_message_set_to_defaults (Suc fuel) (ddescs env) fs dest (dmem d) = Some h"
      and e: "pb_decode_noinit (Suc fuel) env fs dest (d\<lparr>dmem := h\<rparr>) = Some (b, e)"
      and rel: "(if b then Some (True, e) else
         map_option (Pair False) (released (pb_release (Suc fuel) (ddescs env) fs dest) e)) = Some (ok, d')"
      unfolding pb_decode_using_def by (auto split: option.splits bool.splits)
    have "h x = dmem d x"
      using message_defaults_confined [OF Suc.prems(1,2) h] Suc.prems(3) x by blast
    moreover have "dmem e x = h x" using confinedD [OF noinit e x] by simp
    moreover have "dmem d' = dmem e"
      using rel release_static [THEN conjunct2, rule_format, OF Suc.prems(1)]
      by (auto simp: released_def simp del: pb_release.simps split: if_splits)
    ultimately show "dmem d' x = dmem d x" by simp
  qed
  from noinit full show ?case by blast
qed


text \<open>A struct of 16 bytes: a string of at most three characters, an array of two \<open>fixed32\<close>.\<close>

definition demo_static :: "pb_field list" where
  "demo_static =
     [\<lparr>tag = 1, ftype = PB_HTYPE_REQUIRED OR PB_LTYPE_STRING, data_offset = 0, size_offset = 0,
       data_size = 4, array_size = 0, ptr = 0\<rparr>,
      \<lparr>tag = 2, ftype = PB_HTYPE_REPEATED OR PB_LTYPE_FIXED32, data_offset = 4, size_offset = - 4,
       data_size = 4, array_size = 2, ptr = 0\<rparr>]"

definition demo_dec_env :: "bufsource dec_env" where
  "demo_dec_env = \<lparr>ddescs = (\<lambda>_. []), dec_cb = (\<lambda>_ s _ _ h. (False, s, h)),
     dec_cb_raw = (\<lambda>_ _ _ _ h. (False, h)), ext_dec = (\<lambda>_ s _ _ _ h. (False, s, h)),
     pick = (\<lambda>_ _. 0), frame = (\<lambda>_. 0x900)\<rparr>"

text \<open>The input holds a string of five characters, too long for the struct.\<close>

definition demo_input :: "u8 list" where
  "demo_input = [0x0A, 5, 0x68, 0x65, 0x6C, 0x6C, 0x6F]"

definition demo_state :: "bufsource dstate" where
  "demo_state = \<lparr>dstr = pb_istream_from_buffer (store_bytes (\<lambda>_. 0) 0x400 demo_input) 0x400 7,
     dmem = (\<lambda>_. 0xFF), blocks = []\<rparr>"

lemma demo_decode_fails:
  "map_option fst (pb_decode 3 demo_dec_env demo_static 0x100 demo_state) = Some False"
  by code_simp

lemma demo_static_ok: "msg_ok 1 (ddescs demo_dec_env) demo_static 16" "struct_at 0x100 16"
proof -
  have "field_ok (msg_ok 0 (ddescs demo_dec_env)) (ddescs demo_dec_env) 16 demo_static i" if "i < Suc (Suc 0)" for i
    using that by (cases i) (simp_all add: demo_static_def field_ok_def value_ok_def Let_def PB_ATYPE_def
        PB_HTYPE_def PB_LTYPE_def prev_field_size_def in_same_union_def less_Suc_eq)
  then show "msg_ok 1 (ddescs demo_dec_env) demo_static 16"
    by (simp add: wf_fields_def list_all_iff demo_static_def)
  show "struct_at 0x100 16" by (simp add: struct_at_def)
qed




end
