(* ===== verification/ConstTime.thy ===== *)
theory ConstTime
  imports Prelude
begin

unbundle bit_operations_syntax

text \<open>
  The constant-time helpers of BoringSSL (crypto/internal.h) and the byte-string helpers of
  crypto/mem.c. A \<open>crypto_word_t\<close> is 64 bits wide; \<open>value_barrier_w\<close> is the identity on values. The
  branch-free formulas are shown equal to the comparisons they stand for, on all words.
\<close>

section \<open>Masks\<close>

definition constant_time_msb_w :: "u64 \<Rightarrow> u64" where
  "constant_time_msb_w a = 0 - drop_bit 63 a"

definition constant_time_lt_w :: "u64 \<Rightarrow> u64 \<Rightarrow> u64" where
  "constant_time_lt_w a b = constant_time_msb_w (a XOR ((a XOR b) OR ((a - b) XOR a)))"

definition constant_time_lt_8 :: "u64 \<Rightarrow> u64 \<Rightarrow> u8" where
  "constant_time_lt_8 a b = ucast (constant_time_lt_w a b)"

definition constant_time_ge_w :: "u64 \<Rightarrow> u64 \<Rightarrow> u64" where
  "constant_time_ge_w a b = NOT (constant_time_lt_w a b)"

definition constant_time_ge_8 :: "u64 \<Rightarrow> u64 \<Rightarrow> u8" where
  "constant_time_ge_8 a b = ucast (constant_time_ge_w a b)"

definition constant_time_is_zero_w :: "u64 \<Rightarrow> u64" where
  "constant_time_is_zero_w a = constant_time_msb_w (NOT a AND (a - 1))"

definition constant_time_is_zero_8 :: "u64 \<Rightarrow> u8" where
  "constant_time_is_zero_8 a = ucast (constant_time_is_zero_w a)"

definition constant_time_eq_w :: "u64 \<Rightarrow> u64 \<Rightarrow> u64" where
  "constant_time_eq_w a b = constant_time_is_zero_w (a XOR b)"

definition constant_time_eq_8 :: "u64 \<Rightarrow> u64 \<Rightarrow> u8" where
  "constant_time_eq_8 a b = ucast (constant_time_eq_w a b)"

definition value_barrier_w :: "u64 \<Rightarrow> u64" where
  "value_barrier_w a = a"

definition constant_time_select_w :: "u64 \<Rightarrow> u64 \<Rightarrow> u64 \<Rightarrow> u64" where
  "constant_time_select_w m a b = (value_barrier_w m AND a) OR (value_barrier_w (NOT m) AND b)"

definition constant_time_select_8 :: "u8 \<Rightarrow> u8 \<Rightarrow> u8 \<Rightarrow> u8" where
  "constant_time_select_8 m a b = ucast (constant_time_select_w (ucast m) (ucast a) (ucast b))"

section \<open>Byte strings\<close>

definition CRYPTO_memcmp :: "u8 list \<Rightarrow> u8 list \<Rightarrow> nat \<Rightarrow> u8" where
  "CRYPTO_memcmp a b len = fold (\<lambda>i x. x OR (a ! i XOR b ! i)) [0..<len] 0"

definition OPENSSL_hash32 :: "u8 list \<Rightarrow> u32" where
  "OPENSSL_hash32 s = fold (\<lambda>c h. (h XOR ucast c) * 16777619) s 2166136261"

fun OPENSSL_strnlen :: "u8 list \<Rightarrow> nat \<Rightarrow> nat" where
  "OPENSSL_strnlen s 0 = 0"
| "OPENSSL_strnlen [] len = 0"
| "OPENSSL_strnlen (c # s) (Suc len) = (if c = 0 then 0 else Suc (OPENSSL_strnlen s len))"

section \<open>Correctness\<close>

lemma msb_w_mask: "constant_time_msb_w a = (if bit a 63 then - 1 else 0)"
proof -
  have "drop_bit 63 a = of_bool (bit a 63)"
  proof (rule bit_word_eqI)
    fix n :: nat assume "n < LENGTH(64)"
    then show "bit (drop_bit 63 a) n = bit (of_bool (bit a 63) :: u64) n"
      by (cases n) (auto simp: bit_drop_bit_eq bit_of_bool_iff dest: bit_imp_le_length)
  qed
  then show ?thesis by (simp add: constant_time_msb_w_def)
qed

lemma bit_63_iff: "bit (a :: u64) 63 \<longleftrightarrow> 2 ^ 63 \<le> unat a"
proof -
  have "bit a 63 \<longleftrightarrow> odd (unat a div 2 ^ 63)" by (simp add: bit_unat_iff bit_iff_odd)
  moreover have "unat a div 2 ^ 63 < 2" using unat_u64_lt [of a] by (intro less_mult_imp_div_less) simp
  then have "odd (unat a div 2 ^ 63) \<longleftrightarrow> unat a div 2 ^ 63 \<noteq> 0" by (auto simp: less_2_cases_iff)
  moreover have "unat a div 2 ^ 63 \<noteq> 0 \<longleftrightarrow> 2 ^ 63 \<le> unat a" by (simp add: div_eq_0_iff not_less)
  ultimately show ?thesis by simp
qed

lemma sub_sign:
  fixes a b :: u64
  assumes "bit a 63 = bit b 63"
  shows "bit (a - b) 63 \<longleftrightarrow> a < b"
proof (cases "a < b")
  case True
  then have lt: "unat a < unat b" by (simp add: word_less_nat_alt)
  then have "unat (a - b) = unat a + 2 ^ 64 - unat b"
    by (simp add: unat_sub_if_size word_size not_le [symmetric])
  then have "unat (a - b) = 2 ^ 64 - (unat b - unat a)" using lt unat_u64_lt [of b] by simp
  moreover have "unat b - unat a \<le> 2 ^ 63"
    using assms unat_u64_lt [of b] by (auto simp: bit_63_iff)
  ultimately show ?thesis using True by (simp add: bit_63_iff)
next
  case False
  then have le: "unat b \<le> unat a" by (simp add: word_less_nat_alt)
  then have "unat (a - b) = unat a - unat b" by (intro unat_sub_u64)
  then show ?thesis using False le assms unat_u64_lt [of a] by (auto simp: bit_63_iff)
qed

lemma lt_w_mask: "constant_time_lt_w a b = (if a < b then - 1 else 0)"
proof -
  have "bit (a XOR ((a XOR b) OR ((a - b) XOR a))) 63 \<longleftrightarrow> a < b"
  proof (cases "bit a 63 = bit b 63")
    case True
    with sub_sign [OF this] show ?thesis by (auto simp: bit_xor_iff bit_or_iff)
  next
    case False
    then have "a < b \<longleftrightarrow> bit b 63" by (auto simp: bit_63_iff word_less_nat_alt)
    with False show ?thesis by (auto simp: bit_xor_iff bit_or_iff)
  qed
  then show ?thesis by (simp add: constant_time_lt_w_def msb_w_mask)
qed

lemma is_zero_w_mask: "constant_time_is_zero_w a = (if a = 0 then - 1 else 0)"
proof (cases "a = 0")
  case True
  then show ?thesis by (simp add: constant_time_is_zero_w_def msb_w_mask)
next
  case False
  then have "unat (a - 1) = unat a - 1" by (metis unat_sub_u64 unat_1 unat_gt_0 Suc_leI One_nat_def)
  then have "\<not> (bit (a - 1) 63 \<and> \<not> bit a 63)" by (auto simp: bit_63_iff)
  with False show ?thesis
    by (auto simp: constant_time_is_zero_w_def msb_w_mask bit_and_iff bit_not_iff)
qed

lemma xor_eq_0: "(a XOR b = 0) = (a = (b :: 'a::len word))"
proof
  assume "a XOR b = 0"
  then have "(a XOR b) XOR b = b" by (simp only: xor.left_neutral)
  moreover have "(a XOR b) XOR b = a" by (simp only: xor.assoc xor_self_eq xor.right_neutral)
  ultimately show "a = b" by simp
qed simp

lemma eq_w_mask: "constant_time_eq_w a b = (if a = b then - 1 else 0)"
  by (simp add: constant_time_eq_w_def is_zero_w_mask xor_eq_0)

lemma ucast_u8_ones [simp]: "(ucast (- 1 :: u64) :: u8) = - 1"
  by (rule bit_word_eqI) (simp add: bit_simps)

lemma ucast_u8_u64_u8 [simp]: "(ucast (ucast (b :: u8) :: u64) :: u8) = b"
  by (rule bit_word_eqI) (auto simp: bit_simps)

lemma masks_8:
  "constant_time_lt_8 a b = (if a < b then - 1 else 0)"
  "constant_time_ge_8 a b = (if a < b then 0 else - 1)"
  "constant_time_is_zero_8 a = (if a = 0 then - 1 else 0)"
  "constant_time_eq_8 a b = (if a = b then - 1 else 0)"
  by (simp_all add: constant_time_lt_8_def constant_time_ge_8_def constant_time_ge_w_def lt_w_mask
      constant_time_is_zero_8_def is_zero_w_mask constant_time_eq_8_def eq_w_mask)

lemma select_8_mask: "constant_time_select_8 (if c then - 1 else 0) a b = (if c then a else b)"
proof -
  have "ucast (ucast (- 1 :: u8) AND ucast a OR NOT (ucast (- 1 :: u8)) AND ucast b :: u64) = a"
    by (rule bit_word_eqI) (auto simp: bit_simps)
  then show ?thesis
    by (simp add: constant_time_select_8_def constant_time_select_w_def value_barrier_w_def)
qed

lemma memcmp_fold:
  "fold (\<lambda>i x. x OR (a ! i XOR b ! i)) is x = (0 :: u8) \<longleftrightarrow> x = 0 \<and> (\<forall>i \<in> set is. a ! i = b ! i)"
proof (induction "is" arbitrary: x)
  case Nil
  then show ?case by simp
next
  case (Cons i "is")
  have "x OR (a ! i XOR b ! i) = 0 \<longleftrightarrow> x = 0 \<and> a ! i = b ! i"
    by (simp add: or_eq_0_iff xor_eq_0)
  with Cons show ?case by auto
qed

text \<open>
  The branch-free comparisons compute the masks of the comparisons: all ones when the condition
  holds and all zeros otherwise, for every pair of 64-bit words, and the select picks by the mask.
\<close>

theorem constant_time_masks:
  "constant_time_lt_w a b = (if a < b then - 1 else 0) \<and>
   constant_time_ge_w a b = (if a \<ge> b then - 1 else 0) \<and>
   constant_time_is_zero_w a = (if a = 0 then - 1 else 0) \<and>
   constant_time_eq_w a b = (if a = b then - 1 else 0) \<and>
   constant_time_select_w (constant_time_lt_w a b) c d = (if a < b then c else d) \<and>
   constant_time_select_8 (constant_time_eq_8 a b) e f = (if a = b then e else f)"
  by (auto simp: lt_w_mask is_zero_w_mask eq_w_mask constant_time_ge_w_def constant_time_select_w_def
      value_barrier_w_def masks_8 select_8_mask)

text \<open>
  \<open>CRYPTO_memcmp\<close>, which looks at every byte, is zero exactly when the two buffers agree.
\<close>

theorem CRYPTO_memcmp_correct:
  assumes "len \<le> length a" and "len \<le> length b"
  shows "CRYPTO_memcmp a b len = 0 \<longleftrightarrow> take len a = take len b"
  using assms by (auto simp: CRYPTO_memcmp_def memcmp_fold list_eq_iff_nth_eq)

theorem CRYPTO_memcmp_correct_witness:
  "CRYPTO_memcmp [1, 2, 3] [1, 2, 4] 3 \<noteq> 0 \<and> CRYPTO_memcmp [1, 2, 3] [1, 2, 4] 2 = 0"
  using CRYPTO_memcmp_correct [of 3 "[1, 2, 3]" "[1, 2, 4]"] CRYPTO_memcmp_correct [of 2 "[1, 2, 3]" "[1, 2, 4]"]
  by simp

end
