(* ===== verification/Base64.thy ===== *)
theory Base64
  imports ConstTime
begin

unbundle bit_operations_syntax

text \<open>
  Base64 encoding and decoding (BoringSSL crypto/base64/base64.c). Inputs are byte lists, so a
  length parameter is the length of its list; outputs are the bytes written from \<open>out\<close> on. The context
  \<open>EVP_ENCODE_CTX\<close> is a record; the result of a decoder is its return code, \<open>*out_len\<close> and the bytes.
\<close>

section \<open>Characters\<close>

definition constant_time_lt_args_8 :: "u8 \<Rightarrow> u8 \<Rightarrow> u8" where
  "constant_time_lt_args_8 a b = ucast (constant_time_msb_w (ucast a - ucast b))"

definition constant_time_in_range_8 :: "u8 \<Rightarrow> u8 \<Rightarrow> u8 \<Rightarrow> u8" where
  "constant_time_in_range_8 a lo hi = constant_time_lt_args_8 (a - lo) (hi - lo + 1)"

text \<open>The character constants of the source.\<close>

abbreviation (input) c_plus :: u8 where "c_plus \<equiv> 0x2B"
abbreviation (input) c_slash :: u8 where "c_slash \<equiv> 0x2F"
abbreviation (input) c_0 :: u8 where "c_0 \<equiv> 0x30"
abbreviation (input) c_9 :: u8 where "c_9 \<equiv> 0x39"
abbreviation (input) c_equals :: u8 where "c_equals \<equiv> 0x3D"
abbreviation (input) c_A :: u8 where "c_A \<equiv> 0x41"
abbreviation (input) c_Z :: u8 where "c_Z \<equiv> 0x5A"
abbreviation (input) c_a :: u8 where "c_a \<equiv> 0x61"
abbreviation (input) c_z :: u8 where "c_z \<equiv> 0x7A"

definition conv_bin2ascii :: "u8 \<Rightarrow> u8" where
  "conv_bin2ascii a0 =
     (let a = a0 AND 0x3F;
          ret = constant_time_select_8 (constant_time_eq_8 (ucast a) 62) c_plus c_slash;
          ret = constant_time_select_8 (constant_time_lt_args_8 a 62) (a - 52 + c_0) ret;
          ret = constant_time_select_8 (constant_time_lt_args_8 a 52) (a - 26 + c_a) ret
      in constant_time_select_8 (constant_time_lt_args_8 a 26) (a + c_A) ret)"

definition base64_ascii_to_bin :: "u8 \<Rightarrow> u8" where
  "base64_ascii_to_bin a =
     (let is_upper = constant_time_in_range_8 a c_A c_Z;
          is_lower = constant_time_in_range_8 a c_a c_z;
          is_digit = constant_time_in_range_8 a c_0 c_9;
          is_plus = constant_time_eq_8 (ucast a) (ucast c_plus);
          is_slash = constant_time_eq_8 (ucast a) (ucast c_slash);
          is_equals = constant_time_eq_8 (ucast a) (ucast c_equals);
          ret = is_upper AND (a - c_A);
          ret = ret OR (is_lower AND (a - c_a + 26));
          ret = ret OR (is_digit AND (a - c_0 + 52));
          ret = ret OR (is_plus AND 62);
          ret = ret OR (is_slash AND 63);
          is_valid = is_upper OR is_lower OR is_digit OR is_plus OR is_slash OR is_equals
      in ret OR NOT is_valid)"

section \<open>Encoding\<close>

definition EVP_EncodedLength :: "u64 \<Rightarrow> u64 option" where
  "EVP_EncodedLength len =
     (if len + 2 < len then None
      else
        let len = (len + 2) div 3 in
        if drop_bit 2 (push_bit 2 len) \<noteq> len then None
        else
          let len = push_bit 2 len in
          if len + 1 < len then None else Some (len + 1))"

record EVP_ENCODE_CTX =
  data_used :: nat
  data :: "u8 list"
  eof_seen :: bool
  error_encountered :: bool

abbreviation data_len :: nat where "data_len \<equiv> 48"

definition EVP_EncodeInit :: EVP_ENCODE_CTX where
  "EVP_EncodeInit = \<lparr>data_used = 0, data = replicate data_len 0, eof_seen = False, error_encountered = False\<rparr>"

definition sextets :: "u32 \<Rightarrow> u8 list" where
  "sextets l = [conv_bin2ascii (ucast (drop_bit 18 l)), conv_bin2ascii (ucast (drop_bit 12 l)),
     conv_bin2ascii (ucast (drop_bit 6 l)), conv_bin2ascii (ucast l)]"

text \<open>The loop of \<open>EVP_EncodeBlock\<close>; the terminating NUL is added by the caller below.\<close>

fun encode_block_loop :: "u8 list \<Rightarrow> u8 list" where
  "encode_block_loop [] = []"
| "encode_block_loop [a] = take 2 (sextets (push_bit 16 (ucast a))) @ [c_equals, c_equals]"
| "encode_block_loop [a, b] =
     take 3 (sextets (push_bit 16 (ucast a) OR push_bit 8 (ucast b))) @ [c_equals]"
| "encode_block_loop (a # b # c # src) =
     sextets (push_bit 16 (ucast a) OR push_bit 8 (ucast b) OR ucast c) @ encode_block_loop src"

text \<open>\<open>EVP_EncodeBlock\<close>: the bytes stored at \<open>dst\<close>, with the NUL, and the returned length.\<close>

definition EVP_EncodeBlock :: "u8 list \<Rightarrow> u8 list \<times> nat" where
  "EVP_EncodeBlock src = (let out = encode_block_loop src in (out @ [0], length out))"

text \<open>One line: the encoded block and a newline, without the NUL that the next line overwrites.\<close>

definition encode_line :: "u8 list \<Rightarrow> u8 list" where
  "encode_line blk = butlast (fst (EVP_EncodeBlock blk)) @ [0x0A]"

text \<open>
  The loop of \<open>EVP_EncodeUpdate\<close> over full blocks; \<open>Inl\<close> is the early return when \<open>total\<close> wraps.
\<close>

function encode_lines :: "u8 list \<Rightarrow> u64 \<Rightarrow> u8 list \<Rightarrow> u8 list + (u8 list \<times> u64 \<times> u8 list)" where
  "encode_lines inp tot out =
     (if length inp \<ge> data_len then
        let line = encode_line (take data_len inp); n = of_nat (length line) in
        if tot + n < tot then Inl (out @ line)
        else encode_lines (drop data_len inp) (tot + n) (out @ line)
      else Inr (inp, tot, out))"
  by pat_completeness auto
termination by (relation "measure (\<lambda>(inp, tot, out). length inp)") auto

declare encode_lines.simps [simp del]

definition INT_MAX :: nat where "INT_MAX = 2 ^ 31 - 1"

text \<open>
  \<open>EVP_EncodeUpdate\<close>: the new context, \<open>*out_len\<close> and the bytes written, without the final NUL.
\<close>

definition EVP_EncodeUpdate :: "EVP_ENCODE_CTX \<Rightarrow> u8 list \<Rightarrow> EVP_ENCODE_CTX \<times> nat \<times> u8 list" where
  "EVP_EncodeUpdate ctx inp =
     (if inp = [] then (ctx, 0, [])
      else if data_len - data_used ctx > length inp
      then (ctx\<lparr>data := take (data_used ctx) (data ctx) @ inp @ drop (data_used ctx + length inp) (data ctx),
                data_used := data_used ctx + length inp\<rparr>, 0, [])
      else
        let (ctx1, inp1, out1) =
              (if data_used ctx \<noteq> 0 then
                 let todo = data_len - data_used ctx;
                     ctx = ctx\<lparr>data := take (data_used ctx) (data ctx) @ take todo inp\<rparr>
                 in (ctx\<lparr>data_used := 0\<rparr>, drop todo inp, encode_line (data ctx))
               else (ctx, inp, []))
        in case encode_lines inp1 (of_nat (length out1)) out1 of
             Inl out \<Rightarrow> (ctx1, 0, out)
           | Inr (rest, tot, out) \<Rightarrow>
               (ctx1\<lparr>data := rest @ drop (length rest) (data ctx1), data_used := length rest\<rparr>,
                if unat tot > INT_MAX then 0 else unat tot, out))"

definition EVP_EncodeFinal :: "EVP_ENCODE_CTX \<Rightarrow> EVP_ENCODE_CTX \<times> nat \<times> u8 list" where
  "EVP_EncodeFinal ctx =
     (if data_used ctx = 0 then (ctx, 0, [])
      else let line = encode_line (take (data_used ctx) (data ctx))
           in (ctx\<lparr>data_used := 0\<rparr>, length line, line))"

section \<open>Decoding\<close>

definition EVP_DecodedLength :: "nat \<Rightarrow> nat option" where
  "EVP_DecodedLength len = (if len mod 4 \<noteq> 0 then None else Some ((len div 4) * 3))"

definition EVP_DecodeInit :: EVP_ENCODE_CTX where
  "EVP_DecodeInit = \<lparr>data_used = 0, data = replicate data_len 0, eof_seen = False, error_encountered = False\<rparr>"

text \<open>\<open>base64_decode_quad\<close>: \<open>None\<close> for zero, else the one to three bytes written.\<close>

definition base64_decode_quad :: "u8 list \<Rightarrow> u8 list option" where
  "base64_decode_quad inp =
     (let a = base64_ascii_to_bin (inp ! 0); b = base64_ascii_to_bin (inp ! 1);
          c = base64_ascii_to_bin (inp ! 2); d = base64_ascii_to_bin (inp ! 3) in
      if a = 0xFF \<or> b = 0xFF \<or> c = 0xFF \<or> d = 0xFF then None
      else
        let v = push_bit 18 (ucast a) OR push_bit 12 (ucast b) OR push_bit 6 (ucast c) OR ucast d :: u32;
            pad = (\<lambda>i. inp ! i = c_equals);
            padding_pattern = (of_bool (pad 0) * 8 + of_bool (pad 1) * 4 + of_bool (pad 2) * 2 + of_bool (pad 3) :: nat)
        in if padding_pattern = 0 then Some [ucast (drop_bit 16 v), ucast (drop_bit 8 v), ucast v]
           else if padding_pattern = 1 then Some [ucast (drop_bit 16 v), ucast (drop_bit 8 v)]
           else if padding_pattern = 3 then Some [ucast (drop_bit 16 v)]
           else None)"

definition is_space :: "u8 \<Rightarrow> bool" where
  "is_space c \<longleftrightarrow> c = 0x20 \<or> c = 0x09 \<or> c = 0x0D \<or> c = 0x0A"

text \<open>The loop of \<open>EVP_DecodeUpdate\<close>; the flag is false for \<open>return -1\<close>.\<close>

fun decode_loop :: "EVP_ENCODE_CTX \<Rightarrow> u8 list \<Rightarrow> u8 list \<Rightarrow> bool \<times> EVP_ENCODE_CTX \<times> u8 list" where
  "decode_loop ctx out [] = (True, ctx, out)"
| "decode_loop ctx out (c # inp) =
     (if is_space c then decode_loop ctx out inp
      else if eof_seen ctx then (False, ctx\<lparr>error_encountered := True\<rparr>, out)
      else
        let ctx = ctx\<lparr>data := (data ctx)[data_used ctx := c], data_used := data_used ctx + 1\<rparr> in
        if data_used ctx = 4 then
          (case base64_decode_quad (data ctx) of
             None \<Rightarrow> (False, ctx\<lparr>error_encountered := True\<rparr>, out)
           | Some bs \<Rightarrow>
               decode_loop (ctx\<lparr>data_used := 0, eof_seen := length bs < 3 \<or> eof_seen ctx\<rparr>) (out @ bs) inp)
        else decode_loop ctx out inp)"

text \<open>\<open>EVP_DecodeUpdate\<close>: the return code, the context, \<open>*out_len\<close> and the bytes written.\<close>

definition EVP_DecodeUpdate ::
  "EVP_ENCODE_CTX \<Rightarrow> u8 list \<Rightarrow> int \<times> EVP_ENCODE_CTX \<times> nat \<times> u8 list" where
  "EVP_DecodeUpdate ctx inp =
     (if error_encountered ctx then (- 1, ctx, 0, [])
      else case decode_loop ctx [] inp of
             (False, ctx, out) \<Rightarrow> (- 1, ctx, 0, out)
           | (True, ctx, out) \<Rightarrow>
               if length out > INT_MAX then (- 1, ctx\<lparr>error_encountered := True\<rparr>, 0, out)
               else (if eof_seen ctx then 0 else 1, ctx, length out, out))"

definition EVP_DecodeFinal :: "EVP_ENCODE_CTX \<Rightarrow> int" where
  "EVP_DecodeFinal ctx = (if error_encountered ctx \<or> data_used ctx \<noteq> 0 then - 1 else 1)"

fun decode_quads :: "u8 list \<Rightarrow> u8 list option" where
  "decode_quads (a # b # c # d # inp) =
     (case base64_decode_quad [a, b, c, d] of
        None \<Rightarrow> None
      | Some bs \<Rightarrow>
          if length bs \<noteq> 3 \<and> inp \<noteq> [] then None else map_option ((@) bs) (decode_quads inp))"
| "decode_quads inp = Some []"

definition EVP_DecodeBase64 :: "nat \<Rightarrow> u8 list \<Rightarrow> u8 list option" where
  "EVP_DecodeBase64 max_out inp =
     (if length inp mod 4 \<noteq> 0 then None
      else case EVP_DecodedLength (length inp) of
             None \<Rightarrow> None
           | Some max_len \<Rightarrow> if max_out < max_len then None else decode_quads inp)"

text \<open>\<open>EVP_DecodeBlock\<close>: \<open>None\<close> for \<open>-1\<close>, else the bytes written, padded with NULs to a multiple of three.\<close>

definition trim :: "u8 list \<Rightarrow> u8 list" where
  "trim src = rev (dropWhile is_space (rev (dropWhile (\<lambda>c. c = 0x20 \<or> c = 0x09) src)))"

definition EVP_DecodeBlock :: "u8 list \<Rightarrow> u8 list option" where
  "EVP_DecodeBlock src0 =
     (let src = trim src0 in
      case EVP_DecodedLength (length src) of
        None \<Rightarrow> None
      | Some dst_len \<Rightarrow>
          if dst_len > INT_MAX then None
          else map_option (\<lambda>out. out @ replicate ((3 - length out mod 3) mod 3) 0)
                 (EVP_DecodeBase64 dst_len src))"

section \<open>The alphabet\<close>

lemma lt_args_8_mask: "constant_time_lt_args_8 a b = (if a < b then - 1 else 0)"
proof -
  have u: "unat (ucast c :: u64) = unat c" for c :: u8
    using unat_u8_lt [of c] by (simp add: unsigned_ucast_eq take_bit_nat_def)
  have small: "\<not> bit (ucast c :: u64) 63" for c :: u8
    using unat_u8_lt [of c] by (simp add: bit_63_iff u)
  have "bit (ucast a - ucast b :: u64) 63 \<longleftrightarrow> a < b"
    using sub_sign [of "ucast a" "ucast b"] small by (simp add: word_less_nat_alt u)
  then show ?thesis by (simp add: constant_time_lt_args_8_def msb_w_mask)
qed

lemma ucast_u64_inject: "(ucast (a :: u8) = (ucast b :: u64)) = (a = b)"
  by (metis ucast_u8_u64_u8)

lemma eq_8_numeral: "constant_time_eq_8 (ucast a) 62 = (if a = 62 then - 1 else 0)" for a :: u8
  using ucast_u64_inject [of a 62] by (simp add: masks_8)

text \<open>The branch-free formulas as the case distinctions they stand for.\<close>

lemma conv_bin2ascii_cases:
  "conv_bin2ascii a0 =
     (let a = a0 AND 0x3F in
      if a < 26 then a + c_A else if a < 52 then a - 26 + c_a
      else if a < 62 then a - 52 + c_0 else if a = 62 then c_plus else c_slash)"
  by (simp add: conv_bin2ascii_def Let_def lt_args_8_mask eq_8_numeral select_8_mask)

lemma in_range_8_mask:
  "constant_time_in_range_8 a lo hi = (if a - lo < hi - lo + 1 then - 1 else 0)"
  by (simp add: constant_time_in_range_8_def lt_args_8_mask)

text \<open>The digits and the padding character, checked by evaluation.\<close>

abbreviation (input) sextet_values :: "u8 list" where
  "sextet_values \<equiv>
     [0, 1, 2, 3, 4, 5, 6, 7, 8, 9, 10, 11, 12, 13, 14, 15, 16, 17, 18, 19, 20, 21, 22,
     23, 24, 25, 26, 27, 28, 29, 30, 31, 32, 33, 34, 35, 36, 37, 38, 39, 40, 41, 42, 43,
     44, 45, 46, 47, 48, 49, 50, 51, 52, 53, 54, 55, 56, 57, 58, 59, 60, 61, 62, 63]"

lemma digits_ok:
  "list_all (\<lambda>a. base64_ascii_to_bin (conv_bin2ascii a) = a \<and>
       conv_bin2ascii a \<noteq> c_equals \<and> \<not> is_space (conv_bin2ascii a))
     sextet_values"
  by (simp add: conv_bin2ascii_cases base64_ascii_to_bin_def in_range_8_mask masks_8 is_space_def)

lemma equals_char: "base64_ascii_to_bin c_equals = 0" "\<not> is_space c_equals"
  by (simp_all add: base64_ascii_to_bin_def in_range_8_mask masks_8 is_space_def)

lemma and_63_cases: "a AND 0x3F \<in> set sextet_values"
proof -
  have "unat (a AND 0x3F) < 64"
  proof -
    have "a AND 0x3F = take_bit 6 a" by (simp add: take_bit_eq_mask mask_eq_exp_minus_1)
    then show ?thesis by (simp only: unsigned_take_bit_eq take_bit_nat_def) simp
  qed
  then have "of_nat (unat (a AND 0x3F)) \<in> set (map of_nat [0..<64] :: u8 list)"
    by (simp only: set_map set_upt) (rule imageI, simp only: atLeastLessThan_iff, simp)
  then show ?thesis by (simp add: upt_rec)
qed

lemma conv_bin2ascii_props:
  "base64_ascii_to_bin (conv_bin2ascii a) = a AND 0x3F"
  "conv_bin2ascii a \<noteq> c_equals" "\<not> is_space (conv_bin2ascii a)"
proof -
  have idem: "conv_bin2ascii a = conv_bin2ascii (a AND 0x3F)"
    by (simp add: conv_bin2ascii_cases Let_def ac_simps)
  from and_63_cases [of a] digits_ok
  have "base64_ascii_to_bin (conv_bin2ascii (a AND 0x3F)) = a AND 0x3F \<and>
      conv_bin2ascii (a AND 0x3F) \<noteq> c_equals \<and> \<not> is_space (conv_bin2ascii (a AND 0x3F))"
    unfolding list_all_iff by blast
  with idem show "base64_ascii_to_bin (conv_bin2ascii a) = a AND 0x3F"
    "conv_bin2ascii a \<noteq> c_equals" "\<not> is_space (conv_bin2ascii a)"
    by simp_all
qed

section \<open>One quad\<close>

lemma and_63_mask: "a AND 0x3F = (take_bit 6 a :: u8)"
  by (simp add: take_bit_eq_mask mask_eq_exp_minus_1)

lemma and_63_neq_ff: "a AND 0x3F \<noteq> (0xFF :: u8)"
proof
  assume "a AND 0x3F = (0xFF :: u8)"
  then have "bit (a AND 0x3F) 7" by simp
  then show False by (simp only: and_63_mask bit_take_bit_iff) simp
qed

lemma high_bits_clear: "unat (l :: u32) < 2 ^ m \<Longrightarrow> m \<le> n \<Longrightarrow> \<not> bit l n"
  using less_le_trans [OF _ power_increasing, of "unat l" 2 m n] by (simp add: bit_unat_iff)

lemma join_sextets:
  fixes l :: u32
  assumes "unat l < 2 ^ 24"
  shows "push_bit 18 (ucast (ucast (drop_bit 18 l) AND 0x3F :: u8)) OR
         push_bit 12 (ucast (ucast (drop_bit 12 l) AND 0x3F :: u8)) OR
         push_bit 6 (ucast (ucast (drop_bit 6 l) AND 0x3F :: u8)) OR
         ucast (ucast l AND 0x3F :: u8) = l"
proof (rule bit_word_eqI)
  fix n assume n: "n < LENGTH(32)"
  note hi = high_bits_clear [OF assms, of n]
  consider "n < 6" | "6 \<le> n" "n < 12" | "12 \<le> n" "n < 18" | "18 \<le> n" "n < 24" | "24 \<le> n" by linarith
  then show "bit (push_bit 18 (ucast (ucast (drop_bit 18 l) AND 0x3F :: u8)) OR
         push_bit 12 (ucast (ucast (drop_bit 12 l) AND 0x3F :: u8)) OR
         push_bit 6 (ucast (ucast (drop_bit 6 l) AND 0x3F :: u8)) OR
         ucast (ucast l AND 0x3F :: u8) :: u32) n = bit l n"
    unfolding and_63_mask using n hi by cases (auto simp: bit_simps)
qed

lemma split_bytes:
  fixes a b c :: u8
  defines "l \<equiv> push_bit 16 (ucast a) OR push_bit 8 (ucast b) OR ucast c :: u32"
  shows "ucast (drop_bit 16 l) = a" and "ucast (drop_bit 8 l) = b" and "ucast l = c" and "unat l < 2 ^ 24"
proof -
  show "ucast (drop_bit 16 l) = a" "ucast (drop_bit 8 l) = b" "ucast l = c"
    unfolding l_def by (rule bit_word_eqI; auto simp: bit_simps dest: bit_imp_le_length)+
  have "take_bit 24 l = l"
    unfolding l_def by (rule bit_word_eqI) (auto simp: bit_simps dest: bit_imp_le_length)
  then have "unat l = take_bit 24 (unat l)" by (metis unsigned_take_bit_eq)
  then show "unat l < 2 ^ 24" by (metis take_bit_nat_less_exp)
qed

lemma low_sextets:
  fixes a b :: u8
  shows "ucast (push_bit 16 (ucast a) OR push_bit 8 (ucast b) :: u32) AND 0x3F = (0 :: u8)"
    and "ucast (push_bit 16 (ucast a) :: u32) AND 0x3F = (0 :: u8)"
    and "ucast (drop_bit 6 (push_bit 16 (ucast a) :: u32)) AND 0x3F = (0 :: u8)"
  unfolding and_63_mask by (rule bit_word_eqI; auto simp: bit_simps)+

lemma quad_three:
  "base64_decode_quad (sextets (push_bit 16 (ucast a) OR push_bit 8 (ucast b) OR ucast c)) = Some [a, b, c]"
  using join_sextets [OF split_bytes(4) [of a b c]] split_bytes(1-3) [of a b c]
  by (simp add: base64_decode_quad_def sextets_def conv_bin2ascii_props and_63_neq_ff Let_def)

lemma quad_two:
  "base64_decode_quad (take 3 (sextets (push_bit 16 (ucast a) OR push_bit 8 (ucast b))) @ [c_equals]) =
     Some [a, b]"
  using join_sextets [OF split_bytes(4) [of a b 0]] split_bytes(1-2) [of a b 0]
  by (simp add: base64_decode_quad_def sextets_def conv_bin2ascii_props and_63_neq_ff Let_def
      equals_char low_sextets)

lemma quad_one:
  "base64_decode_quad (take 2 (sextets (push_bit 16 (ucast a))) @ [c_equals, c_equals]) = Some [a]"
  using join_sextets [OF split_bytes(4) [of a 0 0]] split_bytes(1) [of a 0 0]
  by (simp add: base64_decode_quad_def sextets_def conv_bin2ascii_props and_63_neq_ff Let_def
      equals_char low_sextets)

section \<open>Blocks\<close>

lemma length_sextets [simp]: "length (sextets l) = 4"
  by (simp add: sextets_def)

lemma length_encode_block_loop: "length (encode_block_loop src) = 4 * ((length src + 2) div 3)"
  by (induction src rule: encode_block_loop.induct) (auto, presburger)

lemma decode_quads_step:
  assumes "length q = 4" and "base64_decode_quad q = Some bs"
  shows "decode_quads (q @ inp) =
     (if length bs \<noteq> 3 \<and> inp \<noteq> [] then None else map_option ((@) bs) (decode_quads inp))"
  using assms by (auto simp: eval_nat_numeral length_Suc_conv)

lemma decode_quads_encode: "decode_quads (encode_block_loop src) = Some src"
proof (induction src rule: encode_block_loop.induct)
  case 1
  then show ?case by simp
next
  case (2 a)
  then show ?case using decode_quads_step [OF _ quad_one [of a], of "[]"] by simp
next
  case (3 a b)
  then show ?case using decode_quads_step [OF _ quad_two [of a b], of "[]"] by simp
next
  case (4 a b c src)
  then show ?case using decode_quads_step [OF _ quad_three [of a b c]] by simp
qed

lemma unat_push_bit_2: "unat (k :: u64) * 4 < 2 ^ 64 \<Longrightarrow> unat (push_bit 2 k) = unat k * 4"
  using unat_push_bit [of k 2] by simp

lemma shift_check: "drop_bit 2 (push_bit 2 k) = (k :: u64) \<longleftrightarrow> unat k * 4 < 2 ^ 64"
proof
  assume "drop_bit 2 (push_bit 2 k) = k"
  then have "unat k = unat (push_bit 2 k) div 2 ^ 2" by (metis unat_drop_bit)
  then show "unat k * 4 < 2 ^ 64" using unat_u64_lt [of "push_bit 2 k"] by simp
next
  assume "unat k * 4 < 2 ^ 64"
  then show "drop_bit 2 (push_bit 2 k) = k" by (intro word_eq_unatI) (simp add: unat_push_bit_2)
qed

lemma shift_increment:
  assumes "unat k * 4 < 2 ^ 64"
  shows "\<not> push_bit 2 k + 1 < (push_bit 2 k :: u64)" and "push_bit 2 k + 1 = (of_nat (4 * unat k + 1) :: u64)"
proof -
  have "unat k * 4 + 1 < 2 ^ 64" using assms by simp
  then have "unat (push_bit 2 k + 1) = 4 * unat k + 1"
    using unat_add_u64 [of "push_bit 2 k" 1] assms by (simp add: unat_push_bit_2)
  then show "\<not> push_bit 2 k + 1 < (push_bit 2 k :: u64)" "push_bit 2 k + 1 = (of_nat (4 * unat k + 1) :: u64)"
    using assms by (simp add: word_less_nat_alt unat_push_bit_2, metis of_nat_unat_word)
qed

text \<open>
  Decoding an encoded block gives the input back, with an output buffer of the size that
  \<open>EVP_DecodedLength\<close> announces, which is at least the length of the input.
\<close>

theorem base64_block_roundtrip:
  "\<exists>out n m. EVP_EncodeBlock src = (out, n) \<and> EVP_DecodedLength n = Some m \<and> length src \<le> m \<and>
     EVP_DecodeBase64 m (take n out) = Some src"
  by (simp add: EVP_EncodeBlock_def EVP_DecodedLength_def EVP_DecodeBase64_def length_encode_block_loop
      decode_quads_encode)

text \<open>
  C31. \<open>EVP_EncodedLength\<close> is exact: it gives the number of bytes, with the terminating NUL, that
  \<open>EVP_EncodeBlock\<close> stores, and fails only when that number does not fit in a \<open>size_t\<close>.
\<close>

theorem EVP_EncodedLength_exact:
  assumes "length src < 2 ^ 64"
  shows "EVP_EncodedLength (of_nat (length src)) =
     (if length (fst (EVP_EncodeBlock src)) < 2 ^ 64
      then Some (of_nat (length (fst (EVP_EncodeBlock src)))) else None)"
proof -
  define n where "n = length src"
  have n: "unat (of_nat n :: u64) = n" using assms unfolding n_def by (intro unat_of_nat_u64_small)
  have out: "length (fst (EVP_EncodeBlock src)) = 4 * ((n + 2) div 3) + 1"
    by (simp add: EVP_EncodeBlock_def length_encode_block_loop n_def)
  show ?thesis
  proof (cases "n + 2 < 2 ^ 64")
    case False
    then have "of_nat n + 2 < (of_nat n :: u64)" by (intro u64_add_wraps) (simp add: n)
    moreover have "\<not> 4 * ((n + 2) div 3) + 1 < 2 ^ 64" using False by simp
    ultimately show ?thesis by (simp add: EVP_EncodedLength_def out n_def)
  next
    case True
    have s: "unat (of_nat n + 2 :: u64) = n + 2" using unat_add_u64 [of "of_nat n" 2] True by (simp add: n)
    then have nw: "\<not> of_nat n + 2 < (of_nat n :: u64)" by (simp add: word_less_nat_alt n)
    define k where "k = (of_nat n + 2 :: u64) div 3"
    have k: "unat k = (n + 2) div 3" by (simp add: k_def unat_div s)
    have "4 * ((n + 2) div 3) + 1 < 2 ^ 64 \<longleftrightarrow> unat k * 4 < 2 ^ 64"
      unfolding k [symmetric] by auto
    moreover have "EVP_EncodedLength (of_nat n) =
        (if unat k * 4 < 2 ^ 64 then Some (of_nat (4 * unat k + 1)) else None)"
    proof (cases "unat k * 4 < 2 ^ 64")
      case True
      show ?thesis
        unfolding EVP_EncodedLength_def Let_def k_def [symmetric] if_not_P [OF nw] shift_check
          if_not_P [OF shift_increment(1) [OF True]]
        unfolding shift_increment(2) [OF True] using True by simp
    next
      case False
      show ?thesis
        unfolding EVP_EncodedLength_def Let_def k_def [symmetric] if_not_P [OF nw] shift_check
        using False by simp
    qed
    ultimately show ?thesis by (simp only: out n_def [symmetric] k)
  qed
qed

theorem EVP_EncodedLength_exact_witness:
  "EVP_EncodedLength 4 = Some 9 \<and> length (fst (EVP_EncodeBlock [1, 2, 3, 4])) = 9"
  using EVP_EncodedLength_exact [of "[1, 2, 3, 4]"] by (simp add: EVP_EncodeBlock_def length_encode_block_loop)

section \<open>Streaming\<close>

text \<open>
  The reference of the streaming encoder: complete lines of 48 input bytes, and the rest. The context
  holds the rest of all input so far, whatever the chunks were.
\<close>

function full_lines :: "u8 list \<Rightarrow> u8 list" where
  "full_lines xs = (if length xs \<ge> data_len then encode_line (take data_len xs) @ full_lines (drop data_len xs) else [])"
  by pat_completeness auto
termination by (relation "measure length") auto

function partial_line :: "u8 list \<Rightarrow> u8 list" where
  "partial_line xs = (if length xs \<ge> data_len then partial_line (drop data_len xs) else xs)"
  by pat_completeness auto
termination by (relation "measure length") auto

declare full_lines.simps [simp del] partial_line.simps [simp del]

definition enc_inv :: "u8 list \<Rightarrow> EVP_ENCODE_CTX \<Rightarrow> bool" where
  "enc_inv xs ctx \<longleftrightarrow> length (data ctx) = data_len \<and> data_used ctx = length (partial_line xs) \<and>
     take (data_used ctx) (data ctx) = partial_line xs"

lemma length_encode_line: "length (encode_line blk) = 4 * ((length blk + 2) div 3) + 1"
  by (simp add: encode_line_def EVP_EncodeBlock_def length_encode_block_loop)

lemma lines_short [simp]:
  "length xs < data_len \<Longrightarrow> full_lines xs = []"
  "length xs < data_len \<Longrightarrow> partial_line xs = xs"
  by (subst full_lines.simps, simp) (subst partial_line.simps, simp)

lemma length_partial_line: "length (partial_line xs) < data_len"
  by (induction xs rule: partial_line.induct) (subst partial_line.simps, simp)

lemma lines_append:
  "full_lines (xs @ ys) = full_lines xs @ full_lines (partial_line xs @ ys)"
  "partial_line (xs @ ys) = partial_line (partial_line xs @ ys)"
proof (induction xs rule: partial_line.induct)
  case (1 xs)
  show "full_lines (xs @ ys) = full_lines xs @ full_lines (partial_line xs @ ys)"
    "partial_line (xs @ ys) = partial_line (partial_line xs @ ys)"
    using 1 by (cases "length xs \<ge> data_len";
        simp add: full_lines.simps [of "xs @ ys"] partial_line.simps [of "xs @ ys"]
          full_lines.simps [of xs] partial_line.simps [of xs])+
qed

lemma lines_first:
  assumes "length l = data_len"
  shows "full_lines (l @ ys) = encode_line l @ full_lines ys" "partial_line (l @ ys) = partial_line ys"
  using assms by (simp_all add: full_lines.simps [of "l @ ys"] partial_line.simps [of "l @ ys"])

lemma encode_lines_spec:
  assumes "unat tot + 65 * (length inp div data_len) < 2 ^ 64"
  shows "encode_lines inp tot out =
     Inr (partial_line inp, tot + of_nat (length (full_lines inp)), out @ full_lines inp)"
  using assms
proof (induction inp tot out rule: encode_lines.induct)
  case (1 inp tot out)
  show ?case
  proof (cases "length inp \<ge> data_len")
    case True
    have len: "length (encode_line (take data_len inp)) = 65" using True by (simp add: length_encode_line)
    have d: "length inp div data_len = Suc (length (drop data_len inp) div data_len)"
      using True by (simp add: le_div_geq)
    have u: "unat (tot + 65) = unat tot + 65" using 1(2) d unat_add_u64 [of tot 65] by simp
    then have nw: "\<not> tot + 65 < tot" by (simp add: word_less_nat_alt)
    have "unat (tot + 65) + 65 * (length (drop data_len inp) div data_len) < 2 ^ 64" using 1(2) d u by simp
    moreover have "(65 :: u64) = of_nat (length (encode_line (take data_len inp)))" by (simp add: len)
    ultimately have "encode_lines (drop data_len inp) (tot + 65) (out @ encode_line (take data_len inp)) =
        Inr (partial_line (drop data_len inp), tot + 65 + of_nat (length (full_lines (drop data_len inp))),
             (out @ encode_line (take data_len inp)) @ full_lines (drop data_len inp))"
      using 1(1) [OF True refl _ nw] by blast
    with nw True len show ?thesis
      by (simp add: encode_lines.simps [of inp] full_lines.simps [of inp] partial_line.simps [of inp])
  next
    case False
    then show ?thesis by (simp add: encode_lines.simps [of inp])
  qed
qed

lemma length_full_lines: "length (full_lines xs) = 65 * (length xs div data_len)"
proof (induction xs rule: full_lines.induct)
  case (1 xs)
  then show ?case
    by (cases "length xs \<ge> data_len")
      (simp_all add: full_lines.simps [of xs] length_encode_line le_div_geq [of data_len "length xs"])
qed

lemma encode_lines_chunk:
  assumes "length inp \<le> 2 ^ 30" and "length out \<le> 65"
  shows "encode_lines inp (of_nat (length out)) out =
     Inr (partial_line inp, of_nat (length (out @ full_lines inp)), out @ full_lines inp)"
    and "unat (of_nat (length (out @ full_lines inp)) :: u64) = length (out @ full_lines inp)"
    and "length (out @ full_lines inp) \<le> INT_MAX"
proof -
  have d: "48 * (length inp div data_len) \<le> 2 ^ 30" using assms(1) by linarith
  have "unat (of_nat (length out) :: u64) = length out" using assms by (intro unat_of_nat_u64_small) simp
  with d assms show "encode_lines inp (of_nat (length out)) out =
     Inr (partial_line inp, of_nat (length (out @ full_lines inp)), out @ full_lines inp)"
    by (subst encode_lines_spec) simp_all
  have "length (out @ full_lines inp) \<le> 2 ^ 31 - 1" using d assms by (simp add: length_full_lines)
  then show "length (out @ full_lines inp) \<le> INT_MAX"
    "unat (of_nat (length (out @ full_lines inp)) :: u64) = length (out @ full_lines inp)"
    by (simp add: INT_MAX_def, intro unat_of_nat_u64_small) simp
qed

lemma enc_inv_data:
  "length d = data_len \<Longrightarrow> length p < data_len \<Longrightarrow> partial_line xs = p \<Longrightarrow> take (length p) d = p \<Longrightarrow>
   enc_inv xs (ctx\<lparr>data := d, data_used := length p\<rparr>)"
  by (simp add: enc_inv_def)

lemma encode_update:
  assumes inv: "enc_inv xs ctx" and small: "length inp \<le> 2 ^ 30"
  shows "\<exists>ctx' out. EVP_EncodeUpdate ctx inp = (ctx', length out, out) \<and> enc_inv (xs @ inp) ctx' \<and>
     full_lines (xs @ inp) = full_lines xs @ out"
proof -
  define p where "p = partial_line xs"
  have p: "length (data ctx) = data_len" "data_used ctx = length p" "take (length p) (data ctx) = p" "length p < data_len"
    using inv length_partial_line [of xs] by (auto simp: enc_inv_def p_def)
  have app: "full_lines (xs @ inp) = full_lines xs @ full_lines (p @ inp)" "partial_line (xs @ inp) = partial_line (p @ inp)"
    unfolding p_def by (rule lines_append)+
  consider (empty) "inp = []" | (short) "inp \<noteq> []" "length (p @ inp) < data_len"
    | (line) "inp \<noteq> []" "data_len \<le> length (p @ inp)" by linarith
  then show ?thesis
  proof cases
    case empty
    then show ?thesis using inv by (simp add: EVP_EncodeUpdate_def)
  next
    case short
    then have "enc_inv (xs @ inp) (ctx\<lparr>data := take (length p) (data ctx) @ inp @ drop (length p + length inp) (data ctx),
        data_used := length (p @ inp)\<rparr>)"
      using p by (intro enc_inv_data) (simp_all add: app)
    moreover have "data_len - length p > length inp" using short by simp
    ultimately show ?thesis using short p by (simp add: EVP_EncodeUpdate_def app)
  next
    case line
    define l rest where "l = take (data_len - length p) inp" and "rest = drop (data_len - length p) inp"
    have split: "inp = l @ rest" by (simp add: l_def rest_def)
    have len: "length (p @ l) = data_len" "length rest \<le> 2 ^ 30"
      using line p small by (simp_all add: l_def rest_def)
    show ?thesis
    proof (cases "p = []")
      case True
      note chunk = encode_lines_chunk [OF small, of "[]"]
      have "enc_inv (xs @ inp) (ctx\<lparr>data := partial_line inp @ drop (length (partial_line inp)) (data ctx),
          data_used := length (partial_line inp)\<rparr>)"
        using p True length_partial_line [of inp] by (intro enc_inv_data) (simp_all add: app)
      with True p line chunk show ?thesis by (simp add: EVP_EncodeUpdate_def app not_less)
    next
      case False
      have out: "length (encode_line (p @ l)) \<le> 65" using len by (simp only: length_encode_line) simp
      note chunk = encode_lines_chunk [OF len(2) out]
      have eq: "full_lines (p @ inp) = encode_line (p @ l) @ full_lines rest" "partial_line (p @ inp) = partial_line rest"
        using lines_first [OF len(1), of rest] by (simp_all add: split)
      have "enc_inv (xs @ inp) (ctx\<lparr>data := partial_line rest @ drop (length (partial_line rest)) (p @ l),
          data_used := length (partial_line rest)\<rparr>)"
        using len length_partial_line [of rest] by (intro enc_inv_data) (simp_all add: app eq)
      moreover have "\<not> data_len - length p > length inp" using line by simp
      ultimately show ?thesis using False p line chunk
        by (simp add: EVP_EncodeUpdate_def app eq l_def [symmetric] rest_def [symmetric])
    qed
  qed
qed

text \<open>A caller that feeds chunks and collects the bytes announced by \<open>*out_len\<close>.\<close>

fun encode_stream :: "EVP_ENCODE_CTX \<Rightarrow> u8 list list \<Rightarrow> u8 list" where
  "encode_stream ctx [] = (case EVP_EncodeFinal ctx of (_, n, out) \<Rightarrow> take n out)"
| "encode_stream ctx (c # cs) =
     (case EVP_EncodeUpdate ctx c of (ctx, n, out) \<Rightarrow> take n out @ encode_stream ctx cs)"

fun decode_stream :: "EVP_ENCODE_CTX \<Rightarrow> u8 list list \<Rightarrow> u8 list option" where
  "decode_stream ctx [] = (if EVP_DecodeFinal ctx = 1 then Some [] else None)"
| "decode_stream ctx (c # cs) =
     (case EVP_DecodeUpdate ctx c of (r, ctx, n, out) \<Rightarrow>
        if r = - 1 then None else map_option ((@) (take n out)) (decode_stream ctx cs))"

definition pem_lines :: "u8 list \<Rightarrow> u8 list" where
  "pem_lines xs = full_lines xs @ (if partial_line xs = [] then [] else encode_line (partial_line xs))"

lemma encode_stream_spec:
  assumes "enc_inv xs ctx" and "\<forall>c \<in> set cs. length c \<le> 2 ^ 30"
  shows "full_lines xs @ encode_stream ctx cs = pem_lines (xs @ concat cs)"
  using assms
proof (induction cs arbitrary: xs ctx)
  case Nil
  then show ?case by (auto simp: pem_lines_def EVP_EncodeFinal_def enc_inv_def Let_def)
next
  case (Cons c cs)
  obtain ctx' out where upd: "EVP_EncodeUpdate ctx c = (ctx', length out, out)" "enc_inv (xs @ c) ctx'"
      "full_lines (xs @ c) = full_lines xs @ out"
    using encode_update [of xs ctx c] Cons.prems by auto
  from Cons.IH [OF upd(2)] Cons.prems have "full_lines (xs @ c) @ encode_stream ctx' cs = pem_lines ((xs @ c) @ concat cs)"
    by simp
  with upd show ?case by simp
qed

lemma decode_loop_append:
  "decode_loop ctx out (xs @ ys) =
     (case decode_loop ctx out xs of (True, ctx, out) \<Rightarrow> decode_loop ctx out ys | r \<Rightarrow> r)"
  by (induction ctx out xs rule: decode_loop.induct) (auto simp: Let_def split: option.splits)

lemma decode_loop_out:
  "decode_loop ctx (out0 @ out) inp = (case decode_loop ctx out inp of (ok, ctx, out) \<Rightarrow> (ok, ctx, out0 @ out))"
  by (induction ctx out inp rule: decode_loop.induct) (auto simp: Let_def split: option.splits)

lemma quad_length: "base64_decode_quad q = Some bs \<Longrightarrow> length bs \<le> 3"
  by (auto simp: base64_decode_quad_def Let_def split: if_splits)

lemma decode_loop_ok:
  assumes "decode_loop ctx out inp = (True, ctx', out')"
  shows "error_encountered ctx' = error_encountered ctx \<and> length out' \<le> length out + 3 * length inp"
  using assms
proof (induction inp arbitrary: ctx out)
  case Nil
  then show ?case by simp
next
  case (Cons c inp)
  have mono: "error_encountered ctx' = error_encountered ctx1 \<and> length out' \<le> length out1 + 3 * length inp"
    if "decode_loop ctx1 out1 inp = (True, ctx', out')" for ctx1 out1
    by (rule Cons.IH [OF that])
  from Cons.prems show ?case
    by (auto simp: Let_def dest!: mono quad_length split: option.splits if_splits)
qed

lemma decode_stream_spec:
  assumes "decode_loop ctx [] (concat cs) = (True, ctx', out)" and "\<not> error_encountered ctx"
    and "\<forall>c \<in> set cs. length c \<le> 2 ^ 29"
  shows "decode_stream ctx cs = (if EVP_DecodeFinal ctx' = 1 then Some out else None)"
  using assms
proof (induction cs arbitrary: ctx out)
  case Nil
  then show ?case by simp
next
  case (Cons c cs)
  obtain ctx1 out1 where 1: "decode_loop ctx [] c = (True, ctx1, out1)"
    using Cons.prems(1) by (auto simp: decode_loop_append split: prod.splits bool.splits)
  obtain out2 where 2: "decode_loop ctx1 [] (concat cs) = (True, ctx', out2)" "out = out1 @ out2"
    using Cons.prems(1) 1 decode_loop_out [of ctx1 out1 "[]"]
    by (auto simp: decode_loop_append split: prod.splits)
  have 3: "\<not> error_encountered ctx1" "length out1 \<le> INT_MAX"
    using decode_loop_ok [OF 1] Cons.prems by (auto simp: INT_MAX_def)
  with Cons.IH [OF 2(1)] Cons.prems 1 2(2) show ?case by (simp add: EVP_DecodeUpdate_def)
qed

text \<open>The decoder between two quads; the flag says whether padding has been seen.\<close>

definition dec_ok :: "bool \<Rightarrow> EVP_ENCODE_CTX \<Rightarrow> bool" where
  "dec_ok eof ctx \<longleftrightarrow> data_used ctx = 0 \<and> eof_seen ctx = eof \<and> \<not> error_encountered ctx \<and> 4 \<le> length (data ctx)"

lemma quad_first_four: "base64_decode_quad d = base64_decode_quad [d ! 0, d ! 1, d ! 2, d ! 3]"
proof -
  have "[d ! 0, d ! 1, d ! 2, d ! 3] ! 0 = d ! 0" "[d ! 0, d ! 1, d ! 2, d ! 3] ! 1 = d ! 1"
    "[d ! 0, d ! 1, d ! 2, d ! 3] ! 2 = d ! 2" "[d ! 0, d ! 1, d ! 2, d ! 3] ! 3 = d ! 3"
    by (simp_all add: numeral_2_eq_2 numeral_3_eq_3)
  then show ?thesis unfolding base64_decode_quad_def Let_def by (simp only:)
qed

lemma decode_loop_quad:
  assumes ctx: "dec_ok False ctx" and len: "length q = 4" and q: "base64_decode_quad q = Some bs"
    and "\<forall>x \<in> set q. \<not> is_space x"
  shows "\<exists>ctx'. dec_ok (length bs < 3) ctx' \<and> decode_loop ctx out (q @ rest) = decode_loop ctx' (out @ bs) rest"
proof -
  obtain x0 x1 x2 x3 where x: "q = [x0, x1, x2, x3]" using len by (auto simp: eval_nat_numeral length_Suc_conv)
  define d where "d = (data ctx)[0 := x0, Suc 0 := x1, 2 := x2, 3 := x3]"
  have "data ctx \<noteq> []" using ctx by (auto simp: dec_ok_def)
  then have d: "base64_decode_quad d = Some bs" using ctx q x
    by (subst quad_first_four) (auto simp: d_def dec_ok_def nth_list_update)
  have "dec_ok (length bs < 3) (ctx\<lparr>data := d, data_used := 0, eof_seen := length bs < 3\<rparr>)"
    using ctx by (simp add: dec_ok_def d_def)
  moreover have "decode_loop ctx out (q @ rest) =
      decode_loop (ctx\<lparr>data := d, data_used := 0, eof_seen := length bs < 3\<rparr>) (out @ bs) rest"
    using assms(4) ctx d x by (simp add: dec_ok_def d_def Let_def numeral_3_eq_3 numeral_2_eq_2)
  ultimately show ?thesis by blast
qed

lemma sextets_no_space: "x \<in> set (sextets l) \<Longrightarrow> \<not> is_space x"
  by (auto simp: sextets_def conv_bin2ascii_props)

lemma decode_loop_block:
  "dec_ok False ctx \<Longrightarrow> \<exists>ctx'. dec_ok (length blk mod 3 \<noteq> 0) ctx' \<and>
     decode_loop ctx out (encode_block_loop blk) = (True, ctx', out @ blk)"
proof (induction blk arbitrary: ctx out rule: encode_block_loop.induct)
  case 1
  then show ?case by auto
next
  case (2 a)
  then show ?case using decode_loop_quad [OF 2 _ quad_one [of a], of out "[]"]
    by (auto simp: equals_char dest: in_set_takeD sextets_no_space)
next
  case (3 a b)
  then show ?case using decode_loop_quad [OF 3 _ quad_two [of a b], of out "[]"]
    by (auto simp: equals_char dest: in_set_takeD sextets_no_space)
next
  case (4 a b c src)
  have "\<forall>x \<in> set (sextets l). \<not> is_space x" for l by (blast dest: sextets_no_space)
  from decode_loop_quad [OF 4(2) length_sextets quad_three [of a b c] this, of out "encode_block_loop src"]
  obtain ctx1 where 5: "dec_ok False ctx1"
      "decode_loop ctx out (encode_block_loop (a # b # c # src)) = decode_loop ctx1 (out @ [a, b, c]) (encode_block_loop src)"
    unfolding encode_block_loop.simps by (elim exE conjE) simp
  moreover have "length (a # b # c # src) mod 3 = length src mod 3" by simp
  ultimately show ?case using 4(1) [OF 5(1), of "out @ [a, b, c]"] by (metis append.assoc append_Cons append_Nil)
qed

lemma decode_loop_line:
  assumes "dec_ok False ctx"
  shows "\<exists>ctx'. dec_ok (length blk mod 3 \<noteq> 0) ctx' \<and> decode_loop ctx out (encode_line blk) = (True, ctx', out @ blk)"
  using decode_loop_block [OF assms, of blk out]
  by (auto simp: encode_line_def EVP_EncodeBlock_def Let_def decode_loop_append is_space_def)

lemma decode_loop_pem:
  "dec_ok False ctx \<Longrightarrow> \<exists>eof ctx'. dec_ok eof ctx' \<and> decode_loop ctx out (pem_lines xs) = (True, ctx', out @ xs)"
proof (induction xs arbitrary: ctx out rule: partial_line.induct)
  case (1 xs)
  show ?case
  proof (cases "length xs \<ge> data_len")
    case True
    then have eq: "pem_lines xs = encode_line (take data_len xs) @ pem_lines (drop data_len xs)"
      by (simp add: pem_lines_def full_lines.simps [of xs] partial_line.simps [of xs])
    obtain ctx1 where 2: "dec_ok False ctx1"
        "decode_loop ctx out (encode_line (take data_len xs)) = (True, ctx1, out @ take data_len xs)"
      using decode_loop_line [OF 1(2), of "take data_len xs" out] True by auto
    from 1(1) [OF True 2(1), of "out @ take data_len xs"] show ?thesis
      by (simp add: eq decode_loop_append 2(2))
  next
    case False
    then show ?thesis using decode_loop_line [OF 1(2), of xs out] 1(2) by (auto simp: pem_lines_def)
  qed
qed

text \<open>
  C30. The streaming interface is a round trip that does not depend on how the data is cut: whatever
  chunks go through \<open>EVP_EncodeInit\<close>, \<open>EVP_EncodeUpdate\<close> and \<open>EVP_EncodeFinal\<close>, and however the encoded text is
  then cut for \<open>EVP_DecodeInit\<close>, \<open>EVP_DecodeUpdate\<close> and \<open>EVP_DecodeFinal\<close>, the decoder accepts it and returns the
  input. The bounds keep each call's byte count below \<open>INT_MAX\<close>.
\<close>

theorem base64_stream_roundtrip:
  assumes "\<forall>c \<in> set cs. length c \<le> 2 ^ 30" and "\<forall>d \<in> set ds. length d \<le> 2 ^ 29"
    and "concat ds = encode_stream EVP_EncodeInit cs"
  shows "decode_stream EVP_DecodeInit ds = Some (concat cs)"
proof -
  have "enc_inv [] EVP_EncodeInit" by (simp add: enc_inv_def EVP_EncodeInit_def)
  from encode_stream_spec [OF this assms(1)] have pem: "concat ds = pem_lines (concat cs)" by (simp add: assms(3))
  have init: "dec_ok False EVP_DecodeInit" by (simp add: dec_ok_def EVP_DecodeInit_def)
  then obtain eof ctx' where 1: "dec_ok eof ctx'" "decode_loop EVP_DecodeInit [] (concat ds) = (True, ctx', concat cs)"
    using decode_loop_pem [OF init, of "[]" "concat cs"] by (auto simp: pem)
  with decode_stream_spec [OF 1(2) _ assms(2)] init show ?thesis
    by (simp add: dec_ok_def EVP_DecodeFinal_def)
qed

theorem base64_stream_roundtrip_witness:
  "decode_stream EVP_DecodeInit [encode_stream EVP_EncodeInit [[0x4C, 0x75], [0x6D], [0x21]]] =
     Some [0x4C, 0x75, 0x6D, 0x21]"
proof -
  have "encode_stream EVP_EncodeInit [[0x4C, 0x75], [0x6D], [0x21]] = pem_lines [0x4C, 0x75, 0x6D, 0x21]"
    using encode_stream_spec [of "[]" EVP_EncodeInit "[[0x4C, 0x75], [0x6D], [0x21]]"]
    by (simp add: enc_inv_def EVP_EncodeInit_def)
  then have "length (encode_stream EVP_EncodeInit [[0x4C, 0x75], [0x6D], [0x21]]) = 9"
    by (simp add: pem_lines_def length_encode_line)
  then show ?thesis
    using base64_stream_roundtrip [of "[[0x4C, 0x75], [0x6D], [0x21]]"
        "[encode_stream EVP_EncodeInit [[0x4C, 0x75], [0x6D], [0x21]]]"] by simp
qed

end
