(* ===== verification/CBS.thy ===== *)
theory CBS
  imports ConstTime
begin

unbundle bit_operations_syntax

text \<open>
  The byte-string reader of BoringSSL (crypto/bytestring/cbs.c). A \<open>CBS\<close> is a view of constant memory,
  modelled as the list of the bytes it still covers. A function that reads from a \<open>CBS\<close> returns the
  value, or \<open>None\<close> for the return code zero, and the \<open>CBS\<close> it leaves behind, also when it fails. ASN.1 tags
  are the 32-bit words of the source: class and constructed bits on top, the tag number below.
\<close>

type_synonym CBS = "u8 list"

section \<open>Fixed-size reads\<close>

definition cbs_get :: "nat \<Rightarrow> CBS \<Rightarrow> u8 list option \<times> CBS" where
  "cbs_get n cbs = (if length cbs < n then (None, cbs) else (Some (take n cbs), drop n cbs))"

definition CBS_skip :: "nat \<Rightarrow> CBS \<Rightarrow> bool \<times> CBS" where
  "CBS_skip len cbs = (case cbs_get len cbs of (r, cbs) \<Rightarrow> (r \<noteq> None, cbs))"

definition CBS_contains_zero_byte :: "CBS \<Rightarrow> bool" where
  "CBS_contains_zero_byte cbs \<longleftrightarrow> 0 \<in> set cbs"

definition CBS_mem_equal :: "CBS \<Rightarrow> u8 list \<Rightarrow> bool" where
  "CBS_mem_equal cbs dat \<longleftrightarrow> (if length dat \<noteq> length cbs then False else CRYPTO_memcmp cbs dat (length dat) = 0)"

definition cbs_get_u :: "nat \<Rightarrow> CBS \<Rightarrow> u64 option \<times> CBS" where
  "cbs_get_u len cbs =
     get_then (cbs_get len cbs) (\<lambda>dat cbs.
       (Some (fold (\<lambda>b result. push_bit 8 result OR ucast b) dat 0), cbs))"

definition CBS_get_u8 :: "CBS \<Rightarrow> u8 option \<times> CBS" where
  "CBS_get_u8 cbs = get_then (cbs_get 1 cbs) (\<lambda>v cbs. (Some (hd v), cbs))"

definition CBS_get_u16 :: "CBS \<Rightarrow> u16 option \<times> CBS" where
  "CBS_get_u16 cbs = get_then (cbs_get_u 2 cbs) (\<lambda>v cbs. (Some (ucast v), cbs))"

text \<open>The byte swaps are the compiler builtins: the bytes in the opposite order.\<close>

definition CRYPTO_bswap2 :: "u16 \<Rightarrow> u16" where
  "CRYPTO_bswap2 x = of_nat (le_nat (rev (le_bytes 2 (unat x))))"

definition CRYPTO_bswap4 :: "u32 \<Rightarrow> u32" where
  "CRYPTO_bswap4 x = of_nat (le_nat (rev (le_bytes 4 (unat x))))"

definition CRYPTO_bswap8 :: "u64 \<Rightarrow> u64" where
  "CRYPTO_bswap8 x = of_nat (le_nat (rev (le_bytes 8 (unat x))))"

definition CBS_get_u16le :: "CBS \<Rightarrow> u16 option \<times> CBS" where
  "CBS_get_u16le cbs = get_then (CBS_get_u16 cbs) (\<lambda>v cbs. (Some (CRYPTO_bswap2 v), cbs))"

definition CBS_get_u24 :: "CBS \<Rightarrow> u32 option \<times> CBS" where
  "CBS_get_u24 cbs = get_then (cbs_get_u 3 cbs) (\<lambda>v cbs. (Some (ucast v), cbs))"

definition CBS_get_u32 :: "CBS \<Rightarrow> u32 option \<times> CBS" where
  "CBS_get_u32 cbs = get_then (cbs_get_u 4 cbs) (\<lambda>v cbs. (Some (ucast v), cbs))"

definition CBS_get_u32le :: "CBS \<Rightarrow> u32 option \<times> CBS" where
  "CBS_get_u32le cbs = get_then (CBS_get_u32 cbs) (\<lambda>v cbs. (Some (CRYPTO_bswap4 v), cbs))"

definition CBS_get_u64 :: "CBS \<Rightarrow> u64 option \<times> CBS" where
  "CBS_get_u64 cbs = cbs_get_u 8 cbs"

definition CBS_get_u64le :: "CBS \<Rightarrow> u64 option \<times> CBS" where
  "CBS_get_u64le cbs = get_then (cbs_get_u 8 cbs) (\<lambda>v cbs. (Some (CRYPTO_bswap8 v), cbs))"

definition CBS_get_last_u8 :: "CBS \<Rightarrow> u8 option \<times> CBS" where
  "CBS_get_last_u8 cbs = (if length cbs = 0 then (None, cbs) else (Some (cbs ! (length cbs - 1)), take (length cbs - 1) cbs))"

definition CBS_get_bytes :: "nat \<Rightarrow> CBS \<Rightarrow> CBS option \<times> CBS" where
  "CBS_get_bytes len cbs = get_then (cbs_get len cbs) (\<lambda>v cbs. (Some v, cbs))"

definition CBS_copy_bytes :: "nat \<Rightarrow> CBS \<Rightarrow> u8 list option \<times> CBS" where
  "CBS_copy_bytes len cbs = get_then (cbs_get len cbs) (\<lambda>v cbs. (Some v, cbs))"

definition cbs_get_length_prefixed :: "nat \<Rightarrow> CBS \<Rightarrow> CBS option \<times> CBS" where
  "cbs_get_length_prefixed len_len cbs =
     get_then (cbs_get_u len_len cbs) (\<lambda>len cbs. CBS_get_bytes (unat len) cbs)"

definition CBS_get_u8_length_prefixed :: "CBS \<Rightarrow> CBS option \<times> CBS" where
  "CBS_get_u8_length_prefixed = cbs_get_length_prefixed 1"

definition CBS_get_u16_length_prefixed :: "CBS \<Rightarrow> CBS option \<times> CBS" where
  "CBS_get_u16_length_prefixed = cbs_get_length_prefixed 2"

definition CBS_get_u24_length_prefixed :: "CBS \<Rightarrow> CBS option \<times> CBS" where
  "CBS_get_u24_length_prefixed = cbs_get_length_prefixed 3"

text \<open>\<open>memchr\<close>: the index of the first occurrence.\<close>

fun memchr :: "u8 \<Rightarrow> u8 list \<Rightarrow> nat option" where
  "memchr c [] = None"
| "memchr c (x # xs) = (if x = c then Some 0 else map_option Suc (memchr c xs))"

definition CBS_get_until_first :: "u8 \<Rightarrow> CBS \<Rightarrow> CBS option \<times> CBS" where
  "CBS_get_until_first c cbs =
     (case memchr c cbs of None \<Rightarrow> (None, cbs) | Some split \<Rightarrow> CBS_get_bytes split cbs)"

section \<open>ASN.1 elements\<close>

abbreviation (input) CBS_ASN1_TAG_SHIFT :: nat where "CBS_ASN1_TAG_SHIFT \<equiv> 24"
definition CBS_ASN1_CONSTRUCTED :: u32 where "CBS_ASN1_CONSTRUCTED = 0x20000000"
definition CBS_ASN1_TAG_NUMBER_MASK :: u32 where "CBS_ASN1_TAG_NUMBER_MASK = 0x1FFFFFFF"
definition CBS_ASN1_BOOLEAN :: u32 where "CBS_ASN1_BOOLEAN = 1"
definition CBS_ASN1_INTEGER :: u32 where "CBS_ASN1_INTEGER = 2"
definition CBS_ASN1_OCTETSTRING :: u32 where "CBS_ASN1_OCTETSTRING = 4"

text \<open>The loop of \<open>parse_base128_integer\<close>, with the value read so far.\<close>

function base128_loop :: "u64 \<Rightarrow> CBS \<Rightarrow> u64 option \<times> CBS" where
  "base128_loop v cbs =
     (case CBS_get_u8 cbs of
        (None, cbs) \<Rightarrow> (None, cbs)
      | (Some b, cbs) \<Rightarrow>
          if drop_bit (64 - 7) v \<noteq> 0 then (None, cbs)
          else if v = 0 \<and> b = 0x80 then (None, cbs)
          else
            let v = push_bit 7 v OR ucast (b AND 0x7F) in
            if b AND 0x80 \<noteq> 0 then base128_loop v cbs else (Some v, cbs))"
  by pat_completeness auto
termination
  by (relation "measure (\<lambda>(v, cbs). length cbs)") (auto simp: CBS_get_u8_def cbs_get_def split: if_splits)

declare base128_loop.simps [simp del]

definition parse_base128_integer :: "CBS \<Rightarrow> u64 option \<times> CBS" where
  "parse_base128_integer cbs = base128_loop 0 cbs"

definition parse_asn1_tag :: "CBS \<Rightarrow> u32 option \<times> CBS" where
  "parse_asn1_tag cbs =
     get_then (CBS_get_u8 cbs) (\<lambda>tag_byte cbs.
       let tag = push_bit CBS_ASN1_TAG_SHIFT (ucast tag_byte AND 0xE0);
           tag_number = ucast (tag_byte AND 0x1F) :: u32 in
       if tag_number = 0x1F then
         get_then (parse_base128_integer cbs) (\<lambda>v cbs.
           if v > ucast CBS_ASN1_TAG_NUMBER_MASK \<or> v < 0x1F then (None, cbs)
           else (Some (tag OR ucast v), cbs))
       else (Some (tag OR tag_number), cbs))"

text \<open>
  The length octets: the length of the whole element, of its header, and \<open>*out_ber_found\<close>. The argument
  \<open>header\<close> is what follows the first length octet.
\<close>

definition asn1_length :: "bool \<Rightarrow> u32 \<Rightarrow> nat \<Rightarrow> u8 \<Rightarrow> CBS \<Rightarrow> (nat \<times> nat \<times> bool) option" where
  "asn1_length ber_ok tag header_len length_byte header =
     (if length_byte AND 0x80 = 0 then Some (unat length_byte + header_len, header_len, False)
      else
        let num_bytes = unat (length_byte AND 0x7F) in
        if ber_ok \<and> tag AND CBS_ASN1_CONSTRUCTED \<noteq> 0 \<and> num_bytes = 0 then Some (header_len, header_len, True)
        else if num_bytes = 0 \<or> num_bytes > 4 then None
        else
          case cbs_get_u num_bytes header of
            (None, _) \<Rightarrow> None
          | (Some len64, _) \<Rightarrow>
              if len64 < 128 \<and> \<not> ber_ok then None
              else if drop_bit ((num_bytes - 1) * 8) len64 = 0 \<and> \<not> ber_ok then None
              else if len64 + of_nat header_len + of_nat num_bytes < len64 then None
              else Some (unat (len64 + of_nat header_len + of_nat num_bytes), header_len + num_bytes,
                         len64 < 128 \<or> drop_bit ((num_bytes - 1) * 8) len64 = 0))"

text \<open>
  \<open>cbs_get_any_asn1_element\<close>: the element with its header, the tag, the header length and
  \<open>*out_ber_found\<close>. Every failure leaves the caller's \<open>CBS\<close> as it was: the header is read from a copy.
\<close>

definition cbs_get_any_asn1_element :: "bool \<Rightarrow> CBS \<Rightarrow> (CBS \<times> u32 \<times> nat \<times> bool) option \<times> CBS" where
  "cbs_get_any_asn1_element ber_ok cbs =
     (case parse_asn1_tag cbs of
        (None, _) \<Rightarrow> (None, cbs)
      | (Some tag, header) \<Rightarrow>
      case CBS_get_u8 header of
        (None, _) \<Rightarrow> (None, cbs)
      | (Some length_byte, header) \<Rightarrow>
      case asn1_length ber_ok tag (length cbs - length header) length_byte header of
        None \<Rightarrow> (None, cbs)
      | Some (len, header_len, ber_found) \<Rightarrow>
          get_then (CBS_get_bytes len cbs) (\<lambda>out cbs. (Some (out, tag, header_len, ber_found), cbs)))"

definition CBS_get_any_asn1_element :: "CBS \<Rightarrow> (CBS \<times> u32 \<times> nat) option \<times> CBS" where
  "CBS_get_any_asn1_element cbs =
     get_then (cbs_get_any_asn1_element False cbs) (\<lambda>(out, tag, header_len, _) cbs. (Some (out, tag, header_len), cbs))"

definition CBS_get_any_ber_asn1_element :: "CBS \<Rightarrow> (CBS \<times> u32 \<times> nat \<times> bool) option \<times> CBS" where
  "CBS_get_any_ber_asn1_element cbs = cbs_get_any_asn1_element True cbs"

definition CBS_get_any_asn1 :: "CBS \<Rightarrow> (CBS \<times> u32) option \<times> CBS" where
  "CBS_get_any_asn1 cbs =
     get_then (CBS_get_any_asn1_element cbs) (\<lambda>(out, tag, header_len) cbs.
       case CBS_skip header_len out of (ok, out) \<Rightarrow> if ok then (Some (out, tag), cbs) else (None, cbs))"

definition cbs_get_asn1 :: "u32 \<Rightarrow> bool \<Rightarrow> CBS \<Rightarrow> CBS option \<times> CBS" where
  "cbs_get_asn1 tag_value skip_header cbs =
     get_then (CBS_get_any_asn1_element cbs) (\<lambda>(out, tag, header_len) cbs.
       if tag \<noteq> tag_value then (None, cbs)
       else if skip_header then
         (case CBS_skip header_len out of (ok, out) \<Rightarrow> if ok then (Some out, cbs) else (None, cbs))
       else (Some out, cbs))"

definition CBS_get_asn1 :: "u32 \<Rightarrow> CBS \<Rightarrow> CBS option \<times> CBS" where
  "CBS_get_asn1 tag_value cbs = cbs_get_asn1 tag_value True cbs"

definition CBS_get_asn1_element :: "u32 \<Rightarrow> CBS \<Rightarrow> CBS option \<times> CBS" where
  "CBS_get_asn1_element tag_value cbs = cbs_get_asn1 tag_value False cbs"

definition CBS_peek_asn1_tag :: "u32 \<Rightarrow> CBS \<Rightarrow> bool" where
  "CBS_peek_asn1_tag tag_value cbs \<longleftrightarrow> (if length cbs < 1 then False else fst (parse_asn1_tag cbs) = Some tag_value)"

section \<open>Values\<close>

text \<open>\<open>CBS_is_valid_asn1_integer\<close>: \<open>None\<close> for zero, else whether the integer is negative.\<close>

definition CBS_is_valid_asn1_integer :: "CBS \<Rightarrow> bool option" where
  "CBS_is_valid_asn1_integer cbs =
     (case CBS_get_u8 cbs of
        (None, _) \<Rightarrow> None
      | (Some first_byte, copy) \<Rightarrow>
          let is_negative = (first_byte AND 0x80 \<noteq> 0) in
          (case CBS_get_u8 copy of
             (None, _) \<Rightarrow> Some is_negative
           | (Some second_byte, _) \<Rightarrow>
               if (first_byte = 0x00 \<and> second_byte AND 0x80 = 0) \<or> (first_byte = 0xFF \<and> second_byte AND 0x80 \<noteq> 0)
               then None else Some is_negative))"

definition CBS_is_unsigned_asn1_integer :: "CBS \<Rightarrow> bool" where
  "CBS_is_unsigned_asn1_integer cbs \<longleftrightarrow> CBS_is_valid_asn1_integer cbs = Some False"

fun uint64_loop :: "u64 \<Rightarrow> u8 list \<Rightarrow> u64 option" where
  "uint64_loop out [] = Some out"
| "uint64_loop out (b # dat) =
     (if drop_bit 56 out \<noteq> 0 then None else uint64_loop (push_bit 8 out OR ucast b) dat)"

definition CBS_get_asn1_uint64 :: "CBS \<Rightarrow> u64 option \<times> CBS" where
  "CBS_get_asn1_uint64 cbs =
     get_then (CBS_get_asn1 CBS_ASN1_INTEGER cbs) (\<lambda>bytes cbs.
       if \<not> CBS_is_unsigned_asn1_integer bytes then (None, cbs) else (uint64_loop 0 bytes, cbs))"

text \<open>The union of \<open>CBS_get_asn1_int64\<close> is read in the byte order of the target.\<close>

definition CBS_get_asn1_int64 :: "CBS \<Rightarrow> int option \<times> CBS" where
  "CBS_get_asn1_int64 cbs =
     get_then (CBS_get_asn1 CBS_ASN1_INTEGER cbs) (\<lambda>bytes cbs.
       case CBS_is_valid_asn1_integer bytes of
         None \<Rightarrow> (None, cbs)
       | Some is_negative \<Rightarrow>
           if length bytes > 8 then (None, cbs)
           else
             let u = replicate 8 (if is_negative then 0xFF else 0);
                 u = fold (\<lambda>i u. u[i := bytes ! (length bytes - i - 1)]) [0..<length bytes] u
             in (Some (sint (of_nat (le_nat u) :: u64)), cbs))"

definition CBS_get_asn1_bool :: "CBS \<Rightarrow> bool option \<times> CBS" where
  "CBS_get_asn1_bool cbs =
     get_then (CBS_get_asn1 CBS_ASN1_BOOLEAN cbs) (\<lambda>bytes cbs.
       if length bytes \<noteq> 1 then (None, cbs)
       else if hd bytes \<noteq> 0 \<and> hd bytes \<noteq> 0xFF then (None, cbs)
       else (Some (hd bytes \<noteq> 0), cbs))"

text \<open>\<open>CBS_get_optional_asn1\<close>: \<open>Some None\<close> when the element is absent.\<close>

definition CBS_get_optional_asn1 :: "u32 \<Rightarrow> CBS \<Rightarrow> CBS option option \<times> CBS" where
  "CBS_get_optional_asn1 tag cbs =
     (if CBS_peek_asn1_tag tag cbs then get_then (CBS_get_asn1 tag cbs) (\<lambda>out cbs. (Some (Some out), cbs))
      else (Some None, cbs))"

definition CBS_get_optional_asn1_octet_string :: "u32 \<Rightarrow> CBS \<Rightarrow> (CBS \<times> bool) option \<times> CBS" where
  "CBS_get_optional_asn1_octet_string tag cbs =
     get_then (CBS_get_optional_asn1 tag cbs) (\<lambda>child cbs.
       case child of
         None \<Rightarrow> (Some ([], False), cbs)
       | Some child \<Rightarrow>
           (case CBS_get_asn1 CBS_ASN1_OCTETSTRING child of
              (Some out, []) \<Rightarrow> (Some (out, True), cbs)
            | _ \<Rightarrow> (None, cbs)))"

definition CBS_get_optional_asn1_uint64 :: "u32 \<Rightarrow> u64 \<Rightarrow> CBS \<Rightarrow> u64 option \<times> CBS" where
  "CBS_get_optional_asn1_uint64 tag default_value cbs =
     get_then (CBS_get_optional_asn1 tag cbs) (\<lambda>child cbs.
       case child of
         None \<Rightarrow> (Some default_value, cbs)
       | Some child \<Rightarrow>
           (case CBS_get_asn1_uint64 child of (Some out, []) \<Rightarrow> (Some out, cbs) | _ \<Rightarrow> (None, cbs)))"

definition CBS_get_optional_asn1_bool :: "u32 \<Rightarrow> bool \<Rightarrow> CBS \<Rightarrow> bool option \<times> CBS" where
  "CBS_get_optional_asn1_bool tag default_value cbs =
     get_then (CBS_get_optional_asn1 tag cbs) (\<lambda>child cbs.
       case child of
         None \<Rightarrow> (Some default_value, cbs)
       | Some child \<Rightarrow>
           (case CBS_get_asn1 CBS_ASN1_BOOLEAN child of
              (Some child2, rest) \<Rightarrow>
                if length child2 \<noteq> 1 \<or> length rest \<noteq> 0 then (None, cbs)
                else if hd child2 = 0 then (Some False, cbs)
                else if hd child2 = 0xFF then (Some True, cbs)
                else (None, cbs)
            | (None, _) \<Rightarrow> (None, cbs)))"

definition CBS_is_valid_asn1_bitstring :: "CBS \<Rightarrow> bool" where
  "CBS_is_valid_asn1_bitstring cbs =
     (case CBS_get_u8 cbs of
        (None, _) \<Rightarrow> False
      | (Some num_unused_bits, inp) \<Rightarrow>
          if num_unused_bits > 7 then False
          else if num_unused_bits = 0 then True
          else
            (case CBS_get_last_u8 inp of
               (None, _) \<Rightarrow> False
             | (Some lst, _) \<Rightarrow> lst AND (push_bit (unat num_unused_bits) 1 - 1) = 0))"

definition CBS_asn1_bitstring_has_bit :: "CBS \<Rightarrow> u32 \<Rightarrow> bool" where
  "CBS_asn1_bitstring_has_bit cbs n =
     (if \<not> CBS_is_valid_asn1_bitstring cbs then False
      else
        let byte_num = unat (drop_bit 3 n + 1); bit_num = 7 - unat (n AND 7)
        in byte_num < length cbs \<and> cbs ! byte_num AND push_bit bit_num 1 \<noteq> 0)"

section \<open>BER (crypto/bytestring/ber.c)\<close>

abbreviation (input) kMaxDepth :: nat where "kMaxDepth \<equiv> 2048"

definition is_string_type :: "u32 \<Rightarrow> bool" where
  "is_string_type tag \<longleftrightarrow>
     tag AND NOT CBS_ASN1_CONSTRUCTED \<in> {0x4, 0xC, 0x12, 0x13, 0x14, 0x15, 0x16, 0x19, 0x1A, 0x1B, 0x1C, 0x1E}"

lemma get_u8_cases: "CBS_get_u8 cbs = (case cbs of [] \<Rightarrow> (None, []) | b # cbs \<Rightarrow> (Some b, cbs))"
  by (cases cbs) (auto simp: CBS_get_u8_def cbs_get_def)

lemma drop_bit_57: "drop_bit 57 (v :: u64) = 0 \<longleftrightarrow> unat v < 2 ^ 57"
proof -
  have "drop_bit 57 v = 0 \<longleftrightarrow> unat (drop_bit 57 v) = 0" by (simp only: unat_eq_0)
  then show ?thesis by (simp add: div_eq_0_iff)
qed

lemma base128_loop_Nil: "base128_loop v [] = (None, [])"
  by (simp add: base128_loop.simps [of v] get_u8_cases)

lemma base128_loop_Cons:
  "base128_loop v (b # cbs) =
     (if \<not> unat v < 2 ^ 57 \<or> v = 0 \<and> b = 0x80 then (None, cbs)
      else if b AND 0x80 = 0 then (Some (push_bit 7 v OR ucast (b AND 0x7F)), cbs)
      else base128_loop (push_bit 7 v OR ucast (b AND 0x7F)) cbs)"
  by (auto simp: base128_loop.simps [of v "b # cbs"] get_u8_cases drop_bit_57)

lemmas base128_simps = base128_loop_Nil base128_loop_Cons

lemma base128_rest: "base128_loop v cbs = (r, rest) \<Longrightarrow> length rest \<le> length cbs"
  by (induction cbs arbitrary: v) (auto simp: base128_simps le_SucI split: if_splits)

lemma parse_tag_rest:
  assumes "parse_asn1_tag cbs = (Some tag, rest)"
  shows "length rest < length cbs"
  using assms by (auto simp: parse_asn1_tag_def parse_base128_integer_def get_then_def get_u8_cases Let_def
      less_Suc_eq_le dest: base128_rest split: list.splits if_splits option.splits prod.splits)

lemma unat_ucast_u8_u64: "unat (ucast (b :: u8) :: u64) = unat b"
  using unat_u8_lt [of b] by (simp add: unsigned_ucast_eq take_bit_nat_def)

lemma base128_step:
  assumes "unat v < 2 ^ 57"
  shows "unat (push_bit 7 v OR ucast (b AND 0x7F :: u8) :: u64) = unat v * 128 + unat b mod 128"
proof -
  have "unat (ucast (b AND 0x7F) OR push_bit 7 v :: u64) = unat (ucast (b AND 0x7F) :: u64) + unat v * 2 ^ 7"
    using assms by (intro unat_or_push_bit) (simp_all add: unat_ucast_u8_u64)
  then show ?thesis by (simp add: or.commute [of "push_bit 7 v"] unat_ucast_u8_u64)
qed

text \<open>A base-128 integer has at most ten octets.\<close>

lemma base128_consumed_pos:
  assumes "base128_loop v cbs = (Some w, rest)" and "2 ^ (7 * k) \<le> unat v"
  shows "length cbs + k \<le> length rest + 9"
  using assms
proof (induction cbs arbitrary: v k)
  case Nil
  then show ?case by (simp add: base128_simps)
next
  case (Cons b cbs)
  from Cons.prems have v: "unat v < 2 ^ 57" by (auto simp: base128_simps split: if_splits)
  with Cons.prems have "(2 :: nat) ^ (7 * k) < 2 ^ 57" by linarith
  then have k: "7 * k < 57" by (simp only: power_strict_increasing_iff)
  have "2 ^ (7 * k) * 128 \<le> unat v * 128" using Cons.prems by simp
  then have "2 ^ (7 * Suc k) \<le> unat (push_bit 7 v OR ucast (b AND 0x7F) :: u64)"
    by (simp add: base128_step [OF v] power_add)
  with Cons.IH [OF _ this] Cons.prems k show ?case by (auto simp: base128_simps split: if_splits)
qed

lemma base128_consumed: "base128_loop 0 cbs = (Some w, rest) \<Longrightarrow> length cbs \<le> length rest + 10"
proof (cases cbs)
  case (Cons b tl)
  assume "base128_loop 0 cbs = (Some w, rest)"
  moreover have "1 \<le> unat (push_bit 7 (0 :: u64) OR ucast (b AND 0x7F))" if "b \<noteq> 0x80" "b AND 0x80 \<noteq> 0"
  proof -
    have "unat b \<noteq> 128" using that(1) by (metis of_nat_unat_word of_nat_numeral)
    with that(2) unat_u8_lt [of b] have "unat b mod 128 \<noteq> 0" by (simp only: and_0x80_iff) presburger
    with base128_step [of 0 b] show ?thesis by simp
  qed
  ultimately show ?thesis using base128_consumed_pos [of _ tl w rest 0] Cons
    by (force simp: base128_simps split: if_splits)
qed simp

lemma parse_tag_consumed:
  assumes "parse_asn1_tag cbs = (Some tag, rest)"
  shows "length cbs \<le> length rest + 11"
  using assms by (auto simp: parse_asn1_tag_def parse_base128_integer_def get_then_def get_u8_cases Let_def
      dest: base128_consumed split: list.splits if_splits option.splits prod.splits)

text \<open>Big-endian numbers, the specification of \<open>cbs_get_u\<close>.\<close>

definition be_nat :: "u8 list \<Rightarrow> nat" where
  "be_nat bs = le_nat (rev bs)"

lemma be_nat_simps [simp]: "be_nat [] = 0" "be_nat (bs @ [b]) = be_nat bs * 256 + unat b"
  by (simp_all add: be_nat_def)

lemma be_nat_less: "be_nat bs < 256 ^ length bs"
  using le_nat_less [of "rev bs"] by (simp add: be_nat_def)

lemma byte_shift:
  assumes "unat w < 2 ^ 56"
  shows "unat (push_bit 8 w OR ucast (b :: u8) :: u64) = unat w * 256 + unat b"
  using assms unat_u8_lt [of b] unat_or_push_bit [of "ucast b :: u64" 8 w]
  by (simp add: unat_ucast_u8_u64 or.commute)

lemma fold_be:
  assumes "length bs \<le> 8"
  shows "unat (fold (\<lambda>b result. push_bit 8 result OR ucast b) bs (0 :: u64)) = be_nat bs"
  using assms
proof (induction bs rule: rev_induct)
  case (snoc b bs)
  have "be_nat bs < 2 ^ 56"
    using be_nat_less [of bs] power_increasing [of "length bs" 7 "256 :: nat"] snoc.prems by simp
  with snoc show ?case by (simp add: byte_shift)
qed simp

lemma cbs_get_u_eq:
  assumes "n \<le> 8"
  shows "cbs_get_u n cbs = (if length cbs < n then (None, cbs) else (Some (of_nat (be_nat (take n cbs))), drop n cbs))"
  using fold_be [of "take n cbs"] assms
  by (auto simp: cbs_get_u_def cbs_get_def get_then_def intro: word_eq_unatI) (metis of_nat_unat_word)

lemma be_nat_4: "length bs \<le> 4 \<Longrightarrow> be_nat bs < 2 ^ 32"
  using be_nat_less [of bs] power_increasing [of "length bs" 4 "256 :: nat"] by simp

text \<open>The length octets in terms of numbers: with a header of at most twelve octets nothing overflows.\<close>

lemma asn1_length_eq:
  assumes "h \<le> 12"
  shows "asn1_length ber_ok tag h b header =
    (let n = unat b mod 128; len = be_nat (take n header); lax = (len < 128 \<or> len < 256 ^ (n - 1)) in
     if unat b < 128 then Some (unat b + h, h, False)
     else if ber_ok \<and> tag AND CBS_ASN1_CONSTRUCTED \<noteq> 0 \<and> n = 0 then Some (h, h, True)
     else if n = 0 \<or> n > 4 \<or> length header < n \<or> lax \<and> \<not> ber_ok then None
     else Some (len + h + n, h + n, lax))"
proof (cases "0 < unat b mod 128 \<and> unat b mod 128 \<le> 4 \<and> unat b mod 128 \<le> length header \<and> \<not> unat b < 128")
  case True
  define n len where "n = unat b mod 128" and "len = be_nat (take n header)"
  have n: "0 < n" "n \<le> 4" "n \<le> length header" "\<not> unat b < 128" using True by (simp_all add: n_def)
  have len: "len < 2 ^ 32" unfolding len_def using n by (intro be_nat_4) simp
  have u: "unat (of_nat len :: u64) = len" using len by (intro unat_of_nat_u64_small) simp
  have "unat (of_nat len + of_nat h + of_nat n :: u64) = len + h + n"
    using len assms n(2) by (simp flip: of_nat_add add: unat_of_nat_u64_small)
  moreover have "(of_nat len :: u64) < 128 \<longleftrightarrow> len < 128" by (simp add: word_less_nat_alt u)
  moreover have "drop_bit ((n - 1) * 8) (of_nat len :: u64) = 0 \<longleftrightarrow> len < 256 ^ (n - 1)"
  proof -
    have "drop_bit ((n - 1) * 8) (of_nat len :: u64) = 0 \<longleftrightarrow> unat (drop_bit ((n - 1) * 8) (of_nat len :: u64)) = 0"
      by (simp only: unat_eq_0)
    also have "\<dots> \<longleftrightarrow> len div 2 ^ (8 * (n - 1)) = 0" by (simp add: u mult.commute)
    also have "\<dots> \<longleftrightarrow> len div 256 ^ (n - 1) = 0" by (simp only: power_mult) simp
    finally show ?thesis by (simp add: div_eq_0_iff)
  qed
  ultimately show ?thesis using n u
    unfolding asn1_length_def by (auto simp: Let_def cbs_get_u_eq and_0x80_iff n_def [symmetric] len_def [symmetric] word_less_nat_alt)
next
  case False
  then show ?thesis
    by (auto simp: asn1_length_def Let_def cbs_get_u_eq and_0x80_iff)
qed

lemma asn1_length_bounds:
  assumes "asn1_length ber_ok tag h b header = Some (len, header_len, ber_found)" and "h \<le> 12"
  shows "h \<le> header_len" and "header_len \<le> len"
  using assms(1) unfolding asn1_length_eq [OF assms(2)] by (auto simp: Let_def split: if_splits)

text \<open>A parsed element is a non-empty prefix of the input that starts with its header.\<close>

lemma get_any_split:
  assumes "cbs_get_any_asn1_element ber_ok cbs = (Some (out, tag, header_len, ber_found), rest)"
  shows "cbs = out @ rest" and "2 \<le> header_len" and "header_len \<le> length out"
proof -
  from assms obtain header b header2 len where h: "parse_asn1_tag cbs = (Some tag, header)" "header = b # header2"
      "asn1_length ber_ok tag (length cbs - length header2) b header2 = Some (len, header_len, ber_found)"
      "len \<le> length cbs" "out = take len cbs" "rest = drop len cbs"
    by (auto simp: cbs_get_any_asn1_element_def get_u8_cases get_then_def CBS_get_bytes_def cbs_get_def
        split: option.splits prod.splits if_splits list.splits)
  have "length cbs - length header2 \<le> 12" using parse_tag_consumed [OF h(1)] h(2) by simp
  from asn1_length_bounds [OF h(3) this] parse_tag_rest [OF h(1)] h(2,4,5,6)
  show "cbs = out @ rest" "2 \<le> header_len" "header_len \<le> length out" by simp_all
qed

lemma get_any_lengths:
  assumes "cbs_get_any_asn1_element ber_ok cbs = (Some (out, tag, header_len, ber_found), rest)"
  shows "length rest < length cbs \<and> length out \<le> length cbs \<and> 0 < header_len \<and> header_len \<le> length out"
  using get_any_split [OF assms] by auto

text \<open>
  The walk of \<open>cbs_find_ber\<close>: \<open>None\<close> for an error, else \<open>*ber_found\<close> at the end of the loop. The flag is an
  argument because the loop carries it: every element read clears it, a nested walk may set it.
\<close>

function find_ber_loop :: "nat \<Rightarrow> bool \<Rightarrow> CBS \<Rightarrow> bool option" where
  "find_ber_loop depth ber_found inp =
     (if inp = [] then Some ber_found
      else
        case CBS_get_any_ber_asn1_element inp of
          (None, _) \<Rightarrow> None
        | (Some (contents, tag, header_len, ber_found), inp) \<Rightarrow>
            if ber_found then Some True
            else if tag AND CBS_ASN1_CONSTRUCTED \<noteq> 0 then
              if is_string_type tag then Some True
              else
                (case CBS_skip header_len contents of
                   (False, _) \<Rightarrow> None
                 | (True, contents) \<Rightarrow>
                     (case (if depth + 1 > kMaxDepth then None else find_ber_loop (depth + 1) False contents) of
                        None \<Rightarrow> None
                      | Some ber_found \<Rightarrow> find_ber_loop depth ber_found inp))
            else find_ber_loop depth ber_found inp)"
  by pat_completeness auto
termination
  by (relation "measure (\<lambda>(depth, ber_found, inp). length inp)")
    (auto simp: CBS_get_any_ber_asn1_element_def CBS_skip_def cbs_get_def dest!: get_any_lengths [OF sym] split: if_splits)

declare find_ber_loop.simps [simp del]

definition cbs_find_ber :: "nat \<Rightarrow> CBS \<Rightarrow> bool option" where
  "cbs_find_ber depth orig_in = (if depth > kMaxDepth then None else find_ber_loop depth False orig_in)"

end
