(* ===== verification/Der.thy ===== *)
theory Der
  imports CBS
begin

unbundle bit_operations_syntax

text \<open>
  The DER encoding as a specification, and the reader against it: base-128 integers, identifier
  octets, length octets and whole elements. The reader accepts exactly the encodings, so a parsed
  element determines the bytes it came from.
\<close>

section \<open>Base-128 integers\<close>

text \<open>All groups but the last of a number, each with the continuation bit; the number itself.\<close>

function base128_hi :: "nat \<Rightarrow> u8 list" where
  "base128_hi m = (if m = 0 then [] else base128_hi (m div 128) @ [of_nat (m mod 128 + 128)])"
  by pat_completeness auto
termination by (relation "measure id") auto

declare base128_hi.simps [simp del]

definition base128 :: "nat \<Rightarrow> u8 list" where
  "base128 n = base128_hi (n div 128) @ [of_nat (n mod 128)]"

lemma base128_hi_0 [simp]: "base128_hi 0 = []"
  by (simp add: base128_hi.simps)

lemma base128_hi_step: "d < 128 \<Longrightarrow> v * 128 + d \<noteq> 0 \<Longrightarrow> base128_hi (v * 128 + d) = base128_hi v @ [of_nat (d + 128)]"
  by (subst base128_hi.simps) simp

lemma base128_step_eq: "d < 128 \<Longrightarrow> base128 (v * 128 + d) = base128_hi v @ [of_nat d]"
  by (simp add: base128_def)

lemma high_byte: "\<not> unat (b :: u8) < 128 \<Longrightarrow> of_nat (unat b mod 128 + 128) = b"
proof -
  assume "\<not> unat b < 128"
  then have "unat b mod 128 + 128 = unat b" using le_mod_geq [of 128 "unat b"] unat_u8_lt [of b] by simp
  then show ?thesis by (metis of_nat_unat_word)
qed

lemma byte_0x80: "b = (0x80 :: u8) \<longleftrightarrow> unat b = 128"
  by (auto intro: word_eq_unatI)

lemma base128_sound:
  "base128_loop v cbs = (Some w, rest) \<Longrightarrow> base128_hi (unat v) @ cbs = base128 (unat w) @ rest"
proof (induction cbs arbitrary: v)
  case Nil
  then show ?case by (simp add: base128_simps)
next
  case (Cons b cbs)
  have v: "unat v < 2 ^ 57" "\<not> (v = 0 \<and> b = 0x80)" using Cons.prems by (auto simp: base128_simps split: if_splits)
  show ?case
  proof (cases "unat b < 128")
    case True
    then have "w = push_bit 7 v OR ucast (b AND 0x7F)" "rest = cbs" using Cons.prems v
      by (auto simp: base128_simps and_0x80_iff split: if_splits)
    then show ?thesis using True by (simp add: base128_step [OF v(1)] base128_step_eq)
  next
    case False
    have "unat v * 128 + unat b mod 128 \<noteq> 0"
    proof
      assume *: "unat v * 128 + unat b mod 128 = 0"
      then have "unat b = 128" using False unat_u8_lt [of b] by (simp add: mod_if split: if_splits)
      with * v(2) show False by (simp add: byte_0x80 unat_eq_0)
    qed
    with False Cons.IH [of "push_bit 7 v OR ucast (b AND 0x7F)"] Cons.prems v show ?thesis
      by (simp add: base128_simps and_0x80_iff base128_step [OF v(1)] base128_hi_step high_byte del: of_nat_add)
  qed
qed

lemma base128_hi_complete:
  "m < 2 ^ 64 \<Longrightarrow> base128_loop 0 (base128_hi m @ cbs) = base128_loop (of_nat m) cbs"
proof (induction m arbitrary: cbs rule: less_induct)
  case (less m)
  show ?case
  proof (cases "m = 0")
    case False
    define v d where "v = m div 128" and "d = m mod 128"
    have m: "m = v * 128 + d" and d: "d < 128" and v: "v < 2 ^ 57" "v < m"
      using less.prems False by (simp_all add: v_def d_def)
    have u: "unat (of_nat v :: u64) = v" using v by (intro unat_of_nat_u64_small) simp
    have b: "unat (of_nat (d + 128) :: u8) = d + 128" using d by (simp del: of_nat_add)
    have "push_bit 7 (of_nat v) OR ucast (of_nat (d + 128) AND 0x7F :: u8) = (of_nat m :: u64)"
    proof (rule word_eq_unatI)
      show "unat (push_bit 7 (of_nat v) OR ucast (of_nat (d + 128) AND 0x7F :: u8) :: u64) = unat (of_nat m :: u64)"
        using base128_step [of "of_nat v" "of_nat (d + 128)"] v d u less.prems
        by (simp only: b unat_of_nat_u64_small) (simp add: m)
    qed
    moreover have "\<not> (of_nat v = (0 :: u64) \<and> of_nat (d + 128) = (0x80 :: u8))"
      using b u False m by (auto simp: byte_0x80)
    moreover have "base128_hi m = base128_hi v @ [of_nat (d + 128)]" using base128_hi_step [OF d, of v] m False by simp
    moreover have "\<not> unat (of_nat (d + 128) :: u8) < 128" using b by simp
    ultimately show ?thesis using less.IH [OF v(2), of "of_nat (d + 128) # cbs"] v less.prems u
      by (auto simp: base128_loop_Cons and_0x80_iff simp del: of_nat_add)
  qed simp
qed

lemma base128_iff: "parse_base128_integer cbs = (Some w, rest) \<longleftrightarrow> cbs = base128 (unat w) @ rest"
proof
  assume "parse_base128_integer cbs = (Some w, rest)"
  then show "cbs = base128 (unat w) @ rest" using base128_sound [of 0 cbs w rest]
    by (simp add: parse_base128_integer_def)
next
  assume eq: "cbs = base128 (unat w) @ rest"
  define v d where "v = unat w div 128" and "d = unat w mod 128"
  have v: "v < 2 ^ 57" and d: "d < 128" and w: "unat w = v * 128 + d"
    using unat_u64_lt [of w] by (simp_all add: v_def d_def)
  have u: "unat (of_nat v :: u64) = v" using v by (intro unat_of_nat_u64_small) simp
  have b: "unat (of_nat d :: u8) = d" using d by simp
  have "push_bit 7 (of_nat v) OR ucast (of_nat d AND 0x7F :: u8) = w"
    using base128_step [of "of_nat v" "of_nat d"] v d u b w by (intro word_eq_unatI) simp
  moreover have "cbs = base128_hi v @ of_nat d # rest" by (simp add: eq base128_def v_def d_def)
  ultimately show "parse_base128_integer cbs = (Some w, rest)"
    using base128_hi_complete [of v "of_nat d # rest"] v d u b
    by (auto simp: parse_base128_integer_def base128_loop_Cons and_0x80_iff byte_0x80)
qed

section \<open>Identifier octets\<close>

definition der_tag :: "u32 \<Rightarrow> u8 list" where
  "der_tag tag =
     (let cls = unat tag div 2 ^ 29; n = unat tag mod 2 ^ 29 in
      if n < 31 then [of_nat (cls * 32 + n)] else of_nat (cls * 32 + 31) # base128 n)"

lemma unat_and_0x1F: "unat (b AND 0x1F :: u8) = unat b mod 32"
proof -
  have "b AND 0x1F = take_bit 5 b" by (simp add: take_bit_eq_mask mask_eq_exp_minus_1)
  then show ?thesis by (simp only: unsigned_take_bit_eq take_bit_nat_def) simp
qed

lemma unat_ucast_u8_u32: "unat (ucast (b :: u8) :: u32) = unat b"
  using unat_u8_lt [of b] by (simp add: unsigned_ucast_eq take_bit_nat_def)

lemma word_of_natI: "unat w = n \<Longrightarrow> w = of_nat n"
  by auto

lemma tag_value:
  assumes "unat n < 2 ^ 29"
  shows "unat (push_bit 24 (ucast (b :: u8) AND 0xE0) OR n :: u32) = unat b div 32 * 2 ^ 29 + unat n"
proof -
  have "(ucast b AND 0xE0 :: u32) = push_bit 5 (ucast (drop_bit 5 b))"
  proof -
    have e: "(0xE0 :: u32) = push_bit 5 (mask 3)" by (simp add: mask_eq_exp_minus_1)
    show ?thesis unfolding e by (rule bit_word_eqI) (auto simp: bit_simps dest: bit_imp_le_length)
  qed
  then have "push_bit 24 (ucast b AND 0xE0) OR n = n OR push_bit 29 (ucast (drop_bit 5 b) :: u32)"
    by (simp add: push_bit_push_bit or.commute)
  moreover have "unat (ucast (drop_bit 5 b) :: u32) = unat b div 32" by (simp add: unat_ucast_u8_u32)
  ultimately show ?thesis using unat_or_push_bit [of n 29 "ucast (drop_bit 5 b)"] assms unat_u8_lt [of b]
    by (simp add: div_less_iff_less_mult)
qed

lemma parse_tag_Cons:
  "parse_asn1_tag (b # cbs) =
     (if unat b mod 32 < 31 then (Some (of_nat (unat b div 32 * 2 ^ 29 + unat b mod 32)), cbs)
      else get_then (parse_base128_integer cbs) (\<lambda>v cbs.
        if 31 \<le> unat v \<and> unat v < 2 ^ 29 then (Some (of_nat (unat b div 32 * 2 ^ 29 + unat v)), cbs) else (None, cbs)))"
proof -
  have n: "unat (ucast (b AND 0x1F) :: u32) = unat b mod 32" by (simp add: unat_ucast_u8_u32 unat_and_0x1F)
  have low: "(ucast (b AND 0x1F) = (0x1F :: u32)) \<longleftrightarrow> \<not> unat b mod 32 < 31"
  proof -
    have "(ucast (b AND 0x1F) = (0x1F :: u32)) \<longleftrightarrow> unat b mod 32 = 31" using n by (auto intro: word_eq_unatI)
    also have "\<dots> \<longleftrightarrow> \<not> unat b mod 32 < 31" using mod_less_divisor [of 32 "unat b"] by linarith
    finally show ?thesis .
  qed
  have short: "push_bit 24 (ucast b AND 0xE0) OR ucast (b AND 0x1F) = (of_nat (unat b div 32 * 2 ^ 29 + unat b mod 32) :: u32)"
    using mod_less_divisor [of 32 "unat b"] by (intro word_of_natI, subst tag_value) (simp_all only: n, simp)
  have long: "push_bit 24 (ucast b AND 0xE0) OR ucast v = (of_nat (unat b div 32 * 2 ^ 29 + unat v) :: u32)"
    if "unat v < 2 ^ 29" for v :: u64
  proof -
    have "unat (ucast v :: u32) = unat v" using that by (simp add: unsigned_ucast_eq take_bit_nat_def)
    then show ?thesis using that by (intro word_of_natI, subst tag_value) simp_all
  qed
  have guard: "\<not> (ucast CBS_ASN1_TAG_NUMBER_MASK < v \<or> v < 0x1F) \<longleftrightarrow> 31 \<le> unat v \<and> unat v < 2 ^ 29" for v :: u64
    by (auto simp: CBS_ASN1_TAG_NUMBER_MASK_def word_less_nat_alt)
  have inner: "(if ucast CBS_ASN1_TAG_NUMBER_MASK < v \<or> v < 0x1F then (None, cbs)
       else (Some (push_bit 24 (ucast b AND 0xE0) OR ucast v), cbs)) =
     (if 31 \<le> unat v \<and> unat v < 2 ^ 29 then (Some (of_nat (unat b div 32 * 2 ^ 29 + unat v) :: u32), cbs)
      else (None, cbs))" for v :: u64 and cbs :: CBS
    using guard [of v] long [of v] by (cases "31 \<le> unat v \<and> unat v < 2 ^ 29") (simp_all only: simp_thms if_True if_False)
  show ?thesis
    unfolding parse_asn1_tag_def get_u8_cases Let_def list.case get_then_simps low short inner
    by (simp only: if_not_P if_P split: if_split) simp
qed

lemma tag_split:
  fixes tag :: u32
  shows "tag = of_nat (unat tag div 2 ^ 29 * 2 ^ 29 + unat tag mod 2 ^ 29)" and "unat tag div 2 ^ 29 < 8"
proof -
  have "unat tag div 2 ^ 29 * 2 ^ 29 + unat tag mod 2 ^ 29 = unat tag" by (rule div_mult_mod_eq)
  then show "tag = of_nat (unat tag div 2 ^ 29 * 2 ^ 29 + unat tag mod 2 ^ 29)" by (simp only: of_nat_unat_word)
  show "unat tag div 2 ^ 29 < 8" using unat_u32_lt [of tag] by (simp add: div_less_iff_less_mult)
qed

lemma unat_der_tag: "c < 8 \<Longrightarrow> n < 2 ^ 29 \<Longrightarrow> unat (of_nat (c * 2 ^ 29 + n) :: u32) = c * 2 ^ 29 + n"
  by (simp add: unat_of_nat_mod del: of_nat_add of_nat_mult)

lemma tag_parts:
  assumes "c < 8" and "n < 2 ^ 29"
  shows "unat (of_nat (c * 2 ^ 29 + n) :: u32) div 2 ^ 29 = c" and "unat (of_nat (c * 2 ^ 29 + n) :: u32) mod 2 ^ 29 = n"
  unfolding unat_der_tag [OF assms] using assms by simp_all

lemma byte_parts: "n < 32 \<Longrightarrow> c < 8 \<Longrightarrow> unat (of_nat (c * 32 + n) :: u8) = c * 32 + n"
  by (simp del: of_nat_add of_nat_mult)

lemma parse_tag_iff: "parse_asn1_tag cbs = (Some tag, rest) \<longleftrightarrow> cbs = der_tag tag @ rest"
proof
  assume p: "parse_asn1_tag cbs = (Some tag, rest)"
  then obtain b tl where c: "cbs = b # tl" by (cases cbs) (auto simp: parse_asn1_tag_def get_u8_cases)
  have b: "unat b div 32 < 8" using unat_u8_lt [of b] by (simp add: div_less_iff_less_mult)
  have byte: "of_nat (unat b div 32 * 32 + unat b mod 32) = b" by (simp only: div_mult_mod_eq of_nat_unat_word)
  show "cbs = der_tag tag @ rest"
  proof (cases "unat b mod 32 < 31")
    case True
    then have "tag = of_nat (unat b div 32 * 2 ^ 29 + unat b mod 32)" "rest = tl"
      using p by (simp_all only: c parse_tag_Cons if_True prod.inject option.inject)
    then show ?thesis using True b byte tag_parts [OF b, of "unat b mod 32"] by (simp only: der_tag_def Let_def c) simp
  next
    case False
    then obtain v where v: "parse_base128_integer tl = (Some v, rest)" "31 \<le> unat v" "unat v < 2 ^ 29"
        "tag = of_nat (unat b div 32 * 2 ^ 29 + unat v)"
      using p by (auto simp: c parse_tag_Cons get_then_def simp del: of_nat_add of_nat_mult split: prod.splits option.splits if_splits)
    have "unat b mod 32 = 31" using False mod_less_divisor [of 32 "unat b"] by linarith
    with byte have "of_nat (unat b div 32 * 32 + 31) = b" by (simp only:)
    with v tag_parts [OF b v(3)] show ?thesis by (simp only: der_tag_def Let_def c base128_iff) simp
  qed
next
  assume c: "cbs = der_tag tag @ rest"
  define k n where "k = unat tag div 2 ^ 29" and "n = unat tag mod 2 ^ 29"
  have k: "k < 8" and n: "n < 2 ^ 29" and tag: "tag = of_nat (k * 2 ^ 29 + n)"
    using tag_split [of tag] by (simp_all only: k_def n_def) simp
  show "parse_asn1_tag cbs = (Some tag, rest)"
  proof (cases "n < 31")
    case True
    then have "cbs = of_nat (k * 32 + n) # rest" by (simp only: c der_tag_def Let_def k_def [symmetric] n_def [symmetric]) simp
    then show ?thesis using byte_parts [of n k] k True tag by (simp only: parse_tag_Cons) simp
  next
    case False
    then have c: "cbs = of_nat (k * 32 + 31) # base128 n @ rest"
      by (simp only: c der_tag_def Let_def k_def [symmetric] n_def [symmetric]) simp
    have u: "unat (of_nat n :: u64) = n" using n by (intro unat_of_nat_u64_small) simp
    then have "parse_base128_integer (base128 n @ rest) = (Some (of_nat n), rest)" by (simp add: base128_iff)
    then show ?thesis using byte_parts [of 31 k] k False n tag u by (simp only: parse_tag_Cons c) simp
  qed
qed

section \<open>Length octets\<close>

definition be_bytes :: "nat \<Rightarrow> nat \<Rightarrow> u8 list" where
  "be_bytes k n = rev (le_bytes k n)"

lemma length_be_bytes [simp]: "length (be_bytes k n) = k"
  by (simp add: be_bytes_def)

lemma be_nat_be_bytes: "n < 256 ^ k \<Longrightarrow> be_nat (be_bytes k n) = n"
  by (simp add: be_nat_def be_bytes_def le_nat_le_bytes)

lemma be_bytes_be_nat: "be_bytes (length bs) (be_nat bs) = bs"
  using le_bytes_le_nat [of "rev bs"] by (simp add: be_bytes_def be_nat_def)

definition len_octets :: "nat \<Rightarrow> nat" where
  "len_octets n = (if n < 2 ^ 8 then 1 else if n < 2 ^ 16 then 2 else if n < 2 ^ 24 then 3 else 4)"

definition der_len :: "nat \<Rightarrow> u8 list" where
  "der_len n = (if n < 128 then [of_nat n] else of_nat (128 + len_octets n) # be_bytes (len_octets n) n)"

lemma len_octets_bounds: "1 \<le> len_octets n" "len_octets n \<le> 4" "n < 2 ^ 32 \<Longrightarrow> n < 256 ^ len_octets n"
  "128 \<le> n \<Longrightarrow> \<not> n < 256 ^ (len_octets n - 1)"
  by (auto simp: len_octets_def)

lemma len_octets_unique:
  assumes "1 \<le> k" "k \<le> 4" "128 \<le> n" "\<not> n < 256 ^ (k - 1)" "n < 256 ^ k"
  shows "len_octets n = k"
proof -
  from assms(1,2) consider "k = 1" | "k = 2" | "k = 3" | "k = 4" by linarith
  then show ?thesis using assms(3-5) by cases (auto simp: len_octets_def)
qed

lemma asn1_length_der:
  assumes "h \<le> 12" "1 \<le> h"
  shows "asn1_length False tag h b header = Some (len, header_len, ber_found) \<longleftrightarrow>
     (\<exists>n r. b # header = der_len n @ r \<and> n < 2 ^ 32 \<and> header_len = h - 1 + length (der_len n) \<and>
        len = n + header_len \<and> \<not> ber_found)" (is "?parse \<longleftrightarrow> ?spec")
proof
  assume p: ?parse
  show ?spec
  proof (cases "unat b < 128")
    case True
    then have "b # header = der_len (unat b) @ header" "length (der_len (unat b)) = 1" by (simp_all add: der_len_def)
    with p True assms show ?thesis
      by (intro exI [of _ "unat b"] exI [of _ header]) (simp add: asn1_length_eq Let_def)
  next
    case False
    define k n where "k = unat b mod 128" and "n = be_nat (take k header)"
    have k: "1 \<le> k" "k \<le> 4" "k \<le> length header" "128 \<le> n" "\<not> n < 256 ^ (k - 1)"
        "len = n + h + k" "header_len = h + k" "\<not> ber_found"
      using p False by (auto simp: asn1_length_eq [OF assms(1)] Let_def k_def [symmetric] n_def [symmetric] split: if_splits)
    have lt: "n < 256 ^ k" "n < 2 ^ 32" using be_nat_less [of "take k header"] be_nat_4 [of "take k header"] k
      by (simp_all add: n_def min_absorb2)
    have kk: "len_octets n = k" using k lt by (intro len_octets_unique)
    have "of_nat (128 + k) = b" using high_byte [OF False] by (simp add: k_def add.commute)
    moreover have "be_bytes k n = take k header" using be_bytes_be_nat [of "take k header"] k by (simp add: n_def min_absorb2)
    ultimately have d: "der_len n = b # take k header" using k by (simp add: der_len_def kk)
    then show ?thesis using k lt assms by (intro exI [of _ n] exI [of _ "drop k header"]) (simp add: min_absorb2)
  qed
next
  assume ?spec
  then obtain n r where s: "b # header = der_len n @ r" "n < 2 ^ 32" "header_len = h - 1 + length (der_len n)"
      "len = n + header_len" "\<not> ber_found" by blast
  show ?parse
  proof (cases "n < 128")
    case True
    with s have "b = of_nat n" "header_len = h" using assms by (simp_all add: der_len_def)
    with True s show ?thesis by (simp add: asn1_length_eq [OF assms(1)] Let_def)
  next
    case False
    note k = len_octets_bounds(1,2) [of n] len_octets_bounds(3) [OF s(2)] len_octets_bounds(4) [of n]
    have b: "b = of_nat (128 + len_octets n)" "header = be_bytes (len_octets n) n @ r" "header_len = h + len_octets n"
      using s False assms by (simp_all add: der_len_def)
    have u: "unat b = 128 + len_octets n" using b(1) k(2) by (simp del: of_nat_add)
    have m: "unat b mod 128 = len_octets n" using k(2) by (simp add: u)
    show ?thesis using False k b(2,3) s(4,5) be_nat_be_bytes [OF k(3)]
      by (simp add: asn1_length_eq [OF assms(1)] Let_def m u)
  qed
qed

section \<open>Elements\<close>

definition der_elem :: "u32 \<Rightarrow> u8 list \<Rightarrow> u8 list" where
  "der_elem tag contents = der_tag tag @ der_len (length contents) @ contents"

lemma der_tag_length: "1 \<le> length (der_tag tag)" "length (der_tag tag) \<le> 11"
  using parse_tag_consumed [of "der_tag tag" tag "[]"] parse_tag_rest [of "der_tag tag" tag "[]"]
  by (simp_all add: parse_tag_iff Suc_leI)

lemma der_len_Cons: "\<exists>b bs. der_len n = b # bs"
  by (simp add: der_len_def)

lemma get_any_iff:
  "cbs_get_any_asn1_element False cbs = (Some (out, tag, header_len, ber_found), rest) \<longleftrightarrow>
     (\<exists>c. out = der_elem tag c \<and> cbs = out @ rest \<and> length c < 2 ^ 32 \<and>
        header_len = length (der_tag tag @ der_len (length c)) \<and> \<not> ber_found)" (is "?parse \<longleftrightarrow> ?spec")
proof
  assume ?parse
  then obtain b header len where h: "parse_asn1_tag cbs = (Some tag, b # header)"
      "asn1_length False tag (length cbs - length header) b header = Some (len, header_len, ber_found)"
      "len \<le> length cbs" "out = take len cbs" "rest = drop len cbs"
    by (auto simp: cbs_get_any_asn1_element_def get_u8_cases get_then_def CBS_get_bytes_def cbs_get_def
        split: option.splits prod.splits if_splits list.splits)
  from h(1) have cbs: "cbs = der_tag tag @ b # header" by (simp add: parse_tag_iff)
  define k where "k = length cbs - length header"
  have k: "k = Suc (length (der_tag tag))" by (simp add: k_def cbs)
  have "k \<le> 12" "1 \<le> k" using der_tag_length [of tag] by (simp_all add: k)
  from h(2) [folded k_def, unfolded asn1_length_der [OF this]] obtain n r where n: "b # header = der_len n @ r"
      "n < 2 ^ 32" "header_len = k - 1 + length (der_len n)" "len = n + header_len" "\<not> ber_found" by blast
  have all: "cbs = der_tag tag @ der_len n @ r" using cbs n(1) by simp
  have "n \<le> length r" using h(3) n(3,4) by (simp add: all k)
  then have "length (take n r) = n" "out = der_tag tag @ der_len n @ take n r" "rest = drop n r"
    using h(4,5) n(3,4) by (simp_all add: all k)
  then show ?spec using n all by (intro exI [of _ "take n r"]) (simp add: der_elem_def k)
next
  assume ?spec
  then obtain c where c: "out = der_elem tag c" "cbs = out @ rest" "length c < 2 ^ 32"
      "header_len = length (der_tag tag @ der_len (length c))" "\<not> ber_found" by blast
  obtain b bs where b: "der_len (length c) = b # bs" using der_len_Cons by blast
  define header where "header = bs @ c @ rest"
  have cbs: "cbs = der_tag tag @ b # header" using c(1,2) b by (simp add: der_elem_def header_def)
  define k where "k = length cbs - length header"
  have k: "k = Suc (length (der_tag tag))" by (simp add: k_def cbs)
  have "k \<le> 12" "1 \<le> k" using der_tag_length [of tag] by (simp_all add: k)
  have "asn1_length False tag k b header = Some (length c + header_len, header_len, ber_found)"
    unfolding asn1_length_der [OF \<open>k \<le> 12\<close> \<open>1 \<le> k\<close>]
    using b c k by (intro exI [of _ "length c"] exI [of _ "c @ rest"]) (simp add: header_def)
  moreover have "parse_asn1_tag cbs = (Some tag, b # header)" by (simp add: parse_tag_iff cbs)
  moreover have "length out = length c + header_len" using c by (simp add: der_elem_def)
  then have "take (length c + header_len) cbs = out" "drop (length c + header_len) cbs = rest"
      "\<not> length cbs < length c + header_len" by (simp_all add: c(2))
  ultimately show ?parse
    by (simp add: cbs_get_any_asn1_element_def get_u8_cases k_def [symmetric] CBS_get_bytes_def cbs_get_def)
qed

lemma get_any_element_iff:
  "CBS_get_any_asn1_element cbs = (Some (out, tag, header_len), rest) \<longleftrightarrow>
     (\<exists>c. out = der_elem tag c \<and> cbs = out @ rest \<and> length c < 2 ^ 32 \<and>
        header_len = length (der_tag tag @ der_len (length c)))"
proof -
  have "CBS_get_any_asn1_element cbs = (Some (out, tag, header_len), rest) \<longleftrightarrow>
      (\<exists>bf. cbs_get_any_asn1_element False cbs = (Some (out, tag, header_len, bf), rest))"
    by (auto simp: CBS_get_any_asn1_element_def get_then_def split: prod.splits option.splits)
  then show ?thesis by (auto simp: get_any_iff)
qed


lemma get_asn1_iff:
  "CBS_get_asn1 tag cbs = (Some c, rest) \<longleftrightarrow> cbs = der_elem tag c @ rest \<and> length c < 2 ^ 32"
proof -
  have "CBS_get_asn1 tag cbs = (Some c, rest) \<longleftrightarrow>
      (\<exists>out header_len. CBS_get_any_asn1_element cbs = (Some (out, tag, header_len), rest) \<and>
         header_len \<le> length out \<and> c = drop header_len out)"
    by (auto simp: CBS_get_asn1_def cbs_get_asn1_def get_then_def CBS_skip_def cbs_get_def
        split: prod.splits option.splits if_splits)
  also have "\<dots> \<longleftrightarrow> (\<exists>c'. cbs = der_elem tag c' @ rest \<and> length c' < 2 ^ 32 \<and> c = c')"
    unfolding get_any_element_iff der_elem_def by (intro iffI; elim exE conjE) (simp, fastforce)
  finally show ?thesis by blast
qed

section \<open>Integers\<close>

text \<open>The contents of a non-negative INTEGER: minimal, with a zero octet where the sign bit would be set.\<close>

function uint_bytes :: "nat \<Rightarrow> u8 list" where
  "uint_bytes n = (if n < 128 then [of_nat n] else uint_bytes (n div 256) @ [of_nat (n mod 256)])"
  by pat_completeness auto
termination by (relation "measure id") auto

declare uint_bytes.simps [simp del]

lemma le_nat_snoc: "le_nat (bs @ [b]) = le_nat bs + unat b * 256 ^ length bs"
  by (induction bs) (simp_all add: algebra_simps)

lemma be_nat_Cons [simp]: "be_nat (b # bs) = unat b * 256 ^ length bs + be_nat bs"
  by (simp add: be_nat_def le_nat_snoc)

lemma uint64_loop_eq:
  "uint64_loop out bs =
     (if unat out * 256 ^ length bs + be_nat bs < 2 ^ 64 then Some (of_nat (unat out * 256 ^ length bs + be_nat bs)) else None)"
proof (induction bs arbitrary: out)
  case Nil
  then show ?case using unat_u64_lt [of out] by simp
next
  case (Cons b bs)
  have d: "drop_bit 56 out = 0 \<longleftrightarrow> unat out < 2 ^ 56"
  proof -
    have "drop_bit 56 out = 0 \<longleftrightarrow> unat (drop_bit 56 out) = 0" by (simp only: unat_eq_0)
    then show ?thesis by (simp add: div_eq_0_iff)
  qed
  show ?case
  proof (cases "unat out < 2 ^ 56")
    case True
    then show ?thesis using d Cons [of "push_bit 8 out OR ucast b"]
      by (simp add: byte_shift algebra_simps del: of_nat_add of_nat_mult)
  next
    case False
    have "2 ^ 56 * 256 \<le> unat out * 256 ^ length (b # bs)"
      using False by (intro mult_le_mono) (simp_all add: self_le_power)
    then show ?thesis using False d by (simp add: not_less)
  qed
qed

lemma is_unsigned_iff:
  "CBS_is_unsigned_asn1_integer c \<longleftrightarrow>
     (case c of [] \<Rightarrow> False | [b] \<Rightarrow> unat b < 128 | b # b2 # _ \<Rightarrow> unat b < 128 \<and> (b = 0 \<longrightarrow> \<not> unat b2 < 128))"
  by (auto simp: CBS_is_unsigned_asn1_integer_def CBS_is_valid_asn1_integer_def get_u8_cases Let_def and_0x80_iff
      split: list.splits)

lemma be_nat_zero_iff: "be_nat bs = 0 \<longleftrightarrow> (\<forall>b \<in> set bs. b = 0)"
  by (induction bs) (auto simp: unat_eq_0)

lemma unsigned_minimal: "CBS_is_unsigned_asn1_integer c \<longleftrightarrow> c = uint_bytes (be_nat c)"
proof (induction c rule: rev_induct)
  case Nil
  then show ?case by (simp add: is_unsigned_iff uint_bytes.simps)
next
  case (snoc b bs)
  define n where "n = be_nat bs * 256 + unat b"
  have div: "n div 256 = be_nat bs" "n mod 256 = unat b" using unat_u8_lt [of b] by (simp_all add: n_def)
  show ?case
  proof (cases "n < 128")
    case True
    then have z: "be_nat bs = 0" by (simp add: n_def)
    with True have "unat b < 128" "uint_bytes n = [b]" by (simp_all add: n_def uint_bytes.simps)
    then show ?thesis using z unfolding be_nat_simps n_def [symmetric]
      by (cases bs; cases "tl bs") (auto simp: is_unsigned_iff be_nat_zero_iff unat_eq_0)
  next
    case False
    then have u: "uint_bytes n = uint_bytes (be_nat bs) @ [b]" by (subst uint_bytes.simps) (simp add: div)
    have "CBS_is_unsigned_asn1_integer (bs @ [b]) \<longleftrightarrow> CBS_is_unsigned_asn1_integer bs"
      using False by (cases bs; cases "tl bs") (auto simp: is_unsigned_iff n_def split: list.splits)
    then show ?thesis unfolding be_nat_simps n_def [symmetric] u using snoc by simp
  qed
qed

lemma length_uint_bytes: "n < 2 ^ 64 \<Longrightarrow> length (uint_bytes n) \<le> 9"
proof -
  have len: "n < 128 * 256 ^ k \<Longrightarrow> length (uint_bytes n) \<le> Suc k" for k
  proof (induction k arbitrary: n)
    case 0
    then show ?case by (subst uint_bytes.simps) simp
  next
    case (Suc k)
    then have "n div 256 < 128 * 256 ^ k" by (simp add: div_less_iff_less_mult algebra_simps)
    with Suc.IH show ?case by (subst uint_bytes.simps) simp
  qed
  assume "n < 2 ^ 64"
  then show ?thesis using len [of 8] by simp
qed

lemma be_nat_uint_bytes: "be_nat (uint_bytes n) = n"
proof (induction n rule: uint_bytes.induct)
  case (1 n)
  then show ?case by (subst uint_bytes.simps) (simp add: div_mult_mod_eq)
qed

text \<open>
  \<open>CBS_get_asn1_uint64\<close> reads exactly the canonical DER INTEGERs of 64-bit values: negative, padded
  and oversized integers are rejected, and every value has one encoding that is accepted.
\<close>

theorem asn1_uint64_canonical:
  "CBS_get_asn1_uint64 cbs = (Some v, rest) \<longleftrightarrow>
     cbs = der_elem CBS_ASN1_INTEGER (uint_bytes (unat v)) @ rest"
proof -
  have val: "CBS_is_unsigned_asn1_integer c \<and> uint64_loop 0 c = Some v \<longleftrightarrow> c = uint_bytes (unat v)" for c
  proof
    assume c: "CBS_is_unsigned_asn1_integer c \<and> uint64_loop 0 c = Some v"
    then have "be_nat c < 2 ^ 64" "v = of_nat (be_nat c)" by (auto simp: uint64_loop_eq split: if_splits)
    then have "unat v = be_nat c" using unat_of_nat_u64_small [of "be_nat c"] by (simp only:)
    with c show "c = uint_bytes (unat v)" using unsigned_minimal [of c] by (simp only:)
  next
    assume c: "c = uint_bytes (unat v)"
    then have "be_nat c = unat v" by (simp add: be_nat_uint_bytes)
    with c show "CBS_is_unsigned_asn1_integer c \<and> uint64_loop 0 c = Some v"
      using unat_u64_lt [of v] by (simp add: unsigned_minimal uint64_loop_eq)
  qed
  have "CBS_get_asn1_uint64 cbs = (Some v, rest) \<longleftrightarrow>
      (\<exists>c. CBS_get_asn1 CBS_ASN1_INTEGER cbs = (Some c, rest) \<and> CBS_is_unsigned_asn1_integer c \<and> uint64_loop 0 c = Some v)"
    by (auto simp: CBS_get_asn1_uint64_def get_then_def split: prod.splits option.splits if_splits)
  also have "\<dots> \<longleftrightarrow> cbs = der_elem CBS_ASN1_INTEGER (uint_bytes (unat v)) @ rest"
    unfolding val get_asn1_iff using length_uint_bytes [of "unat v"] unat_u64_lt [of v] by auto
  finally show ?thesis .
qed

section \<open>BER detection\<close>


end
