(* ===== verification/Mem.thy ===== *)
theory Mem
  imports ConstTime
begin

unbundle bit_operations_syntax

text \<open>
  Allocation and C strings of BoringSSL (crypto/mem.c) and its growable buffer (crypto/buf/buf.c). The C
  library's \<open>malloc\<close> is a parameter: the contents of the block it returns for a size, or \<open>None\<close>. A block is
  the list of its bytes; \<open>size_t\<close> arithmetic is written out modulo \<open>2 ^ 64\<close>.
\<close>

section \<open>Allocation\<close>

type_synonym malloc = "nat \<Rightarrow> u8 list option"

abbreviation (input) OPENSSL_MALLOC_PREFIX :: nat where "OPENSSL_MALLOC_PREFIX \<equiv> 8"

definition OPENSSL_malloc :: "malloc \<Rightarrow> nat \<Rightarrow> u8 list option" where
  "OPENSSL_malloc malloc sz =
     (if (sz + OPENSSL_MALLOC_PREFIX) mod 2 ^ 64 < sz then None
      else map_option (drop OPENSSL_MALLOC_PREFIX) (malloc ((sz + OPENSSL_MALLOC_PREFIX) mod 2 ^ 64)))"

definition OPENSSL_realloc :: "malloc \<Rightarrow> u8 list \<Rightarrow> nat \<Rightarrow> u8 list option" where
  "OPENSSL_realloc malloc orig new_size =
     (case OPENSSL_malloc malloc new_size of
        None \<Rightarrow> None
      | Some ret \<Rightarrow>
          let to_copy = (if length orig < new_size then length orig else new_size)
          in Some (take to_copy orig @ drop to_copy ret))"

definition OPENSSL_memdup :: "malloc \<Rightarrow> u8 list \<Rightarrow> u8 list option" where
  "OPENSSL_memdup malloc dat =
     (if length dat = 0 then None
      else case OPENSSL_malloc malloc (length dat) of
             None \<Rightarrow> None
           | Some ret \<Rightarrow> Some (dat @ drop (length dat) ret))"

definition OPENSSL_strndup :: "malloc \<Rightarrow> u8 list \<Rightarrow> nat \<Rightarrow> u8 list option" where
  "OPENSSL_strndup malloc str sz =
     (let sz = OPENSSL_strnlen str sz; alloc_size = (sz + 1) mod 2 ^ 64 in
      if alloc_size < sz then None
      else case OPENSSL_malloc malloc alloc_size of
             None \<Rightarrow> None
           | Some ret \<Rightarrow> Some ((take sz str @ drop sz ret)[sz := 0]))"

section \<open>C strings\<close>

definition strlen :: "u8 list \<Rightarrow> nat" where
  "strlen s = length (takeWhile (\<lambda>c. c \<noteq> 0) s)"

definition OPENSSL_strhash :: "u8 list \<Rightarrow> u32" where
  "OPENSSL_strhash s = OPENSSL_hash32 (take (strlen s) s)"

definition OPENSSL_strdup :: "malloc \<Rightarrow> u8 list \<Rightarrow> u8 list option" where
  "OPENSSL_strdup malloc s =
     (let len = strlen s + 1 in
      case OPENSSL_malloc malloc len of None \<Rightarrow> None | Some ret \<Rightarrow> Some (take len s @ drop len ret))"

definition OPENSSL_tolower :: "int \<Rightarrow> int" where
  "OPENSSL_tolower c = (if 65 \<le> c \<and> c \<le> 90 then c + (97 - 65) else c)"

text \<open>The characters are signed on the target; both strings end in a NUL.\<close>

fun OPENSSL_strcasecmp :: "u8 list \<Rightarrow> u8 list \<Rightarrow> int" where
  "OPENSSL_strcasecmp (a # as) (b # bs) =
     (let aa = OPENSSL_tolower (sint a); bb = OPENSSL_tolower (sint b) in
      if aa < bb then - 1 else if aa > bb then 1 else if aa = 0 then 0 else OPENSSL_strcasecmp as bs)"
| "OPENSSL_strcasecmp _ _ = 0"

fun OPENSSL_strncasecmp :: "u8 list \<Rightarrow> u8 list \<Rightarrow> nat \<Rightarrow> int" where
  "OPENSSL_strncasecmp (a # as) (b # bs) (Suc n) =
     (let aa = OPENSSL_tolower (sint a); bb = OPENSSL_tolower (sint b) in
      if aa < bb then - 1 else if aa > bb then 1 else if aa = 0 then 0 else OPENSSL_strncasecmp as bs n)"
| "OPENSSL_strncasecmp _ _ _ = 0"

text \<open>The destination buffer after the copy, and the returned length.\<close>

fun OPENSSL_strlcpy :: "u8 list \<Rightarrow> u8 list \<Rightarrow> nat \<Rightarrow> u8 list \<times> nat" where
  "OPENSSL_strlcpy dst src dst_size =
     (if dst_size > 1 \<and> src \<noteq> [] \<and> hd src \<noteq> 0 then
        (case OPENSSL_strlcpy (tl dst) (tl src) (dst_size - 1) of (d, l) \<Rightarrow> (hd src # d, l + 1))
      else (if dst_size \<noteq> 0 then dst[0 := 0] else dst, strlen src))"

declare OPENSSL_strlcpy.simps [simp del]

fun OPENSSL_strlcat :: "u8 list \<Rightarrow> u8 list \<Rightarrow> nat \<Rightarrow> u8 list \<times> nat" where
  "OPENSSL_strlcat dst src dst_size =
     (if dst_size > 0 \<and> dst \<noteq> [] \<and> hd dst \<noteq> 0 then
        (case OPENSSL_strlcat (tl dst) src (dst_size - 1) of (d, l) \<Rightarrow> (hd dst # d, l + 1))
      else OPENSSL_strlcpy dst src dst_size)"

declare OPENSSL_strlcat.simps [simp del]

section \<open>The growable buffer\<close>

record BUF_MEM =
  bm_length :: nat
  bm_data :: "u8 list"
  bm_max :: nat

definition BUF_MEM_new :: BUF_MEM where
  "BUF_MEM_new = \<lparr>bm_length = 0, bm_data = [], bm_max = 0\<rparr>"

definition BUF_MEM_reserve :: "malloc \<Rightarrow> nat \<Rightarrow> BUF_MEM \<Rightarrow> bool \<times> BUF_MEM" where
  "BUF_MEM_reserve malloc cap b =
     (if bm_max b \<ge> cap then (True, b)
      else
        let n = (cap + 3) mod 2 ^ 64 in
        if n < cap then (False, b)
        else
          let n = n div 3; alloc_size = (n * 4) mod 2 ^ 64 in
          if alloc_size div 4 \<noteq> n then (False, b)
          else
            case OPENSSL_realloc malloc (bm_data b) alloc_size of
              None \<Rightarrow> (False, b)
            | Some new_buf \<Rightarrow> (True, b\<lparr>bm_data := new_buf, bm_max := alloc_size\<rparr>))"

text \<open>\<open>BUF_MEM_grow\<close> returns the new length, zero on failure.\<close>

definition BUF_MEM_grow :: "malloc \<Rightarrow> nat \<Rightarrow> BUF_MEM \<Rightarrow> nat \<times> BUF_MEM" where
  "BUF_MEM_grow malloc len b0 =
     (case BUF_MEM_reserve malloc len b0 of
        (False, b) \<Rightarrow> (0, b)
      | (True, b) \<Rightarrow>
          let b = (if bm_length b < len
                   then b\<lparr>bm_data := take (bm_length b) (bm_data b) @ replicate (len - bm_length b) 0 @ drop len (bm_data b)\<rparr>
                   else b)
          in (len, b\<lparr>bm_length := len\<rparr>))"

definition BUF_MEM_grow_clean :: "malloc \<Rightarrow> nat \<Rightarrow> BUF_MEM \<Rightarrow> nat \<times> BUF_MEM" where
  "BUF_MEM_grow_clean malloc len b = BUF_MEM_grow malloc len b"

definition BUF_MEM_append :: "malloc \<Rightarrow> u8 list \<Rightarrow> BUF_MEM \<Rightarrow> bool \<times> BUF_MEM" where
  "BUF_MEM_append malloc inp b =
     (let len = length inp in
      if len = 0 then (True, b)
      else
        let new_len = (bm_length b + len) mod 2 ^ 64 in
        if new_len < len then (False, b)
        else and_then (BUF_MEM_reserve malloc new_len b) (\<lambda>b.
               (True, b\<lparr>bm_data := take (bm_length b) (bm_data b) @ inp @ drop (bm_length b + len) (bm_data b),
                        bm_length := new_len\<rparr>)))"

section \<open>Lemmas on allocation\<close>

definition malloc_ok :: "malloc \<Rightarrow> bool" where
  "malloc_ok malloc \<longleftrightarrow> (\<forall>n bs. malloc n = Some bs \<longrightarrow> length bs = n)"

lemma OPENSSL_malloc_length:
  assumes "malloc_ok malloc" and "OPENSSL_malloc malloc n = Some bs" and "n < 2 ^ 64"
  shows "length bs = n"
proof -
  have "(n + 8) mod 2 ^ 64 = n + 8"
    using assms(2,3) by (auto simp: OPENSSL_malloc_def mod_if split: if_splits)
  with assms show ?thesis by (auto simp: OPENSSL_malloc_def malloc_ok_def split: if_splits)
qed

lemma OPENSSL_realloc_spec:
  assumes "malloc_ok malloc" and "OPENSSL_realloc malloc orig n = Some bs" and "n < 2 ^ 64"
  shows "length bs = n" and "\<And>k. k \<le> length orig \<Longrightarrow> k \<le> n \<Longrightarrow> take k bs = take k orig"
  using assms OPENSSL_malloc_length [OF assms(1) _ assms(3)]
  by (auto simp: OPENSSL_realloc_def Let_def split: option.splits if_splits)

lemma no_wrap:
  fixes a k :: nat
  assumes "k < 2 ^ 64" and "\<not> (a + k) mod 2 ^ 64 < a"
  shows "(a + k) mod 2 ^ 64 = a + k"
proof (cases "a + k < 2 ^ 64")
  case False
  have "(a + k) mod 2 ^ 64 \<le> a + k - 2 ^ 64" using le_mod_geq [of "2 ^ 64" "a + k"] False by simp
  also have "\<dots> < a" using assms(1) False by simp
  finally show ?thesis using assms(2) by simp
qed simp

section \<open>Byte sinks\<close>

text \<open>
  What a growable buffer promises: an append that succeeds adds exactly its bytes to the contents and
  keeps the invariant, one that fails keeps both. Any sequence of appends then leaves the concatenation of
  the chunks that succeeded.
\<close>

fun append_all :: "(u8 list \<Rightarrow> 'b \<Rightarrow> bool \<times> 'b) \<Rightarrow> u8 list list \<Rightarrow> 'b \<Rightarrow> bool \<times> 'b" where
  "append_all add [] b = (True, b)"
| "append_all add (xs # xss) b = and_then (add xs b) (append_all add xss)"

locale byte_sink =
  fixes inv :: "'b \<Rightarrow> bool" and contents :: "'b \<Rightarrow> u8 list" and add :: "u8 list \<Rightarrow> 'b \<Rightarrow> bool \<times> 'b"
  assumes append_ok: "inv b \<Longrightarrow> length xs < 2 ^ 64 \<Longrightarrow> add xs b = (True, b') \<Longrightarrow>
        inv b' \<and> contents b' = contents b @ xs"
    and append_fail: "inv b \<Longrightarrow> length xs < 2 ^ 64 \<Longrightarrow> add xs b = (False, b') \<Longrightarrow>
        inv b' \<and> contents b' = contents b"
begin

lemma append_all_spec:
  assumes "inv b" and "append_all add xss b = (ok, b')" and "\<forall>xs \<in> set xss. length xs < 2 ^ 64"
  shows "inv b' \<and> (\<exists>n \<le> length xss. contents b' = contents b @ concat (take n xss) \<and> (ok \<longrightarrow> n = length xss))"
  using assms
proof (induction xss arbitrary: b)
  case Nil
  then show ?case by simp
next
  case (Cons xs xss)
  obtain ok1 b1 where 1: "add xs b = (ok1, b1)" by fastforce
  show ?case
  proof (cases ok1)
    case True
    with 1 Cons.prems have 2: "append_all add xss b1 = (ok, b')" "inv b1" "contents b1 = contents b @ xs"
      using append_ok [of b xs b1] by simp_all
    from Cons.IH [OF 2(2,1)] Cons.prems(3) obtain n where "inv b'" "n \<le> length xss" "ok \<longrightarrow> n = length xss"
      "contents b' = contents b1 @ concat (take n xss)" by auto
    then show ?thesis using 2(3) by (intro conjI exI [of _ "Suc n"]) simp_all
  next
    case False
    with 1 Cons.prems have "b' = b1" "\<not> ok" by simp_all
    with False 1 append_fail [of b xs b1] Cons.prems show ?thesis by (intro conjI exI [of _ 0]) simp_all
  qed
qed

end

definition bm_inv :: "BUF_MEM \<Rightarrow> bool" where
  "bm_inv b \<longleftrightarrow> length (bm_data b) = bm_max b \<and> bm_length b \<le> bm_max b \<and> bm_max b < 2 ^ 64"

definition bm_contents :: "BUF_MEM \<Rightarrow> u8 list" where
  "bm_contents b = take (bm_length b) (bm_data b)"

lemma reserve_spec:
  assumes m: "malloc_ok malloc" and inv: "bm_inv b" and r: "BUF_MEM_reserve malloc cap b = (ok, b')"
  shows "bm_inv b' \<and> bm_length b' = bm_length b \<and> bm_contents b' = bm_contents b \<and> (ok \<longrightarrow> cap \<le> bm_max b')"
proof (cases "bm_max b \<ge> cap \<or> \<not> ok")
  case True
  then show ?thesis using r inv by (auto simp: BUF_MEM_reserve_def Let_def split: if_splits option.splits)
next
  case False
  define n where "n = (cap + 3) mod 2 ^ 64 div 3"
  from False r [unfolded BUF_MEM_reserve_def Let_def, folded n_def] obtain new where a: "\<not> (cap + 3) mod 2 ^ 64 < cap" "n * 4 mod 2 ^ 64 div 4 = n"
      "OPENSSL_realloc malloc (bm_data b) (n * 4 mod 2 ^ 64) = Some new"
      "b' = b\<lparr>bm_data := new, bm_max := n * 4 mod 2 ^ 64\<rparr>"
    by (auto split: if_splits option.splits)
  have c: "cap \<le> n * 4 mod 2 ^ 64"
  proof -
    have "n * 4 mod 2 ^ 64 div 4 * 4 \<le> n * 4 mod 2 ^ 64" by (rule div_times_less_eq_dividend)
    then have "n * 4 \<le> n * 4 mod 2 ^ 64" by (simp only: a(2))
    moreover have "(cap + 3) mod 2 ^ 64 < n * 3 + 3" unfolding n_def by (simp add: dividend_less_div_times)
    moreover have "(cap + 3) mod 2 ^ 64 = cap + 3" using a(1) by (intro no_wrap) simp_all
    ultimately show ?thesis by linarith
  qed
  have "n * 4 mod 2 ^ 64 < 2 ^ 64" by simp
  note sp = OPENSSL_realloc_spec [OF m a(3) this]
  show ?thesis using inv a(4) sp(1) sp(2) [of "bm_length b"] c False by (simp add: bm_inv_def bm_contents_def)
qed

lemma append_contents:
  assumes "malloc_ok malloc" and "bm_inv b" and "BUF_MEM_append malloc xs b = (ok, b')" and "length xs < 2 ^ 64"
  shows "bm_inv b' \<and> bm_contents b' = (if ok then bm_contents b @ xs else bm_contents b)"
proof -
  consider (empty) "xs = []" | (wrap) "xs \<noteq> []" "(bm_length b + length xs) mod 2 ^ 64 < length xs"
    | (room) "xs \<noteq> []" "\<not> (bm_length b + length xs) mod 2 ^ 64 < length xs" by blast
  then show ?thesis
  proof cases
    case room
    define n where "n = (bm_length b + length xs) mod 2 ^ 64"
    have n: "n = bm_length b + length xs"
      using room assms(2) no_wrap [where a = "length xs" and k = "bm_length b"] by (simp add: n_def bm_inv_def add.commute)
    obtain ok1 b1 where r: "BUF_MEM_reserve malloc n b = (ok1, b1)" by fastforce
    from reserve_spec [OF assms(1,2) r] have s: "bm_inv b1" "bm_length b1 = bm_length b"
      "bm_contents b1 = bm_contents b" "ok1 \<longrightarrow> n \<le> bm_max b1" by simp_all
    have eq: "BUF_MEM_append malloc xs b = (if ok1 then (True, b1\<lparr>bm_data := take (bm_length b1) (bm_data b1) @ xs @
        drop (bm_length b1 + length xs) (bm_data b1), bm_length := n\<rparr>) else (False, b1))"
      using room r unfolding BUF_MEM_append_def Let_def n_def [symmetric] by (simp add: and_then_def)
    show ?thesis
    proof (cases ok1)
      case True
      then show ?thesis using assms(2,3) s n unfolding eq by (auto simp: bm_inv_def bm_contents_def)
    next
      case False
      then show ?thesis using assms(3) s unfolding eq by auto
    qed
  qed (use assms in \<open>simp_all add: BUF_MEM_append_def Let_def\<close>)
qed

interpretation bm: byte_sink "\<lambda>b. malloc_ok malloc \<and> bm_inv b" bm_contents "BUF_MEM_append malloc" for malloc
  by unfold_locales (auto dest: append_contents)

section \<open>Properties\<close>



text \<open>
  C33. \<open>OPENSSL_strlcpy\<close> never writes past the size it is given, always terminates the string when the
  size is not zero, truncates only when the source does not fit, and returns the length of the source.
\<close>

theorem strlcpy_spec:
  assumes "0 \<in> set src" and "dst_size \<le> length dst"
  shows "OPENSSL_strlcpy dst src dst_size =
     (let k = min (strlen src) (dst_size - 1) in
      (if dst_size = 0 then dst else take k src @ 0 # drop (Suc k) dst, strlen src))"
  using assms
proof (induction dst src dst_size rule: OPENSSL_strlcpy.induct)
  case (1 dst src dst_size)
  show ?case
  proof (cases "dst_size > 1 \<and> src \<noteq> [] \<and> hd src \<noteq> 0")
    case True
    then obtain c cs d ds m where s: "src = c # cs" "c \<noteq> 0" "dst = d # ds" "dst_size = Suc (Suc m)"
      using 1(3) by (cases src; cases dst; cases dst_size; cases "dst_size - 1") auto
    with 1(1) [OF True] 1(2,3) show ?thesis by (subst OPENSSL_strlcpy.simps) (simp add: strlen_def Let_def)
  next
    case False
    then show ?thesis using 1(2,3) by (subst OPENSSL_strlcpy.simps) (cases src; cases dst; auto simp: strlen_def Let_def)
  qed
qed

theorem strlcpy_spec_witness:
  "OPENSSL_strlcpy [9, 9, 9, 9] [0x61, 0x62, 0x63, 0x64, 0] 3 = ([0x61, 0x62, 0, 9], 4)"
  using strlcpy_spec [of "[0x61, 0x62, 0x63, 0x64, 0]" 3 "[9, 9, 9, 9]"] by (simp add: strlen_def)

end
