(* ===== verification/CBB.thy ===== *)
theory CBB
  imports Der Mem
begin

unbundle bit_operations_syntax

text \<open>
  The byte-string builder of BoringSSL (crypto/bytestring/cbb.c). One buffer is shared by a tree of \<open>CBB\<close>
  structs: a top-level one and the children opened below it for length-prefixed and ASN.1 contents. The
  structs live at addresses, and a \<open>CBB\<close> points to its open child; \<open>base\<close> says whether the pointer to the
  buffer is not NULL, as a flushed child's is. A call returns its code and the new state; \<open>CBB_flush\<close> follows
  the child pointers and is \<open>None\<close> when it would not return. \<open>size_t\<close> arithmetic is written out modulo \<open>2 ^ 64\<close>.
\<close>

section \<open>State\<close>

record cbb_buffer =
  buf :: "u8 list"
  len :: nat
  cap :: nat
  can_resize :: bool
  error :: bool

record CBB =
  base :: bool
  child :: "nat option"
  offset :: nat
  pending_len_len :: nat
  pending_is_asn1 :: bool
  is_child :: bool

record cbb_state =
  buffer :: cbb_buffer
  cbbs :: "nat \<Rightarrow> CBB"

definition CBB_zero :: CBB where
  "CBB_zero = \<lparr>base = False, child = None, offset = 0, pending_len_len = 0, pending_is_asn1 = False, is_child = False\<rparr>"

definition set_error :: "cbb_state \<Rightarrow> cbb_state" where
  "set_error s = s\<lparr>buffer := (buffer s)\<lparr>error := True\<rparr>\<rparr>"

definition upd_cbb :: "nat \<Rightarrow> (CBB \<Rightarrow> CBB) \<Rightarrow> cbb_state \<Rightarrow> cbb_state" where
  "upd_cbb c f s = s\<lparr>cbbs := (cbbs s)(c := f (cbbs s c))\<rparr>"

section \<open>The buffer\<close>

definition cbb_init :: "nat \<Rightarrow> u8 list \<Rightarrow> nat \<Rightarrow> (nat \<Rightarrow> CBB) \<Rightarrow> cbb_state" where
  "cbb_init c b cp m =
     \<lparr>buffer = \<lparr>buf = b, len = 0, cap = cp, can_resize = True, error = False\<rparr>,
      cbbs = m(c := CBB_zero\<lparr>base := True, is_child := False\<rparr>)\<rparr>"

text \<open>
  \<open>CBB_init\<close> and \<open>CBB_init_fixed\<close> for the struct at \<open>c\<close>, among structs \<open>m\<close>. The second allocation, of
  the buffer struct itself, may fail as well.
\<close>

definition CBB_init :: "malloc \<Rightarrow> nat \<Rightarrow> nat \<Rightarrow> (nat \<Rightarrow> CBB) \<Rightarrow> cbb_state option" where
  "CBB_init malloc c initial_capacity m =
     (case OPENSSL_malloc malloc initial_capacity of
        None \<Rightarrow> if initial_capacity > 0 then None
                else if OPENSSL_malloc malloc 32 = None then None else Some (cbb_init c [] initial_capacity m)
      | Some b \<Rightarrow> if OPENSSL_malloc malloc 32 = None then None else Some (cbb_init c b initial_capacity m))"

definition CBB_init_fixed :: "malloc \<Rightarrow> nat \<Rightarrow> u8 list \<Rightarrow> (nat \<Rightarrow> CBB) \<Rightarrow> cbb_state option" where
  "CBB_init_fixed malloc c b m =
     (if OPENSSL_malloc malloc 32 = None then None
      else let s = cbb_init c b (length b) m in Some (s\<lparr>buffer := (buffer s)\<lparr>can_resize := False\<rparr>\<rparr>))"

text \<open>The address of the reserved space is always \<open>len\<close> of the old buffer.\<close>

definition cbb_buffer_reserve :: "malloc \<Rightarrow> nat \<Rightarrow> cbb_buffer \<Rightarrow> bool \<times> cbb_buffer" where
  "cbb_buffer_reserve malloc n b =
     (let newlen = (len b + n) mod 2 ^ 64; err = (False, b\<lparr>error := True\<rparr>) in
      if newlen < len b then err
      else if newlen > cap b then
        let newcap = cap b * 2 mod 2 ^ 64 in
        if \<not> can_resize b then err
        else
          let newcap = (if newcap < cap b \<or> newcap < newlen then newlen else newcap) in
          case OPENSSL_realloc malloc (buf b) newcap of
            None \<Rightarrow> err
          | Some newbuf \<Rightarrow> (True, b\<lparr>buf := newbuf, cap := newcap\<rparr>)
      else (True, b))"

definition cbb_buffer_add :: "malloc \<Rightarrow> nat \<Rightarrow> cbb_buffer \<Rightarrow> bool \<times> cbb_buffer" where
  "cbb_buffer_add malloc n b = and_then (cbb_buffer_reserve malloc n b) (\<lambda>b. (True, b\<lparr>len := len b + n\<rparr>))"

text \<open>The loop that stores a big-endian number, and what is left of the number.\<close>

fun store_be :: "nat \<Rightarrow> nat \<Rightarrow> nat \<Rightarrow> u8 list \<Rightarrow> u8 list \<times> nat" where
  "store_be off 0 v b = (b, v)"
| "store_be off (Suc i) v b = store_be off i (v div 256) (b[off + i := of_nat v])"

definition cbb_buffer_add_u :: "malloc \<Rightarrow> u64 \<Rightarrow> nat \<Rightarrow> cbb_buffer \<Rightarrow> bool \<times> cbb_buffer" where
  "cbb_buffer_add_u malloc v len_len b =
     (if len_len = 0 then (True, b)
      else and_then (cbb_buffer_add malloc len_len b) (\<lambda>b1.
        case store_be (len b) len_len (unat v) (buf b1) of
          (nb, v) \<Rightarrow> if v \<noteq> 0 then (False, b1\<lparr>buf := nb, error := True\<rparr>) else (True, b1\<lparr>buf := nb\<rparr>)))"

definition on_buffer :: "(cbb_buffer \<Rightarrow> bool \<times> cbb_buffer) \<Rightarrow> cbb_state \<Rightarrow> bool \<times> cbb_state" where
  "on_buffer f s = (case f (buffer s) of (ok, b) \<Rightarrow> (ok, s\<lparr>buffer := b\<rparr>))"

section \<open>Flushing\<close>

text \<open>
  The tail of \<open>CBB_flush\<close>, after the recursive call: the length of the child's contents is known and the
  prefix is written. For ASN.1 the first octet and, above 127, room for the long form come first.
\<close>

definition memmove_up :: "nat \<Rightarrow> nat \<Rightarrow> nat \<Rightarrow> u8 list \<Rightarrow> u8 list" where
  "memmove_up start by n b = take (start + by) b @ take n (drop start b) @ drop (start + by + n) b"

definition flush_asn1 :: "malloc \<Rightarrow> nat \<Rightarrow> nat \<Rightarrow> nat \<Rightarrow> cbb_state \<Rightarrow> (nat \<times> cbb_state) + cbb_state" where
  "flush_asn1 malloc ch child_start n s =
     (if n > 0xFFFFFFFE then Inr s
      else
        let (len_len, initial_length_byte, n') =
              (if n > 0xFFFFFF then (5, 0x80 OR 4, n)
               else if n > 0xFFFF then (4, 0x80 OR 3, n)
               else if n > 0xFF then (3, 0x80 OR 2, n)
               else if n > 0x7F then (2, 0x80 OR 1, n)
               else (1, of_nat n, 0)) :: nat \<times> u8 \<times> nat;
            (ok, s) =
              (if len_len \<noteq> 1 then
                 and_then (on_buffer (cbb_buffer_add malloc (len_len - 1)) s) (\<lambda>s.
                   (True, s\<lparr>buffer := (buffer s)\<lparr>buf := memmove_up child_start (len_len - 1) n' (buf (buffer s))\<rparr>\<rparr>))
               else (True, s))
        in if \<not> ok then Inr s
           else
             let s = s\<lparr>buffer := (buffer s)\<lparr>buf := (buf (buffer s))[offset (cbbs s ch) := initial_length_byte]\<rparr>\<rparr>;
                 s = upd_cbb ch (\<lambda>x. x\<lparr>offset := offset x + 1, pending_len_len := len_len - 1\<rparr>) s
             in Inl (n', s))"

definition flush_child :: "malloc \<Rightarrow> nat \<Rightarrow> nat \<Rightarrow> nat \<Rightarrow> cbb_state \<Rightarrow> bool \<times> cbb_state" where
  "flush_child malloc c ch child_start s =
     (if child_start < offset (cbbs s ch) \<or> len (buffer s) < child_start then (False, set_error s)
      else
        let n = len (buffer s) - child_start in
        case (if pending_is_asn1 (cbbs s ch) then flush_asn1 malloc ch child_start n s else Inl (n, s)) of
          Inr s \<Rightarrow> (False, set_error s)
        | Inl (n, s) \<Rightarrow>
            (case store_be (offset (cbbs s ch)) (pending_len_len (cbbs s ch)) n (buf (buffer s)) of
               (nb, n) \<Rightarrow>
                 let s = s\<lparr>buffer := (buffer s)\<lparr>buf := nb\<rparr>\<rparr> in
                 if n \<noteq> 0 then (False, set_error s)
                 else (True, upd_cbb c (\<lambda>x. x\<lparr>child := None\<rparr>) (upd_cbb ch (\<lambda>x. x\<lparr>base := False\<rparr>) s))))"

partial_function (option) CBB_flush :: "malloc \<Rightarrow> nat \<Rightarrow> cbb_state \<Rightarrow> (bool \<times> cbb_state) option" where
  "CBB_flush malloc c s =
     (if \<not> base (cbbs s c) \<or> error (buffer s) then Some (False, s)
      else
        case child (cbbs s c) of
          None \<Rightarrow> Some (True, s)
        | Some ch \<Rightarrow>
            if pending_len_len (cbbs s ch) = 0 then Some (True, s)
            else
              let child_start = (offset (cbbs s ch) + pending_len_len (cbbs s ch)) mod 2 ^ 64 in
              Option.bind (CBB_flush malloc ch s) (\<lambda>(ok, s).
                Some (if ok then flush_child malloc c ch child_start s else (False, set_error s))))"

section \<open>Operations\<close>

text \<open>
  \<open>CBB_cleanup\<close> of a top-level \<open>CBB\<close> frees the buffer; \<open>CBB_finish\<close> hands its bytes to the caller first. The
  flag says that the caller passed both output pointers.
\<close>

definition CBB_cleanup :: "nat \<Rightarrow> cbb_state \<Rightarrow> cbb_state" where
  "CBB_cleanup c s = (if is_child (cbbs s c) then s else upd_cbb c (\<lambda>x. x\<lparr>base := False\<rparr>) s)"

definition CBB_finish :: "malloc \<Rightarrow> nat \<Rightarrow> bool \<Rightarrow> cbb_state \<Rightarrow> (u8 list option \<times> cbb_state) option" where
  "CBB_finish malloc c outs s =
     (if is_child (cbbs s c) then Some (None, s)
      else case CBB_flush malloc c s of
             None \<Rightarrow> None
           | Some (False, s) \<Rightarrow> Some (None, s)
           | Some (True, s) \<Rightarrow>
               if can_resize (buffer s) \<and> \<not> outs then Some (None, s)
               else Some (Some (take (len (buffer s)) (buf (buffer s))), CBB_cleanup c s))"

definition CBB_data :: "nat \<Rightarrow> cbb_state \<Rightarrow> nat" where
  "CBB_data c s = offset (cbbs s c) + pending_len_len (cbbs s c)"

definition CBB_len :: "nat \<Rightarrow> cbb_state \<Rightarrow> nat" where
  "CBB_len c s = len (buffer s) - offset (cbbs s c) - pending_len_len (cbbs s c)"

definition open_child :: "nat \<Rightarrow> nat \<Rightarrow> nat \<Rightarrow> nat \<Rightarrow> bool \<Rightarrow> cbb_state \<Rightarrow> cbb_state" where
  "open_child c ch off len_len asn1 s =
     upd_cbb c (\<lambda>x. x\<lparr>child := Some ch\<rparr>)
       (upd_cbb ch (\<lambda>_. CBB_zero\<lparr>base := base (cbbs s c), is_child := True, offset := off,
                              pending_len_len := len_len, pending_is_asn1 := asn1\<rparr>) s)"

definition memset_zero :: "nat \<Rightarrow> nat \<Rightarrow> u8 list \<Rightarrow> u8 list" where
  "memset_zero off n b = take off b @ replicate n 0 @ drop (off + n) b"

definition cbb_add_length_prefixed :: "malloc \<Rightarrow> nat \<Rightarrow> nat \<Rightarrow> nat \<Rightarrow> cbb_state \<Rightarrow> (bool \<times> cbb_state) option" where
  "cbb_add_length_prefixed malloc c ch len_len s =
     then_opt (CBB_flush malloc c s) (\<lambda>s.
       let off = len (buffer s) in
       Some (and_then (on_buffer (cbb_buffer_add malloc len_len) s) (\<lambda>s.
         let s = s\<lparr>buffer := (buffer s)\<lparr>buf := memset_zero off len_len (buf (buffer s))\<rparr>\<rparr>
         in (True, open_child c ch off len_len False s))))"

definition CBB_add_u8_length_prefixed :: "malloc \<Rightarrow> nat \<Rightarrow> nat \<Rightarrow> cbb_state \<Rightarrow> (bool \<times> cbb_state) option" where
  "CBB_add_u8_length_prefixed malloc c ch s = cbb_add_length_prefixed malloc c ch 1 s"

definition CBB_add_u16_length_prefixed :: "malloc \<Rightarrow> nat \<Rightarrow> nat \<Rightarrow> cbb_state \<Rightarrow> (bool \<times> cbb_state) option" where
  "CBB_add_u16_length_prefixed malloc c ch s = cbb_add_length_prefixed malloc c ch 2 s"

definition CBB_add_u24_length_prefixed :: "malloc \<Rightarrow> nat \<Rightarrow> nat \<Rightarrow> cbb_state \<Rightarrow> (bool \<times> cbb_state) option" where
  "CBB_add_u24_length_prefixed malloc c ch s = cbb_add_length_prefixed malloc c ch 3 s"

definition CBB_add_bytes :: "malloc \<Rightarrow> nat \<Rightarrow> u8 list \<Rightarrow> cbb_state \<Rightarrow> (bool \<times> cbb_state) option" where
  "CBB_add_bytes malloc c dat s =
     then_opt (CBB_flush malloc c s) (\<lambda>s.
       let dest = len (buffer s) in
       Some (and_then (on_buffer (cbb_buffer_add malloc (length dat)) s) (\<lambda>s.
         (True, s\<lparr>buffer := (buffer s)\<lparr>buf := take dest (buf (buffer s)) @ dat @ drop (dest + length dat) (buf (buffer s))\<rparr>\<rparr>))))"

definition CBB_add_space :: "malloc \<Rightarrow> nat \<Rightarrow> nat \<Rightarrow> cbb_state \<Rightarrow> (bool \<times> cbb_state) option" where
  "CBB_add_space malloc c n s = then_opt (CBB_flush malloc c s) (\<lambda>s. Some (on_buffer (cbb_buffer_add malloc n) s))"

definition CBB_add_zeros :: "malloc \<Rightarrow> nat \<Rightarrow> nat \<Rightarrow> cbb_state \<Rightarrow> (bool \<times> cbb_state) option" where
  "CBB_add_zeros malloc c n s =
     then_opt (CBB_add_space malloc c n s) (\<lambda>s.
       Some (True, s\<lparr>buffer := (buffer s)\<lparr>buf := memset_zero (len (buffer s) - n) n (buf (buffer s))\<rparr>\<rparr>))"

definition CBB_reserve :: "malloc \<Rightarrow> nat \<Rightarrow> nat \<Rightarrow> cbb_state \<Rightarrow> (bool \<times> cbb_state) option" where
  "CBB_reserve malloc c n s = then_opt (CBB_flush malloc c s) (\<lambda>s. Some (on_buffer (cbb_buffer_reserve malloc n) s))"

definition CBB_did_write :: "nat \<Rightarrow> nat \<Rightarrow> cbb_state \<Rightarrow> bool \<times> cbb_state" where
  "CBB_did_write c n s =
     (let newlen = (len (buffer s) + n) mod 2 ^ 64 in
      if child (cbbs s c) \<noteq> None \<or> newlen < len (buffer s) \<or> newlen > cap (buffer s) then (False, s)
      else (True, s\<lparr>buffer := (buffer s)\<lparr>len := newlen\<rparr>\<rparr>))"

definition cbb_add_u :: "malloc \<Rightarrow> nat \<Rightarrow> u64 \<Rightarrow> nat \<Rightarrow> cbb_state \<Rightarrow> (bool \<times> cbb_state) option" where
  "cbb_add_u malloc c v n s = then_opt (CBB_flush malloc c s) (\<lambda>s. Some (on_buffer (cbb_buffer_add_u malloc v n) s))"

definition CBB_add_u8 :: "malloc \<Rightarrow> nat \<Rightarrow> u8 \<Rightarrow> cbb_state \<Rightarrow> (bool \<times> cbb_state) option" where
  "CBB_add_u8 malloc c v s = cbb_add_u malloc c (ucast v) 1 s"

definition CBB_add_u16 :: "malloc \<Rightarrow> nat \<Rightarrow> u16 \<Rightarrow> cbb_state \<Rightarrow> (bool \<times> cbb_state) option" where
  "CBB_add_u16 malloc c v s = cbb_add_u malloc c (ucast v) 2 s"

definition CBB_add_u16le :: "malloc \<Rightarrow> nat \<Rightarrow> u16 \<Rightarrow> cbb_state \<Rightarrow> (bool \<times> cbb_state) option" where
  "CBB_add_u16le malloc c v s = CBB_add_u16 malloc c (CRYPTO_bswap2 v) s"

definition CBB_add_u24 :: "malloc \<Rightarrow> nat \<Rightarrow> u32 \<Rightarrow> cbb_state \<Rightarrow> (bool \<times> cbb_state) option" where
  "CBB_add_u24 malloc c v s = cbb_add_u malloc c (ucast v) 3 s"

definition CBB_add_u32 :: "malloc \<Rightarrow> nat \<Rightarrow> u32 \<Rightarrow> cbb_state \<Rightarrow> (bool \<times> cbb_state) option" where
  "CBB_add_u32 malloc c v s = cbb_add_u malloc c (ucast v) 4 s"

definition CBB_add_u32le :: "malloc \<Rightarrow> nat \<Rightarrow> u32 \<Rightarrow> cbb_state \<Rightarrow> (bool \<times> cbb_state) option" where
  "CBB_add_u32le malloc c v s = CBB_add_u32 malloc c (CRYPTO_bswap4 v) s"

definition CBB_add_u64 :: "malloc \<Rightarrow> nat \<Rightarrow> u64 \<Rightarrow> cbb_state \<Rightarrow> (bool \<times> cbb_state) option" where
  "CBB_add_u64 malloc c v s = cbb_add_u malloc c v 8 s"

definition CBB_add_u64le :: "malloc \<Rightarrow> nat \<Rightarrow> u64 \<Rightarrow> cbb_state \<Rightarrow> (bool \<times> cbb_state) option" where
  "CBB_add_u64le malloc c v s = CBB_add_u64 malloc c (CRYPTO_bswap8 v) s"

definition CBB_discard_child :: "nat \<Rightarrow> cbb_state \<Rightarrow> cbb_state" where
  "CBB_discard_child c s =
     (case child (cbbs s c) of
        None \<Rightarrow> s
      | Some ch \<Rightarrow>
          let s = s\<lparr>buffer := (buffer s)\<lparr>len := offset (cbbs s ch)\<rparr>\<rparr>
          in upd_cbb c (\<lambda>x. x\<lparr>child := None\<rparr>) (upd_cbb ch (\<lambda>x. x\<lparr>base := False\<rparr>) s))"

section \<open>ASN.1\<close>

text \<open>The loops that add one octet after the other, stopping at the first failure.\<close>

fun add_octets :: "malloc \<Rightarrow> nat \<Rightarrow> u8 list \<Rightarrow> cbb_state \<Rightarrow> (bool \<times> cbb_state) option" where
  "add_octets malloc c [] s = Some (True, s)"
| "add_octets malloc c (b # bs) s = then_opt (CBB_add_u8 malloc c b s) (add_octets malloc c bs)"

function septets :: "u64 \<Rightarrow> nat" where
  "septets copy = (if copy > 0 then Suc (septets (drop_bit 7 copy)) else 0)"
  by pat_completeness auto
termination by (relation "measure unat") (auto simp: word_less_nat_alt)

declare septets.simps [simp del]

definition add_base128_integer :: "malloc \<Rightarrow> nat \<Rightarrow> u64 \<Rightarrow> cbb_state \<Rightarrow> (bool \<times> cbb_state) option" where
  "add_base128_integer malloc c v s =
     (let len_len = (if septets v = 0 then 1 else septets v) in
      add_octets malloc c
        (map (\<lambda>i. let b = ucast (drop_bit (7 * i) v AND 0x7F) in if i \<noteq> 0 then b OR 0x80 else b) (rev [0..<len_len])) s)"

definition CBB_add_asn1 :: "malloc \<Rightarrow> nat \<Rightarrow> nat \<Rightarrow> u32 \<Rightarrow> cbb_state \<Rightarrow> (bool \<times> cbb_state) option" where
  "CBB_add_asn1 malloc c ch tag s =
     then_opt (CBB_flush malloc c s) (\<lambda>s.
       let tag_bits = ucast (drop_bit CBS_ASN1_TAG_SHIFT tag) AND 0xE0 :: u8;
           tag_number = tag AND CBS_ASN1_TAG_NUMBER_MASK in
       then_opt
         (if tag_number \<ge> 0x1F then
            then_opt (CBB_add_u8 malloc c (tag_bits OR 0x1F) s) (add_base128_integer malloc c (ucast tag_number))
          else CBB_add_u8 malloc c (tag_bits OR ucast tag_number) s) (\<lambda>s.
         let off = len (buffer s) in
         then_opt (CBB_add_u8 malloc c 0 s) (\<lambda>s. Some (True, open_child c ch off 1 True s))))"

fun emit_uint64 :: "bool \<Rightarrow> u8 list \<Rightarrow> u8 list" where
  "emit_uint64 started [] = (if started then [] else [0])"
| "emit_uint64 started (b # bs) =
     (if started then b # emit_uint64 True bs
      else if b = 0 then emit_uint64 False bs
      else (if b AND 0x80 \<noteq> 0 then [0] else []) @ b # emit_uint64 True bs)"

definition CBB_add_asn1_uint64 :: "malloc \<Rightarrow> nat \<Rightarrow> nat \<Rightarrow> u64 \<Rightarrow> cbb_state \<Rightarrow> (bool \<times> cbb_state) option" where
  "CBB_add_asn1_uint64 malloc c ch v s =
     then_opt (CBB_add_asn1 malloc c ch CBS_ASN1_INTEGER s) (\<lambda>s.
       then_opt (add_octets malloc ch
           (emit_uint64 False (map (\<lambda>i. ucast (drop_bit (8 * (7 - i)) v AND 0xFF)) [0..<8])) s)
         (CBB_flush malloc c))"

fun int64_start :: "u8 list \<Rightarrow> nat \<Rightarrow> nat" where
  "int64_start u 0 = 0"
| "int64_start u (Suc n) = (if u ! Suc n = 0xFF \<and> u ! n AND 0x80 \<noteq> 0 then int64_start u n else Suc n)"

definition CBB_add_asn1_int64 :: "malloc \<Rightarrow> nat \<Rightarrow> nat \<Rightarrow> int \<Rightarrow> cbb_state \<Rightarrow> (bool \<times> cbb_state) option" where
  "CBB_add_asn1_int64 malloc c ch v s =
     (if v \<ge> 0 then CBB_add_asn1_uint64 malloc c ch (of_int v) s
      else
        let u = le_bytes 8 (unat (of_int v :: u64)); start = int64_start u 7 in
        then_opt (CBB_add_asn1 malloc c ch CBS_ASN1_INTEGER s) (\<lambda>s.
          then_opt (add_octets malloc ch (map ((!) u) (rev [0..<Suc start])) s) (CBB_flush malloc c)))"

definition CBB_add_asn1_octet_string :: "malloc \<Rightarrow> nat \<Rightarrow> nat \<Rightarrow> u8 list \<Rightarrow> cbb_state \<Rightarrow> (bool \<times> cbb_state) option" where
  "CBB_add_asn1_octet_string malloc c ch dat s =
     then_opt (CBB_add_asn1 malloc c ch CBS_ASN1_OCTETSTRING s) (\<lambda>s.
       then_opt (CBB_add_bytes malloc ch dat s) (CBB_flush malloc c))"

definition CBB_add_asn1_bool :: "malloc \<Rightarrow> nat \<Rightarrow> nat \<Rightarrow> bool \<Rightarrow> cbb_state \<Rightarrow> (bool \<times> cbb_state) option" where
  "CBB_add_asn1_bool malloc c ch v s =
     then_opt (CBB_add_asn1 malloc c ch CBS_ASN1_BOOLEAN s) (\<lambda>s.
       then_opt (CBB_add_u8 malloc ch (if v then 0xFF else 0) s) (CBB_flush malloc c))"

section \<open>Object identifiers\<close>

function dotted_loop :: "u64 \<Rightarrow> bool \<Rightarrow> CBS \<Rightarrow> u64 option \<times> CBS" where
  "dotted_loop out seen_digit cbs =
     (case CBS_get_u8 cbs of
        (None, cbs) \<Rightarrow> (if seen_digit then Some out else None, cbs)
      | (Some u, cbs) \<Rightarrow>
          if u = 0x2E \<and> length cbs > 0 then (if seen_digit then Some out else None, cbs)
          else if u < 0x30 \<or> u > 0x39 \<or> (seen_digit \<and> out = 0) \<or> out > - 1 div 10 \<or>
                  out * 10 > - 1 - (ucast u - 0x30) then (None, cbs)
          else dotted_loop (out * 10 + (ucast u - 0x30)) True cbs)"
  by pat_completeness auto
termination
  by (relation "measure (\<lambda>(out, seen, cbs). length cbs)") (auto simp: get_u8_cases split: list.splits)

declare dotted_loop.simps [simp del]

definition parse_dotted_decimal :: "CBS \<Rightarrow> u64 option \<times> CBS" where
  "parse_dotted_decimal cbs = dotted_loop 0 False cbs"

lemma dotted_loop_simps:
  "dotted_loop out seen_digit [] = (if seen_digit then Some out else None, [])"
  "dotted_loop out seen_digit (u # cbs) =
     (if u = 0x2E \<and> cbs \<noteq> [] then (if seen_digit then Some out else None, cbs)
      else if u < 0x30 \<or> u > 0x39 \<or> (seen_digit \<and> out = 0) \<or> out > - 1 div 10 \<or>
              out * 10 > - 1 - (ucast u - 0x30) then (None, cbs)
      else dotted_loop (out * 10 + (ucast u - 0x30)) True cbs)"
  by (simp_all add: dotted_loop.simps [of out seen_digit] get_u8_cases)

lemma dotted_rest: "dotted_loop out seen cbs = (r, rest) \<Longrightarrow> length rest \<le> length cbs - 1"
  by (induction cbs arbitrary: out seen) (force simp: dotted_loop_simps split: if_splits)+

lemma dotted_shorter: "cbs \<noteq> [] \<Longrightarrow> dotted_loop out seen cbs = (r, rest) \<Longrightarrow> length rest < length cbs"
  by (drule dotted_rest) (cases cbs; simp)

function oid_components :: "malloc \<Rightarrow> nat \<Rightarrow> CBS \<Rightarrow> cbb_state \<Rightarrow> (bool \<times> cbb_state) option" where
  "oid_components malloc c cbs s =
     (if length cbs > 0 then
        case parse_dotted_decimal cbs of
          (None, _) \<Rightarrow> Some (False, s)
        | (Some a, cbs) \<Rightarrow> then_opt (add_base128_integer malloc c a s) (oid_components malloc c cbs)
      else Some (True, s))"
  by pat_completeness auto
termination
  by (relation "measure (\<lambda>(m, c, cbs, s). length cbs)")
    (auto simp: parse_dotted_decimal_def dest: dotted_shorter [OF _ sym])

declare oid_components.simps [simp del]

definition CBB_add_asn1_oid_from_text :: "malloc \<Rightarrow> nat \<Rightarrow> u8 list \<Rightarrow> cbb_state \<Rightarrow> (bool \<times> cbb_state) option" where
  "CBB_add_asn1_oid_from_text malloc c text s =
     then_opt (CBB_flush malloc c s) (\<lambda>s.
       case parse_dotted_decimal text of
         (None, _) \<Rightarrow> Some (False, s)
       | (Some a, cbs) \<Rightarrow>
       case parse_dotted_decimal cbs of
         (None, _) \<Rightarrow> Some (False, s)
       | (Some b, cbs) \<Rightarrow>
           if a > 2 \<or> (a < 2 \<and> b > 39) \<or> b > - 1 - 80 then Some (False, s)
           else then_opt (add_base128_integer malloc c (40 * a + b) s) (oid_components malloc c cbs))"

text \<open>\<open>add_decimal\<close>: the digits that the format \<open>PRIu64\<close> produces.\<close>

function decimal :: "nat \<Rightarrow> u8 list" where
  "decimal n = (if n < 10 then [of_nat (48 + n)] else decimal (n div 10) @ [of_nat (48 + n mod 10)])"
  by pat_completeness auto
termination by (relation "measure id") auto

declare decimal.simps [simp del]

definition add_decimal :: "malloc \<Rightarrow> nat \<Rightarrow> u64 \<Rightarrow> cbb_state \<Rightarrow> (bool \<times> cbb_state) option" where
  "add_decimal malloc c v s = CBB_add_bytes malloc c (decimal (unat v)) s"

function oid_text_rest :: "malloc \<Rightarrow> nat \<Rightarrow> CBS \<Rightarrow> cbb_state \<Rightarrow> (bool \<times> cbb_state) option" where
  "oid_text_rest malloc c copy s =
     (if length copy \<noteq> 0 then
        case parse_base128_integer copy of
          (None, _) \<Rightarrow> Some (False, s)
        | (Some v, copy) \<Rightarrow>
            then_opt (CBB_add_u8 malloc c 0x2E s) (\<lambda>s. then_opt (add_decimal malloc c v s) (oid_text_rest malloc c copy))
      else Some (True, s))"
  by pat_completeness auto
termination
  by (relation "measure (\<lambda>(m, c, copy, s). length copy)")
    (auto simp: base128_iff base128_def dest!: sym [of _ "parse_base128_integer _"])

declare oid_text_rest.simps [simp del]

text \<open>\<open>CBS_asn1_oid_to_text\<close> (crypto/bytestring/cbs.c): the text with its NUL, or \<open>None\<close>; the outer option as above.\<close>

definition CBS_asn1_oid_to_text :: "malloc \<Rightarrow> CBS \<Rightarrow> u8 list option option" where
  "CBS_asn1_oid_to_text malloc cbs =
     (case CBB_init malloc 0 32 (\<lambda>_. CBB_zero) of
        None \<Rightarrow> Some None
      | Some s \<Rightarrow>
      case parse_base128_integer cbs of
        (None, _) \<Rightarrow> Some None
      | (Some v, copy) \<Rightarrow>
          (case
             then_opt
               (if v \<ge> 80 then then_opt (CBB_add_bytes malloc 0 [0x32, 0x2E] s) (add_decimal malloc 0 (v - 80))
                else then_opt (add_decimal malloc 0 (v div 40) s) (\<lambda>s.
                       then_opt (CBB_add_u8 malloc 0 0x2E s) (add_decimal malloc 0 (v mod 40)))) (\<lambda>s.
               then_opt (oid_text_rest malloc 0 copy s) (CBB_add_u8 malloc 0 0)) of
             None \<Rightarrow> None
           | Some (False, _) \<Rightarrow> Some None
           | Some (True, s) \<Rightarrow> map_option fst (CBB_finish malloc 0 True s)))"

section \<open>SET OF\<close>

fun memcmp :: "u8 list \<Rightarrow> u8 list \<Rightarrow> nat \<Rightarrow> int" where
  "memcmp (a # as) (b # bs) (Suc n) = (if a < b then - 1 else if b < a then 1 else memcmp as bs n)"
| "memcmp _ _ _ = 0"

definition compare_set_of_element :: "CBS \<Rightarrow> CBS \<Rightarrow> int" where
  "compare_set_of_element a b =
     (let a_len = length a; b_len = length b; min_len = (if a_len < b_len then a_len else b_len);
          ret = memcmp a b min_len in
      if ret \<noteq> 0 then ret else if a_len = b_len then 0 else if a_len < b_len then - 1 else 1)"

text \<open>The elements of the contents, as the two parsing loops find them.\<close>

function set_children :: "CBS \<Rightarrow> CBS list option" where
  "set_children cbs =
     (if length cbs \<noteq> 0 then
        case CBS_get_any_asn1_element cbs of
          (None, _) \<Rightarrow> None
        | (Some (out, _, _), cbs) \<Rightarrow> map_option ((#) out) (set_children cbs)
      else Some [])"
  by pat_completeness auto
termination
  by (relation "measure length")
    (auto simp: CBS_get_any_asn1_element_def get_then_def dest!: get_any_lengths split: prod.splits option.splits)

declare set_children.simps [simp del]

text \<open>
  \<open>qsort\<close> with a comparator that is zero only on equal elements has one possible result; insertion sort
  computes it.
\<close>

fun insert_child :: "CBS \<Rightarrow> CBS list \<Rightarrow> CBS list" where
  "insert_child x [] = [x]"
| "insert_child x (y # ys) = (if compare_set_of_element x y \<le> 0 then x # y # ys else y # insert_child x ys)"

definition qsort_children :: "CBS list \<Rightarrow> CBS list" where
  "qsort_children xs = foldr insert_child xs []"

fun add_children :: "malloc \<Rightarrow> nat \<Rightarrow> CBS list \<Rightarrow> cbb_state \<Rightarrow> (bool \<times> cbb_state) option" where
  "add_children malloc c [] s = Some (True, s)"
| "add_children malloc c (x # xs) s = then_opt (CBB_add_bytes malloc c x s) (add_children malloc c xs)"

definition CBB_flush_asn1_set_of :: "malloc \<Rightarrow> nat \<Rightarrow> cbb_state \<Rightarrow> (bool \<times> cbb_state) option" where
  "CBB_flush_asn1_set_of malloc c s =
     then_opt (CBB_flush malloc c s) (\<lambda>s.
       let dat = take (CBB_len c s) (drop (CBB_data c s) (buf (buffer s))) in
       case set_children dat of
         None \<Rightarrow> Some (False, s)
       | Some children \<Rightarrow>
           let num_children = length children in
           if num_children < 2 then Some (True, s)
           else if num_children > (2 ^ 64 - 1) div 16 then Some (False, s)
           else if OPENSSL_memdup malloc dat = None \<or> OPENSSL_malloc malloc (num_children * 16) = None then Some (False, s)
           else add_children malloc c (qsort_children children) (s\<lparr>buffer := (buffer s)\<lparr>len := CBB_data c s\<rparr>\<rparr>))"

end
