(* ===== verification/CbbSpec.thy ===== *)
theory CbbSpec
  imports CBB
begin

unbundle bit_operations_syntax

text \<open>
  The builder against its specification. Abstractly a builder is a stack of open contents: the bytes of the
  top-level \<open>CBB\<close> and, for each open child, its kind of prefix and its bytes. Flushing closes the children
  from the inside, putting the length in front of each. The theory relates the shared buffer, the offsets
  and the child pointers to such a stack, shows that every operation acts on the stack as specified, that
  \<open>CBB_flush\<close> returns, and that a builder with enough room does not fail.
\<close>

section \<open>The buffer\<close>

definition binv :: "cbb_buffer \<Rightarrow> bool" where
  "binv b \<longleftrightarrow> length (buf b) = cap b \<and> len b \<le> cap b \<and> cap b < 2 ^ 64"

definition unlimited :: "malloc \<Rightarrow> bool" where
  "unlimited malloc \<longleftrightarrow> (\<forall>n. malloc n \<noteq> None)"

text \<open>The buffer can come to hold \<open>n\<close> bytes: it has the capacity, or it can grow and memory is available.\<close>

definition room :: "malloc \<Rightarrow> cbb_buffer \<Rightarrow> nat \<Rightarrow> bool" where
  "room malloc b n \<longleftrightarrow> n \<le> cap b \<or> can_resize b \<and> unlimited malloc \<and> n \<le> 2 ^ 62"

text \<open>What every operation keeps: well-formedness, the first \<open>k\<close> bytes, and the ability to grow.\<close>

definition extends :: "nat \<Rightarrow> cbb_buffer \<Rightarrow> cbb_buffer \<Rightarrow> bool" where
  "extends k b b' \<longleftrightarrow> binv b' \<and> cap b \<le> cap b' \<and> can_resize b' = can_resize b \<and> error b' = error b \<and>
     take k (buf b') = take k (buf b)"

lemma extends_refl: "binv b \<Longrightarrow> extends k b b"
  by (simp add: extends_def)

lemma take_shorter: "take k xs = take k ys \<Longrightarrow> k' \<le> k \<Longrightarrow> take k' xs = take k' ys"
  by (metis min_absorb1 take_take)

lemma extends_mono: "extends k b b' \<Longrightarrow> k' \<le> k \<Longrightarrow> extends k' b b'"
  using take_shorter [of k "buf b'" "buf b" k'] by (simp add: extends_def)

lemma extends_trans: "extends k b b' \<Longrightarrow> extends k' b' b'' \<Longrightarrow> k \<le> k' \<Longrightarrow> extends k b b''"
  using take_shorter [of k' "buf b''" "buf b'" k] by (simp add: extends_def)

lemma room_extends: "extends k b b' \<Longrightarrow> room malloc b n \<Longrightarrow> room malloc b' n"
  by (auto simp: room_def extends_def)

lemma room_mono: "room malloc b n \<Longrightarrow> m \<le> n \<Longrightarrow> room malloc b m"
  by (auto simp: room_def)

lemma malloc_unlimited: "unlimited malloc \<Longrightarrow> n + 8 < 2 ^ 64 \<Longrightarrow> OPENSSL_malloc malloc n \<noteq> None"
  by (simp add: OPENSSL_malloc_def unlimited_def)

lemma cbb_reserve_spec:
  assumes m: "malloc_ok malloc" and b: "binv b" and n: "n < 2 ^ 64"
    and r: "cbb_buffer_reserve malloc n b = (ok, b')"
  shows "if ok then extends (len b) b b' \<and> len b' = len b \<and> len b + n \<le> cap b' else error b' \<and> \<not> room malloc b (len b + n)"
proof -
  define newlen where "newlen = (len b + n) mod 2 ^ 64"
  define newcap where "newcap = (if cap b * 2 mod 2 ^ 64 < cap b \<or> cap b * 2 mod 2 ^ 64 < newlen then newlen else cap b * 2 mod 2 ^ 64)"
  note r' = r [unfolded cbb_buffer_reserve_def Let_def, folded newlen_def, folded newcap_def]
  consider (wrap) "newlen < len b" | (fits) "\<not> newlen < len b" "newlen \<le> cap b"
    | (fixed) "\<not> newlen < len b" "newlen > cap b" "\<not> can_resize b"
    | (grow) "\<not> newlen < len b" "newlen > cap b" "can_resize b" by linarith
  then show ?thesis
  proof cases
    case wrap
    then have "\<not> len b + n < 2 ^ 64" by (auto simp: newlen_def)
    moreover have "cap b < 2 ^ 64" using b by (simp add: binv_def)
    ultimately show ?thesis using r' wrap by (auto simp: room_def)
  next
    case fits
    have "newlen = len b + n" unfolding newlen_def by (rule no_wrap) (use fits n in \<open>simp_all add: newlen_def\<close>)
    then show ?thesis using r' fits b by (auto simp: extends_refl)
  next
    case fixed
    have "newlen = len b + n" unfolding newlen_def by (rule no_wrap) (use fixed n in \<open>simp_all add: newlen_def\<close>)
    then show ?thesis using r' fixed by (auto simp: room_def)
  next
    case grow
    have nl: "newlen = len b + n" unfolding newlen_def by (rule no_wrap) (use grow n in \<open>simp_all add: newlen_def\<close>)
    have lt: "newlen < 2 ^ 64" "cap b * 2 mod 2 ^ 64 < 2 ^ 64" by (simp_all add: newlen_def)
    then have nc: "newcap < 2 ^ 64" "newlen \<le> newcap" "cap b \<le> newcap" using grow by (auto simp: newcap_def)
    show ?thesis
    proof (cases "OPENSSL_realloc malloc (buf b) newcap")
      case None
      have "\<not> (unlimited malloc \<and> newlen \<le> 2 ^ 62)"
      proof
        assume a: "unlimited malloc \<and> newlen \<le> 2 ^ 62"
        have "cap b * 2 mod 2 ^ 64 \<le> cap b * 2" by (rule mod_less_eq_dividend)
        then have "newcap + 8 < 2 ^ 64" using a grow by (auto simp: newcap_def)
        with a malloc_unlimited [of malloc newcap] None show False
          by (auto simp: OPENSSL_realloc_def Let_def split: option.splits)
      qed
      with None r' grow nl show ?thesis by (auto simp: room_def)
    next
      case (Some nb)
      note sp = OPENSSL_realloc_spec [OF m Some nc(1)]
      have "take (len b) nb = take (len b) (buf b)" using b nc by (intro sp(2)) (simp_all add: binv_def)
      with Some r' grow nl nc sp(1) b show ?thesis by (auto simp: extends_def binv_def)
    qed
  qed
qed

lemma buffer_add_spec:
  assumes m: "malloc_ok malloc" and b: "binv b" and n: "n < 2 ^ 64" and r: "cbb_buffer_add malloc n b = (ok, b')"
  shows "if ok then extends (len b) b b' \<and> len b' = len b + n else error b' \<and> \<not> room malloc b (len b + n)"
proof -
  obtain ok1 b1 where 1: "cbb_buffer_reserve malloc n b = (ok1, b1)" by fastforce
  from cbb_reserve_spec [OF m b n 1] r 1 show ?thesis
    by (auto simp: cbb_buffer_add_def extends_def binv_def split: if_splits)
qed

lemma be_bytes_Suc: "be_bytes (Suc n) v = be_bytes n (v div 256) @ [of_nat v]"
  by (simp add: be_bytes_def)

lemma store_be_spec:
  "off + n \<le> length b \<Longrightarrow>
     store_be off n v b = (take off b @ be_bytes n v @ drop (off + n) b, v div 256 ^ n)"
proof (induction n arbitrary: v b)
  case 0
  then show ?case by (simp add: be_bytes_def)
next
  case (Suc n)
  then have "drop (off + n) (b[off + n := of_nat v]) = of_nat v # drop (Suc (off + n)) b"
    by (simp add: Cons_nth_drop_Suc [symmetric] drop_update_cancel)
  with Suc show ?case by (simp add: be_bytes_Suc div_mult2_eq)
qed

section \<open>Stacks of open contents\<close>

datatype kind = Prefix nat | Asn1

fun prefix_len :: "kind \<Rightarrow> nat" where
  "prefix_len (Prefix n) = n"
| "prefix_len Asn1 = 1"

fun kind_ok :: "kind \<Rightarrow> bool" where
  "kind_ok (Prefix n) \<longleftrightarrow> 1 \<le> n \<and> n \<le> 3"
| "kind_ok Asn1 \<longleftrightarrow> True"

text \<open>The contents with their length in front, when the length fits.\<close>

fun close_kind :: "kind \<Rightarrow> u8 list \<Rightarrow> u8 list option" where
  "close_kind (Prefix n) bs = (if length bs < 256 ^ n then Some (be_bytes n (length bs) @ bs) else None)"
| "close_kind Asn1 bs = (if length bs \<le> 0xFFFFFFFE then Some (der_len (length bs) @ bs) else None)"

type_synonym frames = "(nat \<times> kind \<times> u8 list) list"

fun collapse :: "u8 list \<Rightarrow> frames \<Rightarrow> u8 list option" where
  "collapse bs [] = Some bs"
| "collapse bs ((ch, k, bs') # fs) =
     Option.bind (collapse bs' fs) (\<lambda>inner. map_option ((@) bs) (close_kind k inner))"

text \<open>
  The \<open>CBB\<close> at \<open>c\<close>, whose contents start at \<open>st\<close>, has written \<open>bs\<close> and has the open children \<open>fs\<close>.
\<close>

fun rep :: "cbb_state \<Rightarrow> nat \<Rightarrow> nat \<Rightarrow> u8 list \<Rightarrow> frames \<Rightarrow> bool" where
  "rep s c st bs [] \<longleftrightarrow> base (cbbs s c) \<and> child (cbbs s c) = None \<and> st + length bs = len (buffer s) \<and>
     take (length bs) (drop st (buf (buffer s))) = bs"
| "rep s c st bs ((ch, k, bs') # fs) \<longleftrightarrow> base (cbbs s c) \<and> child (cbbs s c) = Some ch \<and>
     ch \<noteq> c \<and> c \<notin> fst ` set fs \<and> kind_ok k \<and>
     take (length bs) (drop st (buf (buffer s))) = bs \<and> offset (cbbs s ch) = st + length bs \<and>
     pending_len_len (cbbs s ch) = prefix_len k \<and> pending_is_asn1 (cbbs s ch) = (k = Asn1) \<and>
     rep s ch (st + length bs + prefix_len k) bs' fs"

lemma rep_len: "rep s c st bs fs \<Longrightarrow> st + length bs \<le> len (buffer s)"
  by (induction s c st bs fs rule: rep.induct) auto

lemma rep_base: "rep s c st bs fs \<Longrightarrow> base (cbbs s c)"
  by (cases fs) auto

lemma close_kind_length: "close_kind k bs = Some out \<Longrightarrow> length out \<ge> prefix_len k + length bs"
  by (cases k) (auto simp: der_len_def split: if_splits)

lemma collapse_length:
  "rep s c st bs fs \<Longrightarrow> collapse bs fs = Some out \<Longrightarrow> len (buffer s) \<le> st + length out"
proof (induction s c st bs fs arbitrary: out rule: rep.induct)
  case (2 s c st bs ch k bs' fs)
  then obtain inner where "collapse bs' fs = Some inner" "\<exists>o'. close_kind k inner = Some o' \<and> out = bs @ o'"
    by (auto simp: bind_eq_Some_conv)
  with 2 show ?case by (fastforce dest: close_kind_length)
qed simp

section \<open>Closing one child\<close>

lemma shift_contents:
  assumes "Suc off + k + n \<le> length b"
  defines "m \<equiv> memmove_up (Suc off) k n b"
  shows "length m = length b"
    and "take (Suc off) (m[off := x]) = take off b @ [x]"
    and "drop (Suc off + k) (m[off := x]) = take n (drop (Suc off) b) @ drop (Suc off + k + n) b"
proof -
  show len: "length m = length b" using assms by (simp add: m_def memmove_up_def)
  have "take (Suc off + k) m = take (Suc off + k) b" using assms by (simp add: m_def memmove_up_def)
  then have "take off m = take off b" by (rule take_shorter) simp
  then show "take (Suc off) (m[off := x]) = take off b @ [x]"
    using assms(1) len by (simp add: take_Suc_conv_app_nth)
  have "drop (Suc off + k) m = take n (drop (Suc off) b) @ drop (Suc off + k + n) b"
    using assms(1) by (simp add: m_def memmove_up_def)
  then show "drop (Suc off + k) (m[off := x]) = take n (drop (Suc off) b) @ drop (Suc off + k + n) b" by simp
qed

text \<open>The buffer around an open child: the prefix starts at \<open>off\<close>, the contents \<open>bs\<close> end the buffer.\<close>

definition child_at :: "cbb_state \<Rightarrow> nat \<Rightarrow> kind \<Rightarrow> nat \<Rightarrow> u8 list \<Rightarrow> bool" where
  "child_at s ch k off bs \<longleftrightarrow> binv (buffer s) \<and> kind_ok k \<and> offset (cbbs s ch) = off \<and>
     pending_len_len (cbbs s ch) = prefix_len k \<and> pending_is_asn1 (cbbs s ch) = (k = Asn1) \<and>
     len (buffer s) = off + prefix_len k + length bs \<and>
     take (length bs) (drop (off + prefix_len k) (buf (buffer s))) = bs"

text \<open>The outcome of closing: the prefixed contents \<open>out\<close> end the buffer, all before \<open>off\<close> is unchanged.\<close>

definition closed :: "nat \<Rightarrow> cbb_buffer \<Rightarrow> u8 list \<Rightarrow> cbb_buffer \<Rightarrow> bool" where
  "closed off b out b' \<longleftrightarrow> extends off b b' \<and> len b' = off + length out \<and> take (length out) (drop off (buf b')) = out"

lemma closedI:
  assumes "binv b" "length nb = cap b'" "len b' = off + length out" "len b' \<le> cap b'" "cap b' < 2 ^ 64" "cap b \<le> cap b'"
    "can_resize b' = can_resize b" "error b' = error b" "nb = take off (buf b) @ out @ rest" "off \<le> len b" "buf b' = nb"
  shows "closed off b out b'"
  using assms by (auto simp: closed_def extends_def binv_def)

lemma flush_prefix:
  assumes "child_at s ch (Prefix n) off bs" and "c \<noteq> ch"
    and "flush_child malloc c ch (off + n) s = (ok, s')"
  shows "if ok then (\<exists>out. close_kind (Prefix n) bs = Some out \<and> closed off (buffer s) out (buffer s')) \<and>
           cbbs s' = (cbbs s)(ch := (cbbs s ch)\<lparr>base := False\<rparr>, c := (cbbs s c)\<lparr>child := None\<rparr>)
         else error (buffer s') \<and> close_kind (Prefix n) bs = None"
proof -
  let ?b = "buffer s"
  define nb where "nb = take off (buf ?b) @ be_bytes n (length bs) @ drop (off + n) (buf ?b)"
  have a: "binv ?b" "offset (cbbs s ch) = off" "pending_len_len (cbbs s ch) = n" "\<not> pending_is_asn1 (cbbs s ch)"
      "len ?b = off + n + length bs" "take (length bs) (drop (off + n) (buf ?b)) = bs"
    using assms(1) by (simp_all add: child_at_def)
  have fit: "off + n \<le> length (buf ?b)" using a by (simp add: binv_def)
  have flush: "flush_child malloc c ch (off + n) s =
      (let s' = s\<lparr>buffer := ?b\<lparr>buf := nb\<rparr>\<rparr> in
       if length bs div 256 ^ n \<noteq> 0 then (False, set_error s')
       else (True, upd_cbb c (\<lambda>x. x\<lparr>child := None\<rparr>) (upd_cbb ch (\<lambda>x. x\<lparr>base := False\<rparr>) s')))"
    using a by (simp add: flush_child_def store_be_spec [OF fit] nb_def Let_def)
  show ?thesis
  proof (cases "length bs < 256 ^ n")
    case True
    have rest: "drop (off + n) (buf ?b) = bs @ drop (off + n + length bs) (buf ?b)"
      using a(6) by (metis append_take_drop_id drop_drop add.commute)
    have "closed off ?b (be_bytes n (length bs) @ bs) (?b\<lparr>buf := nb\<rparr>)"
      using a fit rest by (intro closedI [where nb = nb and rest = "drop (off + n + length bs) (buf ?b)"])
        (simp_all add: binv_def nb_def)
    with True assms flush show ?thesis by (auto simp: upd_cbb_def)
  next
    case False
    then have "0 < length bs div 256 ^ n" by (simp add: div_greater_zero_iff)
    with False assms(3) flush show ?thesis by (auto simp: set_error_def)
  qed
qed

lemma length_form:
  assumes "n > 0x7F" and "n \<le> 0xFFFFFFFE"
  shows "(if n > 0xFFFFFF then (5, 0x80 OR 4, n) else if n > 0xFFFF then (4, 0x80 OR 3, n)
      else if n > 0xFF then (3, 0x80 OR 2, n) else if n > 0x7F then (2, 0x80 OR 1, n)
      else (1, of_nat n, 0)) = (Suc (len_octets n), of_nat (128 + len_octets n) :: u8, n)"
  using assms by (auto simp: len_octets_def)

lemma flush_asn1_short:
  assumes "n \<le> 0x7F"
  shows "flush_asn1 malloc ch start n s =
    Inl (0, upd_cbb ch (\<lambda>x. x\<lparr>offset := offset x + 1, pending_len_len := 0\<rparr>)
      (s\<lparr>buffer := (buffer s)\<lparr>buf := (buf (buffer s))[offset (cbbs s ch) := of_nat n]\<rparr>\<rparr>))"
  using assms by (simp add: flush_asn1_def)

lemma flush_asn1_long:
  assumes "n > 0x7F" and "n \<le> 0xFFFFFFFE"
  defines "k \<equiv> len_octets n"
  shows "flush_asn1 malloc ch start n s =
    (case cbb_buffer_add malloc k (buffer s) of
       (False, b) \<Rightarrow> Inr (s\<lparr>buffer := b\<rparr>)
     | (True, b) \<Rightarrow> Inl (n, upd_cbb ch (\<lambda>x. x\<lparr>offset := offset x + 1, pending_len_len := k\<rparr>)
          (s\<lparr>buffer := b\<lparr>buf := (memmove_up start k n (buf b))[offset (cbbs s ch) := of_nat (128 + k)]\<rparr>\<rparr>)))"
proof -
  have "k \<noteq> 0" using len_octets_bounds(1) [of n] by (simp add: k_def)
  then show ?thesis
    unfolding flush_asn1_def length_form [OF assms(1,2)] k_def [symmetric] using assms(2)
    by (auto simp: on_buffer_def Let_def upd_cbb_def split: prod.splits bool.splits)
qed

lemma flush_asn1_child_short:
  assumes c: "child_at s ch Asn1 off bs" and "c \<noteq> ch" and n: "length bs \<le> 0x7F"
    and f: "flush_child malloc c ch (off + 1) s = (ok, s')"
  shows "ok \<and> closed off (buffer s) (der_len (length bs) @ bs) (buffer s') \<and> cbbs s' c = (cbbs s c)\<lparr>child := None\<rparr> \<and>
    \<not> base (cbbs s' ch) \<and> (\<forall>a. a \<noteq> c \<longrightarrow> a \<noteq> ch \<longrightarrow> cbbs s' a = cbbs s a)"
proof -
  let ?b = "buffer s"
  define nb where "nb = (buf ?b)[off := of_nat (length bs)]"
  have a: "binv ?b" "offset (cbbs s ch) = off" "pending_is_asn1 (cbbs s ch)"
      "len ?b = off + 1 + length bs" "take (length bs) (drop (Suc off) (buf ?b)) = bs"
    using c by (simp_all add: child_at_def)
  have "flush_child malloc c ch (off + 1) s = (True, upd_cbb c (\<lambda>x. x\<lparr>child := None\<rparr>) (upd_cbb ch (\<lambda>x. x\<lparr>base := False\<rparr>)
      (upd_cbb ch (\<lambda>x. x\<lparr>offset := offset x + 1, pending_len_len := 0\<rparr>) (s\<lparr>buffer := ?b\<lparr>buf := nb\<rparr>\<rparr>))))"
    using a n by (simp add: flush_child_def flush_asn1_short Let_def nb_def upd_cbb_def)
  with f have s': "ok" "buffer s' = ?b\<lparr>buf := nb\<rparr>" "cbbs s' c = (cbbs s c)\<lparr>child := None\<rparr>" "\<not> base (cbbs s' ch)"
      "\<forall>a. a \<noteq> c \<longrightarrow> a \<noteq> ch \<longrightarrow> cbbs s' a = cbbs s a"
    using assms(2) by (auto simp: upd_cbb_def)
  have off: "off < length (buf ?b)" using a by (simp add: binv_def)
  have "drop (Suc off) (buf ?b) = bs @ drop (Suc off + length bs) (buf ?b)"
    using a(5) by (metis append_take_drop_id drop_drop add.commute)
  then have "nb = take off (buf ?b) @ (der_len (length bs) @ bs) @ drop (Suc off + length bs) (buf ?b)"
    using n off by (simp add: nb_def upd_conv_take_nth_drop der_len_def)
  then have "closed off ?b (der_len (length bs) @ bs) (?b\<lparr>buf := nb\<rparr>)"
    using a n by (intro closedI) (simp_all add: binv_def nb_def der_len_def)
  with s' show ?thesis by simp
qed

lemma flush_asn1_child_long:
  assumes m: "malloc_ok malloc" and c: "child_at s ch Asn1 off bs" and cc: "c \<noteq> ch"
    and n: "length bs > 0x7F" "length bs \<le> 0xFFFFFFFE"
    and f: "flush_child malloc c ch (off + 1) s = (ok, s')"
  shows "if ok then closed off (buffer s) (der_len (length bs) @ bs) (buffer s') \<and> cbbs s' c = (cbbs s c)\<lparr>child := None\<rparr> \<and>
      \<not> base (cbbs s' ch) \<and> (\<forall>a. a \<noteq> c \<longrightarrow> a \<noteq> ch \<longrightarrow> cbbs s' a = cbbs s a)
    else error (buffer s') \<and> \<not> room malloc (buffer s) (off + length (der_len (length bs) @ bs))"
proof -
  let ?b = "buffer s"
  define k where "k = len_octets (length bs)"
  have k: "1 \<le> k" "k \<le> 4" "length bs < 256 ^ k" using len_octets_bounds(1-3) [of "length bs"] n by (simp_all add: k_def)
  have dl: "der_len (length bs) = of_nat (128 + k) # be_bytes k (length bs)" using n by (simp add: der_len_def k_def)
  have a: "binv ?b" "offset (cbbs s ch) = off" "pending_is_asn1 (cbbs s ch)"
      "len ?b = off + 1 + length bs" "take (length bs) (drop (Suc off) (buf ?b)) = bs"
    using c by (simp_all add: child_at_def)
  obtain ok1 b1 where add: "cbb_buffer_add malloc k ?b = (ok1, b1)" by fastforce
  have k64: "k < 2 ^ 64" using k(2) by simp
  note sp = buffer_add_spec [OF m a(1) k64 add]
  show ?thesis
  proof (cases ok1)
    case False
    have "off + length (der_len (length bs) @ bs) = len ?b + k" using a(4) by (simp add: dl)
    moreover have "s' = set_error (s\<lparr>buffer := b1\<rparr>)" "\<not> ok"
      using f False a n add by (auto simp: flush_child_def flush_asn1_long Let_def k_def [symmetric])
    ultimately show ?thesis using sp False by (simp add: set_error_def)
  next
    case True
    with sp have ext: "extends (len ?b) ?b b1" "len b1 = len ?b + k" by simp_all
    then have b1: "binv b1" "take (len ?b) (buf b1) = take (len ?b) (buf ?b)" "cap ?b \<le> cap b1"
        "can_resize b1 = can_resize ?b" "error b1 = error ?b" by (simp_all add: extends_def)
    have fits: "Suc off + k + length bs \<le> length (buf b1)" using b1(1) ext(2) a(4) by (simp add: binv_def)
    have inner: "take (length bs) (drop (Suc off) (buf b1)) = bs"
    proof -
      have "take (length bs) (drop (Suc off) (buf b1)) = drop (Suc off) (take (len ?b) (buf b1))" by (simp add: a(4) take_drop add.commute)
      also have "\<dots> = take (length bs) (drop (Suc off) (buf ?b))" unfolding b1(2) by (simp add: a(4) take_drop add.commute)
      finally show ?thesis by (simp add: a(5))
    qed
    define mv where "mv = (memmove_up (Suc off) k (length bs) (buf b1))[off := of_nat (128 + k)]"
    note sh = shift_contents(2,3) [OF fits, where x = "of_nat (128 + k)", folded mv_def]
    have lmv: "length mv = length (buf b1)" using shift_contents(1) [OF fits] by (simp add: mv_def)
    define nb where "nb = take (Suc off) mv @ be_bytes k (length bs) @ drop (Suc off + k) mv"
    have off1: "Suc off + k \<le> length mv" using fits lmv by simp
    have st: "store_be (Suc off) k (length bs) mv = (nb, 0)"
      using store_be_spec [OF off1, of "length bs"] k(3) by (simp add: nb_def)
    have "flush_child malloc c ch (off + 1) s = (True, upd_cbb c (\<lambda>x. x\<lparr>child := None\<rparr>) (upd_cbb ch (\<lambda>x. x\<lparr>base := False\<rparr>)
      (upd_cbb ch (\<lambda>x. x\<lparr>offset := offset x + 1, pending_len_len := k\<rparr>) (s\<lparr>buffer := b1\<lparr>buf := nb\<rparr>\<rparr>))))"
      using a n add True st by (simp add: flush_child_def flush_asn1_long k_def [symmetric] mv_def [symmetric] upd_cbb_def Let_def del: of_nat_add)
    with f have s': "ok" "buffer s' = b1\<lparr>buf := nb\<rparr>" "cbbs s' c = (cbbs s c)\<lparr>child := None\<rparr>" "\<not> base (cbbs s' ch)"
        "\<forall>a. a \<noteq> c \<longrightarrow> a \<noteq> ch \<longrightarrow> cbbs s' a = cbbs s a"
      using cc by (auto simp: upd_cbb_def)
    have "take off (buf b1) = take off (buf ?b)" using b1(2) by (rule take_shorter) (simp add: a(4))
    then have nb: "nb = take off (buf ?b) @ (der_len (length bs) @ bs) @ drop (Suc off + k + length bs) (buf b1)"
      unfolding nb_def sh inner dl by simp
    have "length nb = cap (b1\<lparr>buf := nb\<rparr>)" using b1(1) lmv off1 by (simp add: nb_def binv_def)
    then have "closed off ?b (der_len (length bs) @ bs) (b1\<lparr>buf := nb\<rparr>)"
      by (rule closedI [OF a(1) _ _ _ _ _ _ _ nb]) (use a(4) b1 ext(2) in \<open>simp_all add: binv_def dl\<close>)
    with s' show ?thesis by simp
  qed
qed

text \<open>The outcome of \<open>flush_child\<close> for both kinds.\<close>

lemma flush_child_spec:
  assumes m: "malloc_ok malloc" and c: "child_at s ch k off bs" and cc: "c \<noteq> ch"
    and f: "flush_child malloc c ch (off + prefix_len k) s = (ok, s')"
  shows "if ok then (\<exists>out. close_kind k bs = Some out \<and> closed off (buffer s) out (buffer s')) \<and>
      cbbs s' c = (cbbs s c)\<lparr>child := None\<rparr> \<and> (\<forall>a. a \<noteq> c \<longrightarrow> a \<noteq> ch \<longrightarrow> cbbs s' a = cbbs s a)
    else error (buffer s') \<and> (\<forall>out. close_kind k bs = Some out \<longrightarrow> \<not> room malloc (buffer s) (off + length out))"
proof (cases k)
  case (Prefix n)
  with flush_prefix [of s ch n off bs c malloc ok s'] assms show ?thesis by (auto split: if_splits)
next
  case Asn1
  consider "length bs \<le> 0x7F" | "length bs > 0x7F" "length bs \<le> 0xFFFFFFFE" | "length bs > 0xFFFFFFFE" by linarith
  then show ?thesis
  proof cases
    case 1
    with flush_asn1_child_short [of s ch off bs c malloc ok s'] assms Asn1 show ?thesis by auto
  next
    case 2
    with flush_asn1_child_long [of malloc s ch off bs c ok s'] assms Asn1 show ?thesis by (auto split: if_splits)
  next
    case 3
    then have "flush_child malloc c ch (off + 1) s = (False, set_error s)"
      using c Asn1 by (simp add: child_at_def flush_child_def flush_asn1_def)
    with 3 f Asn1 show ?thesis by (auto simp: set_error_def)
  qed
qed

section \<open>Flushing\<close>

text \<open>The result of flushing the \<open>CBB\<close> at \<open>c\<close>: all open children are closed into its contents.\<close>

definition flushed :: "malloc \<Rightarrow> cbb_state \<Rightarrow> nat \<Rightarrow> nat \<Rightarrow> u8 list \<Rightarrow> frames \<Rightarrow> bool \<Rightarrow> cbb_state \<Rightarrow> bool" where
  "flushed malloc s c st bs fs ok s' \<longleftrightarrow>
     (if ok then
        (\<exists>out. collapse bs fs = Some out \<and> rep s' c st out []) \<and> extends st (buffer s) (buffer s') \<and>
        cbbs s' c = (cbbs s c)\<lparr>child := None\<rparr> \<and> (\<forall>a. a \<noteq> c \<longrightarrow> a \<notin> fst ` set fs \<longrightarrow> cbbs s' a = cbbs s a)
      else error (buffer s') \<and> (\<forall>out. collapse bs fs = Some out \<longrightarrow> \<not> room malloc (buffer s) (st + length out)))"

lemma drop_prefix_eq:
  assumes "take (st + n) ys = take (st + n) xs" and "take n (drop st xs) = zs"
  shows "take n (drop st ys) = zs"
proof -
  have "take n (drop st ys) = drop st (take (st + n) ys)" by (simp add: take_drop add.commute)
  also have "\<dots> = take n (drop st xs)" unfolding assms(1) by (simp add: take_drop add.commute)
  finally show ?thesis using assms(2) by simp
qed

lemma flushed_step:
  assumes m: "malloc_ok malloc" and inv: "binv (buffer s)" and r: "rep s c st bs ((ch, k, bs') # fs)"
    and IH: "flushed malloc s ch (st + length bs + prefix_len k) bs' fs True s1"
    and f: "flush_child malloc c ch (st + length bs + prefix_len k) s1 = (ok, s')"
  shows "flushed malloc s c st bs ((ch, k, bs') # fs) ok s'"
proof -
  let ?off = "st + length bs"
  from IH obtain inner where i: "collapse bs' fs = Some inner" "rep s1 ch (?off + prefix_len k) inner []"
      "extends (?off + prefix_len k) (buffer s) (buffer s1)" "cbbs s1 ch = (cbbs s ch)\<lparr>child := None\<rparr>"
      "\<And>a. a \<noteq> ch \<Longrightarrow> a \<notin> fst ` set fs \<Longrightarrow> cbbs s1 a = cbbs s a"
    by (auto simp: flushed_def)
  have c1: "cbbs s1 c = cbbs s c" using i(5) [of c] r by simp
  have at: "child_at s1 ch k ?off inner" using i(2,3,4) r by (simp add: child_at_def extends_def)
  have cc: "c \<noteq> ch" using r by simp
  have bs: "take (length bs) (drop st (buf (buffer s))) = bs" using r by simp
  show ?thesis
  proof (cases ok)
    case True
    with flush_child_spec [OF m at cc f] obtain out where o: "close_kind k inner = Some out"
        "closed ?off (buffer s1) out (buffer s')" "cbbs s' c = (cbbs s1 c)\<lparr>child := None\<rparr>"
        "\<And>a. a \<noteq> c \<Longrightarrow> a \<noteq> ch \<Longrightarrow> cbbs s' a = cbbs s1 a" by auto
    have ext: "extends ?off (buffer s) (buffer s')"
      using extends_trans [OF extends_mono [OF i(3)], of ?off] o(2) by (auto simp: closed_def)
    then have "take ?off (buf (buffer s')) = take ?off (buf (buffer s))" by (simp add: extends_def)
    then have "take (length bs) (drop st (buf (buffer s'))) = bs" using bs by (rule drop_prefix_eq)
    then have "take (length bs + length out) (drop st (buf (buffer s'))) = bs @ out"
      using o(2) by (simp add: take_add closed_def add.commute)
    then have "rep s' c st (bs @ out) []" using o(2,3) c1 r by (simp add: closed_def)
    moreover have "extends st (buffer s) (buffer s')" using ext by (rule extends_mono) simp
    ultimately show ?thesis using True i(1,5) o(1,3,4) c1 r by (auto simp: flushed_def)
  next
    case False
    with flush_child_spec [OF m at cc f] have e: "error (buffer s')"
        "\<And>out. close_kind k inner = Some out \<Longrightarrow> \<not> room malloc (buffer s1) (?off + length out)" by auto
    then show ?thesis using False i(1) room_extends [OF i(3)] by (auto simp: flushed_def add.assoc)
  qed
qed

lemma flush_spec:
  assumes "malloc_ok malloc" and "binv (buffer s)" and "\<not> error (buffer s)" and "rep s c st bs fs"
  shows "\<exists>ok s'. CBB_flush malloc c s = Some (ok, s') \<and> flushed malloc s c st bs fs ok s'"
  using assms(4)
proof (induction fs arbitrary: c st bs)
  case Nil
  then have "CBB_flush malloc c s = Some (True, s)" using assms(3) by (simp add: CBB_flush.simps)
  moreover have "flushed malloc s c st bs [] True s" using Nil assms(2) by (simp add: flushed_def extends_refl)
  ultimately show ?case by blast
next
  case (Cons f fs)
  obtain ch k bs' where f: "f = (ch, k, bs')" by (cases f) auto
  let ?st = "st + length bs + prefix_len k"
  have r: "rep s c st bs ((ch, k, bs') # fs)" using Cons.prems f by simp
  then have r1: "rep s ch ?st bs' fs" and k: "kind_ok k" by simp_all
  obtain ok1 s1 where 1: "CBB_flush malloc ch s = Some (ok1, s1)" "flushed malloc s ch ?st bs' fs ok1 s1"
    using Cons.IH [OF r1] by blast
  have pl: "prefix_len k \<noteq> 0" using k by (cases k) auto
  have "?st < 2 ^ 64" using rep_len [OF r1] assms(2) by (simp add: binv_def)
  then have fl: "CBB_flush malloc c s = Some (if ok1 then flush_child malloc c ch ?st s1 else (False, set_error s1))"
    using r 1(1) assms(3) pl by (subst CBB_flush.simps) (simp add: Let_def)
  show ?case
  proof (cases ok1)
    case True
    obtain ok s' where 2: "flush_child malloc c ch ?st s1 = (ok, s')" by fastforce
    with flushed_step [OF assms(1,2) r _ 2] 1(2) True fl f show ?thesis by auto
  next
    case False
    have "\<not> room malloc (buffer s) (st + length out)" if out: "collapse bs (f # fs) = Some out" for out
    proof
      assume "room malloc (buffer s) (st + length out)"
      moreover obtain inner o' where "collapse bs' fs = Some inner" "close_kind k inner = Some o'" "out = bs @ o'"
        using out f by (auto simp: bind_eq_Some_conv)
      ultimately show False using 1(2) False room_mono [of malloc "buffer s" "st + length out" "?st + length inner"]
          close_kind_length [of k inner o'] by (auto simp: flushed_def)
    qed
    then show ?thesis using fl False by (auto simp: flushed_def set_error_def)
  qed
qed

section \<open>Appending\<close>

text \<open>
  The result of an operation that flushes and then appends \<open>new\<close>, using the structs at \<open>A\<close>: on success the contents are the closed
  contents and \<open>new\<close>, all before them is unchanged; it fails only without room, and then sets the error flag.
\<close>

definition added :: "malloc \<Rightarrow> nat set \<Rightarrow> cbb_state \<Rightarrow> nat \<Rightarrow> nat \<Rightarrow> u8 list \<Rightarrow> frames \<Rightarrow> u8 list \<Rightarrow> bool \<Rightarrow> cbb_state \<Rightarrow> bool" where
  "added malloc A s c st bs fs new ok s' \<longleftrightarrow>
     (if ok then
        (\<exists>out. collapse bs fs = Some out \<and> rep s' c st (out @ new) []) \<and> extends st (buffer s) (buffer s') \<and>
        cbbs s' c = (cbbs s c)\<lparr>child := None\<rparr> \<and> (\<forall>a. a \<noteq> c \<longrightarrow> a \<notin> fst ` set fs \<longrightarrow> a \<notin> A \<longrightarrow> cbbs s' a = cbbs s a)
      else error (buffer s') \<and>
        (\<forall>out. collapse bs fs = Some out \<longrightarrow> \<not> room malloc (buffer s) (st + length out + length new)))"

lemma flushed_added: "flushed malloc s c st bs fs = added malloc {} s c st bs fs []"
  by (intro ext) (simp add: flushed_def added_def)

lemma added_frame: "added malloc A s c st bs fs new ok s' \<Longrightarrow> A \<subseteq> B \<Longrightarrow> added malloc B s c st bs fs new ok s'"
  unfolding added_def by (cases ok) (simp_all only: if_True if_False, blast+)

text \<open>The appending part alone, on a \<open>CBB\<close> without open children.\<close>

definition write_end :: "malloc \<Rightarrow> u8 list \<Rightarrow> cbb_state \<Rightarrow> bool \<times> cbb_state" where
  "write_end malloc new s =
     (case cbb_buffer_add malloc (length new) (buffer s) of
        (False, b) \<Rightarrow> (False, s\<lparr>buffer := b\<rparr>)
      | (True, b) \<Rightarrow> (True, s\<lparr>buffer := b\<lparr>buf := take (len (buffer s)) (buf b) @ new @
                              drop (len (buffer s) + length new) (buf b)\<rparr>\<rparr>))"

lemma write_end_spec:
  assumes m: "malloc_ok malloc" and inv: "binv (buffer s)" and r: "rep s c st bs []" and n: "length new < 2 ^ 64"
    and w: "write_end malloc new s = (ok, s')"
  shows "added malloc A s c st bs [] new ok s'"
proof -
  obtain ok1 b where b: "cbb_buffer_add malloc (length new) (buffer s) = (ok1, b)" by fastforce
  note sp = buffer_add_spec [OF m inv n b]
  show ?thesis
  proof (cases ok1)
    case False
    then have "ok = False" "s' = s\<lparr>buffer := b\<rparr>" using w b by (simp_all add: write_end_def)
    with sp False r show ?thesis by (simp add: added_def)
  next
    case True
    let ?l = "len (buffer s)"
    define nb where "nb = take ?l (buf b) @ new @ drop (?l + length new) (buf b)"
    have s': "ok" "s' = s\<lparr>buffer := b\<lparr>buf := nb\<rparr>\<rparr>" using w b True by (simp_all add: write_end_def nb_def)
    have e: "extends ?l (buffer s) b" "len b = ?l + length new" using sp True by simp_all
    have l: "?l = st + length bs" "?l + length new \<le> length (buf b)" using r e by (simp_all add: extends_def binv_def)
    have nb: "length nb = length (buf b)" "take ?l nb = take ?l (buf (buffer s))" "take (length new) (drop ?l nb) = new"
      using l(2) e(1) inv by (simp_all add: nb_def extends_def binv_def)
    have ext: "extends ?l (buffer s) (buffer s')" using e nb s' by (simp add: extends_def binv_def)
    have "take (length bs) (drop st (buf (buffer s))) = bs" using r by simp
    with nb(2) have "take (length bs) (drop st nb) = bs" unfolding l(1) by (rule drop_prefix_eq)
    then have "take (length bs + length new) (drop st nb) = bs @ new"
      using nb(3) by (simp add: take_add l(1) add.commute)
    then have "rep s' c st (bs @ new) []" using r e s' l by simp
    moreover have "extends st (buffer s) (buffer s')" using ext by (rule extends_mono) (simp add: l)
    ultimately show ?thesis using s' r by (simp add: added_def)
  qed
qed

text \<open>Flushing and then writing at the end.\<close>

lemma flush_write:
  assumes m: "malloc_ok malloc" and inv: "binv (buffer s)" "\<not> error (buffer s)" and r: "rep s c st bs fs"
    and n: "length new < 2 ^ 64"
  shows "\<exists>ok s'. then_opt (CBB_flush malloc c s) (\<lambda>s. Some (write_end malloc new s)) = Some (ok, s') \<and>
    added malloc A s c st bs fs new ok s'"
proof -
  obtain ok1 s1 where 1: "CBB_flush malloc c s = Some (ok1, s1)" "added malloc {} s c st bs fs [] ok1 s1"
    using flush_spec [OF m inv r] by (auto simp: flushed_added)
  show ?thesis
  proof (cases ok1)
    case False
    have "\<not> room malloc (buffer s) (st + length out + length new)" if "collapse bs fs = Some out" for out
      using 1(2) False that room_mono [of malloc "buffer s" "st + length out + length new" "st + length out"]
      by (auto simp: added_def)
    then show ?thesis using 1 False by (intro exI [of _ False] exI [of _ s1]) (simp add: added_def)
  next
    case True
    then obtain out where o: "collapse bs fs = Some out" "rep s1 c st out []" "extends st (buffer s) (buffer s1)"
        "cbbs s1 c = (cbbs s c)\<lparr>child := None\<rparr>" "\<And>a. a \<noteq> c \<Longrightarrow> a \<notin> fst ` set fs \<Longrightarrow> cbbs s1 a = cbbs s a"
      using 1(2) by (auto simp: added_def)
    obtain ok s' where w: "write_end malloc new s1 = (ok, s')" by fastforce
    have "binv (buffer s1)" using o(3) by (simp add: extends_def)
    from write_end_spec [OF m this o(2) n w] have a: "added malloc A s1 c st out [] new ok s'" .
    have "added malloc A s c st bs fs new ok s'"
    proof (cases ok)
      case True
      then show ?thesis using a o extends_trans [OF o(3), of st] by (auto simp: added_def)
    next
      case False
      then show ?thesis using a o room_extends [OF o(3)] by (auto simp: added_def)
    qed
    with w 1(1) True show ?thesis by auto
  qed
qed

text \<open>An operation whose part after the flush writes \<open>new\<close> at the end of every well-formed buffer.\<close>

lemma flush_then_added:
  assumes m: "malloc_ok malloc" and inv: "binv (buffer s)" "\<not> error (buffer s)" and r: "rep s c st bs fs"
    and n: "length new < 2 ^ 64" and f: "\<And>s1. binv (buffer s1) \<Longrightarrow> f s1 = Some (write_end malloc new s1)"
  shows "\<exists>ok s'. then_opt (CBB_flush malloc c s) f = Some (ok, s') \<and> added malloc A s c st bs fs new ok s'"
proof -
  obtain ok1 s1 where 1: "CBB_flush malloc c s = Some (ok1, s1)" "flushed malloc s c st bs fs ok1 s1"
    using flush_spec [OF m inv r] by blast
  then have "then_opt (CBB_flush malloc c s) f = then_opt (CBB_flush malloc c s) (\<lambda>s. Some (write_end malloc new s))"
    using f [of s1] by (cases ok1) (simp_all add: flushed_def extends_def)
  then show ?thesis using flush_write [OF m inv r n] by simp
qed

lemma buffer_add_u_write:
  assumes m: "malloc_ok malloc" and inv: "binv (buffer s)" and n: "1 \<le> n" "n \<le> 8" and v: "unat v < 256 ^ n"
  shows "on_buffer (cbb_buffer_add_u malloc v n) s = write_end malloc (be_bytes n (unat v)) s"
proof -
  have n64: "n < 2 ^ 64" using n by simp
  obtain ok b where b: "cbb_buffer_add malloc n (buffer s) = (ok, b)" by fastforce
  show ?thesis
  proof (cases ok)
    case True
    with buffer_add_spec [OF m inv n64 b] have "len (buffer s) + n \<le> length (buf b)" by (simp add: extends_def binv_def)
    from store_be_spec [OF this, of "unat v"] b True n v show ?thesis
      by (simp add: on_buffer_def cbb_buffer_add_u_def write_end_def)
  next
    case False
    with b n show ?thesis by (simp add: on_buffer_def cbb_buffer_add_u_def write_end_def)
  qed
qed

lemma add_u_spec:
  assumes "malloc_ok malloc" and "binv (buffer s)" "\<not> error (buffer s)" and "rep s c st bs fs"
    and "1 \<le> n" "n \<le> 8" "unat v < 256 ^ n"
  shows "\<exists>ok s'. cbb_add_u malloc c v n s = Some (ok, s') \<and> added malloc A s c st bs fs (be_bytes n (unat v)) ok s'"
  unfolding cbb_add_u_def
  by (rule flush_then_added [OF assms(1-4)]) (use assms in \<open>simp_all add: buffer_add_u_write\<close>)

lemma add_u8_spec:
  assumes "malloc_ok malloc" and "binv (buffer s)" "\<not> error (buffer s)" and "rep s c st bs fs"
  shows "\<exists>ok s'. CBB_add_u8 malloc c v s = Some (ok, s') \<and> added malloc A s c st bs fs [v] ok s'"
proof -
  have "be_bytes 1 (unat v) = [v]" by (simp add: be_bytes_def)
  with add_u_spec [OF assms, of 1 "ucast v"] unat_u8_lt [of v] show ?thesis
    by (simp add: CBB_add_u8_def unat_ucast_u8_u64)
qed

lemma add_bytes_spec:
  assumes "malloc_ok malloc" and "binv (buffer s)" "\<not> error (buffer s)" and "rep s c st bs fs" and "length dat < 2 ^ 64"
  shows "\<exists>ok s'. CBB_add_bytes malloc c dat s = Some (ok, s') \<and> added malloc A s c st bs fs dat ok s'"
  unfolding CBB_add_bytes_def
  by (rule flush_then_added [OF assms])
    (auto simp: Let_def on_buffer_def write_end_def and_then_def split: prod.splits bool.splits)

lemma added_room:
  assumes "added malloc A s c st bs fs new ok s'" and "collapse bs fs = Some out"
    and "room malloc (buffer s) (st + length out + length new)"
  shows ok
  using assms by (cases ok) (auto simp: added_def)

lemma added_good:
  assumes "added malloc A s c st bs fs new True s'" and "\<not> error (buffer s)"
  shows "binv (buffer s')" "\<not> error (buffer s')" "\<exists>out. collapse bs fs = Some out \<and> rep s' c st (out @ new) []"
  using assms by (auto simp: added_def extends_def)

text \<open>Two appends in sequence are one.\<close>

lemma added_trans:
  assumes a: "added malloc A s c st bs fs x True s1" and o: "collapse bs fs = Some out"
    and b: "added malloc A s1 c st (out @ x) [] y ok s2"
  shows "added malloc A s c st bs fs (x @ y) ok s2"
proof -
  have e: "extends st (buffer s) (buffer s1)" using a by (simp add: added_def)
  show ?thesis
  proof (cases ok)
    case True
    then show ?thesis using a b o extends_trans [OF e, of st "buffer s2"] by (auto simp: added_def add.assoc)
  next
    case False
    then show ?thesis using b o room_extends [OF e] by (auto simp: added_def add.assoc)
  qed
qed

lemma added_fail: "added malloc A s c st bs fs x False s' \<Longrightarrow> added malloc A s c st bs fs (x @ y) False s'"
  using room_mono [of malloc "buffer s"] by (fastforce simp: added_def)

lemma added_nil: "rep s c st bs [] \<Longrightarrow> binv (buffer s) \<Longrightarrow> added malloc A s c st bs [] [] True s"
  by (simp add: added_def extends_refl)

lemma add_octets_spec:
  assumes "malloc_ok malloc" and "binv (buffer s)" "\<not> error (buffer s)" and "rep s c st bs []"
  shows "\<exists>ok s'. add_octets malloc c xs s = Some (ok, s') \<and> added malloc A s c st bs [] xs ok s'"
  using assms(2-)
proof (induction xs arbitrary: s bs)
  case Nil
  then have "added malloc A s c st bs [] [] True s" by (intro added_nil)
  then show ?case by auto
next
  case (Cons x xs)
  obtain ok1 s1 where 1: "CBB_add_u8 malloc c x s = Some (ok1, s1)" "added malloc A s c st bs [] [x] ok1 s1"
    using add_u8_spec [OF assms(1) Cons.prems] by blast
  show ?case
  proof (cases ok1)
    case False
    with 1 show ?thesis using added_fail [of malloc A s c st bs "[]" "[x]" s1 xs] by auto
  next
    case True
    have a: "added malloc A s c st bs [] [x] True s1" using 1(2) True by simp
    note g = added_good [OF a Cons.prems(2)]
    then obtain ok s' where 2: "add_octets malloc c xs s1 = Some (ok, s')" "added malloc A s1 c st (bs @ [x]) [] xs ok s'"
      using Cons.IH [of s1 "bs @ [x]"] by auto
    from added_trans [OF a _ 2(2)] have "added malloc A s c st bs [] (x # xs) ok s'" by simp
    with 1(1) 2(1) True show ?thesis by simp
  qed
qed

section \<open>ASN.1 headers\<close>

fun groups :: "nat \<Rightarrow> nat" where
  "groups m = (if m = 0 then 0 else Suc (groups (m div 128)))"

declare groups.simps [simp del]

lemma septets_groups: "septets v = groups (unat v)"
proof (induction v rule: septets.induct)
  case (1 v)
  then show ?case
    by (cases "v = 0") (simp_all add: septets.simps [of v] groups.simps [of "unat v"] septets.simps [of 0] groups.simps [of 0] unat_eq_0 word_gt_0)
qed

lemma rev_upt_Suc: "rev [0..<Suc k] = map Suc (rev [0..<k]) @ [0]"
proof -
  have "[0..<Suc k] = 0 # map Suc [0..<k]" by (simp add: upt_conv_Cons map_Suc_upt del: upt_Suc)
  then show ?thesis by (simp only: rev.simps rev_map)
qed

lemma base128_hi_map: "base128_hi m = map (\<lambda>i. of_nat (m div 128 ^ i mod 128 + 128)) (rev [0..<groups m])"
proof (induction m rule: groups.induct)
  case (1 m)
  show ?case
  proof (cases "m = 0")
    case False
    then have "base128_hi m = base128_hi (m div 128) @ [of_nat (m mod 128 + 128)]" by (subst base128_hi.simps) simp
    moreover have "groups m = Suc (groups (m div 128))" using False by (subst groups.simps) simp
    ultimately show ?thesis using 1 False by (simp only: rev_upt_Suc) (simp add: div_mult2_eq mult.commute)
  qed (simp add: groups.simps)
qed

lemma octet_values:
  "unat (ucast (w AND 0x7F :: u64) :: u8) = unat w mod 128"
  "ucast (w AND 0x7F :: u64) OR (0x80 :: u8) = of_nat (unat w mod 128 + 128)"
proof -
  show 1: "unat (ucast (w AND 0x7F :: u64) :: u8) = unat w mod 128"
    by (simp add: unat_ucast_u8 mod_mod_cancel)
  have "unat (ucast (w AND 0x7F) OR push_bit 7 1 :: u8) = unat w mod 128 + 128"
    using unat_or_push_bit [of "ucast (w AND 0x7F) :: u8" 7 1] 1 by simp
  then show "ucast (w AND 0x7F :: u64) OR (0x80 :: u8) = of_nat (unat w mod 128 + 128)"
    by (intro word_of_natI) simp
qed

lemma add_base128_octets: "add_base128_integer malloc c v s = add_octets malloc c (base128 (unat v)) s"
proof -
  define k where "k = groups (unat v div 128)"
  have L: "(if septets v = 0 then 1 else septets v) = Suc k"
    unfolding septets_groups k_def by (simp add: groups.simps [of "unat v"] groups.simps [of 0])
  have d: "unat v div 2 ^ (7 * Suc i) = unat v div 128 div 128 ^ i" for i
    by (simp only: power_mult mult_Suc_right power_add div_mult2_eq) simp
  have f: "(let b = ucast (drop_bit (7 * i) v AND 0x7F) in if i \<noteq> 0 then b OR 0x80 else b) =
      (if i \<noteq> 0 then of_nat (unat v div 2 ^ (7 * i) mod 128 + 128) else of_nat (unat v mod 128) :: u8)" for i
    using octet_values [of "drop_bit (7 * i) v"]
    by (cases "i = 0") (simp_all only: Let_def if_True if_False simp_thms unat_drop_bit, auto intro: word_of_natI)
  have "map (\<lambda>i. let b = ucast (drop_bit (7 * i) v AND 0x7F) in if i \<noteq> 0 then b OR 0x80 else b) (rev [0..<Suc k]) =
      map (\<lambda>i. of_nat (unat v div 128 div 128 ^ i mod 128 + 128)) (rev [0..<k]) @ [of_nat (unat v mod 128) :: u8]"
    unfolding f rev_upt_Suc map_append map_map o_def by (simp only: d) simp
  then show ?thesis
    unfolding add_base128_integer_def L Let_def base128_def base128_hi_map k_def [symmetric] by (simp only: Let_def)
qed

lemma then_opt_id: "then_opt r (\<lambda>s. Some (True, s)) = r"
  by (auto simp: then_opt_def split: option.splits)

lemma then_opt_assoc: "then_opt (then_opt r f) g = then_opt r (\<lambda>s. then_opt (f s) g)"
  by (auto simp: then_opt_def split: option.splits)

lemma add_octets_one: "add_octets malloc c [x] s = CBB_add_u8 malloc c x s"
proof -
  have "add_octets malloc c [] = (\<lambda>s. Some (True, s))" by (rule HOL.ext) simp
  then show ?thesis by (simp add: then_opt_id)
qed

lemma tag_octet:
  assumes "unat n < 32"
  shows "(ucast (drop_bit 24 (tag :: u32)) AND 0xE0) OR n = (of_nat (unat tag div 2 ^ 29 * 32 + unat n) :: u8)"
proof -
  define b where "b = (ucast (drop_bit 24 tag) :: u8)"
  have "unat b = unat tag div 2 ^ 24 mod 256" by (simp add: b_def unsigned_ucast_eq take_bit_nat_def)
  then have "unat b div 32 = unat tag div 2 ^ 24 div 32 mod 8" using mod_mult2_eq [of "unat tag div 2 ^ 24" 32 8] by simp
  also have "\<dots> = unat tag div 2 ^ 29" using tag_split(2) [of tag] by (simp add: div_mult2_eq [symmetric])
  finally have d: "unat b div 32 = unat tag div 2 ^ 29" .
  have e: "(0xE0 :: u8) = push_bit 5 (mask 3)" by (simp add: mask_eq_exp_minus_1)
  have "b AND 0xE0 = push_bit 5 (drop_bit 5 b)"
    unfolding e by (rule bit_word_eqI) (auto simp: bit_simps dest: bit_imp_le_length)
  then have "(b AND 0xE0) OR n = n OR push_bit 5 (drop_bit 5 b)" by (simp add: or.commute)
  then have "unat ((b AND 0xE0) OR n) = unat b div 32 * 32 + unat n"
    using unat_or_push_bit [of n 5 "drop_bit 5 b"] assms unat_u8_lt [of b] by (simp add: div_less_iff_less_mult)
  then show ?thesis unfolding b_def [symmetric] d by (rule word_of_natI)
qed

lemma unat_tag_number: "unat (tag AND CBS_ASN1_TAG_NUMBER_MASK) = unat tag mod 2 ^ 29"
proof -
  have "tag AND CBS_ASN1_TAG_NUMBER_MASK = take_bit 29 tag"
    by (simp add: CBS_ASN1_TAG_NUMBER_MASK_def take_bit_eq_mask mask_eq_exp_minus_1)
  then show ?thesis by (simp only: unsigned_take_bit_eq take_bit_nat_def)
qed

lemma add_tag_octets:
  "(if tag AND CBS_ASN1_TAG_NUMBER_MASK \<ge> 0x1F then
      then_opt (CBB_add_u8 malloc c ((ucast (drop_bit CBS_ASN1_TAG_SHIFT tag) AND 0xE0) OR 0x1F) s)
        (add_base128_integer malloc c (ucast (tag AND CBS_ASN1_TAG_NUMBER_MASK)))
    else CBB_add_u8 malloc c ((ucast (drop_bit CBS_ASN1_TAG_SHIFT tag) AND 0xE0) OR
           ucast (tag AND CBS_ASN1_TAG_NUMBER_MASK)) s) =
   add_octets malloc c (der_tag tag) s"
proof -
  let ?n = "tag AND CBS_ASN1_TAG_NUMBER_MASK"
  define n where "n = unat tag mod 2 ^ 29"
  have n: "unat ?n = n" by (simp only: unat_tag_number n_def)
  have u64: "unat (ucast ?n :: u64) = n"
    using n unat_u32_lt [of ?n] by (simp add: unsigned_ucast_eq take_bit_nat_def)
  show ?thesis
  proof (cases "n < 31")
    case True
    then have u8: "unat (ucast ?n :: u8) = n" using n by (simp add: unsigned_ucast_eq take_bit_nat_def)
    have "\<not> ?n \<ge> 0x1F" using True n by (simp add: word_le_nat_alt)
    moreover have "der_tag tag = [(ucast (drop_bit 24 tag) AND 0xE0) OR ucast ?n]"
      using True tag_octet [of "ucast ?n" tag] u8 by (simp only: der_tag_def Let_def n_def [symmetric]) simp
    ultimately show ?thesis by (simp only: if_False add_octets_one)
  next
    case False
    have "?n \<ge> 0x1F" using False n by (simp add: word_le_nat_alt)
    moreover have "der_tag tag = ((ucast (drop_bit 24 tag) AND 0xE0) OR 0x1F) # base128 n"
      using False tag_octet [of "0x1F" tag] by (simp only: der_tag_def Let_def n_def [symmetric]) simp
    ultimately show ?thesis by (simp only: if_True add_octets.simps add_base128_octets [abs_def] u64)
  qed
qed

text \<open>Opening a child, with the octets \<open>hdr\<close> of the parent in front of its prefix.\<close>

definition opened :: "malloc \<Rightarrow> nat \<Rightarrow> kind \<Rightarrow> cbb_state \<Rightarrow> nat \<Rightarrow> nat \<Rightarrow> u8 list \<Rightarrow> frames \<Rightarrow> u8 list \<Rightarrow> bool \<Rightarrow> cbb_state \<Rightarrow> bool" where
  "opened malloc ch k s c st bs fs hdr ok s' \<longleftrightarrow>
     (if ok then
        (\<exists>out. collapse bs fs = Some out \<and> rep s' c st (out @ hdr) [(ch, k, [])]) \<and> extends st (buffer s) (buffer s') \<and>
        cbbs s' c = (cbbs s c)\<lparr>child := Some ch\<rparr> \<and>
        (\<forall>a. a \<noteq> c \<longrightarrow> a \<noteq> ch \<longrightarrow> a \<notin> fst ` set fs \<longrightarrow> cbbs s' a = cbbs s a)
      else error (buffer s') \<and> (\<forall>out. collapse bs fs = Some out \<longrightarrow>
        \<not> room malloc (buffer s) (st + length out + length hdr + prefix_len k)))"

lemma opened_of_added:
  assumes a: "added malloc {} s c st bs fs (hdr @ pre) True s1" and k: "length pre = prefix_len k" "kind_ok k" and c: "c \<noteq> ch"
  shows "opened malloc ch k s c st bs fs hdr True (open_child c ch (len (buffer s1) - prefix_len k) (prefix_len k) (k = Asn1) s1)"
proof -
  obtain out where o: "collapse bs fs = Some out" "rep s1 c st (out @ hdr @ pre) []" "extends st (buffer s) (buffer s1)"
      "cbbs s1 c = (cbbs s c)\<lparr>child := None\<rparr>" "\<And>a. a \<noteq> c \<Longrightarrow> a \<notin> fst ` set fs \<Longrightarrow> cbbs s1 a = cbbs s a"
    using a by (auto simp: added_def)
  have l: "len (buffer s1) = st + length (out @ hdr) + prefix_len k" using o(2) k by simp
  have "take (length (out @ hdr) + length pre) (drop st (buf (buffer s1))) = (out @ hdr) @ pre" using o(2) by (simp add: add.assoc)
  from arg_cong [OF this, of "take (length (out @ hdr))"]
  have "take (length (out @ hdr)) (drop st (buf (buffer s1))) = out @ hdr" by simp
  then show ?thesis using o l k c
    by (auto simp: opened_def open_child_def upd_cbb_def CBB_zero_def)
qed

lemma added_then:
  assumes 1: "\<exists>ok s1. r = Some (ok, s1) \<and> added malloc A s c st bs fs x ok s1" and e: "\<not> error (buffer s)"
    and 2: "\<And>s1 out. collapse bs fs = Some out \<Longrightarrow> rep s1 c st (out @ x) [] \<Longrightarrow> binv (buffer s1) \<Longrightarrow> \<not> error (buffer s1) \<Longrightarrow>
      \<exists>ok s2. f s1 = Some (ok, s2) \<and> added malloc A s1 c st (out @ x) [] y ok s2"
  shows "\<exists>ok s2. then_opt r f = Some (ok, s2) \<and> added malloc A s c st bs fs (x @ y) ok s2"
proof -
  from 1 obtain ok s1 where r: "r = Some (ok, s1)" "added malloc A s c st bs fs x ok s1" by blast
  show ?thesis
  proof (cases ok)
    case True
    then have a: "added malloc A s c st bs fs x True s1" using r(2) by simp
    obtain out where o: "collapse bs fs = Some out" "rep s1 c st (out @ x) []" using added_good(3) [OF a e] by blast
    from 2 [OF o added_good(1,2) [OF a e]] obtain ok2 s2 where "f s1 = Some (ok2, s2)"
        "added malloc A s1 c st (out @ x) [] y ok2 s2" by blast
    with added_trans [OF a o(1)] r True show ?thesis by auto
  next
    case False
    then have "added malloc A s c st bs fs (x @ y) False s1" using r(2) by (intro added_fail) simp
    with r False show ?thesis by auto
  qed
qed

lemma flush_added:
  assumes "malloc_ok malloc" and "binv (buffer s)" "\<not> error (buffer s)" and "rep s c st bs fs"
  shows "\<exists>ok s'. CBB_flush malloc c s = Some (ok, s') \<and> added malloc A s c st bs fs [] ok s'"
  using flush_spec [OF assms] added_frame [of malloc "{}" s c st bs fs "[]" _ _ A] by (auto simp: flushed_added)

lemma then_opt_let: "then_opt r (\<lambda>s. let x = h s in f x s) = then_opt r (\<lambda>s. f (h s) s)"
  by (simp add: Let_def)

lemma add_asn1_eq:
  "CBB_add_asn1 malloc c ch tag s =
     then_opt (then_opt (CBB_flush malloc c s) (add_octets malloc c (der_tag tag))) (\<lambda>s.
       then_opt (CBB_add_u8 malloc c 0 s) (\<lambda>s'. Some (True, open_child c ch (len (buffer s)) 1 True s')))"
  unfolding CBB_add_asn1_def Let_def add_tag_octets then_opt_assoc ..

lemma add_asn1_spec:
  assumes m: "malloc_ok malloc" and inv: "binv (buffer s)" "\<not> error (buffer s)" and r: "rep s c st bs fs" and c: "c \<noteq> ch"
  shows "\<exists>ok s'. CBB_add_asn1 malloc c ch tag s = Some (ok, s') \<and> opened malloc ch Asn1 s c st bs fs (der_tag tag) ok s'"
proof -
  have "\<exists>ok s'. then_opt (CBB_flush malloc c s) (add_octets malloc c (der_tag tag)) = Some (ok, s') \<and>
      added malloc {} s c st bs fs ([] @ der_tag tag) ok s'"
    by (rule added_then [OF flush_added [OF m inv r] inv(2)]) (use add_octets_spec [OF m] in auto)
  then obtain ok1 s1 where 1: "then_opt (CBB_flush malloc c s) (add_octets malloc c (der_tag tag)) = Some (ok1, s1)"
      "added malloc {} s c st bs fs (der_tag tag) ok1 s1" by auto
  show ?thesis
  proof (cases ok1)
    case False
    with 1 added_fail [of malloc "{}" s c st bs fs "der_tag tag" s1 "[0]"] show ?thesis
      by (auto simp: add_asn1_eq opened_def added_def)
  next
    case True
    have a: "added malloc {} s c st bs fs (der_tag tag) True s1" using 1(2) True by simp
    note g = added_good [OF a inv(2)]
    then obtain out where o: "collapse bs fs = Some out" "rep s1 c st (out @ der_tag tag) []" by blast
    obtain ok2 s2 where 2: "CBB_add_u8 malloc c 0 s1 = Some (ok2, s2)"
        "added malloc {} s1 c st (out @ der_tag tag) [] [0] ok2 s2"
      using add_u8_spec [OF m g(1,2) o(2)] by blast
    note b = added_trans [OF a o(1) 2(2)]
    show ?thesis
    proof (cases ok2)
      case True
      then have b': "added malloc {} s c st bs fs (der_tag tag @ [0]) True s2" using b by simp
      have "len (buffer s2) - 1 = len (buffer s1)"
        using added_good(3) [OF b' inv(2)] o by auto
      with opened_of_added [OF b', of Asn1 ch] c 1(1) 2(1) True \<open>ok1\<close> show ?thesis by (auto simp: add_asn1_eq)
    next
      case False
      with b 1(1) 2(1) \<open>ok1\<close> show ?thesis by (auto simp: add_asn1_eq opened_def added_def)
    qed
  qed
qed

text \<open>Appending to an open child, seen from its parent. The appending may use the structs at \<open>B\<close>.\<close>

lemma rep_child:
  assumes r: "rep s1 c st o1 [(ch, k, b)]" and a: "added malloc B s1 ch (st + length o1 + prefix_len k) b [] x True s2" and B: "c \<notin> B"
  shows "rep s2 c st o1 [(ch, k, b @ x)]" and "cbbs s2 c = cbbs s1 c"
proof -
  have c: "c \<noteq> ch" using r by simp
  show cc: "cbbs s2 c = cbbs s1 c" using a c B by (auto simp: added_def)
  have "take (st + length o1 + prefix_len k) (buf (buffer s2)) = take (st + length o1 + prefix_len k) (buf (buffer s1))"
    using a by (simp add: added_def extends_def)
  then have "take (st + length o1) (buf (buffer s2)) = take (st + length o1) (buf (buffer s1))"
    by (rule take_shorter) simp
  moreover have "take (length o1) (drop st (buf (buffer s1))) = o1" using r by simp
  ultimately have "take (length o1) (drop st (buf (buffer s2))) = o1" by (rule drop_prefix_eq)
  with r a cc show "rep s2 c st o1 [(ch, k, b @ x)]" by (auto simp: added_def)
qed

section \<open>Whole elements\<close>

lemma der_elem_length: "length (der_tag tag) + 1 + length cs \<le> length (der_elem tag cs)"
  using der_len_Cons [of "length cs"] by (auto simp: der_elem_def)

lemma elem_fails:
  assumes "error (buffer s')"
    and "\<And>out. collapse bs fs = Some out \<Longrightarrow> \<exists>n \<le> st + length out + length (der_elem tag cs). \<not> room malloc (buffer s) n"
  shows "added malloc A s c st bs fs (der_elem tag cs) False s'"
  using assms room_mono [of malloc "buffer s"] by (fastforce simp: added_def)

text \<open>An element whose header does not fit, whose contents do not fit, and whose contents are complete.\<close>

lemma open_fails: "opened malloc ch Asn1 s c st bs fs (der_tag tag) False s1 \<Longrightarrow> added malloc A s c st bs fs (der_elem tag cs) False s1"
  using der_elem_length [of tag cs]
  by (intro elem_fails) (auto simp: opened_def intro!: exI [of _ "st + length _ + length (der_tag tag) + 1"])

lemma open_good:
  assumes "opened malloc ch Asn1 s c st bs fs hdr True s1" and "\<not> error (buffer s)"
  shows "binv (buffer s1)" "\<not> error (buffer s1)" "rep s1 ch (len (buffer s1)) [] []"
  using assms by (auto simp: opened_def extends_def)

lemma body_fails:
  assumes "opened malloc ch Asn1 s c st bs fs (der_tag tag) True s1"
    and "added malloc B s1 ch (len (buffer s1)) [] [] cs False s2"
  shows "added malloc A s c st bs fs (der_elem tag cs) False s2"
proof -
  obtain out where o: "collapse bs fs = Some out" "rep s1 c st (out @ der_tag tag) [(ch, Asn1, [])]" "extends st (buffer s) (buffer s1)"
    using assms(1) by (auto simp: opened_def)
  have "len (buffer s1) = st + length out + length (der_tag tag) + 1" using o(2) by simp
  then have "len (buffer s1) + length cs \<le> st + length out + length (der_elem tag cs)" using der_elem_length [of tag cs] by simp
  moreover have "error (buffer s2)" "\<not> room malloc (buffer s) (len (buffer s1) + length cs)"
    using assms(2) room_extends [OF o(3)] by (auto simp: added_def)
  ultimately show ?thesis using o(1) by (intro elem_fails) auto
qed

lemma body_closes:
  assumes m: "malloc_ok malloc" and e: "\<not> error (buffer s)" and n: "length cs \<le> 0xFFFFFFFE" and B: "c \<notin> B"
    and op: "opened malloc ch Asn1 s c st bs fs (der_tag tag) True s1"
    and a: "added malloc B s1 ch (len (buffer s1)) [] [] cs True s2"
  shows "\<exists>ok s3. CBB_flush malloc c s2 = Some (ok, s3) \<and> added malloc (insert ch B) s c st bs fs (der_elem tag cs) ok s3"
proof -
  obtain out where o: "collapse bs fs = Some out" "rep s1 c st (out @ der_tag tag) [(ch, Asn1, [])]"
      "extends st (buffer s) (buffer s1)" "cbbs s1 c = (cbbs s c)\<lparr>child := Some ch\<rparr>"
      "\<And>a. a \<noteq> c \<Longrightarrow> a \<noteq> ch \<Longrightarrow> a \<notin> fst ` set fs \<Longrightarrow> cbbs s1 a = cbbs s a"
    using op by (auto simp: opened_def)
  have "len (buffer s1) = st + length (out @ der_tag tag) + prefix_len Asn1" using o(2) by simp
  with a have a2: "added malloc B s1 ch (st + length (out @ der_tag tag) + prefix_len Asn1) [] [] cs True s2" by simp
  note rc = rep_child [OF o(2) a2 B]
  have e2: "extends st (buffer s) (buffer s2)"
    using extends_trans [OF o(3), of "st + length (out @ der_tag tag) + prefix_len Asn1"] a2 by (simp add: added_def)
  then have g2: "binv (buffer s2)" "\<not> error (buffer s2)" using e by (simp_all add: extends_def)
  obtain ok s3 where 3: "CBB_flush malloc c s2 = Some (ok, s3)" "added malloc {} s2 c st (out @ der_tag tag) [(ch, Asn1, cs)] [] ok s3"
    using flush_added [OF m g2 rc(1), of "{}"] by auto
  have col: "collapse (out @ der_tag tag) [(ch, Asn1, cs)] = Some (out @ der_elem tag cs)" using n by (simp add: der_elem_def)
  have "added malloc (insert ch B) s c st bs fs (der_elem tag cs) ok s3"
  proof (cases ok)
    case True
    with 3(2) col have "rep s3 c st (out @ der_elem tag cs) []" "extends st (buffer s2) (buffer s3)"
        "cbbs s3 c = (cbbs s2 c)\<lparr>child := None\<rparr>" "\<And>a. a \<noteq> c \<Longrightarrow> a \<noteq> ch \<Longrightarrow> cbbs s3 a = cbbs s2 a"
      by (auto simp: added_def)
    with True o(1,4,5) rc(2) a2 extends_trans [OF e2] show ?thesis by (auto simp: added_def)
  next
    case False
    then have "error (buffer s3)" "\<not> room malloc (buffer s2) (st + length (out @ der_elem tag cs))"
      using 3(2) added_room [OF 3(2) col] by (auto simp: added_def)
    with False o(1) room_extends [OF e2] show ?thesis by (auto simp: added_def add.assoc)
  qed
  with 3(1) show ?thesis by blast
qed

lemma asn1_element_spec:
  assumes m: "malloc_ok malloc" and inv: "binv (buffer s)" "\<not> error (buffer s)" and r: "rep s c st bs fs" and c: "c \<noteq> ch"
    and n: "length cs \<le> 0xFFFFFFFE"
    and body: "\<And>s1 st1. binv (buffer s1) \<Longrightarrow> \<not> error (buffer s1) \<Longrightarrow> rep s1 ch st1 [] [] \<Longrightarrow>
      \<exists>ok s2. body s1 = Some (ok, s2) \<and> added malloc {} s1 ch st1 [] [] cs ok s2"
  shows "\<exists>ok s'. then_opt (CBB_add_asn1 malloc c ch tag s) (\<lambda>s. then_opt (body s) (CBB_flush malloc c)) = Some (ok, s') \<and>
    added malloc {ch} s c st bs fs (der_elem tag cs) ok s'"
proof -
  obtain ok1 s1 where 1: "CBB_add_asn1 malloc c ch tag s = Some (ok1, s1)" "opened malloc ch Asn1 s c st bs fs (der_tag tag) ok1 s1"
    using add_asn1_spec [OF m inv r c] by blast
  show ?thesis
  proof (cases ok1)
    case False
    with 1 open_fails show ?thesis by auto
  next
    case True
    with 1 have op: "opened malloc ch Asn1 s c st bs fs (der_tag tag) True s1" by simp
    obtain ok2 s2 where 2: "body s1 = Some (ok2, s2)" "added malloc {} s1 ch (len (buffer s1)) [] [] cs ok2 s2"
      using body [OF open_good [OF op inv(2)]] by blast
    show ?thesis
    proof (cases ok2)
      case False
      with 2 body_fails [OF op] 1(1) True show ?thesis by auto
    next
      case True
      with 2 body_closes [OF m inv(2) n _ op, of "{}" s2] 1(1) \<open>ok1\<close> show ?thesis by auto
    qed
  qed
qed

end
