(* ===== verification/CbbRoundtrip.thy ===== *)
theory CbbRoundtrip
  imports CbbSpec
begin

unbundle bit_operations_syntax

text \<open>
  The builder and the reader together: what \<open>CBB\<close> operations write is what \<open>CBS\<close> operations read, for
  integers, octet strings, booleans and length-prefixed contents; and the failure behaviour of the builder.
\<close>

section \<open>Contents of integers\<close>

lemma emit_started: "emit_uint64 True bs = bs"
  by (induction bs) auto

lemma emit_unsigned: "CBS_is_unsigned_asn1_integer (emit_uint64 False bs) \<and> be_nat (emit_uint64 False bs) = be_nat bs"
proof (induction bs)
  case Nil
  then show ?case by (simp add: is_unsigned_iff)
next
  case (Cons b bs)
  show ?case
  proof (cases "b = 0")
    case True
    with Cons show ?thesis by simp
  next
    case False
    then show ?thesis
      by (cases bs) (auto simp: is_unsigned_iff emit_started and_0x80_iff)
  qed
qed

lemma be_bytes_map: "be_bytes k v = map (\<lambda>i. of_nat (v div 256 ^ (k - Suc i))) [0..<k]"
proof (induction k arbitrary: v)
  case 0
  then show ?case by (simp add: be_bytes_def)
next
  case (Suc k)
  have "map (\<lambda>i. of_nat (v div 256 div 256 ^ (k - Suc i))) [0..<k] = (map (\<lambda>i. of_nat (v div 256 ^ (Suc k - Suc i))) [0..<k] :: u8 list)"
  proof (rule map_cong [OF refl])
    fix i assume "i \<in> set [0..<k]"
    then have "Suc k - Suc i = Suc (k - Suc i)" by simp
    then show "of_nat (v div 256 div 256 ^ (k - Suc i)) = (of_nat (v div 256 ^ (Suc k - Suc i)) :: u8)"
      by (simp only: power_Suc div_mult2_eq)
  qed
  then show ?case by (simp add: be_bytes_Suc Suc)
qed

lemma uint64_bytes: "map (\<lambda>i. ucast (drop_bit (8 * (7 - i)) v AND 0xFF)) [0..<8] = be_bytes 8 (unat (v :: u64))"
proof -
  have b: "ucast (w AND 0xFF) = (of_nat (unat w) :: u8)" for w :: u64
  proof -
    have "w AND 0xFF = take_bit 8 w" by (simp add: take_bit_eq_mask mask_eq_exp_minus_1)
    then have "unat (w AND 0xFF) = unat w mod 256" by (simp only: unsigned_take_bit_eq take_bit_nat_def) simp
    then show ?thesis by (intro word_eq_unatI) (simp add: unat_ucast_u8)
  qed
  have "be_bytes 8 n = map (\<lambda>i. of_nat (n div 256 ^ (7 - i))) [0..<8]" for n
    by (simp only: be_bytes_map) simp
  moreover have "unat (drop_bit (8 * k) v) = unat v div 256 ^ k" for k by (simp add: power_mult)
  ultimately show ?thesis by (simp only: b)
qed

lemma uint64_octets:
  "emit_uint64 False (map (\<lambda>i. ucast (drop_bit (8 * (7 - i)) v AND 0xFF)) [0..<8]) = uint_bytes (unat (v :: u64))"
proof -
  have "be_nat (be_bytes 8 (unat v)) = unat v" using unat_u64_lt [of v] by (intro be_nat_be_bytes) simp
  then show ?thesis using emit_unsigned [of "be_bytes 8 (unat v)"] unsigned_minimal
    unfolding uint64_bytes by metis
qed

section \<open>Elements\<close>

lemma add_asn1_uint64_spec:
  assumes "malloc_ok malloc" and "binv (buffer s)" "\<not> error (buffer s)" and "rep s c st bs fs" and "c \<noteq> ch"
  shows "\<exists>ok s'. CBB_add_asn1_uint64 malloc c ch v s = Some (ok, s') \<and>
    added malloc {ch} s c st bs fs (der_elem CBS_ASN1_INTEGER (uint_bytes (unat v))) ok s'"
  unfolding CBB_add_asn1_uint64_def uint64_octets
  using length_uint_bytes [of "unat v"] unat_u64_lt [of v]
  by (intro asn1_element_spec [OF assms] add_octets_spec [OF assms(1)]) simp_all

lemma add_asn1_octet_string_spec:
  assumes "malloc_ok malloc" and "binv (buffer s)" "\<not> error (buffer s)" and "rep s c st bs fs" and "c \<noteq> ch"
    and "length dat \<le> 0xFFFFFFFE"
  shows "\<exists>ok s'. CBB_add_asn1_octet_string malloc c ch dat s = Some (ok, s') \<and>
    added malloc {ch} s c st bs fs (der_elem CBS_ASN1_OCTETSTRING dat) ok s'"
  unfolding CBB_add_asn1_octet_string_def
  using assms(6) by (intro asn1_element_spec [OF assms] add_bytes_spec [OF assms(1)]) simp_all

lemma add_asn1_bool_spec:
  assumes "malloc_ok malloc" and "binv (buffer s)" "\<not> error (buffer s)" and "rep s c st bs fs" and "c \<noteq> ch"
  shows "\<exists>ok s'. CBB_add_asn1_bool malloc c ch v s = Some (ok, s') \<and>
    added malloc {ch} s c st bs fs (der_elem CBS_ASN1_BOOLEAN [if v then 0xFF else 0]) ok s'"
  unfolding CBB_add_asn1_bool_def
  by (intro asn1_element_spec [OF assms] add_u8_spec [OF assms(1)]) simp_all

section \<open>Length prefixes\<close>

lemma reserve_len: "cbb_buffer_reserve malloc n b = (True, b') \<Longrightarrow> len b' = len b"
  by (auto simp: cbb_buffer_reserve_def Let_def split: if_splits option.splits)

lemma open_prefixed_spec:
  assumes m: "malloc_ok malloc" and inv: "binv (buffer s)" "\<not> error (buffer s)" and r: "rep s c st bs fs" and c: "c \<noteq> ch"
    and n: "1 \<le> n" "n \<le> 3"
  shows "\<exists>ok s'. cbb_add_length_prefixed malloc c ch n s = Some (ok, s') \<and> opened malloc ch (Prefix n) s c st bs fs [] ok s'"
proof -
  let ?f = "\<lambda>s. Some (write_end malloc (replicate n 0) s)"
  have n64: "length (replicate n (0 :: u8)) < 2 ^ 64" using n by simp
  obtain ok s1 where 1: "then_opt (CBB_flush malloc c s) ?f = Some (ok, s1)"
      "added malloc {} s c st bs fs (replicate n 0) ok s1"
    using flush_write [OF m inv r n64] by blast
  have "cbb_add_length_prefixed malloc c ch n s =
      then_opt (then_opt (CBB_flush malloc c s) ?f) (\<lambda>s. Some (True, open_child c ch (len (buffer s) - n) n False s))"
    unfolding cbb_add_length_prefixed_def then_opt_assoc
  proof (rule arg_cong [of _ _ "then_opt (CBB_flush malloc c s)"], rule HOL.ext)
    fix s1
    show "(let off = len (buffer s1) in Some (and_then (on_buffer (cbb_buffer_add malloc n) s1) (\<lambda>s.
          let s = s\<lparr>buffer := (buffer s)\<lparr>buf := memset_zero off n (buf (buffer s))\<rparr>\<rparr> in (True, open_child c ch off n False s)))) =
        then_opt (?f s1) (\<lambda>s. Some (True, open_child c ch (len (buffer s) - n) n False s))"
      by (cases "cbb_buffer_reserve malloc n (buffer s1)")
        (auto simp: Let_def on_buffer_def write_end_def cbb_buffer_add_def memset_zero_def and_then_def dest!: reserve_len)
  qed
  then have eq: "cbb_add_length_prefixed malloc c ch n s =
      (if ok then Some (True, open_child c ch (len (buffer s1) - n) n False s1) else Some (False, s1))"
    by (simp add: 1(1))
  show ?thesis
  proof (cases ok)
    case True
    then have "opened malloc ch (Prefix n) s c st bs fs [] True (open_child c ch (len (buffer s1) - n) n False s1)"
      using opened_of_added [of malloc s c st bs fs "[]" "replicate n 0" s1 "Prefix n" ch] 1(2) n c by simp
    with eq True show ?thesis by auto
  next
    case False
    with 1(2) have "opened malloc ch (Prefix n) s c st bs fs [] False s1" by (simp add: opened_def added_def)
    with eq False show ?thesis by auto
  qed
qed

section \<open>Top-level builders\<close>

text \<open>A top-level \<open>CBB\<close> at \<open>c\<close> that has written \<open>out\<close>, has no open child and can grow.\<close>

definition top :: "malloc \<Rightarrow> nat \<Rightarrow> u8 list \<Rightarrow> cbb_state \<Rightarrow> bool" where
  "top malloc c out s \<longleftrightarrow> binv (buffer s) \<and> \<not> error (buffer s) \<and> rep s c 0 out [] \<and> \<not> is_child (cbbs s c) \<and>
     can_resize (buffer s) \<and> unlimited malloc"

lemma top_parts: "top malloc c out s \<Longrightarrow> binv (buffer s)" "top malloc c out s \<Longrightarrow> \<not> error (buffer s)" "top malloc c out s \<Longrightarrow> rep s c 0 out []"
  unfolding top_def by blast+

lemma init_top:
  assumes "malloc_ok malloc" and "unlimited malloc" and "n + 8 < 2 ^ 64"
  shows "\<exists>s. CBB_init malloc c n m = Some s \<and> top malloc c [] s"
proof -
  obtain b where b: "OPENSSL_malloc malloc n = Some b" using malloc_unlimited [OF assms(2,3)] by blast
  have "length b = n" using OPENSSL_malloc_length [OF assms(1) b] assms(3) by simp
  moreover have "OPENSSL_malloc malloc 32 \<noteq> None" by (rule malloc_unlimited [OF assms(2)]) simp
  ultimately show ?thesis using b assms
    by (simp add: CBB_init_def cbb_init_def top_def binv_def CBB_zero_def)
qed

lemma top_added:
  assumes t: "top malloc c out s" and a: "\<exists>ok s'. r = Some (ok, s') \<and> added malloc A s c 0 out [] new ok s'"
    and n: "length out + length new \<le> 2 ^ 62"
  shows "\<exists>s'. r = Some (True, s') \<and> top malloc c (out @ new) s'"
proof -
  obtain ok s' where r: "r = Some (ok, s')" "added malloc A s c 0 out [] new ok s'" using a by blast
  have ok using added_room [OF r(2)] t n by (simp add: room_def top_def)
  with r t show ?thesis by (auto simp: added_def top_def extends_def)
qed

lemma finish_top:
  assumes "malloc_ok malloc" and t: "top malloc c out s"
  shows "\<exists>s'. CBB_finish malloc c True s = Some (Some out, s')"
proof -
  have "CBB_flush malloc c s = Some (True, s)" using t by (simp add: CBB_flush.simps top_def)
  then show ?thesis using t by (auto simp: CBB_finish_def top_def)
qed

lemma get_asn1_octet_string: "length d < 2 ^ 32 \<Longrightarrow> CBS_get_asn1 tag (der_elem tag d @ rest) = (Some d, rest)"
  by (simp add: get_asn1_iff)

lemma get_asn1_bool:
  "CBS_get_asn1_bool (der_elem CBS_ASN1_BOOLEAN [if v then 0xFF else 0] @ rest) = (Some v, rest)"
  by (simp add: CBS_get_asn1_bool_def get_asn1_octet_string)

lemma get_uint64:
  "CBS_get_asn1_uint64 (der_elem CBS_ASN1_INTEGER (uint_bytes (unat v)) @ rest) = (Some v, rest)"
proof -
  have "CBS_get_asn1 CBS_ASN1_INTEGER (der_elem CBS_ASN1_INTEGER (uint_bytes (unat v)) @ rest) = (Some (uint_bytes (unat v)), rest)"
    using length_uint_bytes [of "unat v"] unat_u64_lt [of v] by (intro get_asn1_octet_string) simp
  moreover have "be_nat (uint_bytes (unat v)) < 2 ^ 64" using unat_u64_lt [of v] by (simp add: be_nat_uint_bytes)
  ultimately show ?thesis
    by (simp add: CBS_get_asn1_uint64_def unsigned_minimal be_nat_uint_bytes uint64_loop_eq)
qed

section \<open>Properties\<close>

text \<open>
  C12. \<open>CBB_flush\<close> returns on every well-formed tree of builders and refines the abstract stack: on success
  the contents of the flushed \<open>CBB\<close> are its bytes followed by each open child closed with its exact length,
  bytes before its contents are unchanged, and no child stays open. It fails only when some length does
  not fit its prefix or memory runs out, and then the error flag is set.
\<close>

theorem CBB_flush_refines:
  assumes "malloc_ok malloc" and "binv (buffer s)" and "\<not> error (buffer s)" and "rep s c st bs fs"
  shows "\<exists>ok s'. CBB_flush malloc c s = Some (ok, s') \<and>
     (if ok then (\<exists>out. collapse bs fs = Some out \<and> rep s' c st out [] \<and> binv (buffer s') \<and> \<not> error (buffer s') \<and>
          take st (buf (buffer s')) = take st (buf (buffer s)))
      else error (buffer s') \<and> (\<forall>out. collapse bs fs = Some out \<longrightarrow> \<not> room malloc (buffer s) (st + length out)))"
proof -
  obtain ok s' where f: "CBB_flush malloc c s = Some (ok, s')" "flushed malloc s c st bs fs ok s'"
    using flush_spec [OF assms] by blast
  show ?thesis
  proof (intro exI conjI, rule f(1), cases ok)
    case True
    with f(2) assms(3) show "if ok then (\<exists>out. collapse bs fs = Some out \<and> rep s' c st out [] \<and> binv (buffer s') \<and> \<not> error (buffer s') \<and>
          take st (buf (buffer s')) = take st (buf (buffer s)))
      else error (buffer s') \<and> (\<forall>out. collapse bs fs = Some out \<longrightarrow> \<not> room malloc (buffer s) (st + length out))"
      unfolding flushed_def extends_def if_True if_False by (simp only: if_True) blast
  next
    case False
    with f(2) show "if ok then (\<exists>out. collapse bs fs = Some out \<and> rep s' c st out [] \<and> binv (buffer s') \<and> \<not> error (buffer s') \<and>
          take st (buf (buffer s')) = take st (buf (buffer s)))
      else error (buffer s') \<and> (\<forall>out. collapse bs fs = Some out \<longrightarrow> \<not> room malloc (buffer s) (st + length out))"
      unfolding flushed_def by (simp only: if_False) blast
  qed
qed

definition demo_state :: cbb_state where
  "demo_state = \<lparr>buffer = \<lparr>buf = [9, 0, 7, 8, 0, 0], len = 4, cap = 6, can_resize = False, error = False\<rparr>,
     cbbs = (\<lambda>_. CBB_zero)(0 := CBB_zero\<lparr>base := True, child := Some 1\<rparr>,
       1 := CBB_zero\<lparr>base := True, is_child := True, offset := 1, pending_len_len := 1\<rparr>)\<rparr>"

theorem CBB_flush_refines_witness:
  "\<exists>s'. CBB_flush (\<lambda>_. None) 0 demo_state = Some (True, s') \<and> rep s' 0 0 [9, 2, 7, 8] []"
proof -
  have r: "rep demo_state 0 0 [9] [(1, Prefix 1, [7, 8])]" "binv (buffer demo_state)" "\<not> error (buffer demo_state)"
    by (simp_all add: demo_state_def binv_def CBB_zero_def)
  have m: "malloc_ok (\<lambda>_. None)" by (simp add: malloc_ok_def)
  have col: "collapse [9] [(1, Prefix 1, [7, 8])] = Some [9, 2, 7, 8]" by (simp add: be_bytes_def)
  have "room (\<lambda>_. None) (buffer demo_state) (0 + length [9, 2, 7, 8])" by (simp add: room_def demo_state_def)
  then show ?thesis
    using CBB_flush_refines [OF m r(2,3,1)] unfolding col by (auto simp del: rep.simps list.size split: if_splits)
qed

text \<open>
  C14. What the builder writes, the reader reads: with memory available a top-level builder accepts an
  INTEGER, an OCTET STRING and a BOOLEAN in a row, \<open>CBB_finish\<close> hands out the bytes, and reading them back in
  order gives the three values and consumes everything.
\<close>

theorem cbb_cbs_roundtrip:
  assumes "malloc_ok malloc" and "unlimited malloc" and "n + 8 < 2 ^ 64" and "c \<noteq> ch" and "length d \<le> 0xFFFFFFFE"
  shows "\<exists>s0 s1 s2 s3 s4 out rest1 rest2.
     CBB_init malloc c n m = Some s0 \<and> CBB_add_asn1_uint64 malloc c ch v s0 = Some (True, s1) \<and>
     CBB_add_asn1_octet_string malloc c ch d s1 = Some (True, s2) \<and> CBB_add_asn1_bool malloc c ch b s2 = Some (True, s3) \<and>
     CBB_finish malloc c True s3 = Some (Some out, s4) \<and>
     CBS_get_asn1_uint64 out = (Some v, rest1) \<and> CBS_get_asn1 CBS_ASN1_OCTETSTRING rest1 = (Some d, rest2) \<and>
     CBS_get_asn1_bool rest2 = (Some b, [])"
proof -
  let ?i = "der_elem CBS_ASN1_INTEGER (uint_bytes (unat v))" and ?d = "der_elem CBS_ASN1_OCTETSTRING d"
    and ?b = "der_elem CBS_ASN1_BOOLEAN [if b then 0xFF else 0]"
  have dl: "length (der_elem tag cs) \<le> 16 + length cs" for tag cs
    using der_tag_length(2) [of tag] len_octets_bounds(2) [of "length cs"] by (simp add: der_elem_def der_len_def)
  have "length ?i \<le> 25" using dl [of CBS_ASN1_INTEGER "uint_bytes (unat v)"] length_uint_bytes [of "unat v"] unat_u64_lt [of v]
    by simp
  moreover have "length ?d \<le> 2 ^ 33" "length ?b \<le> 17"
    using dl [of CBS_ASN1_OCTETSTRING d] dl [of CBS_ASN1_BOOLEAN "[if b then 0xFF else 0]"] assms(5) by simp_all
  ultimately have sz: "length ?i \<le> 2 ^ 62" "length ?i + length ?d \<le> 2 ^ 62" "length ?i + length ?d + length ?b \<le> 2 ^ 62" by simp_all
  obtain s0 where 0: "CBB_init malloc c n m = Some s0" "top malloc c [] s0" using init_top [OF assms(1-3)] by blast
  obtain s1 where 1: "CBB_add_asn1_uint64 malloc c ch v s0 = Some (True, s1)" "top malloc c ([] @ ?i) s1"
    using top_added [OF 0(2) add_asn1_uint64_spec [OF assms(1) top_parts [OF 0(2)] assms(4)]] sz(1) by auto
  obtain s2 where 2: "CBB_add_asn1_octet_string malloc c ch d s1 = Some (True, s2)" "top malloc c (([] @ ?i) @ ?d) s2"
    using top_added [OF 1(2) add_asn1_octet_string_spec [OF assms(1) top_parts [OF 1(2)] assms(4,5)]] sz(2) by auto
  obtain s3 where 3: "CBB_add_asn1_bool malloc c ch b s2 = Some (True, s3)" "top malloc c ((([] @ ?i) @ ?d) @ ?b) s3"
    using top_added [OF 2(2) add_asn1_bool_spec [OF assms(1) top_parts [OF 2(2)] assms(4)]] sz(3) by auto
  obtain s4 where 4: "CBB_finish malloc c True s3 = Some (Some (?i @ ?d @ ?b), s4)"
    using finish_top [OF assms(1) 3(2)] by auto
  have "CBS_get_asn1_uint64 (?i @ ?d @ ?b) = (Some v, ?d @ ?b)" by (rule get_uint64)
  moreover have "CBS_get_asn1 CBS_ASN1_OCTETSTRING (?d @ ?b) = (Some d, ?b)"
    using assms(5) by (intro get_asn1_octet_string) simp
  moreover have "CBS_get_asn1_bool ?b = (Some b, [])" using get_asn1_bool [of b "[]"] by simp
  ultimately show ?thesis using 0(1) 1(1) 2(1) 3(1) 4 by blast
qed

theorem cbb_cbs_roundtrip_witness:
  "\<exists>s0 s1 s2 s3 s4 out rest1 rest2.
     CBB_init (\<lambda>n. Some (replicate n 0)) 0 8 (\<lambda>_. CBB_zero) = Some s0 \<and>
     CBB_add_asn1_uint64 (\<lambda>n. Some (replicate n 0)) 0 1 300 s0 = Some (True, s1) \<and>
     CBB_add_asn1_octet_string (\<lambda>n. Some (replicate n 0)) 0 1 [1, 2] s1 = Some (True, s2) \<and>
     CBB_add_asn1_bool (\<lambda>n. Some (replicate n 0)) 0 1 True s2 = Some (True, s3) \<and>
     CBB_finish (\<lambda>n. Some (replicate n 0)) 0 True s3 = Some (Some out, s4) \<and>
     CBS_get_asn1_uint64 out = (Some 300, rest1) \<and> CBS_get_asn1 CBS_ASN1_OCTETSTRING rest1 = (Some [1, 2], rest2) \<and>
     CBS_get_asn1_bool rest2 = (Some True, [])"
  by (rule cbb_cbs_roundtrip) (simp_all add: malloc_ok_def unlimited_def)

end
