(* ===== verification/Ber.thy ===== *)
theory Ber
  imports CbbRoundtrip
begin

unbundle bit_operations_syntax

text \<open>
  The conversion of BER to DER (crypto/bytestring/ber.c). Its reference is a parser of BER into trees of
  elements and the DER encoding of a tree, in which the fragments of a constructed string are joined. The
  theory shows that the conversion, a recursion over the input that keeps one open builder per level,
  returns and computes the reference, that its output never needs conversion again, and that
  \<open>CBS_get_asn1_implicit_string\<close> joins the fragments of a constructed string.
\<close>

section \<open>The conversion\<close>

definition is_eoc :: "nat \<Rightarrow> CBS \<Rightarrow> bool" where
  "is_eoc header_len contents \<longleftrightarrow> header_len = 2 \<and> length contents = 2 \<and> memcmp contents [0, 0] 2 = 0"

text \<open>
  The loop of \<open>cbs_convert_ber\<close>: its code, what is left of \<open>in\<close>, and the builder; \<open>None\<close> when a builder call
  would not return. The structs are the top-level \<open>CBB\<close> at address 0 and \<open>out_contents_storage\<close> of the call
  at depth \<open>d\<close> at address \<open>Suc d\<close>. The recursive calls check their depth first, as the callee does.
\<close>

partial_function (option) convert_loop ::
  "malloc \<Rightarrow> u32 \<Rightarrow> bool \<Rightarrow> nat \<Rightarrow> nat \<Rightarrow> CBS \<Rightarrow> cbb_state \<Rightarrow> (bool \<times> CBS \<times> cbb_state) option" where
  "convert_loop malloc string_tag looking_for_eoc depth out inp s =
     (if inp = [] then Some (\<not> looking_for_eoc, inp, s)
      else
        case CBS_get_any_ber_asn1_element inp of
          (None, inp) \<Rightarrow> Some (False, inp, s)
        | (Some (contents, tag, header_len, _), inp) \<Rightarrow>
            if is_eoc header_len contents then Some (looking_for_eoc, inp, s)
            else if string_tag \<noteq> 0 \<and> tag AND NOT CBS_ASN1_CONSTRUCTED \<noteq> string_tag then Some (False, inp, s)
            else
              let fragmented = (string_tag = 0 \<and> tag AND CBS_ASN1_CONSTRUCTED \<noteq> 0 \<and> is_string_type tag);
                  out_tag = (if fragmented then tag AND NOT CBS_ASN1_CONSTRUCTED else tag);
                  child_string_tag = (if fragmented then out_tag else string_tag);
                  out_contents = (if string_tag \<noteq> 0 then out else Suc depth)
              in Option.bind (if string_tag \<noteq> 0 then Some (True, s) else CBB_add_asn1 malloc out (Suc depth) out_tag s) (\<lambda>(ok, s).
                if \<not> ok then Some (False, inp, s)
                else Option.bind
                  (if length contents = header_len \<and> header_len > 0 \<and> contents ! (header_len - 1) = 0x80 then
                     if depth + 1 > kMaxDepth then Some (False, inp, s)
                     else convert_loop malloc child_string_tag True (depth + 1) out_contents inp s
                   else
                     case CBS_skip header_len contents of
                       (ok, contents) \<Rightarrow>
                         if \<not> ok then Some (False, inp, s)
                         else if tag AND CBS_ASN1_CONSTRUCTED \<noteq> 0 then
                           if depth + 1 > kMaxDepth then Some (False, inp, s)
                           else Option.bind (convert_loop malloc child_string_tag False (depth + 1) out_contents contents s)
                                  (\<lambda>(ok, _, s). Some (ok, inp, s))
                         else Option.bind (CBB_add_bytes malloc out_contents contents s) (\<lambda>(ok, s). Some (ok, inp, s)))
                  (\<lambda>(ok, inp, s).
                    if \<not> ok then Some (False, inp, s)
                    else Option.bind (CBB_flush malloc out s) (\<lambda>(ok, s).
                      if \<not> ok then Some (False, inp, s)
                      else convert_loop malloc string_tag looking_for_eoc depth out inp s))))"

definition cbs_convert_ber ::
  "malloc \<Rightarrow> u32 \<Rightarrow> bool \<Rightarrow> nat \<Rightarrow> nat \<Rightarrow> CBS \<Rightarrow> cbb_state \<Rightarrow> (bool \<times> CBS \<times> cbb_state) option" where
  "cbs_convert_ber malloc string_tag looking_for_eoc depth out inp s =
     (if depth > kMaxDepth then Some (False, inp, s)
      else convert_loop malloc string_tag looking_for_eoc depth out inp s)"

text \<open>
  \<open>CBS_asn1_ber_to_der\<close>: on success \<open>out\<close> and whether it is in new storage (\<open>*out_storage\<close> is not NULL); and
  what is left of \<open>in\<close>. Every failure frees the builder, which leaves no result. The argument \<open>m\<close> is the memory of
  the structs before the call.
\<close>

definition CBS_asn1_ber_to_der :: "malloc \<Rightarrow> (nat \<Rightarrow> CBB) \<Rightarrow> CBS \<Rightarrow> ((CBS \<times> bool) option \<times> CBS) option" where
  "CBS_asn1_ber_to_der malloc m inp =
     (case cbs_find_ber 0 inp of
        None \<Rightarrow> Some (None, inp)
      | Some False \<Rightarrow>
          (case CBS_get_any_asn1_element inp of
             (None, inp) \<Rightarrow> Some (None, inp)
           | (Some (out, _, _), inp) \<Rightarrow> Some (Some (out, False), inp))
      | Some True \<Rightarrow>
          (case CBB_init malloc 0 (length inp) m of
             None \<Rightarrow> Some (None, inp)
           | Some s \<Rightarrow>
               Option.bind (cbs_convert_ber malloc 0 False 0 0 inp s) (\<lambda>(ok, inp, s).
                 if \<not> ok then Some (None, inp)
                 else Option.bind (CBB_finish malloc 0 True s) (\<lambda>(res, s).
                   Some (map_option (\<lambda>out. (out, True)) res, inp)))))"

text \<open>
  \<open>CBS_get_asn1_implicit_string\<close>, with the loop over the chunks. The results are as above; the builder is
  the only struct, at address 0.
\<close>

lemma der_elem_longer: "length (der_elem tag c) \<ge> 2 + length c" "der_elem tag c \<noteq> []"
  using der_tag_length [of tag] der_len_Cons [of "length c"] by (auto simp: der_elem_def)

function implicit_chunks :: "malloc \<Rightarrow> u32 \<Rightarrow> CBS \<Rightarrow> cbb_state \<Rightarrow> (bool \<times> cbb_state) option" where
  "implicit_chunks malloc inner_tag cbs s =
     (if length cbs > 0 then
        case CBS_get_asn1 inner_tag cbs of
          (None, _) \<Rightarrow> Some (False, s)
        | (Some chunk, cbs) \<Rightarrow> then_opt (CBB_add_bytes malloc 0 chunk s) (implicit_chunks malloc inner_tag cbs)
      else Some (True, s))"
  by pat_completeness auto
termination
  by (relation "measure (\<lambda>(m, t, cbs, s). length cbs)") (auto simp: get_asn1_iff der_elem_longer dest!: sym [of _ "CBS_get_asn1 _ _"])

declare implicit_chunks.simps [simp del]

definition CBS_get_asn1_implicit_string ::
  "malloc \<Rightarrow> (nat \<Rightarrow> CBB) \<Rightarrow> u32 \<Rightarrow> u32 \<Rightarrow> CBS \<Rightarrow> ((CBS \<times> bool) option \<times> CBS) option" where
  "CBS_get_asn1_implicit_string malloc m outer_tag inner_tag inp =
     (if CBS_peek_asn1_tag outer_tag inp then
        case CBS_get_asn1 outer_tag inp of (out, inp) \<Rightarrow> Some (map_option (\<lambda>out. (out, False)) out, inp)
      else
        case CBB_init malloc 0 (length inp) m of
          None \<Rightarrow> Some (None, inp)
        | Some s \<Rightarrow>
        case CBS_get_asn1 (outer_tag OR CBS_ASN1_CONSTRUCTED) inp of
          (None, inp) \<Rightarrow> Some (None, inp)
        | (Some cbs, inp) \<Rightarrow>
            Option.bind (implicit_chunks malloc inner_tag cbs s) (\<lambda>(ok, s).
              if \<not> ok then Some (None, inp)
              else Option.bind (CBB_finish malloc 0 True s) (\<lambda>(res, s).
                Some (map_option (\<lambda>out. (out, True)) res, inp))))"

section \<open>The reference\<close>

text \<open>What the input starts with, and what follows it; a constructed element is given with its contents.\<close>

datatype head = At_end | Malformed | Eoc "u8 list" | Primitive u32 "u8 list" "u8 list" | Constructed u32 "u8 list" "u8 list" | Indefinite u32 "u8 list"

definition ber_head :: "CBS \<Rightarrow> head" where
  "ber_head inp =
     (if inp = [] then At_end
      else
        case CBS_get_any_ber_asn1_element inp of
          (None, _) \<Rightarrow> Malformed
        | (Some (contents, tag, header_len, _), rest) \<Rightarrow>
            if is_eoc header_len contents then Eoc rest
            else if length contents = header_len \<and> header_len > 0 \<and> contents ! (header_len - 1) = 0x80 then Indefinite tag rest
            else if tag AND CBS_ASN1_CONSTRUCTED \<noteq> 0 then Constructed tag (drop header_len contents) rest
            else Primitive tag (drop header_len contents) rest)"

text \<open>Trees of elements, and the parser of BER into trees: to the end of the input, or to an EOC.\<close>

datatype tlv = Leaf u32 "u8 list" | Node u32 "tlv list"

function ber_parse :: "bool \<Rightarrow> nat \<Rightarrow> CBS \<Rightarrow> (tlv list \<times> CBS) option" where
  "ber_parse to_eoc depth inp =
     (case ber_head inp of
        At_end \<Rightarrow> if to_eoc then None else Some ([], [])
      | Malformed \<Rightarrow> None
      | Eoc rest \<Rightarrow> if to_eoc then Some ([], rest) else None
      | Primitive tag c rest \<Rightarrow> map_option (apfst ((#) (Leaf tag c))) (ber_parse to_eoc depth rest)
      | Constructed tag c rest \<Rightarrow>
          if depth \<ge> kMaxDepth then None
          else
            (case ber_parse False (Suc depth) c of
               None \<Rightarrow> None
             | Some (us, _) \<Rightarrow> map_option (apfst ((#) (Node tag us))) (ber_parse to_eoc depth rest))
      | Indefinite tag rest \<Rightarrow>
          if depth \<ge> kMaxDepth then None
          else
            (case ber_parse True (Suc depth) rest of
               None \<Rightarrow> None
             | Some (us, rest) \<Rightarrow> map_option (apfst ((#) (Node tag us))) (ber_parse to_eoc depth rest)))"
  by pat_completeness auto

text \<open>The DER encoding of a forest; below a constructed string with tag \<open>st\<close> only the fragments are kept.\<close>

fun der_forest :: "u32 \<Rightarrow> tlv list \<Rightarrow> u8 list option" where
  "der_forest st [] = Some []"
| "der_forest st (Leaf tag c # ts) =
     (if st = 0 then map_option ((@) (der_elem tag c)) (der_forest st ts)
      else if tag AND NOT CBS_ASN1_CONSTRUCTED = st then map_option ((@) c) (der_forest st ts)
      else None)"
| "der_forest st (Node tag us # ts) =
     (let prim = tag AND NOT CBS_ASN1_CONSTRUCTED in
      case (if st \<noteq> 0 then if prim = st then der_forest st us else None
            else if is_string_type tag then map_option (der_elem prim) (der_forest prim us)
            else map_option (der_elem tag) (der_forest 0 us)) of
        None \<Rightarrow> None
      | Some e \<Rightarrow> map_option ((@) e) (der_forest st ts))"

definition ber_der :: "u32 \<Rightarrow> bool \<Rightarrow> nat \<Rightarrow> CBS \<Rightarrow> (u8 list \<times> CBS) option" where
  "ber_der st to_eoc depth inp =
     (case ber_parse to_eoc depth inp of
        None \<Rightarrow> None
      | Some (ts, rest) \<Rightarrow> map_option (\<lambda>der. (der, rest)) (der_forest st ts))"

text \<open>The heads are prefixes of the input, with two octets of header at least.\<close>

lemma get_ber_split:
  assumes "CBS_get_any_ber_asn1_element inp = (Some (contents, tag, header_len, found), rest)"
  shows "inp = contents @ rest \<and> 2 \<le> header_len \<and> header_len \<le> length contents"
  using get_any_split [OF assms [unfolded CBS_get_any_ber_asn1_element_def]] by simp

lemma ber_head_sizes:
  "ber_head inp = Eoc rest \<Longrightarrow> 2 + length rest \<le> length inp"
  "ber_head inp = Primitive tag c rest \<Longrightarrow> 2 + length c + length rest \<le> length inp"
  "ber_head inp = Constructed tag c rest \<Longrightarrow> 2 + length c + length rest \<le> length inp"
  "ber_head inp = Indefinite tag rest \<Longrightarrow> 2 + length rest \<le> length inp"
  by (auto simp: ber_head_def dest!: get_ber_split split: if_splits option.splits prod.splits)

lemma ber_parse_rest_dom:
  assumes "ber_parse_dom (to_eoc, depth, inp)"
  shows "ber_parse to_eoc depth inp = Some (ts, rest) \<Longrightarrow> length rest \<le> length inp"
  using assms
proof (induction to_eoc depth inp arbitrary: ts rest rule: ber_parse.pinduct [consumes 1, case_names step])
  case (step to_eoc depth inp)
  note sizes = ber_head_sizes [of inp]
  show ?case
  proof (cases "ber_head inp")
    case (Primitive tag c r)
    with step sizes show ?thesis by (force simp: ber_parse.psimps)
  next
    case (Constructed tag c r)
    with step.prems step.hyps obtain us r1 ts' where "ber_parse to_eoc depth r = Some (ts', rest)"
        "ber_parse False (Suc depth) c = Some (us, r1)" "\<not> kMaxDepth \<le> depth"
      by (auto simp: ber_parse.psimps split: if_splits option.splits)
    with step.IH(3) [OF Constructed] sizes(3) [OF Constructed] show ?thesis by fastforce
  next
    case (Indefinite tag r)
    with step.prems step.hyps obtain us r1 ts' where "ber_parse to_eoc depth r1 = Some (ts', rest)"
        "ber_parse True (Suc depth) r = Some (us, r1)" "\<not> kMaxDepth \<le> depth"
      by (auto simp: ber_parse.psimps split: if_splits option.splits)
    with step.IH(4,5) [OF Indefinite] sizes(4) [OF Indefinite] show ?thesis by fastforce
  qed (use step sizes in \<open>auto simp: ber_parse.psimps split: if_splits\<close>)
qed

termination ber_parse
  by (relation "measure (\<lambda>(to_eoc, depth, inp). length inp)")
    (auto dest!: ber_head_sizes ber_parse_rest_dom)

declare ber_parse.simps [simp del]

section \<open>The reference, element by element\<close>

text \<open>
  The contents of the first element, below a string with tag \<open>ct\<close>, and what follows it. The contents make
  the element, or are its share of a constructed string.
\<close>

definition contents_of :: "u32 \<Rightarrow> nat \<Rightarrow> head \<Rightarrow> (u8 list \<times> CBS) option" where
  "contents_of ct depth h =
     (case h of
        Primitive tag c rest \<Rightarrow> Some (c, rest)
      | Constructed tag c rest \<Rightarrow>
          if depth \<ge> kMaxDepth then None else map_option (\<lambda>(der, _). (der, rest)) (ber_der ct False (Suc depth) c)
      | Indefinite tag rest \<Rightarrow> if depth \<ge> kMaxDepth then None else ber_der ct True (Suc depth) rest
      | _ \<Rightarrow> None)"

definition fragmented :: "u32 \<Rightarrow> u32 \<Rightarrow> bool" where
  "fragmented st tag \<longleftrightarrow> st = 0 \<and> tag AND CBS_ASN1_CONSTRUCTED \<noteq> 0 \<and> is_string_type tag"

definition out_tag :: "u32 \<Rightarrow> u32 \<Rightarrow> u32" where
  "out_tag st tag = (if fragmented st tag then tag AND NOT CBS_ASN1_CONSTRUCTED else tag)"

definition child_tag :: "u32 \<Rightarrow> u32 \<Rightarrow> u32" where
  "child_tag st tag = (if fragmented st tag then tag AND NOT CBS_ASN1_CONSTRUCTED else st)"

fun head_tag :: "head \<Rightarrow> u32 option" where
  "head_tag (Primitive tag _ _) = Some tag"
| "head_tag (Constructed tag _ _) = Some tag"
| "head_tag (Indefinite tag _) = Some tag"
| "head_tag _ = None"

lemma ber_der_end: "ber_head inp = At_end \<Longrightarrow> ber_der st to_eoc depth inp = (if to_eoc then None else Some ([], []))"
  by (simp add: ber_der_def ber_parse.simps [of to_eoc])

lemma ber_der_malformed: "ber_head inp = Malformed \<Longrightarrow> ber_der st to_eoc depth inp = None"
  by (simp add: ber_der_def ber_parse.simps [of to_eoc])

lemma ber_der_eoc: "ber_head inp = Eoc rest \<Longrightarrow> ber_der st to_eoc depth inp = (if to_eoc then Some ([], rest) else None)"
  by (simp add: ber_der_def ber_parse.simps [of to_eoc])

lemma indefinite_constructed:
  assumes "CBS_get_any_ber_asn1_element inp = (Some (contents, tag, header_len, found), rest)"
    and "length contents = header_len" and "contents ! (header_len - 1) = 0x80"
  shows "tag AND CBS_ASN1_CONSTRUCTED \<noteq> 0"
proof
  assume t: "tag AND CBS_ASN1_CONSTRUCTED = 0"
  from assms(1) obtain b header len where h: "parse_asn1_tag inp = (Some tag, b # header)"
      "asn1_length True tag (length inp - length header) b header = Some (len, header_len, found)"
      "len \<le> length inp" "contents = take len inp"
    by (auto simp: CBS_get_any_ber_asn1_element_def cbs_get_any_asn1_element_def get_u8_cases get_then_def CBS_get_bytes_def cbs_get_def
        split: option.splits prod.splits if_splits list.splits)
  from h(1) have inp: "inp = der_tag tag @ b # header" by (simp add: parse_tag_iff)
  define k where "k = length inp - length header"
  have k: "k = Suc (length (der_tag tag))" by (simp add: k_def inp)
  have "k \<le> 12" using der_tag_length [of tag] by (simp add: k)
  note len = h(2) [folded k_def, unfolded asn1_length_eq [OF this]]
  have l: "len = header_len" using assms(2) h(3,4) by simp
  show False
  proof (cases "unat b < 128")
    case True
    with len l have "b = 0" "header_len = k" by (auto simp: Let_def unat_eq_0)
    with assms(3) h(3,4) l k show False by (simp add: inp nth_append)
  next
    case False
    define n where "n = unat b mod 128"
    from len l False t have n: "0 < n" "n \<le> length header" "be_nat (take n header) = 0" "header_len = k + n"
      by (auto simp: Let_def n_def split: if_splits)
    then have "take n header ! (n - 1) \<in> set (take n header)" by (intro nth_mem) simp
    with n(1,3) have "header ! (n - 1) = 0" by (simp add: be_nat_zero_iff)
    moreover have "contents ! (header_len - 1) = header ! (n - 1)"
      using n(1,2,4) h(3,4) l k by (simp add: inp nth_append nth_Cons split: nat.splits)
    ultimately show False using assms(3) by simp
  qed
qed

lemma head_constructed:
  "ber_head inp = Indefinite tag rest \<Longrightarrow> tag AND CBS_ASN1_CONSTRUCTED \<noteq> 0"
  "ber_head inp = Primitive tag c rest \<Longrightarrow> tag AND CBS_ASN1_CONSTRUCTED = 0"
  "ber_head inp = Constructed tag c rest \<Longrightarrow> tag AND CBS_ASN1_CONSTRUCTED \<noteq> 0"
  using indefinite_constructed by (auto simp: ber_head_def split: if_splits option.splits prod.splits)

lemma ber_der_elem:
  assumes "head_tag (ber_head inp) = Some tag"
  shows "ber_der st to_eoc depth inp =
    (if st \<noteq> 0 \<and> tag AND NOT CBS_ASN1_CONSTRUCTED \<noteq> st then None
     else case contents_of (child_tag st tag) depth (ber_head inp) of
            None \<Rightarrow> None
          | Some (c, rest) \<Rightarrow> map_option (apfst ((@) (if st \<noteq> 0 then c else der_elem (out_tag st tag) c))) (ber_der st to_eoc depth rest))"
proof (cases "ber_head inp")
  case (Primitive t c rest)
  with assms head_constructed(2) [OF Primitive] show ?thesis
    by (auto simp: ber_der_def ber_parse.simps [of to_eoc depth inp] contents_of_def out_tag_def child_tag_def fragmented_def
        option.map_comp comp_def split: option.splits)
next
  case (Constructed t c rest)
  with assms head_constructed(3) [OF Constructed] show ?thesis
    by (auto simp: ber_der_def ber_parse.simps [of to_eoc depth inp] contents_of_def out_tag_def child_tag_def fragmented_def
        option.map_comp comp_def split: option.splits)
next
  case (Indefinite t rest)
  with assms head_constructed(1) [OF Indefinite] show ?thesis
    by (auto simp: ber_der_def ber_parse.simps [of to_eoc depth inp] contents_of_def out_tag_def child_tag_def fragmented_def
        option.map_comp comp_def split: option.splits)
qed (use assms in simp_all)

text \<open>Every element is at least two octets shorter than the input, and its encoding is at most eight times as long.\<close>

lemma head_cases:
  obtains "ber_head inp = At_end" | "ber_head inp = Malformed" | rest where "ber_head inp = Eoc rest"
  | tag where "head_tag (ber_head inp) = Some tag"
  by (cases "ber_head inp") auto

lemma der_elem_size: "length (der_elem tag cs) \<le> 16 + length cs"
  using der_tag_length(2) [of tag] len_octets_bounds(2) [of "length cs"] by (simp add: der_elem_def der_len_def)

lemma contents_bound:
  assumes IH: "\<And>st to_eoc depth i der rest. ber_der st to_eoc depth i = Some (der, rest) \<Longrightarrow> length i < length inp \<Longrightarrow>
      length der + 8 * length rest \<le> 8 * length i"
    and h: "contents_of ct depth (ber_head inp) = Some (der, rest)"
  shows "length der + 8 * length rest + 16 \<le> 8 * length inp"
proof (cases "ber_head inp")
  case (Constructed t c r)
  with h obtain r2 where "ber_der ct False (Suc depth) c = Some (der, r2)" "r = rest"
    by (auto simp: contents_of_def split: if_splits)
  with IH ber_head_sizes(3) [OF Constructed] show ?thesis by fastforce
next
  case (Indefinite t r)
  with h IH ber_head_sizes(4) [OF Indefinite] show ?thesis by (fastforce simp: contents_of_def split: if_splits)
qed (use h ber_head_sizes(2) [of inp] in \<open>auto simp: contents_of_def\<close>)

lemma ber_der_size: "ber_der st to_eoc depth inp = Some (der, rest) \<Longrightarrow> length der + 8 * length rest \<le> 8 * length inp"
proof (induction inp arbitrary: st to_eoc depth der rest rule: length_induct)
  case (1 inp)
  then have IH: "length der + 8 * length rest \<le> 8 * length inp'"
    if "ber_der st to_eoc depth inp' = Some (der, rest)" "length inp' < length inp" for st to_eoc depth inp' der rest
    using that by blast
  show ?case
  proof (cases rule: head_cases [of inp])
    case (4 tag)
    from "1.prems"(1) obtain c r der2 where h: "contents_of (child_tag st tag) depth (ber_head inp) = Some (c, r)"
        "ber_der st to_eoc depth r = Some (der2, rest)" "der = (if st \<noteq> 0 then c else der_elem (out_tag st tag) c) @ der2"
      unfolding ber_der_elem [OF 4] by (auto split: if_splits option.splits)
    have c: "length c + 8 * length r + 16 \<le> 8 * length inp" by (rule contents_bound [OF _ h(1)]) (rule IH)
    then have "length r < length inp" by simp
    from c IH [OF h(2) this] h(3) der_elem_size [of "out_tag st tag" c] show ?thesis by auto
  qed (use "1.prems" ber_head_sizes(1) [of inp] in \<open>auto simp: ber_der_end ber_der_malformed ber_der_eoc split: if_splits\<close>)
qed

lemma contents_size: "contents_of ct depth (ber_head inp) = Some (der, rest) \<Longrightarrow> length der + 8 * length rest + 16 \<le> 8 * length inp"
  by (rule contents_bound) (rule ber_der_size)

section \<open>The conversion refines the reference\<close>

text \<open>The conversion of the contents of an element into the \<open>CBB\<close> at \<open>c\<close>.\<close>

definition convert_contents ::
  "malloc \<Rightarrow> u32 \<Rightarrow> nat \<Rightarrow> nat \<Rightarrow> head \<Rightarrow> cbb_state \<Rightarrow> (bool \<times> CBS \<times> cbb_state) option" where
  "convert_contents malloc ct depth c h s =
     (case h of
        Primitive tag cs rest \<Rightarrow> Option.bind (CBB_add_bytes malloc c cs s) (\<lambda>(ok, s). Some (ok, rest, s))
      | Constructed tag cs rest \<Rightarrow>
          if depth \<ge> kMaxDepth then Some (False, rest, s)
          else Option.bind (convert_loop malloc ct False (Suc depth) c cs s) (\<lambda>(ok, _, s). Some (ok, rest, s))
      | Indefinite tag rest \<Rightarrow>
          if depth \<ge> kMaxDepth then Some (False, rest, s) else convert_loop malloc ct True (Suc depth) c rest s
      | _ \<Rightarrow> None)"

fun head_rest :: "head \<Rightarrow> CBS" where
  "head_rest (Primitive _ _ rest) = rest"
| "head_rest (Constructed _ _ rest) = rest"
| "head_rest (Indefinite _ rest) = rest"
| "head_rest _ = []"

lemma convert_end: "ber_head inp = At_end \<Longrightarrow> convert_loop malloc st to_eoc depth c inp s = Some (\<not> to_eoc, [], s)"
  by (subst convert_loop.simps) (simp add: ber_head_def split: if_splits option.splits prod.splits)

lemma convert_malformed: "ber_head inp = Malformed \<Longrightarrow> \<exists>i. convert_loop malloc st to_eoc depth c inp s = Some (False, i, s)"
proof -
  assume "ber_head inp = Malformed"
  then obtain i where "inp \<noteq> []" "CBS_get_any_ber_asn1_element inp = (None, i)"
    by (auto simp: ber_head_def split: if_splits option.splits prod.splits)
  then show ?thesis by (subst convert_loop.simps) simp
qed

lemma convert_eoc: "ber_head inp = Eoc rest \<Longrightarrow> convert_loop malloc st to_eoc depth c inp s = Some (to_eoc, rest, s)"
proof -
  assume "ber_head inp = Eoc rest"
  then obtain contents tag hl f where "inp \<noteq> []" "CBS_get_any_ber_asn1_element inp = (Some (contents, tag, hl, f), rest)"
      "is_eoc hl contents"
    by (auto simp: ber_head_def split: if_splits option.splits prod.splits)
  then show ?thesis by (subst convert_loop.simps) simp
qed

lemma convert_elem:
  assumes "head_tag (ber_head inp) = Some tag"
  shows "convert_loop malloc st to_eoc depth c inp s =
    (let rest = head_rest (ber_head inp) in
     if st \<noteq> 0 \<and> tag AND NOT CBS_ASN1_CONSTRUCTED \<noteq> st then Some (False, rest, s)
     else Option.bind (if st \<noteq> 0 then Some (True, s) else CBB_add_asn1 malloc c (Suc depth) (out_tag st tag) s) (\<lambda>(ok, s).
       if \<not> ok then Some (False, rest, s)
       else Option.bind (convert_contents malloc (child_tag st tag) depth (if st \<noteq> 0 then c else Suc depth) (ber_head inp) s)
         (\<lambda>(ok, inp, s).
           if \<not> ok then Some (False, inp, s)
           else Option.bind (CBB_flush malloc c s) (\<lambda>(ok, s).
             if \<not> ok then Some (False, inp, s) else convert_loop malloc st to_eoc depth c inp s))))"
proof -
  obtain contents hl f rest where g: "CBS_get_any_ber_asn1_element inp = (Some (contents, tag, hl, f), rest)" "inp \<noteq> []"
      "\<not> is_eoc hl contents"
    using assms by (auto simp: ber_head_def split: if_splits option.splits prod.splits)
  have skip: "CBS_skip hl contents = (True, drop hl contents)" using get_ber_split [OF g(1)] by (simp add: CBS_skip_def cbs_get_def)
  note e = convert_loop.simps [of malloc st to_eoc depth c inp s]
  have d: "depth + 1 = Suc depth" by simp
  note defs = convert_contents_def out_tag_def child_tag_def fragmented_def
  show ?thesis
  proof (cases "length contents = hl \<and> hl > 0 \<and> contents ! (hl - 1) = 0x80")
    case True
    then have h: "ber_head inp = Indefinite tag rest" using g by (simp add: ber_head_def)
    show ?thesis unfolding e using g True
      by (simp add: h defs d Let_def Suc_le_eq not_less cong: if_cong)
  next
    case False
    then have F: "(length contents = hl \<and> hl > 0 \<and> contents ! (hl - 1) = 0x80) = False" by blast
    show ?thesis
    proof (cases "tag AND CBS_ASN1_CONSTRUCTED = 0")
      case True
      then have h: "ber_head inp = Primitive tag (drop hl contents) rest" using g by (simp add: ber_head_def F del: One_nat_def)
      show ?thesis unfolding e using g True skip
        by (simp add: h defs d Let_def F bind_assoc split_def del: One_nat_def cong: if_cong)
    next
      case nz: False
      then have h: "ber_head inp = Constructed tag (drop hl contents) rest" using g by (simp add: ber_head_def F del: One_nat_def)
      show ?thesis unfolding e using g nz skip
        by (simp add: h defs d Let_def F Suc_le_eq not_less split_def del: One_nat_def cong: if_cong)
    qed
  qed
qed

text \<open>
  What a conversion from \<open>s\<close> does: it returns; it fails if the reference does; else it appends the reference's
  output to the \<open>CBB\<close> at \<open>c\<close>, and when memory suffices it succeeds and leaves what the reference leaves.
\<close>

definition conv ::
  "malloc \<Rightarrow> nat set \<Rightarrow> cbb_state \<Rightarrow> nat \<Rightarrow> nat \<Rightarrow> u8 list \<Rightarrow> (u8 list \<times> CBS) option \<Rightarrow> (bool \<times> CBS \<times> cbb_state) option \<Rightarrow> bool" where
  "conv malloc A s c p bs spec r \<longleftrightarrow>
     (\<exists>ok i s'. r = Some (ok, i, s') \<and>
        (case spec of
           None \<Rightarrow> \<not> ok
         | Some (der, rest) \<Rightarrow> added malloc A s c p bs [] der ok s' \<and> (ok \<longrightarrow> i = rest)))"

lemma convE:
  assumes "conv malloc A s c p bs spec r"
  obtains (fail) i s' where "r = Some (False, i, s')" "\<And>der rest. spec = Some (der, rest) \<Longrightarrow> added malloc A s c p bs [] der False s'"
  | (ok) der rest s' where "r = Some (True, rest, s')" "spec = Some (der, rest)" "added malloc A s c p bs [] der True s'"
proof -
  from assms obtain b i s' where r: "r = Some (b, i, s')" and sp: "case spec of None \<Rightarrow> \<not> b
      | Some (der, rest) \<Rightarrow> added malloc A s c p bs [] der b s' \<and> (b \<longrightarrow> i = rest)"
    unfolding conv_def by blast
  show thesis
  proof (cases b)
    case True
    with r sp show thesis by (auto split: option.splits intro: ok)
  next
    case False
    with r sp show thesis by (intro fail [of i s']) auto
  qed
qed

lemma conv_fail: "r = Some (False, i, s') \<Longrightarrow> (\<And>der rest. spec = Some (der, rest) \<Longrightarrow> added malloc A s c p bs [] der False s') \<Longrightarrow>
    conv malloc A s c p bs spec r"
  by (cases spec) (auto simp: conv_def)

lemma conv_mono: "conv malloc A s c p bs spec r \<Longrightarrow> A \<subseteq> B \<Longrightarrow> conv malloc B s c p bs spec r"
  unfolding conv_def using added_frame by (fastforce split: option.splits)

text \<open>An element whose contents are converted into the \<open>CBB\<close> itself, or into a child at \<open>ch\<close>; \<open>k\<close> is what follows.\<close>

lemma conv_inline:
  assumes m: "malloc_ok malloc" and inv: "binv (buffer s)" "\<not> error (buffer s)" and r: "rep s c p bs []"
    and body: "conv malloc A s c p bs bspec (body s)"
    and k: "\<And>s1 der rest. bspec = Some (der, rest) \<Longrightarrow> binv (buffer s1) \<Longrightarrow> \<not> error (buffer s1) \<Longrightarrow> rep s1 c p (bs @ der) [] \<Longrightarrow>
      conv malloc A s1 c p (bs @ der) (spec rest) (k rest s1)"
  shows "conv malloc A s c p bs
     (case bspec of None \<Rightarrow> None | Some (der, rest) \<Rightarrow> map_option (apfst ((@) der)) (spec rest))
     (Option.bind (body s) (\<lambda>(ok, i, s). if \<not> ok then Some (False, i, s) else
        Option.bind (CBB_flush malloc c s) (\<lambda>(ok, s). if \<not> ok then Some (False, i, s) else k i s)))"
  using body
proof (cases rule: convE)
  case (fail i s')
  then show ?thesis by (intro conv_fail [of _ i s']) (auto split: option.splits dest: added_fail)
next
  case (ok der rest s1)
  note g = added_good [OF ok(3) inv(2)]
  then have r1: "rep s1 c p (bs @ der) []" by auto
  have f: "CBB_flush malloc c s1 = Some (True, s1)" using r1 g(2) by (simp add: CBB_flush.simps)
  from k [OF ok(2) g(1,2) r1] show ?thesis
  proof (cases rule: convE)
    case (fail i s')
    show ?thesis
      by (rule conv_fail [of _ i s']) (use ok f fail added_trans [OF ok(3)] in \<open>auto\<close>)
  next
    case two: (ok der2 rest2 s2)
    then show ?thesis using ok f added_trans [OF ok(3) _ two(3)] by (auto simp: conv_def)
  qed
qed

lemma conv_child:
  assumes m: "malloc_ok malloc" and inv: "binv (buffer s)" "\<not> error (buffer s)" and r: "rep s c p bs []"
    and c: "c \<noteq> ch" "c \<notin> B" and n: "\<And>der rest. bspec = Some (der, rest) \<Longrightarrow> length der \<le> 0xFFFFFFFE"
    and body: "\<And>s1. binv (buffer s1) \<Longrightarrow> \<not> error (buffer s1) \<Longrightarrow> rep s1 ch (len (buffer s1)) [] [] \<Longrightarrow>
      conv malloc B s1 ch (len (buffer s1)) [] bspec (body s1)"
    and k: "\<And>s1 der rest. bspec = Some (der, rest) \<Longrightarrow> binv (buffer s1) \<Longrightarrow> \<not> error (buffer s1) \<Longrightarrow>
      rep s1 c p (bs @ der_elem tag der) [] \<Longrightarrow> conv malloc (insert ch B) s1 c p (bs @ der_elem tag der) (spec rest) (k rest s1)"
  shows "conv malloc (insert ch B) s c p bs
     (case bspec of None \<Rightarrow> None | Some (der, rest) \<Rightarrow> map_option (apfst ((@) (der_elem tag der))) (spec rest))
     (Option.bind (CBB_add_asn1 malloc c ch tag s) (\<lambda>(ok, s). if \<not> ok then Some (False, r0, s) else
        Option.bind (body s) (\<lambda>(ok, i, s). if \<not> ok then Some (False, i, s) else
          Option.bind (CBB_flush malloc c s) (\<lambda>(ok, s). if \<not> ok then Some (False, i, s) else k i s))))"
    (is "conv _ _ _ _ _ _ ?spec ?r")
proof -
  obtain ok1 s1 where 1: "CBB_add_asn1 malloc c ch tag s = Some (ok1, s1)" "opened malloc ch Asn1 s c p bs [] (der_tag tag) ok1 s1"
    using add_asn1_spec [OF m inv r c(1)] by blast
  have bad: "conv malloc (insert ch B) s c p bs ?spec ?r" if "?r = Some (False, i, s')"
      "\<And>der rest. bspec = Some (der, rest) \<Longrightarrow> added malloc (insert ch B) s c p bs [] (der_elem tag der) False s'" for i s'
    by (rule conv_fail [OF that(1)]) (use that(2) in \<open>auto split: option.splits dest: added_fail\<close>)
  show ?thesis
  proof (cases ok1)
    case False
    with 1 show ?thesis by (intro bad [of r0 s1] open_fails) simp_all
  next
    case True
    with 1 have op: "opened malloc ch Asn1 s c p bs [] (der_tag tag) True s1" by simp
    from body [OF open_good [OF op inv(2)]] show ?thesis
    proof (cases rule: convE)
      case (fail i s2)
      show ?thesis by (rule bad [of i s2]) (use fail 1 True body_fails [OF op] in auto)
    next
      case (ok der rest s2)
      obtain ok3 s3 where 3: "CBB_flush malloc c s2 = Some (ok3, s3)" "added malloc (insert ch B) s c p bs [] (der_elem tag der) ok3 s3"
        using body_closes [OF m inv(2) n [OF ok(2)] c(2) op ok(3)] by blast
      have run: "?r = (if \<not> ok3 then Some (False, rest, s3) else k rest s3)" using 1(1) True ok(1) 3(1) by simp
      show ?thesis
      proof (cases ok3)
        case False
        with run 3 ok(2) show ?thesis by (intro bad [of rest s3]) simp_all
      next
        case True
        with 3 have a: "added malloc (insert ch B) s c p bs [] (der_elem tag der) True s3" by simp
        note g = added_good [OF a inv(2)]
        then have "rep s3 c p (bs @ der_elem tag der) []" by auto
        from k [OF ok(2) g(1,2) this] show ?thesis
        proof (cases rule: convE)
          case (fail i s4)
          then show ?thesis using run True ok(2) added_trans [OF a] by (intro conv_fail [of _ i s4]) auto
        next
          case two: (ok der2 rest2 s4)
          then show ?thesis using run True ok(2) added_trans [OF a _ two(3)] by (auto simp: conv_def)
        qed
      qed
    qed
  qed
qed

text \<open>The conversion returns and does what the reference says.\<close>

lemma convert_conv:
  assumes m: "malloc_ok malloc" and n: "length inp < 2 ^ 28"
    and inv: "binv (buffer s)" "\<not> error (buffer s)" and r: "rep s c p bs []" and c: "c \<le> depth"
  shows "conv malloc {depth<..} s c p bs (ber_der st to_eoc depth inp) (convert_loop malloc st to_eoc depth c inp s)"
  using n inv r c
proof (induction inp arbitrary: st to_eoc depth c s p bs rule: length_induct)
  case (1 inp)
  then have IH: "conv malloc {d<..} s c p bs (ber_der st te d i) (convert_loop malloc st te d c i s)"
    if "length i < length inp" "binv (buffer s)" "\<not> error (buffer s)" "rep s c p bs []" "c \<le> d" for i st te d c s p bs
    using that by fastforce
  note inv = "1.prems"(2,3) and r = "1.prems"(4) and c = "1.prems"(5)
  note sizes = ber_head_sizes [of inp]
  show ?case
  proof (cases rule: head_cases [of inp])
    case 1
    then show ?thesis using added_nil [OF r inv(1)] by (simp add: conv_def convert_end ber_der_end)
  next
    case 2
    then show ?thesis using convert_malformed [OF 2, of malloc st to_eoc depth c s] by (auto simp: conv_def ber_der_malformed)
  next
    case (3 rest)
    then show ?thesis using added_nil [OF r inv(1)] by (simp add: conv_def convert_eoc ber_der_eoc)
  next
    case (4 tag)
    let ?h = "ber_head inp" and ?ct = "child_tag st tag"
    have body: "conv malloc {Suc depth<..} s c p bs (contents_of ?ct depth ?h) (convert_contents malloc ?ct depth c ?h s)"
      if "binv (buffer s)" "\<not> error (buffer s)" "rep s c p bs []" "c \<le> Suc depth" for s c p bs
    proof (cases "?h")
      case (Primitive t cs rest)
      have "length cs < 2 ^ 64" using sizes(2) [OF Primitive] "1.prems"(1) by simp
      from add_bytes_spec [OF m that(1-3) this, of "{Suc depth<..}"] show ?thesis
        by (auto simp: Primitive contents_of_def convert_contents_def conv_def)
    next
      case (Constructed t cs rest)
      have "length cs < length inp" using sizes(3) [OF Constructed] by simp
      from IH [OF this that, of ?ct False] show ?thesis
      proof (cases rule: convE)
        case (fail i s')
        then show ?thesis
          by (intro conv_fail [of _ rest "if depth \<ge> kMaxDepth then s else s'"])
            (auto simp: Constructed contents_of_def convert_contents_def split: if_splits)
      qed (auto simp: Constructed contents_of_def convert_contents_def conv_def)
    next
      case (Indefinite t rest)
      have "length rest < length inp" using sizes(4) [OF Indefinite] by simp
      from IH [OF this that, of ?ct True] show ?thesis
        by (auto simp: Indefinite contents_of_def convert_contents_def conv_def)
    qed (use 4 in simp_all)
    have rest: "length rest < length inp" and size: "length der \<le> 0xFFFFFFFE"
      if "contents_of ?ct depth ?h = Some (der, rest)" for der rest
      using contents_size [OF that] "1.prems"(1) by simp_all
    show ?thesis
    proof (cases "st \<noteq> 0 \<and> tag AND NOT CBS_ASN1_CONSTRUCTED \<noteq> st")
      case True
      then show ?thesis unfolding ber_der_elem [OF 4] convert_elem [OF 4] by (auto simp: conv_def Let_def)
    next
      case False
      show ?thesis
      proof (cases "st = 0")
        case True
        have "insert (Suc depth) {Suc depth<..} = {depth<..}" by auto
        with conv_child [OF m inv r, of "Suc depth" "{Suc depth<..}" "contents_of ?ct depth ?h"
            "convert_contents malloc ?ct depth (Suc depth) ?h" "out_tag st tag" "ber_der st to_eoc depth"
            "convert_loop malloc st to_eoc depth c" "head_rest ?h"]
        show ?thesis using True c body rest size IH
          unfolding ber_der_elem [OF 4] convert_elem [OF 4] Let_def by (simp del: rep.simps cong: option.case_cong)
      next
        case nz: False
        have "conv malloc {depth<..} s c p bs (contents_of ?ct depth ?h) (convert_contents malloc ?ct depth c ?h s)"
          using body [OF inv r] c conv_mono by fastforce
        with conv_inline [OF m inv r] show ?thesis using False nz c rest IH
          unfolding ber_der_elem [OF 4] convert_elem [OF 4] Let_def by (simp del: rep.simps cong: option.case_cong)
      qed
    qed
  qed
qed

section \<open>The output is DER\<close>

lemma get_any_ber_der:
  assumes "cbs_get_any_asn1_element False cbs = (Some e, rest)"
  shows "cbs_get_any_asn1_element True cbs = (Some e, rest)"
proof -
  have "asn1_length True tag h b header = Some l" if "asn1_length False tag h b header = Some l" for tag h b header l
    using that by (auto simp: asn1_length_def Let_def split: if_splits option.splits prod.splits)
  with assms show ?thesis
    by (auto simp: cbs_get_any_asn1_element_def split: option.splits prod.splits) 
qed

lemma find_ber_der_elem:
  assumes "length c < 2 ^ 32"
    and "tag AND CBS_ASN1_CONSTRUCTED = 0 \<or> \<not> is_string_type tag \<and> depth < kMaxDepth \<and> find_ber_loop (Suc depth) False c = Some False"
  shows "find_ber_loop depth b (der_elem tag c @ tail) = find_ber_loop depth False tail"
proof -
  let ?h = "length (der_tag tag @ der_len (length c))"
  have "cbs_get_any_asn1_element False (der_elem tag c @ tail) = (Some (der_elem tag c, tag, ?h, False), tail)"
    using assms(1) by (simp only: get_any_iff) auto
  then have g: "CBS_get_any_ber_asn1_element (der_elem tag c @ tail) = (Some (der_elem tag c, tag, ?h, False), tail)"
    unfolding CBS_get_any_ber_asn1_element_def by (rule get_any_ber_der)
  have s: "CBS_skip ?h (der_elem tag c) = (True, c)" by (simp add: CBS_skip_def cbs_get_def der_elem_def)
  show ?thesis using assms(2) g s der_elem_longer(2) [of tag c] by (subst find_ber_loop.simps) auto
qed

lemma clear_constructed: "(tag AND NOT CBS_ASN1_CONSTRUCTED) AND CBS_ASN1_CONSTRUCTED = 0"
  by (simp add: bit_eq_iff bit_simps)

lemma ber_der_find:
  "ber_der 0 to_eoc depth inp = Some (der, rest) \<Longrightarrow> length inp < 2 ^ 28 \<Longrightarrow>
   find_ber_loop depth False (der @ tail) = find_ber_loop depth False tail"
proof (induction inp arbitrary: to_eoc depth der rest tail rule: length_induct)
  case (1 inp)
  then have IH: "find_ber_loop d False (der @ tail) = find_ber_loop d False tail"
    if "ber_der 0 te d i = Some (der, r)" "length i < length inp" for te d i der r tail
    using that by fastforce
  show ?case
  proof (cases rule: head_cases [of inp])
    case (4 tag)
    with "1.prems"(1) obtain c r der2 where h: "contents_of (child_tag 0 tag) depth (ber_head inp) = Some (c, r)"
        "ber_der 0 to_eoc depth r = Some (der2, rest)" "der = der_elem (out_tag 0 tag) c @ der2"
      unfolding ber_der_elem [OF 4] by (auto split: option.splits)
    note size = contents_size [OF h(1)]
    have "find_ber_loop depth False (der_elem (out_tag 0 tag) c @ der2 @ tail) = find_ber_loop depth False (der2 @ tail)"
    proof (rule find_ber_der_elem)
      show "length c < 2 ^ 32" using size "1.prems"(2) by simp
      show "out_tag 0 tag AND CBS_ASN1_CONSTRUCTED = 0 \<or> \<not> is_string_type (out_tag 0 tag) \<and> depth < kMaxDepth \<and>
          find_ber_loop (Suc depth) False c = Some False"
      proof (cases "fragmented 0 tag \<or> tag AND CBS_ASN1_CONSTRUCTED = 0")
        case True
        then show ?thesis by (auto simp: out_tag_def clear_constructed)
      next
        case False
        have e: "find_ber_loop (Suc depth) False [] = Some False" by (simp add: find_ber_loop.simps)
        have "depth < kMaxDepth \<and> (\<exists>te i r'. ber_der 0 te (Suc depth) i = Some (c, r') \<and> length i < length inp)"
        proof (cases "ber_head inp")
          case (Primitive t c' r')
          with False 4 head_constructed(2) [OF Primitive] show ?thesis by simp
        next
          case (Constructed t c' r')
          with False h(1) ber_head_sizes(3) [OF Constructed] show ?thesis
            by (fastforce simp: contents_of_def child_tag_def split: if_splits)
        next
          case (Indefinite t r')
          with False h(1) ber_head_sizes(4) [OF Indefinite] show ?thesis
            by (fastforce simp: contents_of_def child_tag_def split: if_splits)
        qed (use 4 in simp_all)
        with IH [where tail = "[]"] e False show ?thesis by (fastforce simp: out_tag_def fragmented_def)
      qed
    qed
    with IH [OF h(2)] size h(3) show ?thesis by simp
  qed (use "1.prems" in \<open>auto simp: ber_der_end ber_der_malformed ber_der_eoc split: if_splits\<close>)
qed

lemma ber_der_takes_all: "ber_der st False depth inp = Some (der, rest) \<Longrightarrow> rest = []"
proof (induction inp arbitrary: der rule: length_induct)
  case (1 inp)
  show ?case
  proof (cases rule: head_cases [of inp])
    case (4 tag)
    with "1.prems" obtain c r der2 where h: "contents_of (child_tag st tag) depth (ber_head inp) = Some (c, r)"
        "ber_der st False depth r = Some (der2, rest)"
      unfolding ber_der_elem [OF 4] by (auto split: option.splits if_splits)
    have "length r < length inp" using contents_size [OF h(1)] by simp
    with "1.IH" h(2) show ?thesis by blast
  qed (use "1.prems" in \<open>auto simp: ber_der_end ber_der_malformed ber_der_eoc\<close>)
qed

lemma ber_der_first:
  assumes "ber_der 0 False depth inp = Some (der, rest)" and "inp \<noteq> []" and "length inp < 2 ^ 28"
  shows "\<exists>tag c tail. der = der_elem tag c @ tail \<and> length c < 2 ^ 32"
proof (cases rule: head_cases [of inp])
  case (4 tag)
  with assms(1) obtain c r der2 where h: "contents_of (child_tag 0 tag) depth (ber_head inp) = Some (c, r)"
      "der = der_elem (out_tag 0 tag) c @ der2"
    unfolding ber_der_elem [OF 4] by (auto split: option.splits)
  then show ?thesis using contents_size [OF h(1)] assms(3) by (intro exI [of _ "out_tag 0 tag"] exI [of _ c] exI [of _ der2]) simp
next
  case 1
  with assms(2) show ?thesis by (simp add: ber_head_def split: option.splits prod.splits if_splits)
qed (use assms(1) in \<open>simp_all add: ber_der_malformed ber_der_eoc\<close>)

section \<open>Properties\<close>

lemma top_start: "top malloc c [] s \<Longrightarrow> binv (buffer s) \<and> \<not> error (buffer s) \<and> rep s c 0 [] []"
  by (simp add: top_def)

lemma convert_run:
  assumes "malloc_ok malloc" and "unlimited malloc" and "length inp < 2 ^ 28" and "cbs_find_ber 0 inp = Some True"
  shows "\<exists>rest. CBS_asn1_ber_to_der malloc m inp = Some
    (case ber_der 0 False 0 inp of None \<Rightarrow> (None, rest) | Some (der, _) \<Rightarrow> (Some (der, True), []))"
proof -
  have "length inp + 8 < 2 ^ 64" using assms(3) by simp
  then obtain s where s: "CBB_init malloc 0 (length inp) m = Some s" "top malloc 0 [] s"
    using init_top [OF assms(1,2)] by blast
  from top_start [OF s(2)] convert_conv [OF assms(1,3), of s 0 0 "[]" 0 0 False]
  have "conv malloc {0<..} s 0 0 [] (ber_der 0 False 0 inp) (convert_loop malloc 0 False 0 0 inp s)" by simp
  then show ?thesis
  proof (cases rule: convE)
    case (fail i s')
    have "ber_der 0 False 0 inp = None"
    proof (rule ccontr)
      assume "ber_der 0 False 0 inp \<noteq> None"
      then obtain der rest where d: "ber_der 0 False 0 inp = Some (der, rest)" by auto
      have "room malloc (buffer s) (0 + length [] + length der)"
        using ber_der_size [OF d] assms(3) s(2) by (simp add: room_def top_def)
      with added_room [OF fail(2) [OF d], of "[]"] show False by simp
    qed
    with fail(1) s(1) assms(4) show ?thesis by (simp add: CBS_asn1_ber_to_der_def cbs_convert_ber_def)
  next
    case (ok der rest s')
    have "top malloc 0 ([] @ der) s'" using ok(3) s(2) by (auto simp: added_def top_def extends_def)
    then obtain s'' where "CBB_finish malloc 0 True s' = Some (Some der, s'')" using finish_top [OF assms(1)] by fastforce
    with ok s(1) assms(4) ber_der_takes_all [OF ok(2)] show ?thesis by (simp add: CBS_asn1_ber_to_der_def cbs_convert_ber_def)
  qed
qed

text \<open>
  C15. Refinement. When the input needs conversion and memory is available, \<open>CBS_asn1_ber_to_der\<close> returns, and
  its result is the DER encoding of the parsed input, in new storage, with all of the input consumed; it
  fails exactly when the input is not a sequence of BER elements nested at most \<open>kMaxDepth\<close> deep, or a fragment
  of a constructed string has another tag than the string.
\<close>

theorem ber_to_der_converts:
  assumes "malloc_ok malloc" and "unlimited malloc" and "length inp < 2 ^ 28" and "cbs_find_ber 0 inp = Some True"
  shows "\<exists>rest. CBS_asn1_ber_to_der malloc m inp = Some
    (case Option.bind (ber_parse False 0 inp) (\<lambda>(ts, _). der_forest 0 ts) of
       None \<Rightarrow> (None, rest)
     | Some der \<Rightarrow> (Some (der, True), []))"
  using convert_run [OF assms, of m] by (auto simp: ber_der_def split: option.splits)

text \<open>
  C16. The output of the conversion needs no conversion: after \<open>CBS_asn1_ber_to_der\<close> has converted,
  \<open>cbs_find_ber\<close> finds nothing in the output, and running it on the output again takes the first element of the
  output as it is, without new storage.
\<close>

theorem ber_to_der_idempotent:
  assumes "malloc_ok malloc" and "unlimited malloc" and "length inp < 2 ^ 28"
    and "CBS_asn1_ber_to_der malloc m inp = Some (Some (out, True), rest)"
  shows "cbs_find_ber 0 out = Some False \<and>
    (\<exists>tag c rest'. CBS_asn1_ber_to_der malloc m out = Some (Some (der_elem tag c, False), rest') \<and> out = der_elem tag c @ rest')"
proof -
  from assms(4) have f: "cbs_find_ber 0 inp = Some True"
    by (auto simp: CBS_asn1_ber_to_der_def split: option.splits bool.splits prod.splits)
  with convert_run [OF assms(1-3), of m] assms(4) obtain r where d: "ber_der 0 False 0 inp = Some (out, r)"
    by (auto split: option.splits prod.splits)
  have ne: "inp \<noteq> []" using f by (auto simp: cbs_find_ber_def find_ber_loop.simps)
  have "cbs_find_ber 0 out = Some False"
    using ber_der_find [OF d assms(3), of "[]"] by (simp add: cbs_find_ber_def find_ber_loop.simps [of 0 False "[]"])
  moreover obtain tag c rest' where o: "out = der_elem tag c @ rest'" "length c < 2 ^ 32"
    using ber_der_first [OF d ne assms(3)] by blast
  then have "\<exists>hl. CBS_get_any_asn1_element out = (Some (der_elem tag c, tag, hl), rest')"
    unfolding get_any_element_iff by blast
  ultimately have "CBS_asn1_ber_to_der malloc m out = Some (Some (der_elem tag c, False), rest')"
    by (auto simp: CBS_asn1_ber_to_der_def)
  with \<open>cbs_find_ber 0 out = Some False\<close> o(1) show ?thesis by blast
qed

lemma implicit_chunks_spec:
  assumes m: "malloc_ok malloc" and t: "top malloc 0 out s" and n: "length out + length (concat (map (der_elem tag) cs)) < 2 ^ 32"
  shows "\<exists>s'. implicit_chunks malloc tag (concat (map (der_elem tag) cs)) s = Some (True, s') \<and> top malloc 0 (out @ concat cs) s'"
  using t n
proof (induction cs arbitrary: s out)
  case Nil
  then show ?case by (simp add: implicit_chunks.simps)
next
  case (Cons c cs)
  have c: "length c < 2 ^ 32" using Cons.prems(2) der_elem_longer(1) [of c tag] by simp
  then have g: "CBS_get_asn1 tag (der_elem tag c @ concat (map (der_elem tag) cs)) = (Some c, concat (map (der_elem tag) cs))"
    by (simp add: get_asn1_iff)
  have "length c < 2 ^ 64" "length out + length c \<le> 2 ^ 62" using c Cons.prems(2) der_elem_longer(1) [of c tag] by simp_all
  with top_added [OF Cons.prems(1) add_bytes_spec [OF m top_parts [OF Cons.prems(1)], where A = "{}"]]
  have "\<exists>s1. CBB_add_bytes malloc 0 c s = Some (True, s1) \<and> top malloc 0 (out @ c) s1" by blast
  then obtain s1 where 1: "CBB_add_bytes malloc 0 c s = Some (True, s1)" "top malloc 0 (out @ c) s1" by blast
  have "length (out @ c) + length (concat (map (der_elem tag) cs)) < 2 ^ 32"
    using Cons.prems(2) der_elem_longer(1) [of c tag] by simp
  from Cons.IH [OF 1(2) this] 1(1) g der_elem_longer(2) [of tag c] show ?case
    by (subst implicit_chunks.simps) auto
qed

text \<open>
  C17. An implicitly tagged string is read in both forms: a primitive one gives its contents in place, and a
  constructed one, whose chunks are primitive elements with the inner tag, gives the chunks joined in new
  storage. In both cases exactly the string is consumed.
\<close>

theorem implicit_string_joins:
  assumes "malloc_ok malloc" and "unlimited malloc" and "outer AND CBS_ASN1_CONSTRUCTED = 0"
    and "length (concat (map (der_elem inner) chunks)) < 2 ^ 32" and "length d < 2 ^ 32" and "length rest < 2 ^ 63"
  shows "CBS_get_asn1_implicit_string malloc m outer inner (der_elem outer d @ rest) = Some (Some (d, False), rest) \<and>
    CBS_get_asn1_implicit_string malloc m outer inner
      (der_elem (outer OR CBS_ASN1_CONSTRUCTED) (concat (map (der_elem inner) chunks)) @ rest) =
      Some (Some (concat chunks, True), rest)"
proof
  have peek: "CBS_peek_asn1_tag t (der_elem t' c @ rest) \<longleftrightarrow> t' = t" for t t' c
    using parse_tag_iff [of "der_elem t' c @ rest" t' "der_len (length c) @ c @ rest"] der_tag_length(1) [of t']
    by (auto simp: CBS_peek_asn1_tag_def der_elem_def)
  show "CBS_get_asn1_implicit_string malloc m outer inner (der_elem outer d @ rest) = Some (Some (d, False), rest)"
    using assms(5) by (simp add: CBS_get_asn1_implicit_string_def peek get_asn1_octet_string)
  let ?cs = "concat (map (der_elem inner) chunks)" and ?t = "outer OR CBS_ASN1_CONSTRUCTED"
  let ?inp = "der_elem ?t ?cs @ rest"
  have "?t \<noteq> outer"
  proof
    assume "?t = outer"
    then have "outer AND CBS_ASN1_CONSTRUCTED = (outer OR CBS_ASN1_CONSTRUCTED) AND CBS_ASN1_CONSTRUCTED" by simp
    moreover have "(outer OR CBS_ASN1_CONSTRUCTED) AND CBS_ASN1_CONSTRUCTED = CBS_ASN1_CONSTRUCTED"
      by (simp add: bit_eq_iff bit_simps)
    moreover have "CBS_ASN1_CONSTRUCTED \<noteq> 0" by code_simp
    ultimately show False using assms(3) by simp
  qed
  then have p: "\<not> CBS_peek_asn1_tag outer ?inp" by (simp add: peek)
  have "length ?inp + 8 < 2 ^ 64" using der_elem_size [of ?t ?cs] assms(4,6) by simp
  then obtain s where s: "CBB_init malloc 0 (length ?inp) m = Some s" "top malloc 0 [] s"
    using init_top [OF assms(1,2)] by blast
  have "length [] + length ?cs < 2 ^ 32" using assms(4) by simp
  from implicit_chunks_spec [OF assms(1) s(2) this] obtain s' where c: "implicit_chunks malloc inner ?cs s = Some (True, s')"
      "top malloc 0 (concat chunks) s'" by auto
  obtain s'' where "CBB_finish malloc 0 True s' = Some (Some (concat chunks), s'')" using finish_top [OF assms(1) c(2)] by blast
  moreover have "CBS_get_asn1 ?t ?inp = (Some ?cs, rest)" using assms(4) by (rule get_asn1_octet_string)
  ultimately show "CBS_get_asn1_implicit_string malloc m outer inner ?inp = Some (Some (concat chunks, True), rest)"
    unfolding CBS_get_asn1_implicit_string_def using p s(1) c(1) by simp
qed

lemma constructed_sample: "0x80000001 OR CBS_ASN1_CONSTRUCTED = (0xA0000001 :: u32)" "0x80000001 AND CBS_ASN1_CONSTRUCTED = (0 :: u32)"
  by code_simp+

theorem implicit_string_joins_witness:
  "CBS_get_asn1_implicit_string (\<lambda>n. Some (replicate n 0)) (\<lambda>_. CBB_zero) 0x80000001 0x4 [0x81, 1, 7, 9] = Some (Some ([7], False), [9]) \<and>
   CBS_get_asn1_implicit_string (\<lambda>n. Some (replicate n 0)) (\<lambda>_. CBB_zero) 0x80000001 0x4 [0xA1, 6, 4, 1, 7, 4, 1, 8, 9] =
     Some (Some ([7, 8], True), [9])"
proof -
  have e: "der_elem 0x80000001 [7] = [0x81, 1, 7]" "der_elem 0x4 [7] = [4, 1, 7]" "der_elem 0x4 [8] = [4, 1, 8]"
      "der_elem 0xA0000001 [4, 1, 7, 4, 1, 8] = [0xA1, 6, 4, 1, 7, 4, 1, 8]"
    by (simp_all add: der_elem_def der_tag_def der_len_def)
  show ?thesis
    using implicit_string_joins [where malloc = "\<lambda>n. Some (replicate n 0)" and m = "\<lambda>_. CBB_zero" and outer = "0x80000001"
        and inner = "0x4" and chunks = "[[7], [8]]" and d = "[7]" and rest = "[9]"]
    by (simp add: e constructed_sample malloc_ok_def unlimited_def)
qed

text \<open>
  A constructed OCTET STRING of indefinite length with two fragments, one of them constructed again, before a
  NULL element. The header says that one element is read; the conversion takes both.
\<close>

definition ber_sample :: "u8 list" where
  "ber_sample = [0x24, 0x80, 0x04, 0x01, 0xAA, 0x24, 0x03, 0x04, 0x01, 0xBB, 0x00, 0x00, 0x05, 0x00]"

lemma sample_heads:
  "ber_head ber_sample = Indefinite 0x20000004 [0x04, 0x01, 0xAA, 0x24, 0x03, 0x04, 0x01, 0xBB, 0x00, 0x00, 0x05, 0x00]"
  "ber_head [0x04, 0x01, 0xAA, 0x24, 0x03, 0x04, 0x01, 0xBB, 0x00, 0x00, 0x05, 0x00] =
     Primitive 0x4 [0xAA] [0x24, 0x03, 0x04, 0x01, 0xBB, 0x00, 0x00, 0x05, 0x00]"
  "ber_head [0x24, 0x03, 0x04, 0x01, 0xBB, 0x00, 0x00, 0x05, 0x00] = Constructed 0x20000004 [0x04, 0x01, 0xBB] [0x00, 0x00, 0x05, 0x00]"
  "ber_head [0x04, 0x01, 0xBB] = Primitive 0x4 [0xBB] []"
  "ber_head [0x00, 0x00, 0x05, 0x00] = Eoc [0x05, 0x00]"
  "ber_head [0x05, 0x00] = Primitive 0x5 [] []"
  "ber_head [] = At_end"
  by code_simp+

lemma sample_parse:
  "ber_parse False 0 ber_sample =
     Some ([Node 0x20000004 [Leaf 0x4 [0xAA], Node 0x20000004 [Leaf 0x4 [0xBB]]], Leaf 0x5 []], [])"
  by (simp add: ber_parse.simps sample_heads)

lemma sample_find: "cbs_find_ber 0 ber_sample = Some True"
  by code_simp

lemma sample_tags:
  "0x20000004 AND NOT CBS_ASN1_CONSTRUCTED = (0x4 :: u32)" "0x4 AND NOT CBS_ASN1_CONSTRUCTED = (0x4 :: u32)" "is_string_type 0x20000004"
  by code_simp+

lemma sample_elems: "der_elem 0x4 [0xAA, 0xBB] = [0x04, 0x02, 0xAA, 0xBB]" "der_elem 0x5 [] = [0x05, 0x00]"
  by (simp_all add: der_elem_def der_tag_def der_len_def)

lemma sample_der: "Option.bind (ber_parse False 0 ber_sample) (\<lambda>(ts, _). der_forest 0 ts) = Some [0x04, 0x02, 0xAA, 0xBB, 0x05, 0x00]"
  by (simp add: sample_parse sample_tags sample_elems)

lemma sample_ok: "malloc_ok (\<lambda>n. Some (replicate n 0))" "unlimited (\<lambda>n. Some (replicate n 0))" "length ber_sample < 2 ^ 28"
  by (simp_all add: malloc_ok_def unlimited_def ber_sample_def)

lemma sample_run:
  "CBS_asn1_ber_to_der (\<lambda>n. Some (replicate n 0)) m ber_sample = Some (Some ([0x04, 0x02, 0xAA, 0xBB, 0x05, 0x00], True), [])"
  using convert_run [OF sample_ok sample_find, of m] sample_der by (simp add: ber_der_def sample_parse)

theorem ber_to_der_converts_witness:
  "CBS_asn1_ber_to_der (\<lambda>n. Some (replicate n 0)) (\<lambda>_. CBB_zero) ber_sample =
     Some (Some ([0x04, 0x02, 0xAA, 0xBB, 0x05, 0x00], True), [])"
  using ber_to_der_converts [OF sample_ok sample_find, of "\<lambda>_. CBB_zero"] unfolding sample_der by simp

theorem ber_to_der_idempotent_witness:
  "cbs_find_ber 0 [0x04, 0x02, 0xAA, 0xBB, 0x05, 0x00] = Some False"
  using ber_to_der_idempotent [OF sample_ok sample_run [of "\<lambda>_. CBB_zero"]] by blast

end
