(* ===== verification/Lhash.thy ===== *)
theory Lhash
  imports Mem
begin

text \<open>
  The hash table of BoringSSL (crypto/lhash/lhash.c). A chain of \<open>LHASH_ITEM\<close> structs linked by \<open>next\<close> is the
  list of its items, and a pointer to a pointer into a chain is the bucket and the position in it, where
  the position after the last item holds NULL. The stored pointers are values of a type variable; the
  hash and comparison functions are fields of the table as in the source. The table refines a finite map from
  keys to items, whatever the sequence of operations and of allocation failures.
\<close>

section \<open>State\<close>

record 'a LHASH_ITEM =
  item_data :: 'a
  item_hash :: u32

record 'a LHASH =
  num_items :: nat
  buckets :: "'a LHASH_ITEM list list"
  num_buckets :: nat
  callback_depth :: nat
  lh_comp :: "'a \<Rightarrow> 'a \<Rightarrow> int"
  lh_hash :: "'a \<Rightarrow> u32"

abbreviation (input) kMinNumBuckets :: nat where "kMinNumBuckets \<equiv> 16"
abbreviation (input) kMaxAverageChainLength :: nat where "kMaxAverageChainLength \<equiv> 2"
abbreviation (input) kMinAverageChainLength :: nat where "kMinAverageChainLength \<equiv> 1"

section \<open>Operations\<close>

definition OPENSSL_lh_new :: "malloc \<Rightarrow> ('a \<Rightarrow> u32) \<Rightarrow> ('a \<Rightarrow> 'a \<Rightarrow> int) \<Rightarrow> 'a LHASH option" where
  "OPENSSL_lh_new malloc h cmp =
     (if OPENSSL_malloc malloc 48 = None then None
      else if OPENSSL_malloc malloc (8 * kMinNumBuckets) = None then None
      else Some \<lparr>num_items = 0, buckets = replicate kMinNumBuckets [], num_buckets = kMinNumBuckets,
                 callback_depth = 0, lh_comp = cmp, lh_hash = h\<rparr>)"

definition OPENSSL_lh_num_items :: "'a LHASH \<Rightarrow> nat" where
  "OPENSSL_lh_num_items lh = num_items lh"

text \<open>The loop along a chain: the position of the first item that matches, or of the final NULL.\<close>

fun chain_pos :: "('a \<Rightarrow> bool) \<Rightarrow> 'a LHASH_ITEM list \<Rightarrow> nat" where
  "chain_pos p [] = 0"
| "chain_pos p (cur # chain) = (if p (item_data cur) then 0 else Suc (chain_pos p chain))"

definition get_next_ptr_and_hash :: "'a LHASH \<Rightarrow> 'a \<Rightarrow> (nat \<times> nat) \<times> u32" where
  "get_next_ptr_and_hash lh d =
     (let hash = lh_hash lh d; b = unat hash mod num_buckets lh
      in ((b, chain_pos (\<lambda>x. lh_comp lh x d = 0) (buckets lh ! b)), hash))"

definition get_next_ptr_by_key :: "'a LHASH \<Rightarrow> 'k \<Rightarrow> u32 \<Rightarrow> ('k \<Rightarrow> 'a \<Rightarrow> int) \<Rightarrow> nat \<times> nat" where
  "get_next_ptr_by_key lh key key_hash cmp_key =
     (let b = unat key_hash mod num_buckets lh
      in (b, chain_pos (\<lambda>x. cmp_key key x = 0) (buckets lh ! b)))"

text \<open>Reading through the pointer.\<close>

definition deref :: "'a LHASH \<Rightarrow> nat \<times> nat \<Rightarrow> 'a LHASH_ITEM option" where
  "deref lh ptr = (case ptr of (b, i) \<Rightarrow> if i < length (buckets lh ! b) then Some (buckets lh ! b ! i) else None)"

definition OPENSSL_lh_retrieve :: "'a LHASH \<Rightarrow> 'a \<Rightarrow> 'a option" where
  "OPENSSL_lh_retrieve lh d =
     (case get_next_ptr_and_hash lh d of (next_ptr, _) \<Rightarrow> map_option item_data (deref lh next_ptr))"

definition OPENSSL_lh_retrieve_key :: "'a LHASH \<Rightarrow> 'k \<Rightarrow> u32 \<Rightarrow> ('k \<Rightarrow> 'a \<Rightarrow> int) \<Rightarrow> 'a option" where
  "OPENSSL_lh_retrieve_key lh key key_hash cmp_key =
     map_option item_data (deref lh (get_next_ptr_by_key lh key key_hash cmp_key))"

text \<open>One step of the redistribution: the item becomes the head of its new chain.\<close>

definition move_item :: "nat \<Rightarrow> 'a LHASH_ITEM \<Rightarrow> 'a LHASH_ITEM list list \<Rightarrow> 'a LHASH_ITEM list list" where
  "move_item n cur new_buckets =
     (let new_bucket = unat (item_hash cur) mod n in new_buckets[new_bucket := cur # new_buckets ! new_bucket])"

definition lh_rebucket :: "malloc \<Rightarrow> 'a LHASH \<Rightarrow> nat \<Rightarrow> 'a LHASH" where
  "lh_rebucket malloc lh new_num_buckets =
     (let alloc_size = 8 * new_num_buckets mod 2 ^ 64 in
      if alloc_size div 8 \<noteq> new_num_buckets then lh
      else if OPENSSL_malloc malloc alloc_size = None then lh
      else lh\<lparr>buckets := fold (fold (move_item new_num_buckets)) (take (num_buckets lh) (buckets lh))
                              (replicate new_num_buckets []),
              num_buckets := new_num_buckets\<rparr>)"

definition lh_maybe_resize :: "malloc \<Rightarrow> 'a LHASH \<Rightarrow> 'a LHASH" where
  "lh_maybe_resize malloc lh =
     (if callback_depth lh > 0 then lh
      else
        let avg_chain_length = num_items lh div num_buckets lh in
        if avg_chain_length > kMaxAverageChainLength then
          let new_num_buckets = num_buckets lh * 2 mod 2 ^ 64
          in if new_num_buckets > num_buckets lh then lh_rebucket malloc lh new_num_buckets else lh
        else if avg_chain_length < kMinAverageChainLength \<and> num_buckets lh > kMinNumBuckets then
          let new_num_buckets = num_buckets lh div 2;
              new_num_buckets = (if new_num_buckets < kMinNumBuckets then kMinNumBuckets else new_num_buckets)
          in lh_rebucket malloc lh new_num_buckets
        else lh)"

text \<open>The return code, \<open>*old_data\<close> and the table.\<close>

definition OPENSSL_lh_insert :: "malloc \<Rightarrow> 'a \<Rightarrow> 'a LHASH \<Rightarrow> bool \<times> 'a option \<times> 'a LHASH" where
  "OPENSSL_lh_insert malloc d lh =
     (case get_next_ptr_and_hash lh d of ((b, i), hash) \<Rightarrow>
        (case deref lh (b, i) of
           Some item \<Rightarrow> (True, Some (item_data item),
             lh\<lparr>buckets := (buckets lh)[b := (buckets lh ! b)[i := item\<lparr>item_data := d\<rparr>]]\<rparr>)
         | None \<Rightarrow>
             if OPENSSL_malloc malloc 24 = None then (False, None, lh)
             else
               let item = \<lparr>item_data = d, item_hash = hash\<rparr>;
                   lh = lh\<lparr>buckets := (buckets lh)[b := buckets lh ! b @ [item]],
                           num_items := (num_items lh + 1) mod 2 ^ 64\<rparr>
               in (True, None, lh_maybe_resize malloc lh)))"

definition OPENSSL_lh_delete :: "malloc \<Rightarrow> 'a \<Rightarrow> 'a LHASH \<Rightarrow> 'a option \<times> 'a LHASH" where
  "OPENSSL_lh_delete malloc d lh =
     (case get_next_ptr_and_hash lh d of ((b, i), _) \<Rightarrow>
        (case deref lh (b, i) of
           None \<Rightarrow> (None, lh)
         | Some item \<Rightarrow>
             let chain = buckets lh ! b;
                 lh = lh\<lparr>buckets := (buckets lh)[b := take i chain @ drop (Suc i) chain],
                         num_items := (num_items lh + (2 ^ 64 - 1)) mod 2 ^ 64\<rparr>
             in (Some (item_data item), lh_maybe_resize malloc lh)))"

text \<open>
  The callback threads the caller's state and leaves the table alone; a callback that changes the table while
  the loop holds a pointer into it is outside the model.
\<close>

definition OPENSSL_lh_doall_arg :: "malloc \<Rightarrow> ('a \<Rightarrow> 's \<Rightarrow> 's) \<Rightarrow> 's \<Rightarrow> 'a LHASH \<Rightarrow> 's \<times> 'a LHASH" where
  "OPENSSL_lh_doall_arg malloc func arg lh =
     (let lh = (if callback_depth lh < 2 ^ 32 - 1 then lh\<lparr>callback_depth := callback_depth lh + 1\<rparr> else lh);
          arg = fold (fold (\<lambda>cur. func (item_data cur))) (take (num_buckets lh) (buckets lh)) arg;
          lh = (if callback_depth lh < 2 ^ 32 - 1 then lh\<lparr>callback_depth := callback_depth lh - 1\<rparr> else lh)
      in (arg, lh_maybe_resize malloc lh))"

section \<open>Tables as maps\<close>

text \<open>
  The interface: a table of items that have keys, operated in environments that decide about allocation.
  A log of operations and results is legal when a map explains it.
\<close>

datatype ('e, 'a) table_op = Insert 'e 'a | Delete 'e 'a | Retrieve 'a

type_synonym ('e, 'a) table_log = "(('e, 'a) table_op \<times> bool \<times> 'a option) list"

fun replay :: "('a \<Rightarrow> 'k) \<Rightarrow> ('k \<rightharpoonup> 'a) \<Rightarrow> ('e, 'a) table_log \<Rightarrow> ('k \<rightharpoonup> 'a) option" where
  "replay key m [] = Some m"
| "replay key m ((Insert e d, ok, old) # es) =
     (if old \<noteq> m (key d) then None
      else if ok then replay key (m(key d \<mapsto> d)) es
      else if m (key d) = None then replay key m es else None)"
| "replay key m ((Delete e d, ok, old) # es) =
     (if old \<noteq> m (key d) then None else replay key (m(key d := None)) es)"
| "replay key m ((Retrieve d, ok, old) # es) = (if old \<noteq> m (key d) then None else replay key m es)"

fun run_ops ::
  "('e \<Rightarrow> 'a \<Rightarrow> 't \<Rightarrow> bool \<times> 'a option \<times> 't) \<Rightarrow> ('e \<Rightarrow> 'a \<Rightarrow> 't \<Rightarrow> 'a option \<times> 't) \<Rightarrow> ('t \<Rightarrow> 'a \<Rightarrow> 'a option) \<Rightarrow>
   ('e, 'a) table_op list \<Rightarrow> 't \<Rightarrow> ('e, 'a) table_log \<times> 't" where
  "run_ops ins del get [] t = ([], t)"
| "run_ops ins del get (Insert e d # ops) t =
     (case ins e d t of (ok, old, t) \<Rightarrow>
        (case run_ops ins del get ops t of (es, t) \<Rightarrow> ((Insert e d, ok, old) # es, t)))"
| "run_ops ins del get (Delete e d # ops) t =
     (case del e d t of (old, t) \<Rightarrow>
        (case run_ops ins del get ops t of (es, t) \<Rightarrow> ((Delete e d, True, old) # es, t)))"
| "run_ops ins del get (Retrieve d # ops) t =
     (case run_ops ins del get ops t of (es, t') \<Rightarrow> ((Retrieve d, True, get t d) # es, t'))"

locale keyed_table =
  fixes inv :: "'t \<Rightarrow> bool" and abs :: "'t \<Rightarrow> 'k \<rightharpoonup> 'a" and key :: "'a \<Rightarrow> 'k"
    and ins :: "'e \<Rightarrow> 'a \<Rightarrow> 't \<Rightarrow> bool \<times> 'a option \<times> 't" and del :: "'e \<Rightarrow> 'a \<Rightarrow> 't \<Rightarrow> 'a option \<times> 't"
    and get :: "'t \<Rightarrow> 'a \<Rightarrow> 'a option"
  assumes get_law: "inv t \<Longrightarrow> get t d = abs t (key d)"
    and ins_law: "inv t \<Longrightarrow> ins e d t = (ok, old, t') \<Longrightarrow> inv t' \<and> old = abs t (key d) \<and>
        (if ok then abs t' = (abs t)(key d \<mapsto> d) else t' = t \<and> old = None)"
    and del_law: "inv t \<Longrightarrow> del e d t = (old, t') \<Longrightarrow> inv t' \<and> old = abs t (key d) \<and> abs t' = (abs t)(key d := None)"
begin

lemma run_replays: "inv t \<Longrightarrow> run_ops ins del get ops t = (es, t') \<Longrightarrow> inv t' \<and> replay key (abs t) es = Some (abs t')"
proof (induction ops arbitrary: t es)
  case (Cons p ops)
  show ?case
  proof (cases p)
    case (Insert e d)
    then obtain ok old t1 es1 where 1: "ins e d t = (ok, old, t1)" "run_ops ins del get ops t1 = (es1, t')"
        "es = (p, ok, old) # es1" using Cons.prems(2) by (auto split: prod.splits)
    with ins_law [OF Cons.prems(1) 1(1)] Cons.IH [OF _ 1(2)] Insert show ?thesis by (auto split: if_splits)
  next
    case (Delete e d)
    then obtain old t1 es1 where 1: "del e d t = (old, t1)" "run_ops ins del get ops t1 = (es1, t')"
        "es = (p, True, old) # es1" using Cons.prems(2) by (auto split: prod.splits)
    with del_law [OF Cons.prems(1) 1(1)] Cons.IH [OF _ 1(2)] Delete show ?thesis by (auto simp: fun_upd_def)
  next
    case (Retrieve d)
    then show ?thesis using Cons get_law by (auto split: prod.splits)
  qed
qed simp

end

section \<open>The invariant\<close>

text \<open>
  \<open>kh\<close> is the hash as a function of the key. The buckets are well-formed when every item caches its hash,
  sits in the bucket of its hash, and no two items of a chain have the same key.
\<close>

definition chain_ok :: "('k \<Rightarrow> u32) \<Rightarrow> ('a \<Rightarrow> 'k) \<Rightarrow> nat \<Rightarrow> nat \<Rightarrow> 'a LHASH_ITEM list \<Rightarrow> bool" where
  "chain_ok kh key n b chain \<longleftrightarrow> distinct (map (key \<circ> item_data) chain) \<and>
     (\<forall>it \<in> set chain. item_hash it = kh (key (item_data it)) \<and> unat (kh (key (item_data it))) mod n = b)"

definition table_ok :: "('k \<Rightarrow> u32) \<Rightarrow> ('a \<Rightarrow> 'k) \<Rightarrow> nat \<Rightarrow> 'a LHASH_ITEM list list \<Rightarrow> bool" where
  "table_ok kh key n bs \<longleftrightarrow> 0 < n \<and> length bs = n \<and> (\<forall>b < n. chain_ok kh key n b (bs ! b))"

definition entries :: "('a \<Rightarrow> 'k) \<Rightarrow> 'a LHASH_ITEM list \<Rightarrow> ('k \<times> 'a) list" where
  "entries key chain = map (\<lambda>it. (key (item_data it), item_data it)) chain"

definition table_map :: "('a \<Rightarrow> 'k) \<Rightarrow> 'a LHASH_ITEM list list \<Rightarrow> 'k \<rightharpoonup> 'a" where
  "table_map key bs = map_of (entries key (concat bs))"

lemma keys_entries: "map fst (entries key chain) = map (key \<circ> item_data) chain"
  by (simp add: entries_def comp_def)

lemma in_concat: "x \<in> set (concat bs) \<longleftrightarrow> (\<exists>b < length bs. x \<in> set (bs ! b))"
proof
  assume "x \<in> set (concat bs)"
  then obtain c where "c \<in> set bs" "x \<in> set c" by auto
  then show "\<exists>b < length bs. x \<in> set (bs ! b)" by (metis in_set_conv_nth)
next
  assume "\<exists>b < length bs. x \<in> set (bs ! b)"
  then show "x \<in> set (concat bs)" by (auto intro: nth_mem)
qed

lemma distinct_concat_buckets:
  "(\<And>b. b < length bs \<Longrightarrow> distinct (map f (bs ! b)) \<and> (\<forall>x \<in> set (bs ! b). g (f x) = b)) \<Longrightarrow> distinct (map f (concat bs))"
proof (induction bs rule: rev_induct)
  case (snoc c bs)
  have *: "distinct (map f (bs ! b)) \<and> (\<forall>x \<in> set (bs ! b). g (f x) = b)" if "b < length bs" for b
    using snoc.prems [of b] that by (simp add: nth_append)
  have c: "distinct (map f c)" "\<forall>x \<in> set c. g (f x) = length bs"
    using snoc.prems [of "length bs"] by auto
  have "g (f x) < length bs" if "x \<in> set (concat bs)" for x
  proof -
    from that obtain b where b: "b < length bs" "x \<in> set (bs ! b)" unfolding in_concat by blast
    with * [OF b(1)] show ?thesis by simp
  qed
  then have "f ` set (concat bs) \<inter> f ` set c = {}" using c(2) by fastforce
  with c(1) snoc.IH [OF *] show ?case by simp
qed simp

lemma table_distinct:
  assumes "table_ok kh key n bs"
  shows "distinct (map fst (entries key (concat bs)))"
proof -
  have "distinct (map (key \<circ> item_data) (concat bs))"
    by (rule distinct_concat_buckets [where g = "\<lambda>k. unat (kh k) mod n"])
      (use assms in \<open>simp add: table_ok_def chain_ok_def\<close>)
  then show ?thesis by (simp add: keys_entries)
qed

lemma table_map_bucket:
  assumes t: "table_ok kh key n bs"
  shows "table_map key bs k = map_of (entries key (bs ! (unat (kh k) mod n))) k"
proof -
  let ?b = "unat (kh k) mod n"
  have b: "?b < n" and n: "length bs = n" using t by (simp_all add: table_ok_def)
  then have c: "chain_ok kh key n ?b (bs ! ?b)" using t by (simp add: table_ok_def)
  have "(k, d) \<in> set (entries key (concat bs)) \<longleftrightarrow> (k, d) \<in> set (entries key (bs ! ?b))" for d
  proof
    assume "(k, d) \<in> set (entries key (concat bs))"
    then obtain it where "it \<in> set (concat bs)" and it: "k = key (item_data it)" "d = item_data it"
      by (auto simp: entries_def)
    then obtain i where "i < n" "it \<in> set (bs ! i)" using n unfolding in_concat by blast
    moreover note it
    moreover have "?b = i" using t calculation by (simp add: table_ok_def chain_ok_def)
    ultimately show "(k, d) \<in> set (entries key (bs ! ?b))" by (auto simp: entries_def)
  next
    assume "(k, d) \<in> set (entries key (bs ! ?b))"
    moreover have "set (bs ! ?b) \<subseteq> set (concat bs)" using b n in_concat by fastforce
    ultimately show "(k, d) \<in> set (entries key (concat bs))" unfolding entries_def by auto
  qed
  moreover have "distinct (map fst (entries key (bs ! ?b)))" using c by (simp add: keys_entries chain_ok_def)
  ultimately have "table_map key bs k = Some d \<longleftrightarrow> map_of (entries key (bs ! ?b)) k = Some d" for d
    using table_distinct [OF t] by (simp add: table_map_def)
  then show ?thesis by (metis option.exhaust)
qed

text \<open>Replacing the chain of one bucket.\<close>

lemma table_update:
  assumes t: "table_ok kh key n bs" and b: "b < n" and c: "chain_ok kh key n b chain"
  shows "table_ok kh key n (bs[b := chain])"
    and "table_map key (bs[b := chain]) k = (if unat (kh k) mod n = b then map_of (entries key chain) k else table_map key bs k)"
proof -
  show t': "table_ok kh key n (bs[b := chain])" 
  proof -
    have "chain_ok kh key n i (bs[b := chain] ! i)" if "i < n" for i
      using t c that by (cases "i = b") (simp_all add: table_ok_def)
    with t show ?thesis by (simp add: table_ok_def)
  qed
  show "table_map key (bs[b := chain]) k = (if unat (kh k) mod n = b then map_of (entries key chain) k else table_map key bs k)"
    using b t by (auto simp: table_map_bucket [OF t'] table_map_bucket [OF t] table_ok_def)
qed

lemma length_concat_update:
  "b < length bs \<Longrightarrow> length (concat (bs[b := c])) + length (bs ! b) = length (concat bs) + length c"
  by (induction bs arbitrary: b) (auto split: nat.splits)

text \<open>Chains.\<close>

lemma chain_pos_le: "chain_pos p chain \<le> length chain"
  by (induction chain) auto

lemma chain_pos_none: "chain_pos p chain = length chain \<longleftrightarrow> (\<forall>it \<in> set chain. \<not> p (item_data it))"
  by (induction chain) auto

lemma chain_pos_split:
  "chain_pos p chain < length chain \<Longrightarrow>
     \<exists>xs it ys. chain = xs @ it # ys \<and> length xs = chain_pos p chain \<and> p (item_data it)"
proof (induction chain)
  case (Cons c chain)
  show ?case
  proof (cases "p (item_data c)")
    case False
    with Cons obtain xs it ys where "chain = xs @ it # ys" "length xs = chain_pos p chain" "p (item_data it)" by auto
    with False show ?thesis by (intro exI [of _ "c # xs"]) auto
  qed (auto intro: exI [of _ "[]"])
qed simp

lemma chain_ok_keyD: "chain_ok kh key n b chain \<Longrightarrow> it \<in> set chain \<Longrightarrow> item_hash it = kh (key (item_data it))"
  by (simp add: chain_ok_def)

lemma chain_lookup:
  "map_of (entries key chain) k =
     (let i = chain_pos (\<lambda>x. key x = k) chain in if i < length chain then Some (item_data (chain ! i)) else None)"
  by (induction chain) (auto simp: entries_def Let_def)

lemma chain_append:
  assumes "chain_ok kh key n b chain" and "key d \<notin> (key \<circ> item_data) ` set chain" and "unat (kh (key d)) mod n = b"
  shows "chain_ok kh key n b (chain @ [\<lparr>item_data = d, item_hash = kh (key d)\<rparr>])"
    and "map_of (entries key (chain @ [\<lparr>item_data = d, item_hash = h\<rparr>])) = (map_of (entries key chain))(key d \<mapsto> d)"
proof -
  show "chain_ok kh key n b (chain @ [\<lparr>item_data = d, item_hash = kh (key d)\<rparr>])"
    using assms by (auto simp: chain_ok_def)
  have "map_of (entries key chain) (key d) = None"
    using assms(2) by (auto simp: entries_def map_of_eq_None_iff)
  then show "map_of (entries key (chain @ [\<lparr>item_data = d, item_hash = h\<rparr>])) = (map_of (entries key chain))(key d \<mapsto> d)"
    by (auto simp: entries_def map_add_def split: option.splits)
qed

lemma entries_simps: "entries key [] = []" "entries key (xs @ ys) = entries key xs @ entries key ys"
    "entries key (it # ys) = (key (item_data it), item_data it) # entries key ys"
  by (simp_all add: entries_def)

lemma map_of_split:
  assumes "k \<notin> fst ` set xs" and "k \<notin> fst ` set ys"
  shows "map_of (xs @ (k, v) # ys) = (map_of (xs @ ys))(k \<mapsto> v)"
    and "map_of (xs @ ys) = (map_of (xs @ (k, w) # ys))(k := None)"
proof -
  have "map_of xs k = None" "map_of ys k = None" using assms by (simp_all add: map_of_eq_None_iff)
  then show "map_of (xs @ (k, v) # ys) = (map_of (xs @ ys))(k \<mapsto> v)"
    and "map_of (xs @ ys) = (map_of (xs @ (k, w) # ys))(k := None)"
    by (auto simp: map_add_def fun_eq_iff split: option.splits)
qed

lemma chain_ok_Cons: "chain_ok kh key n b (it # chain) \<longleftrightarrow> item_hash it = kh (key (item_data it)) \<and>
    unat (kh (key (item_data it))) mod n = b \<and> key (item_data it) \<notin> fst ` set (entries key chain) \<and> chain_ok kh key n b chain"
  by (auto simp: chain_ok_def entries_def image_image)

lemma chain_ok_append: "chain_ok kh key n b (xs @ ys) \<longleftrightarrow> chain_ok kh key n b xs \<and> chain_ok kh key n b ys \<and>
    fst ` set (entries key xs) \<inter> fst ` set (entries key ys) = {}"
  by (auto simp: chain_ok_def entries_def image_image)

lemma chain_replace:
  assumes c: "chain_ok kh key n b (xs @ it # ys)" and k: "key (item_data it) = key d"
  shows "chain_ok kh key n b (xs @ it\<lparr>item_data := d\<rparr> # ys)"
    and "map_of (entries key (xs @ it\<lparr>item_data := d\<rparr> # ys)) = (map_of (entries key (xs @ it # ys)))(key d \<mapsto> d)"
    and "chain_ok kh key n b (xs @ ys)"
    and "map_of (entries key (xs @ ys)) = (map_of (entries key (xs @ it # ys)))(key d := None)"
proof -
  show "chain_ok kh key n b (xs @ it\<lparr>item_data := d\<rparr> # ys)" "chain_ok kh key n b (xs @ ys)"
    using c k by (simp_all add: chain_ok_Cons chain_ok_append entries_simps)
  have "key d \<notin> fst ` set (entries key xs)" "key d \<notin> fst ` set (entries key ys)"
    using c k by (simp_all add: chain_ok_Cons chain_ok_append entries_simps)
  note m = map_of_split [OF this]
  show "map_of (entries key (xs @ it\<lparr>item_data := d\<rparr> # ys)) = (map_of (entries key (xs @ it # ys)))(key d \<mapsto> d)"
  proof -
    have "item_data (it\<lparr>item_data := d\<rparr>) = d" by simp
    then show ?thesis by (simp only: entries_simps k m(1) fun_upd_upd)
  qed
  show "map_of (entries key (xs @ ys)) = (map_of (entries key (xs @ it # ys)))(key d := None)"
    unfolding entries_simps k by (rule m(2))
qed

text \<open>Moving items to a new array.\<close>

lemma fold_concat: "fold (fold f) xss = fold f (concat xss)"
  by (induction xss) auto

lemma move_item_ok:
  assumes t: "table_ok kh key n bs" and h: "item_hash it = kh (key (item_data it))"
    and k: "table_map key bs (key (item_data it)) = None"
  shows "table_ok kh key n (move_item n it bs)"
    and "table_map key (move_item n it bs) = (table_map key bs)(key (item_data it) \<mapsto> item_data it)"
proof -
  let ?b = "unat (kh (key (item_data it))) mod n"
  have b: "?b < n" using t by (simp add: table_ok_def)
  have c: "chain_ok kh key n ?b (bs ! ?b)" using t b by (simp add: table_ok_def)
  have "map_of (entries key (bs ! ?b)) (key (item_data it)) = None" using k by (simp add: table_map_bucket [OF t])
  then have "chain_ok kh key n ?b (it # bs ! ?b)"
    using c h by (simp add: chain_ok_Cons map_of_eq_None_iff)
  note u = table_update [OF t b this]
  show "table_ok kh key n (move_item n it bs)" using u(1) h by (simp add: move_item_def Let_def)
  show "table_map key (move_item n it bs) = (table_map key bs)(key (item_data it) \<mapsto> item_data it)"
  proof (rule HOL.ext)
    fix k
    show "table_map key (move_item n it bs) k = ((table_map key bs)(key (item_data it) \<mapsto> item_data it)) k"
      using u(2) [of k] h table_map_bucket [OF t, of k] by (auto simp: move_item_def entries_simps Let_def)
  qed
qed

lemma fold_move:
  assumes "table_ok kh key n bs" and "\<forall>it \<in> set items. item_hash it = kh (key (item_data it))"
    and "distinct (map (key \<circ> item_data) items)" and "\<forall>it \<in> set items. table_map key bs (key (item_data it)) = None"
  shows "table_ok kh key n (fold (move_item n) items bs) \<and>
    table_map key (fold (move_item n) items bs) = table_map key bs ++ map_of (entries key items)"
  using assms
proof (induction items arbitrary: bs)
  case (Cons it items)
  note mv = move_item_ok [OF Cons.prems(1), of it]
  have "map_of (entries key items) (key (item_data it)) = None"
    using Cons.prems(3) by (auto simp: map_of_eq_None_iff entries_def)
  then have m: "(table_map key bs)(key (item_data it) \<mapsto> item_data it) ++ map_of (entries key items) =
      table_map key bs ++ map_of (entries key (it # items))"
    by (auto simp: entries_def map_add_def fun_eq_iff split: option.splits)
  have "\<forall>x \<in> set items. table_map key (move_item n it bs) (key (item_data x)) = None"
  proof
    fix x assume x: "x \<in> set items"
    then have "key (item_data x) \<noteq> key (item_data it)" using Cons.prems(3) by (auto simp: image_iff)
    with x show "table_map key (move_item n it bs) (key (item_data x)) = None" using Cons.prems(2,4) mv(2) by simp
  qed
  then have "table_ok kh key n (fold (move_item n) items (move_item n it bs)) \<and>
      table_map key (fold (move_item n) items (move_item n it bs)) = table_map key (move_item n it bs) ++ map_of (entries key items)"
    using Cons.prems by (intro Cons.IH mv(1)) simp_all
  moreover have "table_map key (move_item n it bs) = (table_map key bs)(key (item_data it) \<mapsto> item_data it)"
    using Cons.prems by (intro mv(2)) simp_all
  ultimately show ?case using m by simp
qed (simp add: entries_def)

lemma table_empty: "0 < n \<Longrightarrow> table_ok kh key n (replicate n [])" "table_map key (replicate n []) = Map.empty"
  by (simp_all add: table_ok_def chain_ok_def table_map_def entries_def)

lemma length_concat_move:
  "unat (item_hash it) mod n < length bs \<Longrightarrow> length (concat (move_item n it bs)) = Suc (length (concat bs))"
  using length_concat_update [of "unat (item_hash it) mod n" bs "it # bs ! (unat (item_hash it) mod n)"]
  by (simp add: move_item_def Let_def)

lemma length_fold_move: "0 < n \<Longrightarrow> length bs = n \<Longrightarrow> length (concat (fold (move_item n) items bs)) = length items + length (concat bs)"
proof (induction items arbitrary: bs)
  case (Cons it items)
  have "length (move_item n it bs) = n" using Cons.prems by (simp add: move_item_def Let_def)
  then show ?case using Cons.prems length_concat_move [of it n bs] Cons.IH [of "move_item n it bs"] by simp
qed simp

section \<open>The operations on the map\<close>

definition lh_inv :: "('k \<Rightarrow> u32) \<Rightarrow> ('a \<Rightarrow> 'k) \<Rightarrow> ('a \<Rightarrow> 'a \<Rightarrow> int) \<Rightarrow> 'a LHASH \<Rightarrow> bool" where
  "lh_inv kh key cmp lh \<longleftrightarrow> table_ok kh key (num_buckets lh) (buckets lh) \<and> kMinNumBuckets \<le> num_buckets lh \<and>
     num_items lh = length (concat (buckets lh)) mod 2 ^ 64 \<and> lh_comp lh = cmp \<and> lh_hash lh = (\<lambda>d. kh (key d))"

definition lh_map :: "('a \<Rightarrow> 'k) \<Rightarrow> 'a LHASH \<Rightarrow> 'k \<rightharpoonup> 'a" where
  "lh_map key lh = table_map key (buckets lh)"

lemma rebucket_ok:
  assumes i: "lh_inv kh key cmp lh" and n: "kMinNumBuckets \<le> n"
  shows "lh_inv kh key cmp (lh_rebucket malloc lh n) \<and> lh_map key (lh_rebucket malloc lh n) = lh_map key lh"
proof -
  let ?items = "concat (buckets lh)" and ?new = "fold (move_item n) (concat (buckets lh)) (replicate n [])"
  have t: "table_ok kh key (num_buckets lh) (buckets lh)" using i by (simp add: lh_inv_def)
  then have "\<forall>it \<in> set ?items. item_hash it = kh (key (item_data it))"
    using in_concat [of _ "buckets lh"] by (metis chain_ok_keyD table_ok_def)
  moreover have "distinct (map (key \<circ> item_data) ?items)" using table_distinct [OF t] by (simp add: keys_entries)
  ultimately have m: "table_ok kh key n ?new" "table_map key ?new = Map.empty ++ map_of (entries key ?items)"
    using fold_move [of kh key n "replicate n []" ?items] n by (simp_all add: table_empty)
  have l: "length (concat ?new) = length ?items" using length_fold_move [of n "replicate n []" ?items] n by simp
  have "take (num_buckets lh) (buckets lh) = buckets lh" using t by (simp add: table_ok_def)
  then show ?thesis using m l i n
    by (simp add: lh_rebucket_def Let_def fold_concat lh_inv_def lh_map_def) (simp add: table_map_def)
qed

lemma maybe_resize_ok:
  assumes "lh_inv kh key cmp lh"
  shows "lh_inv kh key cmp (lh_maybe_resize malloc lh) \<and> lh_map key (lh_maybe_resize malloc lh) = lh_map key lh"
proof -
  have "kMinNumBuckets \<le> num_buckets lh" using assms by (simp add: lh_inv_def)
  then show ?thesis using assms rebucket_ok [OF assms] by (auto simp: lh_maybe_resize_def Let_def)
qed

text \<open>
  The contract of the hash and comparison functions: items compare equal exactly when they have the same key,
  and the hash depends on the key only.
\<close>

locale lh_keys =
  fixes kh :: "'k \<Rightarrow> u32" and key :: "'a \<Rightarrow> 'k" and cmp :: "'a \<Rightarrow> 'a \<Rightarrow> int"
  assumes cmp_law: "cmp a b = 0 \<longleftrightarrow> key a = key b"
begin

lemma next_ptr:
  assumes i: "lh_inv kh key cmp lh" and g: "get_next_ptr_and_hash lh d = ((b, p), h)"
  shows "h = kh (key d)" and "b = unat h mod num_buckets lh" and "b < num_buckets lh" and "b < length (buckets lh)"
    and "chain_ok kh key (num_buckets lh) b (buckets lh ! b)"
    and "lh_map key lh (key d) = map_option item_data (deref lh (b, p))"
    and "p < length (buckets lh ! b) \<Longrightarrow> \<exists>xs it ys. buckets lh ! b = xs @ it # ys \<and> length xs = p \<and> key (item_data it) = key d"
    and "\<not> p < length (buckets lh ! b) \<Longrightarrow> key d \<notin> (key \<circ> item_data) ` set (buckets lh ! b)"
proof -
  have t: "table_ok kh key (num_buckets lh) (buckets lh)" and f: "lh_comp lh = cmp" "lh_hash lh = (\<lambda>d. kh (key d))"
    using i by (simp_all add: lh_inv_def)
  show h: "h = kh (key d)" "b = unat h mod num_buckets lh" using g f by (auto simp: get_next_ptr_and_hash_def Let_def)
  show b: "b < num_buckets lh" using h t by (simp add: table_ok_def)
  show "b < length (buckets lh)" "chain_ok kh key (num_buckets lh) b (buckets lh ! b)" using b t by (simp_all add: table_ok_def)
  have p: "p = chain_pos (\<lambda>x. key x = key d) (buckets lh ! b)"
    using g f h cmp_law by (auto simp: get_next_ptr_and_hash_def Let_def)
  show "lh_map key lh (key d) = map_option item_data (deref lh (b, p))"
    by (simp add: lh_map_def table_map_bucket [OF t] chain_lookup Let_def deref_def p h)
  show "p < length (buckets lh ! b) \<Longrightarrow> \<exists>xs it ys. buckets lh ! b = xs @ it # ys \<and> length xs = p \<and> key (item_data it) = key d"
    unfolding p by (drule chain_pos_split) blast
  show "\<not> p < length (buckets lh ! b) \<Longrightarrow> key d \<notin> (key \<circ> item_data) ` set (buckets lh ! b)"
    using chain_pos_none [of "\<lambda>x. key x = key d" "buckets lh ! b"] chain_pos_le [of "\<lambda>x. key x = key d" "buckets lh ! b"] p
    by (auto simp: not_less)
qed

text \<open>Putting a new chain in place of the one the pointer is in.\<close>

lemma set_chain:
  assumes i: "lh_inv kh key cmp lh" and g: "get_next_ptr_and_hash lh d = ((b, p), h)"
    and c: "chain_ok kh key (num_buckets lh) b chain"
    and m: "map_of (entries key chain) = (map_of (entries key (buckets lh ! b)))(key d := v)"
    and n: "nn = (num_items lh + (length chain + 2 ^ 64 - length (buckets lh ! b))) mod 2 ^ 64"
    and l: "length (buckets lh ! b) \<le> length chain + 1"
  shows "lh_inv kh key cmp (lh\<lparr>buckets := (buckets lh)[b := chain], num_items := nn\<rparr>)"
    and "lh_map key (lh\<lparr>buckets := (buckets lh)[b := chain], num_items := nn\<rparr>) = (lh_map key lh)(key d := v)"
proof -
  note np = next_ptr [OF i g]
  have t: "table_ok kh key (num_buckets lh) (buckets lh)" using i by (simp add: lh_inv_def)
  note u = table_update [OF t np(3) c]
  let ?o = "length (concat (buckets lh))" and ?n = "length (concat ((buckets lh)[b := chain]))" and ?c = "length (buckets lh ! b)"
  have e: "?n + ?c = ?o + length chain" by (rule length_concat_update [OF np(4)])
  have "nn = (?o mod 2 ^ 64 + (length chain + 2 ^ 64 - ?c)) mod 2 ^ 64"
    using n i by (simp only: lh_inv_def)
  also have "\<dots> = (?o + (length chain + 2 ^ 64 - ?c)) mod 2 ^ 64" by (rule mod_add_left_eq)
  also have "?o + (length chain + 2 ^ 64 - ?c) = ?n + 2 ^ 64" using e l by simp
  finally have "nn = ?n mod 2 ^ 64" by simp
  then show "lh_inv kh key cmp (lh\<lparr>buckets := (buckets lh)[b := chain], num_items := nn\<rparr>)"
    using i u(1) by (simp add: lh_inv_def)
  show "lh_map key (lh\<lparr>buckets := (buckets lh)[b := chain], num_items := nn\<rparr>) = (lh_map key lh)(key d := v)"
  proof (rule HOL.ext)
    fix k
    show "lh_map key (lh\<lparr>buckets := (buckets lh)[b := chain], num_items := nn\<rparr>) k = ((lh_map key lh)(key d := v)) k"
      using u(2) [of k] m np(1,2) table_map_bucket [OF t, of k] by (auto simp: lh_map_def)
  qed
qed

end

context lh_keys
begin

lemma retrieve_law: "lh_inv kh key cmp lh \<Longrightarrow> OPENSSL_lh_retrieve lh d = lh_map key lh (key d)"
  using next_ptr(6) by (auto simp: OPENSSL_lh_retrieve_def split: prod.splits)

lemma insert_law:
  assumes i: "lh_inv kh key cmp lh" and r: "OPENSSL_lh_insert malloc d lh = (ok, old, lh')"
  shows "lh_inv kh key cmp lh' \<and> old = lh_map key lh (key d) \<and>
    (if ok then lh_map key lh' = (lh_map key lh)(key d \<mapsto> d) else lh' = lh \<and> old = None)"
proof -
  obtain b p h where g: "get_next_ptr_and_hash lh d = ((b, p), h)" by (metis prod.exhaust)
  note np = next_ptr [OF i g] and r' = r [unfolded OPENSSL_lh_insert_def g prod.case]
  let ?c = "buckets lh ! b"
  show ?thesis
  proof (cases "p < length ?c")
    case True
    then obtain xs it ys where s: "?c = xs @ it # ys" "length xs = p" "key (item_data it) = key d" using np(7) by blast
    note c = chain_replace [OF np(5) [unfolded s(1)] s(3)]
    have u: "?c[p := it\<lparr>item_data := d\<rparr>] = xs @ it\<lparr>item_data := d\<rparr> # ys" using s by (simp add: list_update_append)
    have it: "deref lh (b, p) = Some it" using True s by (simp add: deref_def nth_append)
    have n: "num_items lh = (num_items lh + (length (xs @ it\<lparr>item_data := d\<rparr> # ys) + 2 ^ 64 - length ?c)) mod 2 ^ 64"
      using i s(1) by (simp add: lh_inv_def)
    have "lh' = lh\<lparr>buckets := (buckets lh)[b := xs @ it\<lparr>item_data := d\<rparr> # ys], num_items := num_items lh\<rparr>" "ok" "old = Some (item_data it)"
      using r' it u by auto
    with set_chain [OF i g c(1) _ n] c(2) s(1) it np(6) show ?thesis by simp
  next
    case False
    have it: "deref lh (b, p) = None" using False by (simp add: deref_def)
    show ?thesis
    proof (cases "OPENSSL_malloc malloc 24")
      case None
      with r' it i np(6) show ?thesis by auto
    next
      case (Some blk)
      note c = chain_append [OF np(5) np(8) [OF False]]
      have n: "(num_items lh + 1) mod 2 ^ 64 =
          (num_items lh + (length (?c @ [\<lparr>item_data = d, item_hash = h\<rparr>]) + 2 ^ 64 - length ?c)) mod 2 ^ 64"
      proof -
        have "num_items lh + (length (?c @ [\<lparr>item_data = d, item_hash = h\<rparr>]) + 2 ^ 64 - length ?c) = (num_items lh + 1) + 2 ^ 64"
          by simp
        then show ?thesis by (simp only: mod_add_self2)
      qed
      note sc = set_chain [OF i g _ _ n]
      define lh1 where "lh1 = lh\<lparr>buckets := (buckets lh)[b := ?c @ [\<lparr>item_data = d, item_hash = h\<rparr>]], num_items := (num_items lh + 1) mod 2 ^ 64\<rparr>"
      have 1: "lh_inv kh key cmp lh1" "lh_map key lh1 = (lh_map key lh)(key d \<mapsto> d)"
        unfolding lh1_def by (rule sc; use c np(1,2) in simp)+
      have "lh' = lh_maybe_resize malloc lh1" "ok" "old = None"
        using r' it Some by (auto simp: lh1_def Let_def)
      with maybe_resize_ok [OF 1(1)] 1(2) it np(6) show ?thesis by simp
    qed
  qed
qed

lemma delete_law:
  assumes i: "lh_inv kh key cmp lh" and r: "OPENSSL_lh_delete malloc d lh = (old, lh')"
  shows "lh_inv kh key cmp lh' \<and> old = lh_map key lh (key d) \<and> lh_map key lh' = (lh_map key lh)(key d := None)"
proof -
  obtain b p h where g: "get_next_ptr_and_hash lh d = ((b, p), h)" by (metis prod.exhaust)
  note np = next_ptr [OF i g] and r' = r [unfolded OPENSSL_lh_delete_def g prod.case]
  let ?c = "buckets lh ! b"
  show ?thesis
  proof (cases "p < length ?c")
    case True
    then obtain xs it ys where s: "?c = xs @ it # ys" "length xs = p" "key (item_data it) = key d" using np(7) by blast
    note c = chain_replace [OF np(5) [unfolded s(1)] s(3)]
    have it: "deref lh (b, p) = Some it" using True s by (simp add: deref_def nth_append)
    have n: "(num_items lh + (2 ^ 64 - 1)) mod 2 ^ 64 = (num_items lh + (length (xs @ ys) + 2 ^ 64 - length ?c)) mod 2 ^ 64"
      using s(1) by simp
    note sc = set_chain [OF i g c(3) _ n]
    define lh1 where "lh1 = lh\<lparr>buckets := (buckets lh)[b := xs @ ys], num_items := (num_items lh + (2 ^ 64 - 1)) mod 2 ^ 64\<rparr>"
    have 1: "lh_inv kh key cmp lh1" "lh_map key lh1 = (lh_map key lh)(key d := None)"
      unfolding lh1_def by (rule sc; use c(4) s(1) in simp)+
    have "lh' = lh_maybe_resize malloc lh1" "old = Some (item_data it)"
      using r' it s(1,2) by (auto simp: lh1_def Let_def)
    with maybe_resize_ok [OF 1(1)] 1(2) it np(6) show ?thesis by simp
  next
    case False
    then have "deref lh (b, p) = None" by (simp add: deref_def)
    with r' i np(6) show ?thesis by (auto simp: fun_eq_iff)
  qed
qed

lemma num_items_law: "lh_inv kh key cmp lh \<Longrightarrow> OPENSSL_lh_num_items lh = card (dom (lh_map key lh)) mod 2 ^ 64"
proof -
  assume i: "lh_inv kh key cmp lh"
  then have t: "table_ok kh key (num_buckets lh) (buckets lh)" by (simp add: lh_inv_def)
  have "card (dom (lh_map key lh)) = length (entries key (concat (buckets lh)))"
    using distinct_card [OF table_distinct [OF t]] by (simp add: lh_map_def table_map_def dom_map_of_conv_image_fst)
  then show ?thesis using i by (simp add: OPENSSL_lh_num_items_def lh_inv_def entries_def)
qed

end

sublocale lh_keys \<subseteq> keyed_table "lh_inv kh key cmp" "lh_map key" key OPENSSL_lh_insert OPENSSL_lh_delete OPENSSL_lh_retrieve
  by unfold_locales (use retrieve_law insert_law delete_law in blast)+

context lh_keys
begin

lemma lh_run_replays:
  "lh_inv kh key cmp lh \<Longrightarrow> run_ops OPENSSL_lh_insert OPENSSL_lh_delete OPENSSL_lh_retrieve ops lh = (results, lh') \<Longrightarrow>
     lh_inv kh key cmp lh' \<and> replay key (lh_map key lh) results = Some (lh_map key lh')"
  by (rule run_replays)

end

text \<open>
  The table of C strings that the object and configuration code build: \<open>strcmp\<close> compares and
  \<open>OPENSSL_strhash\<close> hashes. The bytes after the list of a string read as NUL.
\<close>

fun strcmp :: "u8 list \<Rightarrow> u8 list \<Rightarrow> int" where
  "strcmp (a # as) (b # bs) = (if a \<noteq> b then uint a - uint b else if a = 0 then 0 else strcmp as bs)"
| "strcmp (a # as) [] = uint a"
| "strcmp [] (b # bs) = - uint b"
| "strcmp [] [] = 0"

definition c_string :: "u8 list \<Rightarrow> u8 list" where
  "c_string s = takeWhile (\<lambda>c. c \<noteq> 0) s"

lemma strcmp_zero: "strcmp a b = 0 \<longleftrightarrow> c_string a = c_string b"
  by (induction a b rule: strcmp.induct) (auto simp: c_string_def unsigned_eq_0_iff word_uint_eq_iff [symmetric])

lemma strhash_c_string: "OPENSSL_strhash s = OPENSSL_hash32 (c_string s)"
  by (simp add: OPENSSL_strhash_def c_string_def strlen_def takeWhile_eq_take [symmetric])

interpretation strings: lh_keys OPENSSL_hash32 c_string strcmp
  by unfold_locales (rule strcmp_zero)

section \<open>Properties\<close>

text \<open>
  C18. The hash table refines a finite map, through growing and shrinking and through allocation failures:
  after \<open>OPENSSL_lh_new\<close>, every sequence of inserts, deletes and retrievals returns what the map returns, an
  insert fails only for a new key and then changes nothing, and the item count is the size of the map.
\<close>

theorem lhash_refines_map:
  assumes "\<And>a b. cmp a b = 0 \<longleftrightarrow> key a = key b"
    and "OPENSSL_lh_new malloc (\<lambda>d. kh (key d)) cmp = Some lh"
    and "run_ops OPENSSL_lh_insert OPENSSL_lh_delete OPENSSL_lh_retrieve ops lh = (results, lh')"
  shows "\<exists>m. replay key Map.empty results = Some m \<and> OPENSSL_lh_num_items lh' = card (dom m) mod 2 ^ 64"
proof -
  have k: "lh_keys key cmp" by unfold_locales (rule assms(1))
  have "lh_inv kh key cmp lh" "lh_map key lh = Map.empty"
    using assms(2) table_empty(1) [of 16 kh key] table_empty(2) [of key 16]
    by (auto simp: OPENSSL_lh_new_def lh_inv_def lh_map_def split: if_splits)
  with lh_keys.lh_run_replays [OF k _ assms(3)] lh_keys.num_items_law [OF k] show ?thesis by fastforce
qed

definition demo_table :: "u8 list LHASH" where
  "demo_table = the (OPENSSL_lh_new (\<lambda>n. Some (replicate n 0)) (\<lambda>d. OPENSSL_hash32 (c_string d)) strcmp)"

definition demo_ops :: "(malloc, u8 list) table_op list" where
  "demo_ops = [Insert (\<lambda>n. Some (replicate n 0)) [65, 0], Insert (\<lambda>_. None) [66, 0], Retrieve [65, 0, 7], Delete (\<lambda>_. None) [65, 0]]"

theorem lhash_refines_map_witness:
  "\<exists>m. replay c_string Map.empty (fst (run_ops OPENSSL_lh_insert OPENSSL_lh_delete OPENSSL_lh_retrieve demo_ops demo_table)) = Some m \<and>
     OPENSSL_lh_num_items (snd (run_ops OPENSSL_lh_insert OPENSSL_lh_delete OPENSSL_lh_retrieve demo_ops demo_table)) = card (dom m) mod 2 ^ 64"
  by (rule lhash_refines_map [where kh = OPENSSL_hash32 and key = c_string and malloc = "\<lambda>n. Some (replicate n 0)", OF strcmp_zero])
    (simp_all add: demo_table_def OPENSSL_lh_new_def OPENSSL_malloc_def)

end
