(* ===== verification/Stack.thy ===== *)
theory Stack
  imports Mem "HOL-Library.Multiset"
begin

text \<open>
  The pointer stack of BoringSSL (crypto/stack/stack.c). A stack holds pointers, modelled as values of a type
  variable with \<open>None\<close> for NULL; a NULL stack is \<open>None\<close> as well. The comparison function is an optional field. The
  slots that a grown array adds are never read before they are written; they hold NULL here. The C
  library's \<open>qsort\<close> is a parameter.
\<close>

section \<open>State\<close>

type_synonym 'a ptr = "'a option"
type_synonym 'a cmp_func = "'a ptr \<Rightarrow> 'a ptr \<Rightarrow> int"

record 'a STACK =
  sk_nums :: nat
  sk_data :: "'a ptr list"
  sk_sorted :: bool
  num_alloc :: nat
  sk_comp :: "'a cmp_func option"

abbreviation (input) kMinSize :: nat where "kMinSize \<equiv> 4"

section \<open>Operations\<close>

definition sk_new :: "malloc \<Rightarrow> 'a cmp_func option \<Rightarrow> 'a STACK option" where
  "sk_new malloc cmp =
     (if OPENSSL_malloc malloc 40 = None then None
      else if OPENSSL_malloc malloc (8 * kMinSize) = None then None
      else Some \<lparr>sk_nums = 0, sk_data = replicate kMinSize None, sk_sorted = False, num_alloc = kMinSize, sk_comp = cmp\<rparr>)"

definition sk_new_null :: "malloc \<Rightarrow> 'a STACK option" where
  "sk_new_null malloc = sk_new malloc None"

definition sk_num :: "'a STACK option \<Rightarrow> nat" where
  "sk_num sk = (case sk of None \<Rightarrow> 0 | Some sk \<Rightarrow> sk_nums sk)"

definition sk_zero :: "'a STACK option \<Rightarrow> 'a STACK option" where
  "sk_zero sk =
     (case sk of
        None \<Rightarrow> None
      | Some sk \<Rightarrow>
          if sk_nums sk = 0 then Some sk
          else Some (sk\<lparr>sk_data := replicate (sk_nums sk) None @ drop (sk_nums sk) (sk_data sk), sk_nums := 0, sk_sorted := False\<rparr>))"

definition sk_value :: "'a STACK option \<Rightarrow> nat \<Rightarrow> 'a ptr" where
  "sk_value sk i =
     (case sk of None \<Rightarrow> None | Some sk \<Rightarrow> if i \<ge> sk_nums sk then None else sk_data sk ! i)"

definition sk_set :: "'a STACK option \<Rightarrow> nat \<Rightarrow> 'a ptr \<Rightarrow> 'a ptr \<times> 'a STACK option" where
  "sk_set sk i value =
     (case sk of
        None \<Rightarrow> (None, None)
      | Some sk \<Rightarrow> if i \<ge> sk_nums sk then (None, Some sk) else (value, Some (sk\<lparr>sk_data := (sk_data sk)[i := value]\<rparr>)))"

text \<open>The calls of the free function, in order.\<close>

definition sk_pop_free_ex :: "'a STACK option \<Rightarrow> 'a list" where
  "sk_pop_free_ex sk = (case sk of None \<Rightarrow> [] | Some sk \<Rightarrow> List.map_filter id (take (sk_nums sk) (sk_data sk)))"

definition grown_alloc :: "nat \<Rightarrow> nat option" where
  "grown_alloc n =
     (let new_alloc = n * 2 mod 2 ^ 64; alloc_size = new_alloc * 8 mod 2 ^ 64;
          new_alloc' = (if new_alloc < n \<or> alloc_size div 8 \<noteq> new_alloc then (n + 1) mod 2 ^ 64 else new_alloc);
          alloc_size' = new_alloc' * 8 mod 2 ^ 64
      in if new_alloc' < n \<or> alloc_size' div 8 \<noteq> new_alloc' then None else Some new_alloc')"

definition sk_reserve :: "malloc \<Rightarrow> 'a STACK \<Rightarrow> 'a STACK option" where
  "sk_reserve malloc sk =
     (if num_alloc sk \<le> (sk_nums sk + 1) mod 2 ^ 64 then
        case grown_alloc (num_alloc sk) of
          None \<Rightarrow> None
        | Some new_alloc \<Rightarrow>
            if OPENSSL_malloc malloc (new_alloc * 8 mod 2 ^ 64) = None then None
            else Some (sk\<lparr>sk_data := sk_data sk @ replicate (new_alloc - length (sk_data sk)) None, num_alloc := new_alloc\<rparr>)
      else Some sk)"

definition sk_insert :: "malloc \<Rightarrow> 'a STACK option \<Rightarrow> 'a ptr \<Rightarrow> nat \<Rightarrow> nat \<times> 'a STACK option" where
  "sk_insert malloc sk0 p at =
     (case sk0 of
        None \<Rightarrow> (0, None)
      | Some sk0 \<Rightarrow>
      case sk_reserve malloc sk0 of
        None \<Rightarrow> (0, Some sk0)
      | Some sk \<Rightarrow>
          let n = sk_nums sk; d = sk_data sk;
              d' = (if at \<ge> n then d[n := p]
                    else (take (at + 1) d @ take (n - at) (drop at d) @ drop (n + 1) d)[at := p])
          in (n + 1, Some (sk\<lparr>sk_data := d', sk_nums := n + 1, sk_sorted := False\<rparr>)))"

definition sk_delete :: "'a STACK option \<Rightarrow> nat \<Rightarrow> 'a ptr \<times> 'a STACK option" where
  "sk_delete sk at =
     (case sk of
        None \<Rightarrow> (None, None)
      | Some sk \<Rightarrow>
          let n = sk_nums sk; d = sk_data sk in
          if at \<ge> n then (None, Some sk)
          else
            let d' = (if at \<noteq> n - 1 then take at d @ take (n - at - 1) (drop (at + 1) d) @ drop (n - 1) d else d)
            in (d ! at, Some (sk\<lparr>sk_data := d', sk_nums := n - 1\<rparr>)))"

text \<open>The linear search loops.\<close>

function search_loop :: "('p \<Rightarrow> bool) \<Rightarrow> 'p list \<Rightarrow> nat \<Rightarrow> nat \<Rightarrow> nat option" where
  "search_loop P d n i = (if i < n then if P (d ! i) then Some i else search_loop P d n (i + 1) else None)"
  by pat_completeness auto
termination by (relation "measure (\<lambda>(P, d, n, i). n - i)") auto

declare search_loop.simps [simp del]

definition sk_delete_ptr :: "'a STACK option \<Rightarrow> 'a ptr \<Rightarrow> 'a ptr \<times> 'a STACK option" where
  "sk_delete_ptr sk p =
     (case sk of
        None \<Rightarrow> (None, None)
      | Some s \<Rightarrow>
          (case search_loop (\<lambda>x. x = p) (sk_data s) (sk_nums s) 0 of
             Some i \<Rightarrow> sk_delete sk i
           | None \<Rightarrow> (None, sk)))"

definition sk_is_sorted :: "'a STACK option \<Rightarrow> bool" where
  "sk_is_sorted sk = (case sk of None \<Rightarrow> True | Some sk \<Rightarrow> sk_sorted sk)"

function bsearch_loop :: "'a cmp_func \<Rightarrow> 'a ptr \<Rightarrow> 'a ptr list \<Rightarrow> nat \<Rightarrow> nat \<Rightarrow> nat option" where
  "bsearch_loop c p d lo hi =
     (if lo < hi then
        let mid = lo + (hi - lo - 1) div 2; r = c p (d ! mid) in
        if r > 0 then bsearch_loop c p d (mid + 1) hi
        else if r < 0 then bsearch_loop c p d lo mid
        else if hi - lo = 1 then Some mid
        else bsearch_loop c p d lo (mid + 1)
      else None)"
  by pat_completeness auto
termination by (relation "measure (\<lambda>(c, p, d, lo, hi). hi - lo)") auto

declare bsearch_loop.simps [simp del]

text \<open>The index that is found; \<open>None\<close> stands for the return value zero.\<close>

definition sk_find :: "'a STACK option \<Rightarrow> 'a ptr \<Rightarrow> nat option" where
  "sk_find sk p =
     (case sk of
        None \<Rightarrow> None
      | Some s \<Rightarrow>
      case sk_comp s of
        None \<Rightarrow> search_loop (\<lambda>x. x = p) (sk_data s) (sk_nums s) 0
      | Some c \<Rightarrow>
          if p = None then None
          else if \<not> sk_is_sorted sk then search_loop (\<lambda>elem. c p elem = 0) (sk_data s) (sk_nums s) 0
          else bsearch_loop c p (sk_data s) 0 (sk_nums s))"

definition sk_shift :: "'a STACK option \<Rightarrow> 'a ptr \<times> 'a STACK option" where
  "sk_shift sk = (case sk of None \<Rightarrow> (None, None) | Some s \<Rightarrow> if sk_nums s = 0 then (None, sk) else sk_delete sk 0)"

definition sk_push :: "malloc \<Rightarrow> 'a STACK option \<Rightarrow> 'a ptr \<Rightarrow> nat \<times> 'a STACK option" where
  "sk_push malloc sk p = sk_insert malloc sk p (sk_num sk)"

definition sk_pop :: "'a STACK option \<Rightarrow> 'a ptr \<times> 'a STACK option" where
  "sk_pop sk = (case sk of None \<Rightarrow> (None, None) | Some s \<Rightarrow> if sk_nums s = 0 then (None, sk) else sk_delete sk (sk_nums s - 1))"

definition sk_dup :: "malloc \<Rightarrow> 'a STACK option \<Rightarrow> 'a STACK option" where
  "sk_dup malloc sk =
     (case sk of
        None \<Rightarrow> None
      | Some sk \<Rightarrow>
          if OPENSSL_malloc malloc 40 = None then None
          else if OPENSSL_malloc malloc (8 * num_alloc sk mod 2 ^ 64) = None then None
          else Some \<lparr>sk_nums = sk_nums sk, sk_data = take (sk_nums sk) (sk_data sk) @ replicate (num_alloc sk - sk_nums sk) None,
                     sk_sorted = sk_sorted sk, num_alloc = num_alloc sk, sk_comp = sk_comp sk\<rparr>)"

definition sk_sort :: "('a cmp_func \<Rightarrow> 'a ptr list \<Rightarrow> 'a ptr list) \<Rightarrow> 'a STACK option \<Rightarrow> 'a STACK option" where
  "sk_sort qsort sk =
     (case sk of
        None \<Rightarrow> None
      | Some s \<Rightarrow>
      case sk_comp s of
        None \<Rightarrow> sk
      | Some c \<Rightarrow>
          if sk_sorted s then sk
          else
            let n = sk_nums s;
                s = (if n \<ge> 2 then s\<lparr>sk_data := qsort c (take n (sk_data s)) @ drop n (sk_data s)\<rparr> else s)
            in Some (s\<lparr>sk_sorted := True\<rparr>))"

text \<open>Function pointers are compared; \<open>same\<close> says that the old and the new one are equal.\<close>

definition sk_set_cmp_func :: "bool \<Rightarrow> 'a STACK \<Rightarrow> 'a cmp_func option \<Rightarrow> 'a STACK" where
  "sk_set_cmp_func same sk cmp =
     (let sk = (if \<not> same then sk\<lparr>sk_sorted := False\<rparr> else sk) in sk\<lparr>sk_comp := cmp\<rparr>)"

text \<open>The copies, or \<open>None\<close> as soon as one fails.\<close>

fun copy_loop :: "('a \<Rightarrow> 'a option) \<Rightarrow> 'a ptr list \<Rightarrow> 'a ptr list option" where
  "copy_loop copy [] = Some []"
| "copy_loop copy (None # ps) = map_option ((#) None) (copy_loop copy ps)"
| "copy_loop copy (Some x # ps) =
     (case copy x of None \<Rightarrow> None | Some y \<Rightarrow> map_option ((#) (Some y)) (copy_loop copy ps))"

definition sk_deep_copy :: "malloc \<Rightarrow> 'a STACK option \<Rightarrow> ('a \<Rightarrow> 'a option) \<Rightarrow> 'a STACK option" where
  "sk_deep_copy malloc sk copy =
     (case sk_dup malloc sk of
        None \<Rightarrow> None
      | Some ret \<Rightarrow>
          (case copy_loop copy (take (sk_nums ret) (sk_data ret)) of
             None \<Rightarrow> None
           | Some d \<Rightarrow> Some (ret\<lparr>sk_data := d @ drop (sk_nums ret) (sk_data ret)\<rparr>)))"

section \<open>Contents and invariant\<close>

definition contents :: "'a STACK \<Rightarrow> 'a ptr list" where
  "contents sk = take (sk_nums sk) (sk_data sk)"

text \<open>A comparison function is a total preorder given by its sign.\<close>

definition cmp_ok :: "'a cmp_func \<Rightarrow> bool" where
  "cmp_ok c \<longleftrightarrow> (\<forall>a b. sgn (c a b) = - sgn (c b a)) \<and> (\<forall>a b d. c a b \<le> 0 \<longrightarrow> c b d \<le> 0 \<longrightarrow> c a d \<le> 0)"

definition qsort_ok :: "('a cmp_func \<Rightarrow> 'a ptr list \<Rightarrow> 'a ptr list) \<Rightarrow> bool" where
  "qsort_ok qsort \<longleftrightarrow> (\<forall>c xs. cmp_ok c \<longrightarrow> mset (qsort c xs) = mset xs \<and> sorted_wrt (\<lambda>a b. c a b \<le> 0) (qsort c xs))"

definition comp_ok :: "'a cmp_func option \<Rightarrow> bool" where
  "comp_ok cmp \<longleftrightarrow> (case cmp of None \<Rightarrow> True | Some c \<Rightarrow> cmp_ok c)"

definition sk_inv :: "'a STACK \<Rightarrow> bool" where
  "sk_inv sk \<longleftrightarrow> length (sk_data sk) = num_alloc sk \<and> sk_nums sk < num_alloc sk \<and> num_alloc sk * 8 < 2 ^ 64 \<and>
     comp_ok (sk_comp sk) \<and>
     (case sk_comp sk of None \<Rightarrow> True | Some c \<Rightarrow> sk_sorted sk \<longrightarrow> sorted_wrt (\<lambda>a b. c a b \<le> 0) (contents sk))"

lemma sk_invD:
  assumes "sk_inv sk"
  shows "length (sk_data sk) = num_alloc sk" "sk_nums sk < num_alloc sk" "num_alloc sk * 8 < 2 ^ 64" "comp_ok (sk_comp sk)"
    and "sk_comp sk = Some c \<Longrightarrow> cmp_ok c" and "sk_comp sk = Some c \<Longrightarrow> sk_sorted sk \<Longrightarrow> sorted_wrt (\<lambda>a b. c a b \<le> 0) (contents sk)"
  using assms by (auto simp: sk_inv_def comp_ok_def)

lemma length_contents: "sk_inv sk \<Longrightarrow> length (contents sk) = sk_nums sk"
  using sk_invD(1,2) [of sk] by (simp add: contents_def)

text \<open>An unsorted stack with room.\<close>

lemma sk_inv_unsorted:
  "length (sk_data sk) = num_alloc sk \<Longrightarrow> sk_nums sk < num_alloc sk \<Longrightarrow> num_alloc sk * 8 < 2 ^ 64 \<Longrightarrow>
   comp_ok (sk_comp sk) \<Longrightarrow> \<not> sk_sorted sk \<Longrightarrow> sk_inv sk"
  by (auto simp: sk_inv_def split: option.splits)

lemma grown_alloc_spec:
  assumes "grown_alloc n = Some m" and "n < 2 ^ 61" and "0 < n"
  shows "n < m \<and> m * 8 < 2 ^ 64"
proof -
  have d: "k * 8 < 2 ^ 64" if "k * 8 mod 2 ^ 64 div 8 = k" for k :: nat
  proof -
    have "k * 8 mod 2 ^ 64 < 2 ^ 64" by simp
    then have "k < 2 ^ 61" using that less_mult_imp_div_less [of "k * 8 mod 2 ^ 64" "2 ^ 61" 8] by simp
    then show ?thesis by simp
  qed
  have 1: "n * 2 mod 2 ^ 64 = n * 2" "(n + 1) mod 2 ^ 64 = n + 1" using assms(2) by simp_all
  define f :: "nat \<Rightarrow> nat" where "f k = k * 8 mod 2 ^ 64 div 8" for k
  define k where "k = (if n * 2 < n \<or> f (n * 2) \<noteq> n * 2 then n + 1 else n * 2)"
  have "grown_alloc n = (if k < n \<or> f k \<noteq> k then None else Some k)"
    unfolding grown_alloc_def Let_def 1 f_def [symmetric] k_def [symmetric] ..
  then have "m = k" "f m = m" using assms(1) by (simp_all split: if_splits)
  moreover have "k = n * 2 \<or> k = n + 1" by (simp add: k_def)
  ultimately show ?thesis using d [of m] assms(3) unfolding f_def by auto
qed

lemma reserve_ok:
  assumes i: "sk_inv sk" and r: "sk_reserve malloc sk = Some sk'"
  shows "length (sk_data sk') = num_alloc sk'" "sk_nums sk' + 1 < num_alloc sk'" "num_alloc sk' * 8 < 2 ^ 64"
    "contents sk' = contents sk" "sk_nums sk' = sk_nums sk" "sk_comp sk' = sk_comp sk"
proof -
  have n: "(sk_nums sk + 1) mod 2 ^ 64 = sk_nums sk + 1" using sk_invD(2,3) [OF i] by simp
  show "length (sk_data sk') = num_alloc sk'" "sk_nums sk' + 1 < num_alloc sk'" "num_alloc sk' * 8 < 2 ^ 64"
    "contents sk' = contents sk" "sk_nums sk' = sk_nums sk" "sk_comp sk' = sk_comp sk"
    using r sk_invD(1-3) [OF i] grown_alloc_spec [of "num_alloc sk"]
    unfolding sk_reserve_def n by (auto simp: contents_def split: if_splits option.splits)
qed

lemma insert_spec:
  assumes i: "sk_inv sk" and r: "sk_insert malloc (Some sk) p at = (k, sk')"
  shows "\<exists>s. sk' = Some s \<and> sk_inv s \<and>
    (if k = 0 then s = sk
     else k = length (contents sk) + 1 \<and> contents s = take at (contents sk) @ p # drop at (contents sk) \<and> \<not> sk_sorted s)"
proof (cases "sk_reserve malloc sk")
  case None
  with assms show ?thesis by (auto simp: sk_insert_def)
next
  case (Some t)
  note t = reserve_ok [OF i Some]
  define n d where "n = sk_nums t" and "d = sk_data t"
  define d' where "d' = (if at \<ge> n then d[n := p] else (take (at + 1) d @ take (n - at) (drop at d) @ drop (n + 1) d)[at := p])"
  define s where "s = t\<lparr>sk_data := d', sk_nums := n + 1, sk_sorted := False\<rparr>"
  have nd: "n + 1 < length d" using t(1,2) by (simp add: n_def d_def)
  have len: "length d' = length d" using nd by (auto simp: d'_def)
  have "take (n + 1) d' = take at (take n d) @ p # drop at (take n d)"
  proof (cases "at \<ge> n")
    case True
    with nd show ?thesis by (simp add: d'_def take_Suc_conv_app_nth)
  next
    case False
    then have "take (n + 1) d' = (take (at + 1) d @ take (n - at) (drop at d))[at := p]"
      using nd by (simp add: d'_def take_update_swap)
    also have "\<dots> = take at d @ p # take (n - at) (drop at d)"
      using False nd by (simp add: list_update_append take_Suc_conv_app_nth upd_conv_take_nth_drop)
    also have "take (n - at) (drop at d) = drop at (take n d)" using False by (simp add: drop_take)
    finally show ?thesis using False by (simp add: min_def)
  qed
  moreover have "sk_inv s"
    using t len sk_invD(4) [OF i] by (intro sk_inv_unsorted) (simp_all add: s_def n_def d_def)
  moreover have "sk' = Some s" "k = n + 1" using r Some by (auto simp: sk_insert_def Let_def s_def d'_def n_def d_def)
  moreover have "contents sk = take n d" using t(4) by (simp add: contents_def n_def d_def)
  ultimately show ?thesis using nd by (simp add: s_def contents_def)
qed

lemma sorted_wrt_remove: "sorted_wrt R xs \<Longrightarrow> sorted_wrt R (take k xs @ drop (Suc k) xs)"
proof (cases "k < length xs")
  case True
  assume "sorted_wrt R xs"
  then have "sorted_wrt R (take k xs @ xs ! k # drop (Suc k) xs)" by (simp only: id_take_nth_drop [OF True, symmetric])
  then show ?thesis by (simp add: sorted_wrt_append)
qed simp

lemma delete_spec:
  assumes i: "sk_inv sk" and r: "sk_delete (Some sk) at = (p, sk')"
  shows "\<exists>s. sk' = Some s \<and> sk_inv s \<and> sk_comp s = sk_comp sk \<and>
    (if at < length (contents sk) then p = contents sk ! at \<and> contents s = take at (contents sk) @ drop (Suc at) (contents sk)
     else p = None \<and> s = sk)"
proof (cases "at < sk_nums sk")
  case False
  with assms length_contents [OF i] show ?thesis by (auto simp: sk_delete_def Let_def)
next
  case True
  define n d where "n = sk_nums sk" and "d = sk_data sk"
  define d' where "d' = (if at \<noteq> n - 1 then take at d @ take (n - at - 1) (drop (at + 1) d) @ drop (n - 1) d else d)"
  define s where "s = sk\<lparr>sk_data := d', sk_nums := n - 1\<rparr>"
  have nd: "at < n" "n < length d" using True sk_invD(1,2) [OF i] by (simp_all add: n_def d_def)
  have len: "length d' = length d" using nd by (auto simp: d'_def)
  have c: "contents sk = take n d" by (simp add: contents_def n_def d_def)
  have "take (n - 1) d' = take at (take n d) @ drop (Suc at) (take n d)"
    using nd by (cases "at = n - 1") (auto simp: d'_def drop_take min_def)
  then have c': "contents s = take at (contents sk) @ drop (Suc at) (contents sk)"
    unfolding c by (simp add: s_def contents_def)
  have "sorted_wrt R (contents s)" if "sorted_wrt R (contents sk)" for R
    using that unfolding c' by (rule sorted_wrt_remove)
  with i len nd have "sk_inv s" by (auto simp: sk_inv_def s_def n_def d_def split: option.splits)
  moreover have "sk' = Some s" "p = d ! at" "sk_comp s = sk_comp sk"
    using r True by (auto simp: sk_delete_def Let_def s_def d'_def n_def d_def)
  ultimately show ?thesis using c c' nd by simp
qed

lemma sort_spec:
  assumes i: "sk_inv sk" and q: "qsort_ok qsort"
  shows "\<exists>s. sk_sort qsort (Some sk) = Some s \<and> sk_inv s \<and> mset (contents s) = mset (contents sk) \<and> sk_comp s = sk_comp sk"
proof (cases "sk_comp sk")
  case None
  with i show ?thesis by (simp add: sk_sort_def)
next
  case (Some c)
  have ok: "cmp_ok c" by (rule sk_invD(5) [OF i Some])
  note n = sk_invD(1,2) [OF i]
  have q': "mset (qsort c (contents sk)) = mset (contents sk)" "sorted_wrt (\<lambda>a b. c a b \<le> 0) (qsort c (contents sk))"
    using q ok by (auto simp: qsort_ok_def)
  have l: "length (qsort c (contents sk)) = sk_nums sk" using mset_eq_length [OF q'(1)] length_contents [OF i] by simp
  have short: "sk_nums sk < 2 \<Longrightarrow> sorted_wrt R (contents sk)" for R
    using length_contents [OF i] by (cases "contents sk"; cases "tl (contents sk)") auto
  have d: "qsort c (take (sk_nums sk) (sk_data sk)) = qsort c (contents sk)" by (simp add: contents_def)
  show ?thesis
  proof (cases "sk_sorted sk")
    case True
    with i Some show ?thesis by (simp add: sk_sort_def)
  next
    case False
    define t where "t = (if sk_nums sk \<ge> 2 then sk\<lparr>sk_data := qsort c (contents sk) @ drop (sk_nums sk) (sk_data sk)\<rparr> else sk)"
    define s where "s = t\<lparr>sk_sorted := True\<rparr>"
    have "contents s = (if sk_nums sk \<ge> 2 then qsort c (contents sk) else contents sk)"
      using l by (simp add: s_def t_def contents_def)
    then have m: "mset (contents s) = mset (contents sk)" "sorted_wrt (\<lambda>a b. c a b \<le> 0) (contents s)"
      using q' short by auto
    have f: "sk_comp s = Some c" "num_alloc s = num_alloc sk" "sk_nums s = sk_nums sk" "length (sk_data s) = length (sk_data sk)"
      using Some l n by (simp_all add: s_def t_def)
    have "sk_sort qsort (Some sk) = Some s" using Some False by (simp add: sk_sort_def Let_def d s_def t_def)
    moreover have "sk_inv s" using m(2) f n sk_invD(3) [OF i] ok by (simp add: sk_inv_def comp_ok_def)
    ultimately show ?thesis using m(1) f(1) Some by simp
  qed
qed

section \<open>Searching\<close>

text \<open>The specification of a search: the first index with a match.\<close>

fun first_index :: "('p \<Rightarrow> bool) \<Rightarrow> 'p list \<Rightarrow> nat option" where
  "first_index P [] = None"
| "first_index P (x # xs) = (if P x then Some 0 else map_option Suc (first_index P xs))"

lemma first_index_Some: "first_index P xs = Some i \<longleftrightarrow> i < length xs \<and> P (xs ! i) \<and> (\<forall>j < i. \<not> P (xs ! j))"
  by (induction xs arbitrary: i) (auto simp: less_Suc_eq_0_disj nth_Cons split: nat.splits)

lemma first_index_None: "first_index P xs = None \<longleftrightarrow> (\<forall>x \<in> set xs. \<not> P x)"
  by (induction xs) auto

lemma search_loop_Some:
  assumes "search_loop P d n i = Some k" and "i \<le> n"
  shows "i \<le> k \<and> k < n \<and> P (d ! k) \<and> (\<forall>j. i \<le> j \<longrightarrow> j < k \<longrightarrow> \<not> P (d ! j))"
  using assms
proof (induction P d n i rule: search_loop.induct)
  case (1 P d n i)
  show ?case
  proof (cases "i < n \<and> \<not> P (d ! i)")
    case True
    with 1 have "i + 1 \<le> k \<and> k < n \<and> P (d ! k) \<and> (\<forall>j. i + 1 \<le> j \<longrightarrow> j < k \<longrightarrow> \<not> P (d ! j))"
      by (simp add: search_loop.simps [of P d n i])
    moreover have "j = i \<or> i + 1 \<le> j" if "i \<le> j" for j using that by auto
    ultimately show ?thesis using True by auto
  qed (use 1 in \<open>auto simp: search_loop.simps [of P d n i] split: if_splits\<close>)
qed

lemma search_loop_None: "search_loop P d n i = None \<Longrightarrow> i \<le> j \<Longrightarrow> j < n \<Longrightarrow> \<not> P (d ! j)"
proof (induction P d n i rule: search_loop.induct)
  case (1 P d n i)
  then show ?case by (cases "j = i") (auto simp: search_loop.simps [of P d n i] split: if_splits)
qed

lemma search_loop_first: "n \<le> length d \<Longrightarrow> search_loop P d n 0 = first_index P (take n d)"
proof (cases "search_loop P d n 0")
  case None
  assume "n \<le> length d"
  then have "first_index P (take n d) = None" unfolding first_index_None
    using search_loop_None [OF None] by (auto simp: in_set_conv_nth)
  with None show ?thesis by simp
next
  case (Some k)
  assume "n \<le> length d"
  then have "first_index P (take n d) = Some k"
    using search_loop_Some [OF Some] by (simp add: first_index_Some)
  with Some show ?thesis by simp
qed

lemma cmp_sign: "cmp_ok c \<Longrightarrow> c a b > 0 \<longleftrightarrow> c b a < 0" "cmp_ok c \<Longrightarrow> c a b = 0 \<longleftrightarrow> c b a = 0" "cmp_ok c \<Longrightarrow> c a b \<le> 0 \<longleftrightarrow> c b a \<ge> 0"
proof -
  assume "cmp_ok c"
  then have "sgn (c a b) = - sgn (c b a)" unfolding cmp_ok_def by blast
  then show "c a b > 0 \<longleftrightarrow> c b a < 0" "c a b = 0 \<longleftrightarrow> c b a = 0" "c a b \<le> 0 \<longleftrightarrow> c b a \<ge> 0"
    by (auto simp: sgn_if split: if_splits)
qed

lemma cmp_trans: "cmp_ok c \<Longrightarrow> c a b \<le> 0 \<Longrightarrow> c b d \<le> 0 \<Longrightarrow> c a d \<le> 0"
  unfolding cmp_ok_def by blast

text \<open>Against the sorted array the comparison with \<open>p\<close> falls from positive over zero to negative.\<close>

lemma sorted_cmp:
  assumes c: "cmp_ok c" and s: "sorted_wrt (\<lambda>a b. c a b \<le> 0) xs" and ij: "i \<le> j" "j < length xs"
  shows "c p (xs ! j) > 0 \<Longrightarrow> c p (xs ! i) > 0" and "c p (xs ! i) < 0 \<Longrightarrow> c p (xs ! j) < 0"
proof -
  have xx: "c x x \<le> 0" for x using cmp_sign(1) [OF c, of x x] by linarith
  have le: "c (xs ! i) (xs ! j) \<le> 0"
    using s ij xx by (cases "i = j") (auto simp: sorted_wrt_iff_nth_less)
  show "c p (xs ! j) > 0 \<Longrightarrow> c p (xs ! i) > 0"
    using cmp_trans [OF c _ le, of p] by linarith
  show "c p (xs ! i) < 0 \<Longrightarrow> c p (xs ! j) < 0"
    using cmp_trans [OF c le, of p] cmp_sign(1) [OF c, of "xs ! j" p] cmp_sign(1) [OF c, of "xs ! i" p] cmp_sign(3) [OF c] by (metis not_le)
qed

lemma bsearch_first:
  assumes c: "cmp_ok c" and s: "sorted_wrt (\<lambda>a b. c a b \<le> 0) xs"
    and "hi \<le> length xs" and "\<forall>j < lo. c p (xs ! j) \<noteq> 0" and "\<forall>k. first_index (\<lambda>x. c p x = 0) xs = Some k \<longrightarrow> k < hi"
  shows "bsearch_loop c p xs lo hi = first_index (\<lambda>x. c p x = 0) xs"
  using assms(3-)
proof (induction "hi - lo" arbitrary: lo hi rule: less_induct)
  case less
  let ?f = "first_index (\<lambda>x. c p x = 0) xs"
  show ?case
  proof (cases "lo < hi")
    case False
    have "?f \<noteq> Some k" for k
      using less.prems(2,3) False first_index_Some [of "\<lambda>x. c p x = 0" xs k] by auto
    then have "?f = None" by (cases ?f) auto
    with False show ?thesis by (simp add: bsearch_loop.simps [of c p xs lo hi])
  next
    case True
    define mid r where "mid = lo + (hi - lo - 1) div 2" and "r = c p (xs ! mid)"
    have mid: "lo \<le> mid" "mid < hi" "hi - lo \<noteq> 1 \<Longrightarrow> mid + 1 < hi" using True by (auto simp: mid_def)
    then have ml: "mid < length xs" using less.prems(1) by simp
    have unf: "bsearch_loop c p xs lo hi =
        (if r > 0 then bsearch_loop c p xs (mid + 1) hi else if r < 0 then bsearch_loop c p xs lo mid
         else if hi - lo = 1 then Some mid else bsearch_loop c p xs lo (mid + 1))"
      using True by (simp add: bsearch_loop.simps [of c p xs lo hi] Let_def mid_def r_def)
    note sc = sorted_cmp [OF c s]
    consider (gt) "r > 0" | (lt) "r < 0" | (one) "r = 0" "hi - lo = 1" | (eq) "r = 0" "hi - lo \<noteq> 1" by linarith
    then show ?thesis
    proof cases
      case gt
      have "c p (xs ! j) > 0" if "j < mid + 1" for j
        using sc(1) [of j mid p] gt ml that by (simp add: r_def)
      then have "\<forall>j < mid + 1. c p (xs ! j) \<noteq> 0" by force
      with less mid gt show ?thesis unfolding unf by simp
    next
      case lt
      have "k < mid" if "?f = Some k" for k
      proof (rule ccontr)
        assume "\<not> k < mid"
        then have "c p (xs ! k) < 0" using sc(2) [of mid k p] lt that by (simp add: r_def first_index_Some)
        with that show False by (simp add: first_index_Some)
      qed
      with less mid lt show ?thesis unfolding unf by simp
    next
      case one
      then have "mid = lo" using mid by linarith
      then have "?f = Some mid" using one ml less.prems(2) by (simp add: first_index_Some r_def)
      with one show ?thesis unfolding unf by simp
    next
      case eq
      have "k < mid + 1" if "?f = Some k" for k
        using that eq by (auto simp: first_index_Some r_def intro: ccontr)
      with less mid eq show ?thesis unfolding unf by simp
    qed
  qed
qed

lemma bsearch_take: "hi \<le> n \<Longrightarrow> bsearch_loop c p (take n d) lo hi = bsearch_loop c p d lo hi"
proof (induction "hi - lo" arbitrary: lo hi rule: less_induct)
  case less
  have "lo < hi \<Longrightarrow> take n d ! (lo + (hi - lo - 1) div 2) = d ! (lo + (hi - lo - 1) div 2)"
    using less.prems by (intro nth_take) auto
  with less show ?case
    by (simp add: bsearch_loop.simps [of c p _ lo hi] Let_def)
qed

lemma find_first:
  assumes i: "sk_inv sk"
  shows "sk_find (Some sk) p =
    (case sk_comp sk of
       None \<Rightarrow> first_index (\<lambda>x. x = p) (contents sk)
     | Some c \<Rightarrow> if p = None then None else first_index (\<lambda>x. c p x = 0) (contents sk))"
proof -
  note n = sk_invD(1,2) [OF i]
  have lin: "search_loop P (sk_data sk) (sk_nums sk) 0 = first_index P (contents sk)" for P
    using n unfolding contents_def by (intro search_loop_first) simp
  have "bsearch_loop c p (sk_data sk) 0 (sk_nums sk) = first_index (\<lambda>x. c p x = 0) (contents sk)"
    if "sk_comp sk = Some c" "sk_sorted sk" for c
  proof -
    have "bsearch_loop c p (contents sk) 0 (sk_nums sk) = first_index (\<lambda>x. c p x = 0) (contents sk)"
      using sk_invD(5) [OF i that(1)] sk_invD(6) [OF i that] length_contents [OF i]
      by (intro bsearch_first) (auto simp: first_index_Some)
    then show ?thesis by (simp add: contents_def bsearch_take)
  qed
  with lin show ?thesis by (auto simp: sk_find_def sk_is_sorted_def split: option.splits)
qed

section \<open>Reachable stacks\<close>

text \<open>
  The stacks a program can build without \<open>sk_set\<close>, for any pattern of allocation failures. A call with a NULL
  stack changes nothing and needs no rule.
\<close>

inductive sk_reach :: "('a cmp_func \<Rightarrow> 'a ptr list \<Rightarrow> 'a ptr list) \<Rightarrow> 'a STACK \<Rightarrow> bool" for qsort where
  reach_new: "comp_ok cmp \<Longrightarrow> sk_new malloc cmp = Some s \<Longrightarrow> sk_reach qsort s"
| reach_insert: "sk_reach qsort s \<Longrightarrow> sk_insert malloc (Some s) p at = (k, Some t) \<Longrightarrow> sk_reach qsort t"
| reach_push: "sk_reach qsort s \<Longrightarrow> sk_push malloc (Some s) p = (k, Some t) \<Longrightarrow> sk_reach qsort t"
| reach_delete: "sk_reach qsort s \<Longrightarrow> sk_delete (Some s) at = (p, Some t) \<Longrightarrow> sk_reach qsort t"
| reach_delete_ptr: "sk_reach qsort s \<Longrightarrow> sk_delete_ptr (Some s) q = (p, Some t) \<Longrightarrow> sk_reach qsort t"
| reach_shift: "sk_reach qsort s \<Longrightarrow> sk_shift (Some s) = (p, Some t) \<Longrightarrow> sk_reach qsort t"
| reach_pop: "sk_reach qsort s \<Longrightarrow> sk_pop (Some s) = (p, Some t) \<Longrightarrow> sk_reach qsort t"
| reach_zero: "sk_reach qsort s \<Longrightarrow> sk_zero (Some s) = Some t \<Longrightarrow> sk_reach qsort t"
| reach_sort: "sk_reach qsort s \<Longrightarrow> sk_sort qsort (Some s) = Some t \<Longrightarrow> sk_reach qsort t"
| reach_dup: "sk_reach qsort s \<Longrightarrow> sk_dup malloc (Some s) = Some t \<Longrightarrow> sk_reach qsort t"
| reach_set_cmp: "sk_reach qsort s \<Longrightarrow> comp_ok cmp \<Longrightarrow> same \<longrightarrow> sk_comp s = cmp \<Longrightarrow> sk_reach qsort (sk_set_cmp_func same s cmp)"

lemma delete_inv: "sk_inv s \<Longrightarrow> sk_delete (Some s) at = (p, Some t) \<Longrightarrow> sk_inv t"
  using delete_spec by fastforce

lemma insert_inv: "sk_inv s \<Longrightarrow> sk_insert malloc (Some s) p at = (k, Some t) \<Longrightarrow> sk_inv t"
  using insert_spec by fastforce

lemma reach_inv:
  assumes "qsort_ok qsort"
  shows "sk_reach qsort s \<Longrightarrow> sk_inv s"
proof (induction rule: sk_reach.induct)
  case (reach_new cmp malloc s)
  then show ?case by (intro sk_inv_unsorted) (auto simp: sk_new_def split: if_splits)
next
  case (reach_delete_ptr s q p t)
  then show ?case using delete_inv [of s] by (auto simp: sk_delete_ptr_def split: option.splits)
next
  case (reach_shift s p t)
  then show ?case using delete_inv [of s] by (auto simp: sk_shift_def split: if_splits)
next
  case (reach_pop s p t)
  then show ?case using delete_inv [of s] by (auto simp: sk_pop_def split: if_splits)
next
  case (reach_zero s t)
  show ?case
  proof (cases "sk_nums s = 0")
    case False
    with reach_zero sk_invD(1-4) [OF reach_zero.IH] show ?thesis by (intro sk_inv_unsorted) (auto simp: sk_zero_def)
  qed (use reach_zero in \<open>simp add: sk_zero_def\<close>)
next
  case (reach_sort s t)
  then show ?case using sort_spec [OF reach_sort.IH assms] by auto
next
  case (reach_dup s malloc t)
  have "contents t = contents s" using reach_dup sk_invD(1,2) [OF reach_dup.IH]
    by (auto simp: sk_dup_def contents_def split: if_splits)
  with reach_dup show ?case
    by (auto simp: sk_dup_def sk_inv_def split: if_splits option.splits)
next
  case (reach_set_cmp s cmp same)
  then show ?case by (auto simp: sk_set_cmp_func_def sk_inv_def contents_def split: option.splits)
next
  case (reach_push s malloc p k t)
  then show ?case unfolding sk_push_def by (blast intro: insert_inv)
qed (blast intro: insert_inv delete_inv)+

text \<open>A sorting function that keeps the promises of \<open>qsort\<close>.\<close>

fun insert_by :: "'a cmp_func \<Rightarrow> 'a ptr \<Rightarrow> 'a ptr list \<Rightarrow> 'a ptr list" where
  "insert_by c x [] = [x]"
| "insert_by c x (y # ys) = (if c x y \<le> 0 then x # y # ys else y # insert_by c x ys)"

definition sort_by :: "'a cmp_func \<Rightarrow> 'a ptr list \<Rightarrow> 'a ptr list" where
  "sort_by c xs = foldr (insert_by c) xs []"

lemma insert_by_spec:
  assumes c: "cmp_ok c"
  shows "mset (insert_by c x ys) = add_mset x (mset ys) \<and>
    (sorted_wrt (\<lambda>a b. c a b \<le> 0) ys \<longrightarrow> sorted_wrt (\<lambda>a b. c a b \<le> 0) (insert_by c x ys))"
proof (induction ys)
  case (Cons y ys)
  have set: "set (insert_by c x ys) = insert x (set ys)" using Cons by (metis set_mset_mset set_mset_add_mset_insert)
  have "c x z \<le> 0" if "c x y \<le> 0" "c y z \<le> 0" for z using cmp_trans [OF c that] .
  moreover have "c y x \<le> 0" if "\<not> c x y \<le> 0" using that cmp_sign(1) [OF c, of x y] by linarith
  ultimately show ?case using Cons set by auto
qed simp

lemma sort_by_ok: "qsort_ok sort_by"
proof -
  have "mset (sort_by c xs) = mset xs \<and> sorted_wrt (\<lambda>a b. c a b \<le> 0) (sort_by c xs)" if "cmp_ok c" for c and xs :: "'a ptr list"
    by (induction xs) (use insert_by_spec [OF that] in \<open>auto simp: sort_by_def\<close>)
  then show ?thesis by (simp add: qsort_ok_def)
qed

section \<open>Properties\<close>


definition int_cmp :: "int cmp_func" where
  "int_cmp a b = (case a of None \<Rightarrow> (case b of None \<Rightarrow> 0 | Some _ \<Rightarrow> - 1) | Some x \<Rightarrow> (case b of None \<Rightarrow> 1 | Some y \<Rightarrow> x - y))"

lemma int_cmp_ok: "cmp_ok int_cmp"
  by (auto simp: cmp_ok_def int_cmp_def sgn_if split: option.splits)

definition demo_stack :: "int STACK" where
  "demo_stack = the (sk_new (\<lambda>n. Some (replicate n 0)) (Some int_cmp))"


lemma demo_pushes:
  "sk_push (\<lambda>n. Some (replicate n 0)) (Some demo_stack) (Some 2) =
     (1, Some \<lparr>sk_nums = 1, sk_data = [Some 2, None, None, None], sk_sorted = False, num_alloc = 4, sk_comp = Some int_cmp\<rparr>)"
  "sk_push (\<lambda>n. Some (replicate n 0))
     (Some \<lparr>sk_nums = 1, sk_data = [Some 2, None, None, None], sk_sorted = False, num_alloc = 4, sk_comp = Some int_cmp\<rparr>) (Some 1) =
     (2, Some \<lparr>sk_nums = 2, sk_data = [Some 2, Some 1, None, None], sk_sorted = False, num_alloc = 4, sk_comp = Some int_cmp\<rparr>)"
proof -
  have "replicate 4 x = [x, x, x, x]" for x :: "int ptr" by (simp add: numeral_eq_Suc)
  then have d: "demo_stack = \<lparr>sk_nums = 0, sk_data = [None, None, None, None], sk_sorted = False, num_alloc = 4, sk_comp = Some int_cmp\<rparr>"
    by (simp add: demo_stack_def sk_new_def OPENSSL_malloc_def)
  show "sk_push (\<lambda>n. Some (replicate n 0)) (Some demo_stack) (Some 2) =
     (1, Some \<lparr>sk_nums = 1, sk_data = [Some 2, None, None, None], sk_sorted = False, num_alloc = 4, sk_comp = Some int_cmp\<rparr>)"
    unfolding d by (simp add: sk_push_def sk_num_def sk_insert_def sk_reserve_def Let_def)
  show "sk_push (\<lambda>n. Some (replicate n 0))
     (Some \<lparr>sk_nums = 1, sk_data = [Some 2, None, None, None], sk_sorted = False, num_alloc = 4, sk_comp = Some int_cmp\<rparr>) (Some 1) =
     (2, Some \<lparr>sk_nums = 2, sk_data = [Some 2, Some 1, None, None], sk_sorted = False, num_alloc = 4, sk_comp = Some int_cmp\<rparr>)"
    by (simp add: sk_push_def sk_num_def sk_insert_def sk_reserve_def Let_def)
qed


end
