(* ===== verification/Unicode.thy ===== *)
theory Unicode
  imports CbbRoundtrip
begin

unbundle bit_operations_syntax

text \<open>
  Character encodings of BoringSSL (crypto/bytestring/unicode.c): reading and writing one code point as
  UTF-8, Latin-1, UCS-2 and UTF-32. The reader of UTF-8 is shown to accept the shortest encodings of valid code
  points and nothing else, and the writer to produce them.
\<close>

section \<open>Code points\<close>

definition is_valid_code_point :: "u32 \<Rightarrow> bool" where
  "is_valid_code_point v \<longleftrightarrow>
     \<not> (v > 0x10FFFF \<or> v AND 0xFFFE = 0xFFFE \<or> (v \<ge> 0xFDD0 \<and> v \<le> 0xFDEF) \<or> (v \<ge> 0xD800 \<and> v \<le> 0xDFFF))"

definition BOTTOM_BITS :: "nat \<Rightarrow> u8" where
  "BOTTOM_BITS n = ucast (push_bit n 1 - 1 :: u32)"

definition TOP_BITS :: "nat \<Rightarrow> u8" where
  "TOP_BITS n = NOT (BOTTOM_BITS (8 - n))"

section \<open>Reading\<close>

text \<open>The loop over the continuation bytes.\<close>

fun utf8_loop :: "nat \<Rightarrow> u32 \<Rightarrow> CBS \<Rightarrow> u32 option \<times> CBS" where
  "utf8_loop 0 v cbs = (Some v, cbs)"
| "utf8_loop (Suc n) v cbs =
     get_then (CBS_get_u8 cbs) (\<lambda>c cbs.
       if c AND TOP_BITS 2 \<noteq> TOP_BITS 1 then (None, cbs)
       else utf8_loop n (push_bit 6 v OR ucast (c AND BOTTOM_BITS 6)) cbs)"

definition cbs_get_utf8 :: "CBS \<Rightarrow> u32 option \<times> CBS" where
  "cbs_get_utf8 cbs =
     get_then (CBS_get_u8 cbs) (\<lambda>c cbs.
       if c \<le> 0x7F then (Some (ucast c), cbs)
       else
         case (if c AND TOP_BITS 3 = TOP_BITS 2 then Some (ucast (c AND BOTTOM_BITS 5), 1, 0x80)
               else if c AND TOP_BITS 4 = TOP_BITS 3 then Some (ucast (c AND BOTTOM_BITS 4), 2, 0x800)
               else if c AND TOP_BITS 5 = TOP_BITS 4 then Some (ucast (c AND BOTTOM_BITS 3), 3, 0x10000)
               else None) of
           None \<Rightarrow> (None, cbs)
         | Some (v, n, lower_bound) \<Rightarrow>
             get_then (utf8_loop n v cbs) (\<lambda>v cbs.
               if \<not> is_valid_code_point v \<or> v < lower_bound then (None, cbs) else (Some v, cbs)))"

definition cbs_get_latin1 :: "CBS \<Rightarrow> u32 option \<times> CBS" where
  "cbs_get_latin1 cbs = get_then (CBS_get_u8 cbs) (\<lambda>c cbs. (Some (ucast c), cbs))"

definition cbs_get_ucs2_be :: "CBS \<Rightarrow> u32 option \<times> CBS" where
  "cbs_get_ucs2_be cbs =
     get_then (CBS_get_u16 cbs) (\<lambda>c cbs. if \<not> is_valid_code_point (ucast c) then (None, cbs) else (Some (ucast c), cbs))"

definition cbs_get_utf32_be :: "CBS \<Rightarrow> u32 option \<times> CBS" where
  "cbs_get_utf32_be cbs =
     get_then (CBS_get_u32 cbs) (\<lambda>c cbs. if is_valid_code_point c then (Some c, cbs) else (None, cbs))"

section \<open>Writing\<close>

definition cbb_get_utf8_len :: "u32 \<Rightarrow> nat" where
  "cbb_get_utf8_len u = (if u \<le> 0x7F then 1 else if u \<le> 0x7FF then 2 else if u \<le> 0xFFFF then 3 else 4)"

text \<open>A chain of \<open>CBB_add_u8\<close> calls joined by \<open>&&\<close> is \<open>add_octets\<close>.\<close>

definition cbb_add_utf8 :: "malloc \<Rightarrow> nat \<Rightarrow> u32 \<Rightarrow> cbb_state \<Rightarrow> (bool \<times> cbb_state) option" where
  "cbb_add_utf8 malloc c u s =
     (if \<not> is_valid_code_point u then Some (False, s)
      else if u \<le> 0x7F then CBB_add_u8 malloc c (ucast u) s
      else if u \<le> 0x7FF then
        add_octets malloc c
          [TOP_BITS 2 OR ucast (drop_bit 6 u), TOP_BITS 1 OR ucast (u AND ucast (BOTTOM_BITS 6))] s
      else if u \<le> 0xFFFF then
        add_octets malloc c
          [TOP_BITS 3 OR ucast (drop_bit 12 u), TOP_BITS 1 OR ucast (drop_bit 6 u AND ucast (BOTTOM_BITS 6)),
           TOP_BITS 1 OR ucast (u AND ucast (BOTTOM_BITS 6))] s
      else if u \<le> 0x10FFFF then
        add_octets malloc c
          [TOP_BITS 4 OR ucast (drop_bit 18 u), TOP_BITS 1 OR ucast (drop_bit 12 u AND ucast (BOTTOM_BITS 6)),
           TOP_BITS 1 OR ucast (drop_bit 6 u AND ucast (BOTTOM_BITS 6)),
           TOP_BITS 1 OR ucast (u AND ucast (BOTTOM_BITS 6))] s
      else Some (False, s))"

definition cbb_add_latin1 :: "malloc \<Rightarrow> nat \<Rightarrow> u32 \<Rightarrow> cbb_state \<Rightarrow> (bool \<times> cbb_state) option" where
  "cbb_add_latin1 malloc c u s = (if u \<le> 0xFF then CBB_add_u8 malloc c (ucast u) s else Some (False, s))"

definition cbb_add_ucs2_be :: "malloc \<Rightarrow> nat \<Rightarrow> u32 \<Rightarrow> cbb_state \<Rightarrow> (bool \<times> cbb_state) option" where
  "cbb_add_ucs2_be malloc c u s =
     (if u \<le> 0xFFFF \<and> is_valid_code_point u then CBB_add_u16 malloc c (ucast u) s else Some (False, s))"

definition cbb_add_utf32_be :: "malloc \<Rightarrow> nat \<Rightarrow> u32 \<Rightarrow> cbb_state \<Rightarrow> (bool \<times> cbb_state) option" where
  "cbb_add_utf32_be malloc c u s = (if is_valid_code_point u then CBB_add_u32 malloc c u s else Some (False, s))"

section \<open>UTF-8 as numbers\<close>

definition utf8 :: "nat \<Rightarrow> u8 list" where
  "utf8 u =
     (if u < 0x80 then [of_nat u]
      else if u < 0x800 then [of_nat (0xC0 + u div 64), of_nat (0x80 + u mod 64)]
      else if u < 0x10000 then [of_nat (0xE0 + u div 4096), of_nat (0x80 + u div 64 mod 64), of_nat (0x80 + u mod 64)]
      else [of_nat (0xF0 + u div 262144), of_nat (0x80 + u div 4096 mod 64), of_nat (0x80 + u div 64 mod 64), of_nat (0x80 + u mod 64)])"

lemma top_bits: "TOP_BITS (Suc 0) = 0x80" "TOP_BITS 2 = 0xC0" "TOP_BITS 3 = 0xE0" "TOP_BITS 4 = 0xF0" "TOP_BITS 5 = 0xF8"
    "BOTTOM_BITS 3 = 7" "BOTTOM_BITS 4 = 15" "BOTTOM_BITS 5 = 31" "BOTTOM_BITS 6 = 63"
  by (simp_all add: TOP_BITS_def BOTTOM_BITS_def)

lemma unat_low_bits: "unat ((w :: 'a::len word) AND 7) = unat w mod 8" "unat (w AND 15) = unat w mod 16"
    "unat (w AND 31) = unat w mod 32" "unat (w AND 63) = unat w mod 64"
proof -
  have m: "unat (w AND mask n) = unat w mod 2 ^ n" for n
    unfolding take_bit_eq_mask [symmetric] by (simp add: unsigned_take_bit_eq take_bit_nat_def)
  show "unat (w AND 7) = unat w mod 8" "unat (w AND 15) = unat w mod 16"
    "unat (w AND 31) = unat w mod 32" "unat (w AND 63) = unat w mod 64"
    using m [of 3] m [of 4] m [of 5] m [of 6] by (simp_all add: mask_eq_exp_minus_1)
qed

lemma high_bits:
  "(c :: u8) AND 0xC0 = 0x80 \<longleftrightarrow> unat c div 64 = 2"
  "c AND 0xE0 = 0xC0 \<longleftrightarrow> unat c div 32 = 6"
  "c AND 0xF0 = 0xE0 \<longleftrightarrow> unat c div 16 = 14"
  "c AND 0xF8 = 0xF0 \<longleftrightarrow> unat c div 8 = 30"
proof -
  have h: "c AND NOT (mask n) = of_nat (k * 2 ^ n) \<longleftrightarrow> unat c div 2 ^ n = k" if "k * 2 ^ n < 256" for n k
  proof -
    have "c AND NOT (mask n) = push_bit n (drop_bit n c)" by (rule bit_word_eqI) (auto simp: bit_simps)
    moreover have "unat c div 2 ^ n * 2 ^ n < 256"
      using unat_u8_lt [of c] div_times_less_eq_dividend [of "unat c" "2 ^ n"] by linarith
    ultimately have "unat (c AND NOT (mask n)) = unat c div 2 ^ n * 2 ^ n" by (simp add: unat_push_bit)
    moreover have "unat (of_nat (k * 2 ^ n) :: u8) = k * 2 ^ n" using that by (simp only: unat_of_nat_u8 mod_less)
    ultimately show ?thesis by (simp only: word_unat_eq_iff) simp
  qed
  have e: "- 64 = (192 :: u8)" "- 32 = (224 :: u8)" "- 16 = (240 :: u8)" "- 8 = (248 :: u8)" by simp_all
  show "c AND 0xC0 = 0x80 \<longleftrightarrow> unat c div 64 = 2" "c AND 0xE0 = 0xC0 \<longleftrightarrow> unat c div 32 = 6"
    "c AND 0xF0 = 0xE0 \<longleftrightarrow> unat c div 16 = 14" "c AND 0xF8 = 0xF0 \<longleftrightarrow> unat c div 8 = 30"
    using h [of 2 6] h [of 6 5] h [of 14 4] h [of 30 3] by (simp_all add: mask_eq_exp_minus_1 e)
qed

lemma utf8_loop_step:
  assumes "unat v < 2 ^ 20"
  shows "unat (push_bit 6 v OR ucast ((c :: u8) AND 63) :: u32) = unat v * 64 + unat c mod 64"
proof -
  have "unat (ucast (c AND 63) :: u32) = unat c mod 64"
    by (simp add: unsigned_ucast_eq take_bit_nat_eq_self unat_low_bits)
  then show ?thesis using unat_or_push_bit [of "ucast (c AND 63) :: u32" 6 v] assms by (simp add: or.commute)
qed

lemma utf8_loop_Suc:
  "utf8_loop (Suc n) v [] = (None, [])"
  "utf8_loop (Suc n) v (c # cs) =
     (if unat c div 64 = 2 then utf8_loop n (push_bit 6 v OR ucast (c AND 63)) cs else (None, cs))"
  by (simp_all add: get_u8_cases top_bits high_bits)

lemma utf8_loop_iff:
  "(unat v + 1) * 64 ^ n \<le> 2 ^ 26 \<Longrightarrow> utf8_loop n v cbs = (Some w, rest) \<longleftrightarrow>
     (\<exists>bs. length bs = n \<and> cbs = bs @ rest \<and> (\<forall>b \<in> set bs. unat b div 64 = 2) \<and>
       unat w = foldl (\<lambda>a b. a * 64 + unat b mod 64) (unat v) bs)"
proof (induction n arbitrary: v cbs)
  case 0
  then show ?case by (auto simp: word_unat_eq_iff)
next
  case (Suc n)
  show ?case
  proof (cases cbs)
    case Nil
    then show ?thesis by (auto simp: utf8_loop_Suc simp del: utf8_loop.simps)
  next
    case (Cons c cs)
    define v' where "v' = (push_bit 6 v OR ucast (c AND 63) :: u32)"
    have p: "(unat v + 1) * 64 * 64 ^ n \<le> 2 ^ 26" using Suc.prems by (simp add: algebra_simps)
    have "(unat v + 1) * 64 * 1 \<le> (unat v + 1) * 64 * 64 ^ n" by (intro mult_le_mono) simp_all
    from le_trans [OF this p] have small: "unat v < 2 ^ 20" by simp
    have v': "unat v' = unat v * 64 + unat c mod 64" unfolding v'_def by (rule utf8_loop_step [OF small])
    have "(unat v' + 1) * 64 ^ n \<le> (unat v + 1) * 64 * 64 ^ n"
      unfolding v' using mod_less_divisor [of 64 "unat c"] by (intro mult_le_mono) simp_all
    note IH = Suc.IH [OF le_trans [OF this p], of cs]
    have "(\<exists>bs. length bs = Suc n \<and> c # cs = bs @ rest \<and> (\<forall>b \<in> set bs. unat b div 64 = 2) \<and>
         unat w = foldl (\<lambda>a b. a * 64 + unat b mod 64) (unat v) bs) \<longleftrightarrow>
       unat c div 64 = 2 \<and> (\<exists>bs. length bs = n \<and> cs = bs @ rest \<and> (\<forall>b \<in> set bs. unat b div 64 = 2) \<and>
         unat w = foldl (\<lambda>a b. a * 64 + unat b mod 64) (unat v') bs)"
      by (auto simp: length_Suc_conv v' Cons_eq_append_conv)
    then show ?thesis using IH by (simp add: Cons utf8_loop_Suc v'_def [symmetric] del: utf8_loop.simps)
  qed
qed

text \<open>The reader in terms of numbers: the lead byte decides about the rest.\<close>

lemma unat_lead: "unat (ucast (c AND 31) :: u32) = unat (c :: u8) mod 32" "unat (ucast (c AND 15) :: u32) = unat c mod 16"
    "unat (ucast (c AND 7) :: u32) = unat c mod 8" "unat (ucast c :: u32) = unat c"
proof -
  have *: "unat (ucast d :: u32) = unat d" for d :: u8
    using unat_u8_lt [of d] by (simp add: unsigned_ucast_eq take_bit_nat_eq_self)
  show "unat (ucast (c AND 31) :: u32) = unat c mod 32" "unat (ucast (c AND 15) :: u32) = unat c mod 16"
    "unat (ucast (c AND 7) :: u32) = unat c mod 8" "unat (ucast c :: u32) = unat c"
    by (simp_all only: * unat_low_bits)
qed

definition utf8_tail :: "nat \<Rightarrow> nat \<Rightarrow> nat \<Rightarrow> u32 \<Rightarrow> CBS \<Rightarrow> CBS \<Rightarrow> bool" where
  "utf8_tail n lead lower u cs rest \<longleftrightarrow> is_valid_code_point u \<and> lower \<le> unat u \<and>
     (\<exists>bs. length bs = n \<and> cs = bs @ rest \<and> (\<forall>b \<in> set bs. unat b div 64 = 2) \<and>
       unat u = foldl (\<lambda>a b. a * 64 + unat b mod 64) lead bs)"

definition utf8_check :: "u32 \<Rightarrow> u32 option \<times> CBS \<Rightarrow> u32 option \<times> CBS" where
  "utf8_check lower r = get_then r (\<lambda>v cbs. if \<not> is_valid_code_point v \<or> v < lower then (None, cbs) else (Some v, cbs))"

lemma get_utf8_Cons:
  "cbs_get_utf8 (c # cs) =
     (if unat c < 128 then (Some (ucast c), cs)
      else if unat c div 32 = 6 then utf8_check 0x80 (utf8_loop 1 (ucast (c AND 31)) cs)
      else if unat c div 16 = 14 then utf8_check 0x800 (utf8_loop 2 (ucast (c AND 15)) cs)
      else if unat c div 8 = 30 then utf8_check 0x10000 (utf8_loop 3 (ucast (c AND 7)) cs)
      else (None, cs))"
proof -
  have "c \<le> 0x7F \<longleftrightarrow> unat c < 128" by (auto simp: word_le_nat_alt)
  then show ?thesis
    by (simp add: cbs_get_utf8_def get_u8_cases top_bits high_bits utf8_check_def del: utf8_loop.simps One_nat_def)
qed

lemma utf8_check_iff:
  "(unat v + 1) * 64 ^ n \<le> 2 ^ 26 \<Longrightarrow>
     utf8_check lower (utf8_loop n v cs) = (Some u, rest) \<longleftrightarrow> utf8_tail n (unat v) (unat lower) u cs rest"
  unfolding utf8_tail_def by (subst utf8_loop_iff [symmetric])
    (auto simp: utf8_check_def get_then_Some_iff word_le_nat_alt not_less split: if_splits)

lemma get_utf8_cases:
  "cbs_get_utf8 (c # cs) = (Some u, rest) \<longleftrightarrow>
     (if unat c < 128 then unat u = unat c \<and> rest = cs
      else if unat c div 32 = 6 then utf8_tail 1 (unat c mod 32) 0x80 u cs rest
      else if unat c div 16 = 14 then utf8_tail 2 (unat c mod 16) 0x800 u cs rest
      else if unat c div 8 = 30 then utf8_tail 3 (unat c mod 8) 0x10000 u cs rest
      else False)"
proof -
  have "utf8_check 0x80 (utf8_loop 1 (ucast (c AND 31)) cs) = (Some u, rest) \<longleftrightarrow> utf8_tail 1 (unat c mod 32) 0x80 u cs rest"
    using mod_less_divisor [of 32 "unat c"] by (subst utf8_check_iff) (simp_all add: unat_lead unat_low_bits)
  moreover have "utf8_check 0x800 (utf8_loop 2 (ucast (c AND 15)) cs) = (Some u, rest) \<longleftrightarrow> utf8_tail 2 (unat c mod 16) 0x800 u cs rest"
    using mod_less_divisor [of 16 "unat c"] by (subst utf8_check_iff) (simp_all add: unat_lead unat_low_bits)
  moreover have "utf8_check 0x10000 (utf8_loop 3 (ucast (c AND 7)) cs) = (Some u, rest) \<longleftrightarrow> utf8_tail 3 (unat c mod 8) 0x10000 u cs rest"
    using mod_less_divisor [of 8 "unat c"] by (subst utf8_check_iff) (simp_all add: unat_lead unat_low_bits)
  moreover have "(Some (ucast c), cs) = (Some u, rest) \<longleftrightarrow> unat u = unat c \<and> rest = cs"
    by (auto simp: word_unat_eq_iff unat_lead)
  ultimately show ?thesis unfolding get_utf8_Cons by simp
qed

section \<open>Canonical encodings\<close>

text \<open>The continuation bytes of a number: its base-64 digits below the lead, high digit first.\<close>

definition cont_bytes :: "nat \<Rightarrow> nat \<Rightarrow> u8 list" where
  "cont_bytes n v = map (\<lambda>i. of_nat (0x80 + v div 64 ^ i mod 64)) (rev [0..<n])"

lemma cont_bytes_Suc: "cont_bytes (Suc n) v = cont_bytes n (v div 64) @ [of_nat (0x80 + v mod 64)]"
proof -
  have "rev [0..<Suc n] = map Suc (rev [0..<n]) @ [0]" by (simp add: upt_conv_Cons map_Suc_upt rev_map [symmetric] del: upt_Suc)
  then show ?thesis by (simp add: cont_bytes_def div_mult2_eq comp_def del: of_nat_add upt_Suc)
qed

lemma div_mod_iff: "x < k \<Longrightarrow> v = f * k + x \<longleftrightarrow> v div k = f \<and> v mod k = (x :: nat)"
  by (auto simp: div_mult_mod_eq [symmetric])

lemma div_bounds: "v div k = q \<Longrightarrow> 0 < k \<Longrightarrow> q * k \<le> v \<and> v < q * k + (k :: nat)"
  using div_mod_iff [of "v mod k" k v q] mod_less_divisor [of k v] by linarith

lemma cont_byte: "unat (b :: u8) div 64 = 2 \<and> unat b mod 64 = x mod 64 \<longleftrightarrow> b = of_nat (0x80 + x mod 64)"
proof -
  have "x mod 64 < 64" by simp
  then have "unat (of_nat (0x80 + x mod 64) :: u8) = 0x80 + x mod 64" by (simp del: of_nat_add of_nat_numeral)
  moreover have "unat b div 64 = 2 \<and> unat b mod 64 = x mod 64 \<longleftrightarrow> unat b = 0x80 + x mod 64"
    using div_mod_iff [of "x mod 64" 64 "unat b" 2] by simp
  ultimately show ?thesis by (simp only: word_unat_eq_iff)
qed

lemma digits_iff:
  "(\<forall>b \<in> set bs. unat b div 64 = 2) \<and> v = foldl (\<lambda>a b. a * 64 + unat b mod 64) lead bs \<longleftrightarrow>
     lead = v div 64 ^ length bs \<and> bs = cont_bytes (length bs) v"
proof (induction bs arbitrary: v rule: rev_induct)
  case (snoc b bs)
  let ?f = "foldl (\<lambda>a b. a * 64 + unat b mod 64) lead bs"
  have "v = ?f * 64 + unat b mod 64 \<longleftrightarrow> v div 64 = ?f \<and> unat b mod 64 = v mod 64"
    using div_mod_iff [of "unat b mod 64" 64 v ?f] by auto
  then have "(\<forall>b \<in> set (bs @ [b]). unat b div 64 = 2) \<and> v = foldl (\<lambda>a b. a * 64 + unat b mod 64) lead (bs @ [b]) \<longleftrightarrow>
      ((\<forall>b \<in> set bs. unat b div 64 = 2) \<and> v div 64 = ?f) \<and> (unat b div 64 = 2 \<and> unat b mod 64 = v mod 64)"
    by auto
  also have "\<dots> \<longleftrightarrow> (lead = v div 64 div 64 ^ length bs \<and> bs = cont_bytes (length bs) (v div 64)) \<and> b = of_nat (0x80 + v mod 64)"
    unfolding snoc.IH cont_byte ..
  also have "\<dots> \<longleftrightarrow> lead = v div 64 ^ length (bs @ [b]) \<and> bs @ [b] = cont_bytes (length (bs @ [b])) v"
    by (auto simp: cont_bytes_Suc div_mult2_eq)
  finally show ?case .
qed (auto simp: cont_bytes_def)

lemma length_cont_bytes: "length (cont_bytes n v) = n"
  by (simp add: cont_bytes_def)

lemma utf8_tail_iff:
  "utf8_tail n lead lower u cs rest \<longleftrightarrow>
     is_valid_code_point u \<and> lower \<le> unat u \<and> lead = unat u div 64 ^ n \<and> cs = cont_bytes n (unat u) @ rest"
proof -
  have "(\<exists>bs. length bs = n \<and> cs = bs @ rest \<and> (\<forall>b \<in> set bs. unat b div 64 = 2) \<and>
       unat u = foldl (\<lambda>a b. a * 64 + unat b mod 64) lead bs) \<longleftrightarrow>
     (\<exists>bs. length bs = n \<and> cs = bs @ rest \<and> lead = unat u div 64 ^ n \<and> bs = cont_bytes n (unat u))"
    using digits_iff [of _ "unat u" lead] by metis
  then show ?thesis unfolding utf8_tail_def using length_cont_bytes [of n "unat u"] by blast
qed

lemma valid_bound: "is_valid_code_point u \<Longrightarrow> unat u < 0x110000"
  by (simp add: is_valid_code_point_def word_le_nat_alt not_less)

lemma valid_ascii: "unat u < 128 \<Longrightarrow> is_valid_code_point u"
proof -
  assume u: "unat u < 128"
  have "u AND 0xFFFE \<le> u" by (rule word_and_le2)
  then have "unat (u AND 0xFFFE) < 128" using u by (simp add: word_le_nat_alt)
  then have "u AND 0xFFFE \<noteq> 0xFFFE" by auto
  then show ?thesis using u by (simp add: is_valid_code_point_def word_le_nat_alt word_less_nat_alt)
qed

lemma lead_iff: "q * k + k \<le> 256 \<Longrightarrow> 0 < k \<Longrightarrow> unat (c :: u8) div k = q \<and> unat c mod k = x \<longleftrightarrow> x < k \<and> c = of_nat (q * k + x)"
proof -
  assume k: "q * k + k \<le> 256" "0 < k"
  have "unat c div k = q \<and> unat c mod k = x \<longleftrightarrow> x < k \<and> unat c = q * k + x"
    using div_mod_iff [of x k "unat c" q] k(2) by auto
  moreover have "x < k \<Longrightarrow> unat (of_nat (q * k + x) :: u8) = q * k + x" using k(1) by (simp del: of_nat_add of_nat_mult)
  ultimately show ?thesis by (auto simp only: word_unat_eq_iff)
qed

lemma utf8_cont:
  "utf8 u =
     (if u < 0x80 then [of_nat u]
      else if u < 0x800 then of_nat (6 * 32 + u div 64) # cont_bytes 1 u
      else if u < 0x10000 then of_nat (14 * 16 + u div 4096) # cont_bytes 2 u
      else of_nat (30 * 8 + u div 262144) # cont_bytes 3 u)"
proof -
  have "rev [0..<1] = [0 :: nat]" "rev [0..<2] = [1, 0 :: nat]" "rev [0..<3] = [2, 1, 0 :: nat]" by (simp_all add: upt_rec)
  then show ?thesis by (simp add: utf8_def cont_bytes_def del: of_nat_add)
qed

lemma utf8_reader:
  "cbs_get_utf8 cbs = (Some u, rest) \<longleftrightarrow> is_valid_code_point u \<and> cbs = utf8 (unat u) @ rest"
proof (cases cbs)
  case Nil
  have "utf8 n \<noteq> []" for n by (simp add: utf8_def)
  with Nil show ?thesis by (simp add: cbs_get_utf8_def get_u8_cases)
next
  case (Cons c cs)
  let ?n = "unat u" and ?c = "unat c"
  note x = div_bounds [of ?c 32 6] div_bounds [of ?c 16 14] div_bounds [of ?c 8 30]
  have "cbs_get_utf8 (c # cs) = (Some u, rest) \<longleftrightarrow> ?c < 128 \<and> ?n = ?c \<and> cs = rest \<or>
      is_valid_code_point u \<and> 0x80 \<le> ?n \<and> (?c div 32 = 6 \<and> ?c mod 32 = ?n div 64) \<and> cs = cont_bytes 1 ?n @ rest \<or>
      is_valid_code_point u \<and> 0x800 \<le> ?n \<and> (?c div 16 = 14 \<and> ?c mod 16 = ?n div 4096) \<and> cs = cont_bytes 2 ?n @ rest \<or>
      is_valid_code_point u \<and> 0x10000 \<le> ?n \<and> (?c div 8 = 30 \<and> ?c mod 8 = ?n div 262144) \<and> cs = cont_bytes 3 ?n @ rest"
    unfolding get_utf8_cases utf8_tail_iff using x by (auto split: if_splits)
  also have "\<dots> \<longleftrightarrow> is_valid_code_point u \<and> (?n < 0x80 \<and> c = of_nat ?n \<and> cs = rest \<or>
      0x80 \<le> ?n \<and> (?n div 64 < 32 \<and> c = of_nat (6 * 32 + ?n div 64)) \<and> cs = cont_bytes 1 ?n @ rest \<or>
      0x800 \<le> ?n \<and> (?n div 4096 < 16 \<and> c = of_nat (14 * 16 + ?n div 4096)) \<and> cs = cont_bytes 2 ?n @ rest \<or>
      0x10000 \<le> ?n \<and> (?n div 262144 < 8 \<and> c = of_nat (30 * 8 + ?n div 262144)) \<and> cs = cont_bytes 3 ?n @ rest)"
  proof -
    have "?c < 128 \<and> ?n = ?c \<longleftrightarrow> is_valid_code_point u \<and> ?n < 0x80 \<and> c = of_nat ?n"
      using valid_ascii [of u] unat_of_nat_u8 [of ?n] by (auto simp only: word_unat_eq_iff mod_less)
    then show ?thesis
      using lead_iff [of 6 32 c "?n div 64"] lead_iff [of 14 16 c "?n div 4096"] lead_iff [of 30 8 c "?n div 262144"] by auto
  qed
  also have "\<dots> \<longleftrightarrow> is_valid_code_point u \<and> c # cs = utf8 ?n @ rest"
  proof (rule conj_cong [OF refl])
    assume "is_valid_code_point u"
    then have "?n < 0x110000" by (rule valid_bound)
    then show "(?n < 0x80 \<and> c = of_nat ?n \<and> cs = rest \<or>
      0x80 \<le> ?n \<and> (?n div 64 < 32 \<and> c = of_nat (6 * 32 + ?n div 64)) \<and> cs = cont_bytes 1 ?n @ rest \<or>
      0x800 \<le> ?n \<and> (?n div 4096 < 16 \<and> c = of_nat (14 * 16 + ?n div 4096)) \<and> cs = cont_bytes 2 ?n @ rest \<or>
      0x10000 \<le> ?n \<and> (?n div 262144 < 8 \<and> c = of_nat (30 * 8 + ?n div 262144)) \<and> cs = cont_bytes 3 ?n @ rest) \<longleftrightarrow>
      c # cs = utf8 ?n @ rest"
      unfolding utf8_cont by (auto simp del: of_nat_add)
  qed
  finally show ?thesis using Cons by simp
qed

text \<open>
  C20. \<open>cbs_get_utf8\<close> accepts exactly the canonical encodings: it returns a code point if and only if the code point is
  valid and the input starts with its shortest UTF-8 form, of which nothing but the rest is left.
\<close>

theorem utf8_canonical:
  "cbs_get_utf8 cbs = (Some u, rest) \<longleftrightarrow> is_valid_code_point u \<and> cbs = utf8 (unat u) @ rest"
  by (rule utf8_reader)

section \<open>What the writer produces\<close>

lemma or_top: "unat (x :: u8) < 2 ^ n \<Longrightarrow> q * 2 ^ n + 2 ^ n \<le> 256 \<Longrightarrow> of_nat (q * 2 ^ n) OR x = of_nat (q * 2 ^ n + unat x)"
proof -
  assume x: "unat x < 2 ^ n" "q * 2 ^ n + 2 ^ n \<le> 256"
  have "q * 1 \<le> q * 2 ^ n" by (intro mult_le_mono) simp_all
  moreover have "0 < (2 :: nat) ^ n" by simp
  ultimately have "q < 256" using x(2) by linarith
  then have q: "unat (of_nat q :: u8) = q" by simp
  have p: "of_nat (q * 2 ^ n) = push_bit n (of_nat q :: u8)" by (simp add: push_bit_eq_mult)
  have "unat (x OR push_bit n (of_nat q :: u8)) = unat x + q * 2 ^ n"
    using unat_or_push_bit [of x n "of_nat q"] x q by simp
  moreover have "unat (of_nat (q * 2 ^ n + unat x) :: u8) = q * 2 ^ n + unat x" using x by (simp only: unat_of_nat_u8 mod_less)
  ultimately show ?thesis unfolding p by (intro word_eq_unatI) (simp only: or.commute add.commute)
qed

lemma unat_ucast_u32_u8: "unat (w :: u32) < 256 \<Longrightarrow> unat (ucast w :: u8) = unat w"
  by (simp add: unsigned_ucast_eq take_bit_nat_eq_self)

lemma cont_octet: "0x80 OR ucast ((w :: u32) AND 63) = (of_nat (0x80 + unat w mod 64) :: u8)"
proof -
  have "unat (ucast (w AND 63) :: u8) = unat w mod 64" by (simp add: unat_ucast_u32_u8 unat_low_bits less_trans [OF mod_less_divisor])
  then show ?thesis using or_top [of "ucast (w AND 63)" 6 2] by simp
qed

lemma lead_octet:
  assumes "unat w < 2 ^ n" and "q * 2 ^ n + 2 ^ n \<le> 256"
  shows "of_nat (q * 2 ^ n) OR ucast (w :: u32) = (of_nat (q * 2 ^ n + unat w) :: u8)"
proof -
  have "unat (ucast w :: u8) = unat w" using assms by (intro unat_ucast_u32_u8) simp
  then show ?thesis using or_top [of "ucast w" n q] assms by simp
qed

lemma add_utf8_octets:
  assumes "is_valid_code_point u"
  shows "cbb_add_utf8 malloc c u s = add_octets malloc c (utf8 (unat u)) s"
proof -
  let ?n = "unat u"
  have n: "?n < 0x110000" by (rule valid_bound [OF assms])
  have le: "u \<le> 0x7F \<longleftrightarrow> ?n < 0x80" "u \<le> 0x7FF \<longleftrightarrow> ?n < 0x800" "u \<le> 0xFFFF \<longleftrightarrow> ?n < 0x10000" "u \<le> 0x10FFFF \<longleftrightarrow> True"
    using n by (auto simp: word_le_nat_alt)
  have 1: "ucast u = (of_nat ?n :: u8)" if "?n < 0x80" using that by (intro word_of_natI unat_ucast_u32_u8) simp
  have 2: "0xC0 OR ucast (drop_bit 6 u) = (of_nat (0xC0 + ?n div 64) :: u8)" if "?n < 0x800"
    using lead_octet [of "drop_bit 6 u" 5 6] that by simp
  have 3: "0xE0 OR ucast (drop_bit 12 u) = (of_nat (0xE0 + ?n div 4096) :: u8)" if "?n < 0x10000"
    using lead_octet [of "drop_bit 12 u" 4 14] that by simp
  have 4: "0xF0 OR ucast (drop_bit 18 u) = (of_nat (0xF0 + ?n div 262144) :: u8)"
    using lead_octet [of "drop_bit 18 u" 3 30] n by simp
  have b: "ucast (63 :: u8) = (63 :: u32)" by simp
  have t1: "TOP_BITS 1 = 0x80" using top_bits(1) by simp
  have d: "unat (drop_bit 12 u) = ?n div 4096" "unat (drop_bit 6 u) = ?n div 64" by simp_all
  show ?thesis
    unfolding cbb_add_utf8_def utf8_def le top_bits t1 b cont_octet d
    using assms 1 2 3 4 by (simp add: add_octets_one del: add_octets.simps of_nat_add)
qed

lemma utf8_length: "length (utf8 (unat u)) = cbb_get_utf8_len u"
  by (simp add: utf8_def cbb_get_utf8_len_def word_le_nat_alt)

section \<open>Writing and reading\<close>

text \<open>
  C35. UTF-8 round trip: with memory available, the builder accepts every valid code point, \<open>CBB_finish\<close> hands out as
  many bytes as \<open>cbb_get_utf8_len\<close> announces, and \<open>cbs_get_utf8\<close> reads the code point back and consumes them all.
\<close>

theorem utf8_roundtrip:
  assumes "malloc_ok malloc" and "unlimited malloc" and "n + 8 < 2 ^ 64" and "is_valid_code_point u"
  shows "\<exists>s0 s1 s2 out. CBB_init malloc c n m = Some s0 \<and> cbb_add_utf8 malloc c u s0 = Some (True, s1) \<and>
     CBB_finish malloc c True s1 = Some (Some out, s2) \<and> length out = cbb_get_utf8_len u \<and> cbs_get_utf8 out = (Some u, [])"
proof -
  obtain s0 where 0: "CBB_init malloc c n m = Some s0" "top malloc c [] s0" using init_top [OF assms(1-3)] by blast
  have "length (utf8 (unat u)) \<le> 4" by (simp add: utf8_def)
  then obtain s1 where 1: "cbb_add_utf8 malloc c u s0 = Some (True, s1)" "top malloc c ([] @ utf8 (unat u)) s1"
    using top_added [OF 0(2) add_octets_spec [OF assms(1) top_parts [OF 0(2)]]] unfolding add_utf8_octets [OF assms(4)] by force
  obtain s2 where 2: "CBB_finish malloc c True s1 = Some (Some (utf8 (unat u)), s2)"
    using finish_top [OF assms(1) 1(2)] by auto
  have "cbs_get_utf8 (utf8 (unat u)) = (Some u, [])" unfolding utf8_reader using assms(4) by simp
  with 0(1) 1(1) 2 utf8_length show ?thesis by blast
qed

theorem utf8_roundtrip_witness:
  "\<exists>s0 s1 s2 out. CBB_init (\<lambda>n. Some (replicate n 0)) 0 8 (\<lambda>_. CBB_zero) = Some s0 \<and>
     cbb_add_utf8 (\<lambda>n. Some (replicate n 0)) 0 0x20AC s0 = Some (True, s1) \<and>
     CBB_finish (\<lambda>n. Some (replicate n 0)) 0 True s1 = Some (Some out, s2) \<and> length out = cbb_get_utf8_len 0x20AC \<and>
     cbs_get_utf8 out = (Some 0x20AC, [])"
  by (rule utf8_roundtrip) (simp_all add: malloc_ok_def unlimited_def is_valid_code_point_def)

end
