(* ===== verification/Llrb.thy ===== *)
theory Llrb
  imports Prelude
begin

text \<open>
  The left-leaning red-black tree of Firestore's immutable sorted maps
  (Firestore/core/src/immutable/llrb_node.h). A node is immutable once it is shared: every mutating helper of the
  source runs on a fresh clone, so a helper is a function from node to node. An empty node is a leaf; a clone of
  the shared empty node can be coloured, so a leaf has a colour. Sizes are 31-bit fields and are computed modulo
  \<open>2 ^ 31\<close>; a node is empty when its size field is zero, as in the source.
\<close>

section \<open>Nodes\<close>

datatype ComparisonResult = Ascending | Same | Descending

datatype Color = Black | Red

datatype ('k, 'v) LlrbNode =
    Leaf Color
  | Node "'k \<times> 'v" Color nat "('k, 'v) LlrbNode" "('k, 'v) LlrbNode"

fun node_color :: "('k, 'v) LlrbNode \<Rightarrow> Color" where
  "node_color (Leaf c) = c"
| "node_color (Node e c s l r) = c"

fun node_size :: "('k, 'v) LlrbNode \<Rightarrow> nat" where
  "node_size (Leaf c) = 0"
| "node_size (Node e c s l r) = s"

fun entry :: "('k, 'v) LlrbNode \<Rightarrow> 'k \<times> 'v" where
  "entry (Leaf c) = undefined"
| "entry (Node e c s l r) = e"

text \<open>The children of the empty node are the empty node itself.\<close>

fun left :: "('k, 'v) LlrbNode \<Rightarrow> ('k, 'v) LlrbNode" where
  "left (Leaf c) = Leaf Black"
| "left (Node e c s l r) = l"

fun right :: "('k, 'v) LlrbNode \<Rightarrow> ('k, 'v) LlrbNode" where
  "right (Leaf c) = Leaf Black"
| "right (Node e c s l r) = r"

definition node_empty :: "('k, 'v) LlrbNode \<Rightarrow> bool" where
  "node_empty n \<longleftrightarrow> node_size n = 0"

definition red :: "('k, 'v) LlrbNode \<Rightarrow> bool" where
  "red n \<longleftrightarrow> node_color n = Red"

fun node_min :: "('k, 'v) LlrbNode \<Rightarrow> ('k, 'v) LlrbNode" where
  "node_min (Leaf c) = Leaf c"
| "node_min (Node e c s l r) = (if \<not> node_empty l then node_min l else Node e c s l r)"

fun node_max :: "('k, 'v) LlrbNode \<Rightarrow> ('k, 'v) LlrbNode" where
  "node_max (Leaf c) = Leaf c"
| "node_max (Node e c s l r) = (if \<not> node_empty r then node_max r else Node e c s l r)"

text \<open>The constructor that computes the size, and the setters.\<close>

definition Rep :: "'k \<times> 'v \<Rightarrow> Color \<Rightarrow> ('k, 'v) LlrbNode \<Rightarrow> ('k, 'v) LlrbNode \<Rightarrow> ('k, 'v) LlrbNode" where
  "Rep e c l r = Node e c ((node_size l + 1 + node_size r) mod 2 ^ 31) l r"

definition set_size :: "nat \<Rightarrow> ('k, 'v) LlrbNode \<Rightarrow> ('k, 'v) LlrbNode" where
  "set_size s n = Node (entry n) (node_color n) (s mod 2 ^ 31) (left n) (right n)"

definition set_left :: "('k, 'v) LlrbNode \<Rightarrow> ('k, 'v) LlrbNode \<Rightarrow> ('k, 'v) LlrbNode" where
  "set_left l n = Node (entry n) (node_color n) (node_size n) l (right n)"

definition set_right :: "('k, 'v) LlrbNode \<Rightarrow> ('k, 'v) LlrbNode \<Rightarrow> ('k, 'v) LlrbNode" where
  "set_right r n = Node (entry n) (node_color n) (node_size n) (left n) r"

definition set_entry :: "'k \<times> 'v \<Rightarrow> ('k, 'v) LlrbNode \<Rightarrow> ('k, 'v) LlrbNode" where
  "set_entry e n = Node e (node_color n) (node_size n) (left n) (right n)"

fun set_color :: "Color \<Rightarrow> ('k, 'v) LlrbNode \<Rightarrow> ('k, 'v) LlrbNode" where
  "set_color c (Leaf d) = Leaf c"
| "set_color c (Node e d s l r) = Node e c s l r"

definition OppositeColor :: "('k, 'v) LlrbNode \<Rightarrow> Color" where
  "OppositeColor n = (if node_color n = Red then Black else Red)"

section \<open>Rebalancing\<close>

definition RotateLeft :: "('k, 'v) LlrbNode \<Rightarrow> ('k, 'v) LlrbNode" where
  "RotateLeft n =
     Node (entry (right n)) (node_color n) (node_size n)
       (Rep (entry n) Red (left n) (left (right n))) (right (right n))"

definition RotateRight :: "('k, 'v) LlrbNode \<Rightarrow> ('k, 'v) LlrbNode" where
  "RotateRight n =
     Node (entry (left n)) (node_color n) (node_size n)
       (left (left n)) (Rep (entry n) Red (right (left n)) (right n))"

definition FlipColor :: "('k, 'v) LlrbNode \<Rightarrow> ('k, 'v) LlrbNode" where
  "FlipColor n =
     Node (entry n) (OppositeColor n) (node_size n)
       (set_color (OppositeColor (left n)) (left n)) (set_color (OppositeColor (right n)) (right n))"

definition FixUp :: "('k, 'v) LlrbNode \<Rightarrow> ('k, 'v) LlrbNode" where
  "FixUp n =
     (let n = set_size (node_size (left n) + 1 + node_size (right n)) n;
          n = (if red (right n) \<and> \<not> red (left n) then RotateLeft n else n);
          n = (if red (left n) \<and> red (left (left n)) then RotateRight n else n)
      in if red (left n) \<and> red (right n) then FlipColor n else n)"

definition FixRootColor :: "('k, 'v) LlrbNode \<Rightarrow> ('k, 'v) LlrbNode" where
  "FixRootColor n = (if red n then set_color Black n else n)"

definition MoveRedLeft :: "('k, 'v) LlrbNode \<Rightarrow> ('k, 'v) LlrbNode" where
  "MoveRedLeft n =
     (let n = FlipColor n
      in if red (left (right n)) then FlipColor (RotateLeft (set_right (RotateRight (right n)) n)) else n)"

definition MoveRedRight :: "('k, 'v) LlrbNode \<Rightarrow> ('k, 'v) LlrbNode" where
  "MoveRedRight n = (let n = FlipColor n in if red (left (left n)) then FlipColor (RotateRight n) else n)"

section \<open>Insertion\<close>

fun InnerInsert :: "('k \<Rightarrow> 'k \<Rightarrow> ComparisonResult) \<Rightarrow> 'k \<Rightarrow> 'v \<Rightarrow> ('k, 'v) LlrbNode \<Rightarrow> ('k, 'v) LlrbNode" where
  "InnerInsert compare key v (Leaf c) = Rep (key, v) Red (Leaf Black) (Leaf Black)"
| "InnerInsert compare key v (Node e c s l r) =
     (if node_empty (Node e c s l r) then Rep (key, v) Red (Leaf Black) (Leaf Black)
      else
        case compare (fst e) key of
          Descending \<Rightarrow> FixUp (Node e c s (InnerInsert compare key v l) r)
        | Ascending \<Rightarrow> FixUp (Node e c s l (InnerInsert compare key v r))
        | Same \<Rightarrow> Node (fst e, v) c s l r)"

definition insert_node :: "('k \<Rightarrow> 'k \<Rightarrow> ComparisonResult) \<Rightarrow> 'k \<Rightarrow> 'v \<Rightarrow> ('k, 'v) LlrbNode \<Rightarrow> ('k, 'v) LlrbNode" where
  "insert_node compare key v n = FixRootColor (InnerInsert compare key v n)"

section \<open>Removal\<close>

text \<open>
  The recursive calls are on a subtree of the rebalanced node. The measure counts a node twice and a red leaf
  once: no rotation makes the subtree as heavy as the node was.
\<close>

fun weight :: "('k, 'v) LlrbNode \<Rightarrow> nat" where
  "weight (Leaf c) = (if c = Red then 1 else 0)"
| "weight (Node e c s l r) = 2 + weight l + weight r"

lemma empty_Leaf [simp]: "node_empty (Leaf c)"
  by (simp add: node_empty_def)

lemma not_empty_Node: "\<not> node_empty n \<Longrightarrow> \<exists>e c s l r. n = Node e c s l r"
  by (cases n) auto

lemma red_simps [simp]: "red (Leaf c) \<longleftrightarrow> c = Red" "red (Node e c s l r) \<longleftrightarrow> c = Red" "red (Rep e c l r) \<longleftrightarrow> c = Red"
  by (simp_all add: red_def Rep_def)

lemma weight_set_color [simp]: "weight (set_color c (Node e d s l r)) = 2 + weight l + weight r"
  by simp

lemma left_weight: "weight (left n) \<le> weight n"
  by (cases n) simp_all

lemma move_left_weight:
  assumes "\<not> node_empty (left n)"
  shows "weight (left (MoveRedLeft n)) < weight n"
proof -
  obtain e c s l r where n: "n = Node e c s l r" using assms by (cases n) auto
  obtain el cl sl ll lr where l: "l = Node el cl sl ll lr" using not_empty_Node assms n by fastforce
  show ?thesis
  proof (cases r)
    case (Leaf d)
    then show ?thesis by (simp add: n l MoveRedLeft_def FlipColor_def Let_def)
  next
    case (Node er cr sr rl rr)
    then show ?thesis
      using left_weight [of rl] by (cases rl) (simp_all add: n l MoveRedLeft_def FlipColor_def RotateLeft_def RotateRight_def set_right_def Rep_def Let_def)
  qed
qed

function RemoveMin :: "('k, 'v) LlrbNode \<Rightarrow> ('k, 'v) LlrbNode" where
  "RemoveMin n =
     (if node_empty (left n) then Leaf Black
      else
        let n = (if \<not> red (left n) \<and> \<not> red (left (left n)) then MoveRedLeft n else n)
        in FixUp (set_left (RemoveMin (left n)) n))"
  by pat_completeness auto
termination
proof (relation "measure weight")
  fix n x :: "('a, 'b) LlrbNode"
  assume a: "\<not> node_empty (left n)" "x = (if \<not> red (left n) \<and> \<not> red (left (left n)) then MoveRedLeft n else n)"
  have "weight (left n) < weight n" using a(1) by (cases n) auto
  then show "(left x, n) \<in> measure weight" using a move_left_weight [OF a(1)] by simp
qed simp

declare RemoveMin.simps [simp del]

definition lean_right :: "('k, 'v) LlrbNode \<Rightarrow> ('k, 'v) LlrbNode" where
  "lean_right n =
     (let n = (if red (left n) then RotateRight n else n)
      in if \<not> node_empty (right n) \<and> \<not> red (right n) \<and> \<not> red (left (right n)) then MoveRedRight n else n)"

lemma lean_right_weight:
  assumes "\<not> node_empty n"
  shows "weight (right (lean_right n)) < weight n"
proof -
  obtain e c s l r where n: "n = Node e c s l r" using not_empty_Node [OF assms] by blast
  show ?thesis
  proof (cases "red l")
    case True
    then show ?thesis by (cases l) (simp_all add: n lean_right_def RotateRight_def Rep_def Let_def)
  next
    case False
    have "weight (right (MoveRedRight n)) < weight n" if ne: "\<not> node_empty r"
    proof -
      obtain er cr sr rl rr where r: "r = Node er cr sr rl rr" using not_empty_Node [OF ne] by blast
      show ?thesis
        by (cases l) (simp_all add: n r MoveRedRight_def FlipColor_def RotateRight_def Rep_def Let_def)
    qed
    with False show ?thesis by (simp add: n lean_right_def Let_def)
  qed
qed

function InnerErase :: "('k \<Rightarrow> 'k \<Rightarrow> ComparisonResult) \<Rightarrow> 'k \<Rightarrow> ('k, 'v) LlrbNode \<Rightarrow> ('k, 'v) LlrbNode" where
  "InnerErase compare key n =
     (if node_empty n then Leaf Black
      else if compare key (fst (entry n)) = Ascending then
        let n = (if \<not> node_empty (left n) \<and> \<not> red (left n) \<and> \<not> red (left (left n)) then MoveRedLeft n else n)
        in FixUp (set_left (InnerErase compare key (left n)) n)
      else
        let n = lean_right n in
        if compare key (fst (entry n)) = Same then
          if node_empty (right n) then Leaf Black
          else FixUp (set_right (RemoveMin (right n)) (set_entry (entry (node_min (right n))) n))
        else FixUp (set_right (InnerErase compare key (right n)) n))"
  by pat_completeness auto
termination
proof (relation "measure (\<lambda>(compare, key, n). weight n)")
  fix compare :: "'k \<Rightarrow> 'k \<Rightarrow> ComparisonResult" and key :: 'k and n x :: "('k, 'v) LlrbNode"
  assume a: "\<not> node_empty n" "x = (if \<not> node_empty (left n) \<and> \<not> red (left n) \<and> \<not> red (left (left n)) then MoveRedLeft n else n)"
  have "weight (left n) < weight n" using a(1) by (cases n) auto
  then show "((compare, key, left x), (compare, key, n)) \<in> measure (\<lambda>(compare, key, n). weight n)"
    using a move_left_weight [of n] by simp
next
  fix compare :: "'k \<Rightarrow> 'k \<Rightarrow> ComparisonResult" and key :: 'k and n x :: "('k, 'v) LlrbNode"
  assume a: "\<not> node_empty n" "x = lean_right n"
  then show "((compare, key, right x), (compare, key, n)) \<in> measure (\<lambda>(compare, key, n). weight n)"
    using lean_right_weight by simp
qed simp

declare InnerErase.simps [simp del]

definition erase_node :: "('k \<Rightarrow> 'k \<Rightarrow> ComparisonResult) \<Rightarrow> 'k \<Rightarrow> ('k, 'v) LlrbNode \<Rightarrow> ('k, 'v) LlrbNode" where
  "erase_node compare key n = FixRootColor (InnerErase compare key n)"

end
