(* ===== verification/LlrbCorrect.thy ===== *)
theory LlrbCorrect
  imports Llrb
begin

text \<open>
  Correctness of the left-leaning red-black tree: insertion and removal keep the tree balanced and act on the
  in-order list of entries as the operations of a sorted association list, for every comparator that agrees
  with a linear order on the keys.
\<close>

section \<open>Sorted association lists\<close>

fun inorder :: "('k, 'v) LlrbNode \<Rightarrow> ('k \<times> 'v) list" where
  "inorder (Leaf c) = []"
| "inorder (Node e c s l r) = inorder l @ e # inorder r"

definition sorted_keys :: "('k::linorder \<times> 'v) list \<Rightarrow> bool" where
  "sorted_keys xs \<longleftrightarrow> sorted_wrt (<) (map fst xs)"

fun put_assoc :: "'k::linorder \<Rightarrow> 'v \<Rightarrow> ('k \<times> 'v) list \<Rightarrow> ('k \<times> 'v) list" where
  "put_assoc k v [] = [(k, v)]"
| "put_assoc k v (e # xs) =
     (if k < fst e then (k, v) # e # xs else if k = fst e then (k, v) # xs else e # put_assoc k v xs)"

fun drop_assoc :: "'k::linorder \<Rightarrow> ('k \<times> 'v) list \<Rightarrow> ('k \<times> 'v) list" where
  "drop_assoc k [] = []"
| "drop_assoc k (e # xs) = (if k = fst e then xs else e # drop_assoc k xs)"

lemma sorted_keys_simps [simp]:
  "sorted_keys []" "sorted_keys (e # xs) \<longleftrightarrow> (\<forall>x \<in> set xs. fst e < fst x) \<and> sorted_keys xs"
  "sorted_keys (xs @ ys) \<longleftrightarrow> sorted_keys xs \<and> sorted_keys ys \<and> (\<forall>x \<in> set xs. \<forall>y \<in> set ys. fst x < fst y)"
  by (auto simp: sorted_keys_def sorted_wrt_append)

lemma put_assoc_append:
  "sorted_keys (xs @ e # ys) \<Longrightarrow> put_assoc k v (xs @ e # ys) =
     (if k < fst e then put_assoc k v xs @ e # ys else xs @ put_assoc k v (e # ys))"
  by (induction xs) auto

lemma drop_assoc_notin: "\<forall>x \<in> set xs. k < fst x \<Longrightarrow> drop_assoc k xs = xs"
  by (induction xs) auto

lemma drop_assoc_append:
  "sorted_keys (xs @ e # ys) \<Longrightarrow> drop_assoc k (xs @ e # ys) =
     (if k < fst e then drop_assoc k xs @ e # ys else xs @ drop_assoc k (e # ys))"
  by (induction xs) (auto intro!: drop_assoc_notin)

lemma set_put_assoc: "set (put_assoc k v xs) \<subseteq> insert (k, v) (set xs)"
  by (induction xs) auto

lemma set_drop_assoc: "set (drop_assoc k xs) \<subseteq> set xs"
  by (induction xs) auto

lemma sorted_put_assoc: "sorted_keys xs \<Longrightarrow> sorted_keys (put_assoc k v xs)"
  using set_put_assoc by (induction xs) fastforce+

lemma sorted_drop_assoc: "sorted_keys xs \<Longrightarrow> sorted_keys (drop_assoc k xs)"
  using set_drop_assoc by (induction xs) fastforce+

lemma length_put_assoc: "length (put_assoc k v xs) \<le> Suc (length xs)" "length xs \<le> length (put_assoc k v xs)"
  by (induction xs) auto

lemma length_drop_assoc: "length (drop_assoc k xs) \<le> length xs"
  by (induction xs) auto

lemma map_of_put_assoc: "sorted_keys xs \<Longrightarrow> map_of (put_assoc k v xs) = (map_of xs)(k \<mapsto> v)"
  by (induction xs) (auto simp: fun_eq_iff)

lemma map_of_drop_assoc: "sorted_keys xs \<Longrightarrow> map_of (drop_assoc k xs) = (map_of xs)(k := None)"
  by (induction xs) (auto simp: fun_eq_iff map_of_eq_None_iff dest: map_of_SomeD)

section \<open>Balanced trees\<close>

text \<open>
  \<open>ok h n\<close>: sizes are exact, red links lean left and are never in a row, and every path has \<open>h\<close> black nodes.
  In the weak form a red root may have a red left child.
\<close>

abbreviation sized :: "nat \<Rightarrow> ('k, 'v) LlrbNode \<Rightarrow> ('k, 'v) LlrbNode \<Rightarrow> bool" where
  "sized s l r \<equiv> s = node_size l + 1 + node_size r \<and> s < 2 ^ 31"

fun ok :: "nat \<Rightarrow> ('k, 'v) LlrbNode \<Rightarrow> bool" where
  "ok h (Leaf c) \<longleftrightarrow> c = Black \<and> h = 0"
| "ok h (Node e c s l r) \<longleftrightarrow> sized s l r \<and> \<not> red r \<and>
     (case c of
        Red \<Rightarrow> \<not> red l \<and> ok h l \<and> ok h r
      | Black \<Rightarrow> (case h of 0 \<Rightarrow> False | Suc g \<Rightarrow> ok g l \<and> ok g r))"

fun ok_weak :: "nat \<Rightarrow> ('k, 'v) LlrbNode \<Rightarrow> bool" where
  "ok_weak h (Leaf c) \<longleftrightarrow> False"
| "ok_weak h (Node e c s l r) \<longleftrightarrow> sized s l r \<and> c = Red \<and> \<not> red r \<and> ok h l \<and> ok h r"

lemma ok_size: "ok h n \<Longrightarrow> node_size n = length (inorder n)"
  by (induction h n rule: ok.induct) (auto split: Color.splits nat.splits)

lemma ok_empty: "ok h n \<Longrightarrow> node_empty n \<longleftrightarrow> n = Leaf Black"
  by (cases n) (auto simp: node_empty_def)

lemma ok_bound: "ok h n \<Longrightarrow> node_size n < 2 ^ 31"
  by (cases n) auto

definition comparator :: "('k::linorder \<Rightarrow> 'k \<Rightarrow> ComparisonResult) \<Rightarrow> bool" where
  "comparator compare \<longleftrightarrow> (\<forall>a b. compare a b = (if a < b then Ascending else if a = b then Same else Descending))"

lemma compareD:
  "comparator compare \<Longrightarrow> a < b \<Longrightarrow> compare a b = Ascending"
  "comparator compare \<Longrightarrow> a < b \<Longrightarrow> compare b a = Descending"
  "comparator compare \<Longrightarrow> compare a a = Same"
  by (auto simp: comparator_def)

text \<open>Fixing up a node whose children are balanced.\<close>

lemma fixup_simp:
  "FixUp (Node e c s l r) =
     (let n = Node e c ((node_size l + 1 + node_size r) mod 2 ^ 31) l r;
          n = (if red r \<and> \<not> red l then RotateLeft n else n);
          n = (if red (left n) \<and> red (left (left n)) then RotateRight n else n)
      in if red (left n) \<and> red (right n) then FlipColor n else n)"
  by (simp add: FixUp_def set_size_def)

lemmas node_defs = fixup_simp RotateLeft_def RotateRight_def FlipColor_def Rep_def OppositeColor_def Let_def

lemma fixup_black:
  assumes "ok g l" and "ok g r" and n: "node_size l + 1 + node_size r < 2 ^ 31"
    and t: "t = FixUp (Node e Black s l r)"
  shows "ok (Suc g) t" and "inorder t = inorder l @ e # inorder r" and "\<not> (red l \<and> red r) \<Longrightarrow> \<not> red t"
  unfolding t using assms(1-3) by (cases l; cases r; auto simp: node_defs split: Color.splits nat.splits)+

lemma fixup_black_weak:
  assumes "ok_weak g l" and "ok g r" and "\<not> red r" and n: "node_size l + 1 + node_size r < 2 ^ 31"
    and t: "t = FixUp (Node e Black s l r)"
  shows "ok (Suc g) t" and "inorder t = inorder l @ e # inorder r"
  unfolding t using assms(1-4)
  by (cases l; cases "left l"; cases r; auto simp: node_defs split: Color.splits nat.splits)+

lemma fixup_red_weak:
  assumes "ok h l" and "ok h r" and "\<not> (red l \<and> red r)" and n: "node_size l + 1 + node_size r < 2 ^ 31"
    and t: "t = FixUp (Node e Red s l r)"
  shows "ok_weak h t" and "inorder t = inorder l @ e # inorder r"
  unfolding t using assms(1-4) by (cases l; cases r; auto simp: node_defs split: Color.splits nat.splits)+

lemma fixup_red:
  assumes "ok h l" and "ok h r" and "\<not> red l" and "\<not> red r" and n: "node_size l + 1 + node_size r < 2 ^ 31"
    and t: "t = FixUp (Node e Red s l r)"
  shows "ok h t" and "inorder t = inorder l @ e # inorder r"
  unfolding t using assms(1-5) by (cases l; cases r; auto simp: node_defs split: Color.splits nat.splits)+

section \<open>Insertion\<close>

lemma weak_size: "ok_weak h n \<Longrightarrow> node_size n = length (inorder n)"
  by (cases n) (auto simp: ok_size)

lemma inner_insert:
  assumes c: "comparator compare" and "ok h n" and "sorted_keys (inorder n)" and "node_size n + 1 < 2 ^ 31"
  shows "inorder (InnerInsert compare k v n) = put_assoc k v (inorder n) \<and>
    (if red n then ok_weak h (InnerInsert compare k v n) else ok h (InnerInsert compare k v n))"
  using assms(2-)
proof (induction n arbitrary: h)
  case (Leaf c)
  then show ?case by (simp add: Rep_def)
next
  case (Node e c s l r)
  have ne: "\<not> node_empty (Node e c s l r)" using Node.prems by (simp add: node_empty_def)
  have s: "s = node_size l + 1 + node_size r" "s + 1 < 2 ^ 31" "\<not> red r" and so: "sorted_keys (inorder l)" "sorted_keys (inorder r)"
    using Node.prems by auto
  have b: "ok (case c of Red \<Rightarrow> h | Black \<Rightarrow> h - 1) l" "ok (case c of Red \<Rightarrow> h | Black \<Rightarrow> h - 1) r"
      "c = Black \<Longrightarrow> h = Suc (h - 1)" "c = Red \<Longrightarrow> \<not> red l"
    using Node.prems(1) by (auto split: Color.splits nat.splits)
  have grown: "node_size t \<le> node_size u + 1"
    if "if red u then ok_weak g t else ok g t" "inorder t = put_assoc k v (inorder u)" "ok g u" for t u :: "('a, 'b) LlrbNode" and g
    using that length_put_assoc(1) [of k v "inorder u"] by (auto simp: ok_size weak_size split: if_splits)
  note upd = put_assoc_append [of "inorder l" e "inorder r" k v]
  define u where "u = InnerInsert compare k v (Node e c s l r)"
  have so3: "sorted_keys (inorder l @ e # inorder r)" using Node.prems(2) by simp
  consider (lt) "k < fst e" | (eq) "k = fst e" | (gt) "fst e < k" by fastforce
  then have "inorder u = put_assoc k v (inorder l @ e # inorder r) \<and> (if c = Red then ok_weak h u else ok h u)"
  proof cases
    case lt
    define l' where "l' = InnerInsert compare k v l"
    have IH: "inorder l' = put_assoc k v (inorder l)" "if red l then ok_weak (case c of Red \<Rightarrow> h | Black \<Rightarrow> h - 1) l' else ok (case c of Red \<Rightarrow> h | Black \<Rightarrow> h - 1) l'"
      unfolding l'_def using Node.IH(1) [OF b(1) so(1)] s by auto
    have n: "node_size l' + 1 + node_size r < 2 ^ 31" using grown [OF IH(2,1) b(1)] s by simp
    have t: "u = FixUp (Node e c s l' r)"
      using ne compareD(2) [OF c lt] by (simp add: l'_def u_def)
    show ?thesis
    proof (cases c)
      case Red
      with IH b s lt upd [OF so3] fixup_red_weak [OF _ _ _ n t [unfolded Red]] show ?thesis by simp
    next
      case Black
      then obtain g where g: "h = Suc g" using b(3) by blast
      show ?thesis
      proof (cases "red l")
        case True
        with IH b s lt g upd [OF so3] Black fixup_black_weak [OF _ _ _ n t [unfolded Black], of g] show ?thesis by simp
      next
        case False
        with IH b s lt g upd [OF so3] Black fixup_black(1,2) [OF _ _ n t [unfolded Black], of g] show ?thesis by simp
      qed
    qed
  next
    case gt
    define r' where "r' = InnerInsert compare k v r"
    have IH: "inorder r' = put_assoc k v (inorder r)" "ok (case c of Red \<Rightarrow> h | Black \<Rightarrow> h - 1) r'"
      unfolding r'_def using Node.IH(2) [OF b(2) so(2)] s by auto
    have n: "node_size l + 1 + node_size r' < 2 ^ 31" using grown [of r _ r'] IH b(2) s by fastforce
    have t: "u = FixUp (Node e c s l r')"
      using ne compareD(1) [OF c gt] by (simp add: r'_def u_def)
    show ?thesis
    proof (cases c)
      case Red
      with IH b s gt upd [OF so3] fixup_red_weak [OF _ _ _ n t [unfolded Red]] show ?thesis by auto
    next
      case Black
      then obtain g where g: "h = Suc g" using b(3) by blast
      with IH b s gt upd [OF so3] Black fixup_black(1,2) [OF _ _ n t [unfolded Black], of g] show ?thesis by auto
    qed
  next
    case eq
    have "u = Node (k, v) c s l r" unfolding u_def using ne eq compareD(3) [OF c] by simp
    with Node.prems(1) upd [OF so3] eq show ?thesis by (cases c) (auto split: nat.splits)
  qed
  then show ?case unfolding u_def red_simps inorder.simps .
qed

text \<open>Roots are black.\<close>

definition llrb :: "('k, 'v) LlrbNode \<Rightarrow> bool" where
  "llrb n \<longleftrightarrow> \<not> red n \<and> (\<exists>h. ok h n)"

lemma fix_root:
  assumes "ok h n \<or> ok_weak h n"
  shows "llrb (FixRootColor n)" and "inorder (FixRootColor n) = inorder n"
proof -
  show "llrb (FixRootColor n)"
  proof (cases "red n")
    case True
    then obtain e s l r where n: "n = Node e Red s l r" using assms by (cases n) auto
    have "ok (Suc h) (Node e Black s l r)" using assms n by auto
    then show ?thesis using n unfolding llrb_def FixRootColor_def by (intro conjI exI [of _ "Suc h"]) simp_all
  qed (use assms in \<open>cases n; auto simp: llrb_def FixRootColor_def\<close>)
  show "inorder (FixRootColor n) = inorder n" by (cases n) (simp_all add: FixRootColor_def)
qed

lemma insert_correct:
  assumes "comparator compare" and "llrb n" and "sorted_keys (inorder n)" and "node_size n + 1 < 2 ^ 31"
  shows "llrb (insert_node compare k v n)" and "inorder (insert_node compare k v n) = put_assoc k v (inorder n)"
proof -
  obtain h where "ok h n" using assms(2) by (auto simp: llrb_def)
  from inner_insert [OF assms(1) this assms(3,4)] fix_root
  show "llrb (insert_node compare k v n)" "inorder (insert_node compare k v n) = put_assoc k v (inorder n)"
    unfolding insert_node_def by (metis (full_types))+
qed


section \<open>Removal\<close>

text \<open>
  A node that removal may enter: one of the first two links to the left is red. Removal to the right also enters a
  black node whose red link leans right, which \<open>MoveRedRight\<close> produces.
\<close>

definition ready :: "nat \<Rightarrow> ('k, 'v) LlrbNode \<Rightarrow> bool" where
  "ready h n \<longleftrightarrow> ok h n \<and> (red n \<or> red (left n))"

fun leans_right :: "nat \<Rightarrow> ('k, 'v) LlrbNode \<Rightarrow> bool" where
  "leans_right h (Leaf c) \<longleftrightarrow> False"
| "leans_right h (Node e c s l r) \<longleftrightarrow> sized s l r \<and> c = Black \<and> \<not> red l \<and> red r \<and> (case h of 0 \<Rightarrow> False | Suc g \<Rightarrow> ok g l \<and> ok g r)"

text \<open>What a removal returns: a balanced tree of the same height, red only when the node was red.\<close>

definition shrinks :: "nat \<Rightarrow> bool \<Rightarrow> ('k \<times> 'v) list \<Rightarrow> ('k, 'v) LlrbNode \<Rightarrow> bool" where
  "shrinks h b xs t \<longleftrightarrow> ok h t \<and> (red t \<longrightarrow> b) \<and> inorder t = xs"

lemma refit_black:
  assumes "ok g l" "ok g r" "red l \<and> red r \<longrightarrow> b" "node_size l + 1 + node_size r < 2 ^ 31"
  shows "shrinks (Suc g) b (inorder l @ e # inorder r) (FixUp (Node e Black s l r))"
  using fixup_black [OF assms(1,2,4) refl, of e s] assms(3) by (auto simp: shrinks_def)

lemma refit_red:
  assumes "ok h l" "ok h r" "\<not> red l" "\<not> red r" "node_size l + 1 + node_size r < 2 ^ 31"
  shows "shrinks h True (inorder l @ e # inorder r) (FixUp (Node e Red s l r))"
  using fixup_red [OF assms refl, of e s] by (simp add: shrinks_def)

lemmas move_defs = MoveRedLeft_def MoveRedRight_def lean_right_def RotateLeft_def RotateRight_def FlipColor_def Rep_def
  OppositeColor_def set_right_def Let_def node_empty_def ready_def

text \<open>The shape of the node whose left (right) subtree removal enters.\<close>

definition enters_left :: "nat \<Rightarrow> ('k, 'v) LlrbNode \<Rightarrow> ('k, 'v) LlrbNode \<Rightarrow> bool" where
  "enters_left h n m \<longleftrightarrow>
     (case m of Leaf _ \<Rightarrow> False | Node e c s l r \<Rightarrow>
        inorder n = inorder l @ e # inorder r \<and> node_size n = node_size l + 1 + node_size r \<and>
        (e = entry n \<or> e \<in> set (inorder (right n))) \<and> (node_empty l \<longleftrightarrow> node_empty (left n)) \<and>
        (case c of
           Black \<Rightarrow> (\<exists>g. h = Suc g \<and> ready g l \<and> red l \<and> ok g r \<and> (red r \<longrightarrow> red n))
         | Red \<Rightarrow> red n \<and> (ready h l \<or> l = Leaf Black \<and> h = 0) \<and> \<not> red l \<and> ok h r \<and> \<not> red r))"

lemma go_left_red:
  assumes "ok h (Node e Red s l r)" "\<not> node_empty l" "\<not> red (left l)"
  shows "enters_left h (Node e Red s l r) (MoveRedLeft (Node e Red s l r))"
proof -
  obtain el sl ll lr g where l: "l = Node el Black sl ll lr" "h = Suc g"
    using assms by (cases l) (auto split: Color.splits nat.splits)
  then obtain er sr rl rr where r: "r = Node er Black sr rl rr"
    using assms by (cases r) (auto split: Color.splits nat.splits)
  show ?thesis using assms unfolding l r enters_left_def
    by (cases rl) (auto simp: move_defs split: Color.splits)
qed

lemma go_left:
  assumes "ready h n"
    and m: "m = (if \<not> node_empty (left n) \<and> \<not> red (left n) \<and> \<not> red (left (left n)) then MoveRedLeft n else n)"
  shows "enters_left h n m"
proof -
  have ok: "ok h n" "red n \<or> red (left n)" using assms by (auto simp: ready_def)
  then obtain e c s l r where n: "n = Node e c s l r" by (cases n) auto
  show ?thesis
  proof (cases "\<not> node_empty l \<and> \<not> red l \<and> \<not> red (left l)")
    case True
    with ok n have "c = Red" by auto
    with True n m go_left_red [of h e s l r] ok show ?thesis by simp
  next
    case False
    then have l: "l = Leaf Black \<or> red l \<or> red (left l)"
      using ok n by (cases l) (auto simp: node_empty_def split: Color.splits nat.splits)
    from False m n have "m = n" by auto
    with ok l n show ?thesis
      by (cases l) (auto simp: enters_left_def ready_def split: Color.splits nat.splits)
  qed
qed

definition enters_right :: "nat \<Rightarrow> ('k, 'v) LlrbNode \<Rightarrow> ('k, 'v) LlrbNode \<Rightarrow> bool" where
  "enters_right h n m \<longleftrightarrow>
     (case m of Leaf _ \<Rightarrow> False | Node e c s l r \<Rightarrow>
        inorder n = inorder l @ e # inorder r \<and> node_size n = node_size l + 1 + node_size r \<and>
        (e = entry n \<or> e \<in> set (inorder (left n))) \<and>
        (case c of
           Black \<Rightarrow> (\<exists>g. h = Suc g \<and> ready g r \<and> red r \<and> ok g l \<and> (red l \<longrightarrow> red n))
         | Red \<Rightarrow> red n \<and> ok h l \<and> \<not> red l \<and> \<not> red r \<and>
             (ready h r \<or> r = Leaf Black \<and> l = Leaf Black \<and> h = 0 \<or>
              leans_right h r \<and> e \<in> set (inorder (left n)) \<and> entry r = entry n)))"

lemma go_right_black:
  assumes "ok h (Node e Black s l r) \<and> red l \<or> leans_right h (Node e Black s l r)"
  shows "enters_right h (Node e Black s l r) (lean_right (Node e Black s l r))"
proof (cases "red l")
  case True
  then obtain el sl ll lr where l: "l = Node el Red sl ll lr" using assms by (cases l) (auto split: nat.splits)
  show ?thesis using assms unfolding l enters_right_def
    by (auto simp: move_defs split: Color.splits nat.splits)
next
  case False
  then show ?thesis using assms unfolding enters_right_def
    by (auto simp: lean_right_def ready_def Let_def split: nat.splits)
qed

lemma go_right_red:
  assumes "ok h (Node e Red s l r)"
  shows "enters_right h (Node e Red s l r) (lean_right (Node e Red s l r))"
proof (cases "\<not> node_empty r \<and> \<not> red (left r)")
  case True
  then obtain er sr rl rr g where r: "r = Node er Black sr rl rr" "h = Suc g"
    using assms by (cases r) (auto split: Color.splits nat.splits)
  then obtain el sl ll lr where l: "l = Node el Black sl ll lr"
    using assms by (cases l) (auto split: Color.splits nat.splits)
  show ?thesis using assms True unfolding l r enters_right_def
    by (cases ll) (auto simp: move_defs split: Color.splits)
next
  case False
  then have "lean_right (Node e Red s l r) = Node e Red s l r" using assms by (auto simp: lean_right_def Let_def)
  with False assms show ?thesis
    by (cases r; cases l) (auto simp: enters_right_def ready_def node_empty_def split: Color.splits nat.splits)
qed

lemma go_right:
  assumes "ready h n \<or> leans_right h n"
  shows "enters_right h n (lean_right n)"
proof -
  obtain e c s l r where n: "n = Node e c s l r" using assms by (cases n) (auto simp: ready_def)
  show ?thesis using assms go_right_black [of h e s l r] go_right_red [of h e s l r]
    by (cases c) (auto simp: n ready_def)
qed

text \<open>Rebuilding the node once the subtree has shrunk.\<close>

lemma leave_left:
  assumes "enters_left h n (Node e c s l r)" and "node_size n < 2 ^ 31"
    and "\<And>g. ready g l \<or> l = Leaf Black \<and> g = 0 \<Longrightarrow> shrinks g (red l) xs t" and "length xs \<le> node_size l"
  shows "shrinks h (red n) (xs @ e # inorder r) (FixUp (Node e c s t r))"
proof (cases c)
  case Black
  then obtain g where g: "h = Suc g" "ready g l" "ok g r" "red r \<longrightarrow> red n" using assms(1) by (auto simp: enters_left_def)
  with assms(3) [of g] have t: "ok g t" "inorder t = xs" by (auto simp: shrinks_def)
  have "node_size t + 1 + node_size r < 2 ^ 31"
    using assms(1,2,4) ok_size [OF t(1)] t(2) by (simp add: enters_left_def)
  with refit_black [OF t(1) g(3), of "red n" e s] g t Black show ?thesis by auto
next
  case Red
  then have g: "ready h l \<or> l = Leaf Black \<and> h = 0" "\<not> red l" "ok h r" "\<not> red r" "red n" using assms(1) by (auto simp: enters_left_def)
  with assms(3) [of h] have t: "ok h t" "inorder t = xs" "\<not> red t" by (auto simp: shrinks_def)
  have "node_size t + 1 + node_size r < 2 ^ 31"
    using assms(1,2,4) ok_size [OF t(1)] t(2) by (simp add: enters_left_def)
  with refit_red [OF t(1) g(3) t(3) g(4), of e s] g t Red show ?thesis by auto
qed

lemma leave_right:
  assumes "enters_right h n (Node e c s l r)" and "node_size n < 2 ^ 31"
    and "\<And>g. ready g r \<or> r = Leaf Black \<and> g = 0 \<or>
      leans_right g r \<and> e \<in> set (inorder (left n)) \<and> entry r = entry n \<Longrightarrow> shrinks g (red r) xs t"
    and "length xs \<le> node_size r"
  shows "shrinks h (red n) (inorder l @ e' # xs) (FixUp (Node e' c s l t))"
proof (cases c)
  case Black
  then obtain g where g: "h = Suc g" "ready g r" "ok g l" "red l \<longrightarrow> red n" using assms(1) by (auto simp: enters_right_def)
  with assms(3) [of g] have t: "ok g t" "inorder t = xs" by (auto simp: shrinks_def)
  have "node_size l + 1 + node_size t < 2 ^ 31"
    using assms(1,2,4) ok_size [OF t(1)] t(2) by (simp add: enters_right_def)
  with refit_black [OF g(3) t(1), of "red n" e' s] g t Black show ?thesis by auto
next
  case Red
  then have g: "ready h r \<or> r = Leaf Black \<and> h = 0 \<or> leans_right h r \<and> e \<in> set (inorder (left n)) \<and> entry r = entry n"
      "\<not> red r" "ok h l" "\<not> red l" "red n"
    using assms(1) by (auto simp: enters_right_def)
  with assms(3) [of h] have t: "ok h t" "inorder t = xs" "\<not> red t" by (auto simp: shrinks_def)
  have "node_size l + 1 + node_size t < 2 ^ 31"
    using assms(1,2,4) ok_size [OF t(1)] t(2) by (simp add: enters_right_def)
  with refit_red [OF g(3) t(1) g(4) t(3), of e' s] g t Red show ?thesis by auto
qed

lemma remove_min: "ready h n \<Longrightarrow> shrinks h (red n) (tl (inorder n)) (RemoveMin n)"
proof (induction n arbitrary: h rule: RemoveMin.induct)
  case (1 n)
  define m where "m = (if \<not> red (left n) \<and> \<not> red (left (left n)) then MoveRedLeft n else n)"
  have ok: "ok h n" using 1(2) by (simp add: ready_def)
  show ?case
  proof (cases "node_empty (left n)")
    case True
    with 1(2) have "n = Node (entry n) Red 1 (Leaf Black) (Leaf Black)" "h = 0"
      by (cases n; cases "left n"; cases "right n"; auto simp: ready_def node_empty_def split: Color.splits nat.splits)+
    then show ?thesis using True by (subst RemoveMin.simps) (simp add: shrinks_def, metis inorder.simps append_Nil list.sel(3))
  next
    case False
    have sh: "enters_left h n m" using go_left [OF 1(2), of m] False by (simp add: m_def)
    then obtain e c s l r where m: "m = Node e c s l r" by (cases m) (auto simp: enters_left_def)
    have ne: "\<not> node_empty l" and i: "inorder n = inorder l @ e # inorder r" using sh False by (simp_all add: enters_left_def m)
    have IH: "shrinks g (red l) (tl (inorder l)) (RemoveMin l)" if "ready g l \<or> l = Leaf Black \<and> g = 0" for g
      using 1(1) [OF False m_def] that ne by (auto simp: m)
    have okl: "\<exists>g. ok g l" using sh by (auto simp: enters_left_def m ready_def split: Color.splits)
    then have "length (tl (inorder l)) \<le> node_size l" and "inorder l \<noteq> []"
      using ok_size ne by (fastforce simp: node_empty_def)+
    with leave_left [OF sh [unfolded m] _ IH] ok_bound [OF ok]
    have "shrinks h (red n) (tl (inorder n)) (FixUp (Node e c s (RemoveMin l) r))" by (simp add: i)
    then show ?thesis using False m unfolding m_def by (subst RemoveMin.simps) (simp add: Let_def set_left_def)
  qed
qed

lemma node_min_first:
  assumes "ok h n" "n \<noteq> Leaf Black"
  shows "inorder n = entry (node_min n) # tl (inorder n)"
  using assms
proof (induction n arbitrary: h rule: node_min.induct)
  case (2 e c s l r)
  then obtain g where g: "ok g l" by (auto split: Color.splits nat.splits)
  show ?case
  proof (cases "node_empty l")
    case True
    with ok_empty [OF g] show ?thesis by simp
  next
    case False
    with 2(1) [OF False g] ok_empty [OF g] have l: "inorder l = entry (node_min l) # tl (inorder l)" by simp
    show ?thesis using False by simp (metis l append_Cons list.sel(3))
  qed
qed simp

text \<open>A node that removal may enter, for a given key.\<close>

definition admits :: "'k::linorder \<Rightarrow> nat \<Rightarrow> ('k, 'v) LlrbNode \<Rightarrow> bool" where
  "admits key h n \<longleftrightarrow> ready h n \<or> leans_right h n \<and> fst (entry n) \<le> key \<or> n = Leaf Black \<and> h = 0"

lemma admits_size: "admits key h n \<Longrightarrow> node_size n = length (inorder n)" "admits key h n \<Longrightarrow> node_size n < 2 ^ 31"
  by (cases n; auto simp: admits_def ready_def ok_size split: Color.splits nat.splits)+

lemma admits_empty: "admits key h n \<Longrightarrow> node_empty n \<longleftrightarrow> n = Leaf Black"
  by (cases n) (auto simp: admits_def ready_def node_empty_def)

text \<open>One step of removal to the left and to the right; the induction hypothesis is the last assumption.\<close>

lemma erase_left:
  fixes n :: "('k::linorder, 'v) LlrbNode"
  assumes c: "comparator compare" and ad: "admits key h n" and so: "sorted_keys (inorder n)" and ne: "\<not> node_empty n"
    and lt: "key < fst (entry n)"
    and IH: "\<And>g (t :: ('k, 'v) LlrbNode). weight t < weight n \<Longrightarrow> admits key g t \<Longrightarrow> sorted_keys (inorder t) \<Longrightarrow>
      shrinks g (red t) (drop_assoc key (inorder t)) (InnerErase compare key t)"
  shows "shrinks h (red n) (drop_assoc key (inorder n)) (InnerErase compare key n)"
proof -
  define m where "m = (if \<not> node_empty (left n) \<and> \<not> red (left n) \<and> \<not> red (left (left n)) then MoveRedLeft n else n)"
  have "ready h n" using lt ad ne by (auto simp: admits_def)
  then have sh: "enters_left h n m" using m_def by (rule go_left)
  then obtain e c s l r where m: "m = Node e c s l r" by (cases m) (auto simp: enters_left_def)
  have i: "inorder n = inorder l @ e # inorder r" and e: "e = entry n \<or> e \<in> set (inorder (right n))"
    using sh by (simp_all add: enters_left_def m)
  have k: "key < fst e" using e lt so ne by (cases n) fastforce+
  have "weight (left n) < weight n" using ne by (cases n) auto
  then have w: "weight l < weight n" using move_left_weight [of n] m by (auto simp: m_def split: if_splits)
  have t: "shrinks g (red l) (drop_assoc key (inorder l)) (InnerErase compare key l)"
    if "ready g l \<or> l = Leaf Black \<and> g = 0" for g
    using IH [OF w, of g] that so i by (auto simp: admits_def)
  have "length (drop_assoc key (inorder l)) \<le> node_size l"
    using sh length_drop_assoc [of key "inorder l"] by (auto simp: enters_left_def m ready_def ok_size split: Color.splits)
  with leave_left [OF sh [unfolded m] admits_size(2) [OF ad] t] have
    "shrinks h (red n) (drop_assoc key (inorder n)) (FixUp (Node e c s (InnerErase compare key l) r))"
    using so k i drop_assoc_append [of "inorder l" e "inorder r" key] by simp
  moreover have "InnerErase compare key n = FixUp (Node e c s (InnerErase compare key l) r)"
    using ne compareD(1) [OF assms(1) lt] m unfolding InnerErase.simps [of compare key n]
    by (simp add: m_def [symmetric] set_left_def del: if_split)
  ultimately show ?thesis by simp
qed

lemma erase_right:
  fixes n :: "('k::linorder, 'v) LlrbNode"
  assumes c: "comparator compare" and ad: "admits key h n" and so: "sorted_keys (inorder n)" and ne: "\<not> node_empty n"
    and ge: "fst (entry n) \<le> key"
    and IH: "\<And>g (t :: ('k, 'v) LlrbNode). weight t < weight n \<Longrightarrow> admits key g t \<Longrightarrow> sorted_keys (inorder t) \<Longrightarrow>
      shrinks g (red t) (drop_assoc key (inorder t)) (InnerErase compare key t)"
  shows "shrinks h (red n) (drop_assoc key (inorder n)) (InnerErase compare key n)"
proof -
  have sh: "enters_right h n (lean_right n)" using go_right ad ne by (auto simp: admits_def)
  then obtain e c s l r where m: "lean_right n = Node e c s l r" by (cases "lean_right n") (auto simp: enters_right_def)
  have i: "inorder n = inorder l @ e # inorder r" and e: "e = entry n \<or> e \<in> set (inorder (left n))"
    using sh by (simp_all add: enters_right_def m)
  have k: "fst e \<le> key" "e \<in> set (inorder (left n)) \<Longrightarrow> fst e < key"
    using e ge so ne by (cases n; fastforce)+
  define P where "P g \<longleftrightarrow> ready g r \<or> r = Leaf Black \<and> g = 0 \<or> leans_right g r \<and> e \<in> set (inorder (left n)) \<and> entry r = entry n" for g
  have adr: "admits key g r" if "P g" for g using that ge by (auto simp: admits_def P_def)
  obtain g where g: "P g" using sh by (auto simp: enters_right_def m P_def split: Color.splits)
  note sr = admits_size(1) [OF adr [OF g]] and er = admits_empty [OF adr [OF g]]
  note leave = leave_right [OF sh [unfolded m] admits_size(2) [OF ad], folded P_def]
  have unf: "InnerErase compare key n =
      (if key = fst e then
         if node_empty r then Leaf Black else FixUp (Node (entry (node_min r)) c s l (RemoveMin r))
       else FixUp (Node e c s l (InnerErase compare key r)))"
    using ne ge k(1) assms(1) unfolding InnerErase.simps [of compare key n]
    by (auto simp: m Let_def set_right_def set_entry_def comparator_def)
  have dl: "drop_assoc key (inorder n) = inorder l @ drop_assoc key (e # inorder r)"
    using k(1) so unfolding i by (subst drop_assoc_append) auto
  consider (deeper) "key \<noteq> fst e" | (leaf) "key = fst e" "r = Leaf Black" | (min) "key = fst e" "r \<noteq> Leaf Black" by blast
  then show ?thesis
  proof cases
    case deeper
    have "weight r < weight n" using lean_right_weight [OF ne] m by simp
    then have "shrinks g (red r) (drop_assoc key (inorder r)) (InnerErase compare key r)" if "P g" for g
      using IH [OF _ adr [OF that]] so i by simp
    from leave [OF this, of e] length_drop_assoc [of key "inorder r"] sr deeper dl unf show ?thesis by simp
  next
    case leaf
    then have "h = 0" "red n" "l = Leaf Black"
      using sh by (auto simp: enters_right_def m ready_def split: Color.splits)
    with leaf unf dl show ?thesis by (simp add: shrinks_def)
  next
    case min
    have nl: "e \<notin> set (inorder (left n))" using k(2) min(1) by blast
    have rdy: "ready g r" if "P g" for g using that nl min(2) by (auto simp: P_def)
    from leave [OF remove_min [OF rdy], of "entry (node_min r)"] sr have
      "shrinks h (red n) (inorder l @ entry (node_min r) # tl (inorder r)) (FixUp (Node (entry (node_min r)) c s l (RemoveMin r)))"
      by simp
    moreover have "inorder r = entry (node_min r) # tl (inorder r)"
      using node_min_first rdy [OF g] min(2) by (auto simp: ready_def)
    ultimately show ?thesis using unf dl min er by simp
  qed
qed

lemma inner_erase:
  assumes c: "comparator compare" and "admits key h n" and "sorted_keys (inorder n)"
  shows "shrinks h (red n) (drop_assoc key (inorder n)) (InnerErase compare key n)"
  using assms(2,3)
proof (induction n arbitrary: h rule: measure_induct_rule [of weight])
  case (less n)
  show ?case
  proof (cases "node_empty n")
    case True
    then have n: "n = Leaf Black" using admits_empty [OF less.prems(1)] by simp
    with less.prems(1) have "h = 0" by (auto simp: admits_def ready_def)
    with n show ?thesis by (simp add: InnerErase.simps [of compare key "Leaf Black"] shrinks_def)
  next
    case False
    with less erase_left [OF c less.prems] erase_right [OF c less.prems] show ?thesis by (meson not_le)
  qed
qed

text \<open>
  At the root no link need be red. The colour of the root is never read by the removal, so removal from a black
  root agrees, up to the final colour, with removal from a red one, which removal may enter.
\<close>

definition same_but_color :: "('k, 'v) LlrbNode \<Rightarrow> ('k, 'v) LlrbNode \<Rightarrow> bool" where
  "same_but_color m n \<longleftrightarrow> set_color Black m = set_color Black n"

lemma same_but_color_Node:
  "same_but_color (Node e c s l r) n \<longleftrightarrow> (\<exists>d. n = Node e d s l r)"
  by (cases n) (auto simp: same_but_color_def)

lemma fixup_color: "same_but_color (FixUp (Node e c s l r)) (FixUp (Node e d s l r))"
  by (auto simp: node_defs same_but_color_def)

lemma move_color:
  "same_but_color (MoveRedLeft (Node e c s l r)) (MoveRedLeft (Node e d s l r))"
  "same_but_color (lean_right (Node e c s l r)) (lean_right (Node e d s l r))"
  by (simp_all add: move_defs same_but_color_def)

lemma move_Node: "MoveRedLeft n \<noteq> Leaf d" "lean_right (Node e c s l r) \<noteq> Leaf d"
  by (simp_all add: move_defs)

lemma erase_unfold:
  assumes "(if \<not> node_empty l \<and> \<not> red l \<and> \<not> red (left l) then MoveRedLeft (Node e c s l r) else Node e c s l r) = Node e' c' s' l' r'"
    and "lean_right (Node e c s l r) = Node f c2 s2 l2 r2"
  shows "InnerErase compare key (Node e c s l r) =
    (if s = 0 then Leaf Black
     else if compare key (fst e) = Ascending then FixUp (Node e' c' s' (InnerErase compare key l') r')
     else if compare key (fst f) = Same then
       if node_empty r2 then Leaf Black else FixUp (Node (entry (node_min r2)) c2 s2 l2 (RemoveMin r2))
     else FixUp (Node f c2 s2 l2 (InnerErase compare key r2)))"
proof -
  have "node_empty (Node e c s l r) \<longleftrightarrow> s = 0" by (simp add: node_empty_def)
  then show ?thesis unfolding InnerErase.simps [of compare key "Node e c s l r"]
    by (simp add: assms set_left_def set_right_def set_entry_def del: if_split)
qed

lemma erase_color:
  "same_but_color (InnerErase compare key (Node e c s l r)) (InnerErase compare key (Node e d s l r))"
proof -
  let ?b = "\<not> node_empty l \<and> \<not> red l \<and> \<not> red (left l)"
  obtain e' c' s' l' r' where m: "(if ?b then MoveRedLeft (Node e c s l r) else Node e c s l r) = Node e' c' s' l' r'"
    by (cases "if ?b then MoveRedLeft (Node e c s l r) else Node e c s l r") (auto simp: move_Node split: if_splits)
  moreover have "same_but_color (if ?b then MoveRedLeft (Node e c s l r) else Node e c s l r)
      (if ?b then MoveRedLeft (Node e d s l r) else Node e d s l r)"
    using move_color(1) [of e c s l r d] by (auto simp: same_but_color_Node)
  ultimately obtain d' where m': "(if ?b then MoveRedLeft (Node e d s l r) else Node e d s l r) = Node e' d' s' l' r'"
    unfolding m by (auto simp: same_but_color_Node)
  obtain f c2 s2 l2 r2 where q: "lean_right (Node e c s l r) = Node f c2 s2 l2 r2"
    by (cases "lean_right (Node e c s l r)") (auto simp: move_Node)
  then obtain d2 where q': "lean_right (Node e d s l r) = Node f d2 s2 l2 r2"
    using move_color(2) [of e c s l r d] by (auto simp: same_but_color_Node)
  show ?thesis
    unfolding erase_unfold [OF m q] erase_unfold [OF m' q']
    using fixup_color [of e' c' s' _ r' d'] fixup_color [of _ c2 s2 l2 _ d2] by (auto simp: same_but_color_def)
qed

lemma erase_correct:
  assumes c: "comparator compare" and n: "llrb n" and s: "sorted_keys (inorder n)"
  shows "llrb (erase_node compare key n)" and "inorder (erase_node compare key n) = drop_assoc key (inorder n)"
proof -
  obtain h where h: "ok h n" "\<not> red n" using n by (auto simp: llrb_def)
  have root: "FixRootColor t = set_color Black t" for t :: "('a, 'b) LlrbNode"
    by (cases t; cases "node_color t") (auto simp: FixRootColor_def)
  obtain t g where t: "erase_node compare key n = FixRootColor t" "shrinks g True (drop_assoc key (inorder n)) t"
  proof (cases "n = Leaf Black \<or> red (left n)")
    case True
    with h have "admits key h n" by (auto simp: admits_def ready_def)
    from inner_erase [OF c this s] show ?thesis by (intro that [of "InnerErase compare key n" h]) (auto simp: erase_node_def shrinks_def)
  next
    case False
    then obtain e sz l r g where n: "n = Node e Black sz l r" "ok g l" "ok g r" "\<not> red l" "\<not> red r" "sized sz l r"
      using h by (cases n) (auto split: Color.splits nat.splits)
    then have "admits key g (Node e Red sz l r)" by (simp add: admits_def ready_def)
    from inner_erase [OF c this] s n have "shrinks g True (drop_assoc key (inorder n)) (InnerErase compare key (Node e Red sz l r))"
      by simp
    then show ?thesis using erase_color [of compare key e Black sz l r Red]
      by (intro that) (auto simp: erase_node_def n root same_but_color_def)
  qed
  from t(2) have "ok g t" "inorder t = drop_assoc key (inorder n)" by (auto simp: shrinks_def)
  with fix_root [of g t] t(1) show "llrb (erase_node compare key n)" "inorder (erase_node compare key n) = drop_assoc key (inorder n)"
    by simp_all
qed

section \<open>Height\<close>

fun height :: "('k, 'v) LlrbNode \<Rightarrow> nat" where
  "height (Leaf c) = 0"
| "height (Node e c s l r) = Suc (max (height l) (height r))"

lemma ok_height: "ok h n \<Longrightarrow> height n \<le> 2 * h + (if red n then 1 else 0)"
  by (induction h n rule: ok.induct) (fastforce split: Color.splits nat.splits if_splits)+

lemma ok_count: "ok h n \<Longrightarrow> 2 ^ h \<le> length (inorder n) + 1"
  by (induction h n rule: ok.induct) (fastforce split: Color.splits nat.splits)+

end
