(* ===== verification/SortedMap.thy ===== *)
theory SortedMap
  imports LlrbCorrect "HOL-Library.Monad_Syntax"
begin

text \<open>
  Firestore's immutable sorted map (Firestore/core/src/immutable): the iterator of the red-black tree
  (llrb\_node\_iterator.h), the tree map (tree\_sorted\_map.h), the bounded array map (array\_sorted\_map.h), the
  map that switches between the two (sorted\_map.h, sorted\_map\_iterator.h) and the views of its keys
  (keys\_view.h). Maps are values; an operation returns a new map. A failing \<open>HARD_ASSERT\<close> and an access past the
  end are \<open>None\<close>. The comparator is an argument.
\<close>

section \<open>The default comparator\<close>

definition DefaultCompare :: "'k::linorder \<Rightarrow> 'k \<Rightarrow> ComparisonResult" where
  "DefaultCompare a b = (if a < b then Ascending else if b < a then Descending else Same)"

section \<open>The iterator of the tree\<close>

text \<open>The stack of an iterator, its top first.\<close>

type_synonym ('k, 'v) LlrbNodeIterator = "('k, 'v) LlrbNode list"

fun AccumulateLeft :: "('k, 'v) LlrbNode \<Rightarrow> ('k, 'v) LlrbNodeIterator \<Rightarrow> ('k, 'v) LlrbNodeIterator" where
  "AccumulateLeft (Leaf c) st = st"
| "AccumulateLeft (Node e c s l r) st = (if node_empty (Node e c s l r) then st else AccumulateLeft l (Node e c s l r # st))"

definition iter_Begin :: "('k, 'v) LlrbNode \<Rightarrow> ('k, 'v) LlrbNodeIterator" where
  "iter_Begin root = AccumulateLeft root []"

definition iter_End :: "('k, 'v) LlrbNodeIterator" where
  "iter_End = []"

fun LowerBound_loop :: "('k \<Rightarrow> 'k \<Rightarrow> ComparisonResult) \<Rightarrow> 'k \<Rightarrow> ('k, 'v) LlrbNode \<Rightarrow> ('k, 'v) LlrbNodeIterator \<Rightarrow> ('k, 'v) LlrbNodeIterator" where
  "LowerBound_loop compare key (Leaf c) st = st"
| "LowerBound_loop compare key (Node e c s l r) st =
     (if node_empty (Node e c s l r) then st
      else
        case compare key (fst e) of
          Same \<Rightarrow> Node e c s l r # st
        | Ascending \<Rightarrow> LowerBound_loop compare key l (Node e c s l r # st)
        | Descending \<Rightarrow> LowerBound_loop compare key r st)"

definition LowerBound :: "('k \<Rightarrow> 'k \<Rightarrow> ComparisonResult) \<Rightarrow> ('k, 'v) LlrbNode \<Rightarrow> 'k \<Rightarrow> ('k, 'v) LlrbNodeIterator" where
  "LowerBound compare root key = LowerBound_loop compare key root []"

definition is_end :: "('k, 'v) LlrbNodeIterator \<Rightarrow> bool" where
  "is_end st \<longleftrightarrow> st = []"

fun iter_get :: "('k, 'v) LlrbNodeIterator \<Rightarrow> ('k \<times> 'v) option" where
  "iter_get [] = None"
| "iter_get (n # st) = Some (entry n)"

fun iter_inc :: "('k, 'v) LlrbNodeIterator \<Rightarrow> ('k, 'v) LlrbNodeIterator option" where
  "iter_inc [] = None"
| "iter_inc (n # st) = Some (AccumulateLeft (right n) st)"

definition iter_eq :: "('k, 'v) LlrbNodeIterator \<Rightarrow> ('k, 'v) LlrbNodeIterator \<Rightarrow> bool" where
  "iter_eq a b =
     (if is_end a then is_end b
      else if is_end b then False
      else fst (entry (hd a)) = fst (entry (hd b)))"

section \<open>The tree map\<close>

definition tree_Create :: "('k \<Rightarrow> 'k \<Rightarrow> ComparisonResult) \<Rightarrow> ('k \<times> 'v) list \<Rightarrow> ('k, 'v) LlrbNode" where
  "tree_Create compare rng = foldl (\<lambda>node e. insert_node compare (fst e) (snd e) node) (Leaf Black) rng"

fun tree_contains :: "('k \<Rightarrow> 'k \<Rightarrow> ComparisonResult) \<Rightarrow> ('k, 'v) LlrbNode \<Rightarrow> 'k \<Rightarrow> bool" where
  "tree_contains compare (Leaf c) key = False"
| "tree_contains compare (Node e c s l r) key =
     (if node_empty (Node e c s l r) then False
      else
        case compare key (fst e) of
          Same \<Rightarrow> True
        | Ascending \<Rightarrow> tree_contains compare l key
        | Descending \<Rightarrow> tree_contains compare r key)"

definition tree_find :: "('k \<Rightarrow> 'k \<Rightarrow> ComparisonResult) \<Rightarrow> ('k, 'v) LlrbNode \<Rightarrow> 'k \<Rightarrow> ('k, 'v) LlrbNodeIterator" where
  "tree_find compare root key =
     (let found = LowerBound compare root key
      in if \<not> is_end found \<and> compare key (fst (entry (hd found))) = Same then found else iter_End)"

definition npos :: "32 word" where
  "npos = - 1"

fun tree_find_index :: "('k \<Rightarrow> 'k \<Rightarrow> ComparisonResult) \<Rightarrow> ('k, 'v) LlrbNode \<Rightarrow> 'k \<Rightarrow> 32 word \<Rightarrow> 32 word" where
  "tree_find_index compare (Leaf c) key pruned_nodes = npos"
| "tree_find_index compare (Node e c s l r) key pruned_nodes =
     (if node_empty (Node e c s l r) then npos
      else
        case compare key (fst e) of
          Same \<Rightarrow> pruned_nodes + of_nat (node_size l)
        | Ascending \<Rightarrow> tree_find_index compare l key pruned_nodes
        | Descending \<Rightarrow> tree_find_index compare r key (pruned_nodes + (of_nat (node_size l) + 1)))"

definition tree_max :: "('k, 'v) LlrbNode \<Rightarrow> ('k, 'v) LlrbNodeIterator" where
  "tree_max root = (if node_empty root then iter_End else [node_max root])"

section \<open>The array map\<close>

abbreviation (input) kFixedSize :: nat where
  "kFixedSize \<equiv> 25"

text \<open>
  A \<open>FixedArray\<close> is the list of the entries below its size; appending asserts that the result fits. An iterator is
  an index.
\<close>

definition fixed_append :: "'a list \<Rightarrow> 'a list \<Rightarrow> 'a list option" where
  "fixed_append xs ys = (if length xs + length ys \<le> kFixedSize then Some (xs @ ys) else None)"

text \<open>\<open>std::lower_bound\<close> and \<open>std::find_if\<close>, on the entries from \<open>first\<close> on.\<close>

function std_lower_bound :: "('a \<Rightarrow> bool) \<Rightarrow> 'a list \<Rightarrow> nat \<Rightarrow> nat \<Rightarrow> nat" where
  "std_lower_bound before xs first count =
     (if count = 0 then first
      else
        let half = count div 2 in
        if before (xs ! (first + half)) then std_lower_bound before xs (first + half + 1) (count - (half + 1))
        else std_lower_bound before xs first half)"
  by pat_completeness auto
termination by (relation "measure (\<lambda>(before, xs, first, count). count)") auto

declare std_lower_bound.simps [simp del]

fun std_find_if :: "('a \<Rightarrow> bool) \<Rightarrow> 'a list \<Rightarrow> nat" where
  "std_find_if p [] = 0"
| "std_find_if p (x # xs) = (if p x then 0 else Suc (std_find_if p xs))"

definition array_lower_bound :: "('k \<Rightarrow> 'k \<Rightarrow> ComparisonResult) \<Rightarrow> ('k \<times> 'v) list \<Rightarrow> 'k \<Rightarrow> nat" where
  "array_lower_bound compare xs key = std_lower_bound (\<lambda>el. compare (fst el) key = Ascending) xs 0 (length xs)"

definition array_find :: "('k \<Rightarrow> 'k \<Rightarrow> ComparisonResult) \<Rightarrow> ('k \<times> 'v) list \<Rightarrow> 'k \<Rightarrow> nat" where
  "array_find compare xs key = std_find_if (\<lambda>kv. compare key (fst kv) = Same) xs"

definition array_insert :: "('k \<Rightarrow> 'k \<Rightarrow> ComparisonResult) \<Rightarrow> 'k \<Rightarrow> 'v \<Rightarrow> ('k \<times> 'v) list \<Rightarrow> ('k \<times> 'v) list option" where
  "array_insert compare key v xs =
     (let pos = array_lower_bound compare xs key;
          replacing_entry = (pos \<noteq> length xs \<and> compare key (fst (xs ! pos)) = Same)
      in if replacing_entry \<and> v = snd (xs ! pos) then Some xs
         else
           do {
             copy \<leftarrow> fixed_append [] (take pos xs);
             copy \<leftarrow> fixed_append copy [(key, v)];
             if replacing_entry then fixed_append copy (drop (pos + 1) xs) else fixed_append copy (drop pos xs)
           })"

definition array_erase :: "('k \<Rightarrow> 'k \<Rightarrow> ComparisonResult) \<Rightarrow> 'k \<Rightarrow> ('k \<times> 'v) list \<Rightarrow> ('k \<times> 'v) list option" where
  "array_erase compare key xs =
     (let pos = array_find compare xs key
      in if pos = length xs then Some xs
         else if length xs \<le> 1 then Some []
         else do { copy \<leftarrow> fixed_append [] (take pos xs); fixed_append copy (drop (pos + 1) xs) })"

definition array_contains :: "('k \<Rightarrow> 'k \<Rightarrow> ComparisonResult) \<Rightarrow> ('k \<times> 'v) list \<Rightarrow> 'k \<Rightarrow> bool" where
  "array_contains compare xs key \<longleftrightarrow> array_find compare xs key \<noteq> length xs"

definition array_find_index :: "('k \<Rightarrow> 'k \<Rightarrow> ComparisonResult) \<Rightarrow> ('k \<times> 'v) list \<Rightarrow> 'k \<Rightarrow> 32 word" where
  "array_find_index compare xs key =
     (let found = array_find compare xs key in if found = length xs then npos else of_nat found)"

definition array_max :: "('k \<times> 'v) list \<Rightarrow> nat" where
  "array_max xs = (if length xs = 0 then length xs else length xs - 1)"

section \<open>The sorted map\<close>

datatype ('k, 'v) SortedMap = ArrayMap "('k \<times> 'v) list" | TreeMap "('k, 'v) LlrbNode"

definition sm_empty :: "('k, 'v) SortedMap" where
  "sm_empty = ArrayMap []"

fun sm_is_empty :: "('k, 'v) SortedMap \<Rightarrow> bool" where
  "sm_is_empty (ArrayMap xs) \<longleftrightarrow> length xs = 0"
| "sm_is_empty (TreeMap n) \<longleftrightarrow> node_empty n"

fun sm_size :: "('k, 'v) SortedMap \<Rightarrow> nat" where
  "sm_size (ArrayMap xs) = length xs"
| "sm_size (TreeMap n) = node_size n"

fun sm_insert :: "('k \<Rightarrow> 'k \<Rightarrow> ComparisonResult) \<Rightarrow> 'k \<Rightarrow> 'v \<Rightarrow> ('k, 'v) SortedMap \<Rightarrow> ('k, 'v) SortedMap option" where
  "sm_insert compare key v (ArrayMap xs) =
     (if length xs \<ge> kFixedSize then Some (TreeMap (insert_node compare key v (tree_Create compare xs)))
      else map_option ArrayMap (array_insert compare key v xs))"
| "sm_insert compare key v (TreeMap n) = Some (TreeMap (insert_node compare key v n))"

fun sm_erase :: "('k \<Rightarrow> 'k \<Rightarrow> ComparisonResult) \<Rightarrow> 'k \<Rightarrow> ('k, 'v) SortedMap \<Rightarrow> ('k, 'v) SortedMap option" where
  "sm_erase compare key (ArrayMap xs) = map_option ArrayMap (array_erase compare key xs)"
| "sm_erase compare key (TreeMap n) =
     (let result = erase_node compare key n in if node_empty result then Some sm_empty else Some (TreeMap result))"

fun sm_contains :: "('k \<Rightarrow> 'k \<Rightarrow> ComparisonResult) \<Rightarrow> ('k, 'v) SortedMap \<Rightarrow> 'k \<Rightarrow> bool" where
  "sm_contains compare (ArrayMap xs) key = array_contains compare xs key"
| "sm_contains compare (TreeMap n) key = tree_contains compare n key"

text \<open>An iterator into an array carries the array it points into, of which only the index is compared.\<close>

datatype ('k, 'v) SortedMapIterator = ArrayIter "('k \<times> 'v) list" nat | TreeIter "('k, 'v) LlrbNodeIterator"

fun it_get :: "('k, 'v) SortedMapIterator \<Rightarrow> ('k \<times> 'v) option" where
  "it_get (ArrayIter xs i) = (if i < length xs then Some (xs ! i) else None)"
| "it_get (TreeIter st) = iter_get st"

fun it_inc :: "('k, 'v) SortedMapIterator \<Rightarrow> ('k, 'v) SortedMapIterator option" where
  "it_inc (ArrayIter xs i) = (if i < length xs then Some (ArrayIter xs (i + 1)) else None)"
| "it_inc (TreeIter st) = map_option TreeIter (iter_inc st)"

fun it_eq :: "('k, 'v) SortedMapIterator \<Rightarrow> ('k, 'v) SortedMapIterator \<Rightarrow> bool" where
  "it_eq (ArrayIter xs i) (ArrayIter ys j) \<longleftrightarrow> i = j"
| "it_eq (TreeIter a) (TreeIter b) \<longleftrightarrow> iter_eq a b"
| "it_eq a b \<longleftrightarrow> False"

fun sm_find :: "('k \<Rightarrow> 'k \<Rightarrow> ComparisonResult) \<Rightarrow> ('k, 'v) SortedMap \<Rightarrow> 'k \<Rightarrow> ('k, 'v) SortedMapIterator" where
  "sm_find compare (ArrayMap xs) key = ArrayIter xs (array_find compare xs key)"
| "sm_find compare (TreeMap n) key = TreeIter (tree_find compare n key)"

fun sm_find_index :: "('k \<Rightarrow> 'k \<Rightarrow> ComparisonResult) \<Rightarrow> ('k, 'v) SortedMap \<Rightarrow> 'k \<Rightarrow> 32 word" where
  "sm_find_index compare (ArrayMap xs) key = array_find_index compare xs key"
| "sm_find_index compare (TreeMap n) key = tree_find_index compare n key 0"

fun sm_lower_bound :: "('k \<Rightarrow> 'k \<Rightarrow> ComparisonResult) \<Rightarrow> ('k, 'v) SortedMap \<Rightarrow> 'k \<Rightarrow> ('k, 'v) SortedMapIterator" where
  "sm_lower_bound compare (ArrayMap xs) key = ArrayIter xs (array_lower_bound compare xs key)"
| "sm_lower_bound compare (TreeMap n) key = TreeIter (LowerBound compare n key)"

fun sm_begin :: "('k, 'v) SortedMap \<Rightarrow> ('k, 'v) SortedMapIterator" where
  "sm_begin (ArrayMap xs) = ArrayIter xs 0"
| "sm_begin (TreeMap n) = TreeIter (iter_Begin n)"

fun sm_end :: "('k, 'v) SortedMap \<Rightarrow> ('k, 'v) SortedMapIterator" where
  "sm_end (ArrayMap xs) = ArrayIter xs (length xs)"
| "sm_end (TreeMap n) = TreeIter iter_End"

fun sm_max :: "('k, 'v) SortedMap \<Rightarrow> ('k, 'v) SortedMapIterator" where
  "sm_max (ArrayMap xs) = ArrayIter xs (array_max xs)"
| "sm_max (TreeMap n) = TreeIter (tree_max n)"

definition sm_get :: "('k \<Rightarrow> 'k \<Rightarrow> ComparisonResult) \<Rightarrow> ('k, 'v) SortedMap \<Rightarrow> 'k \<Rightarrow> 'v option" where
  "sm_get compare m key =
     (let found = sm_find compare m key
      in if \<not> it_eq found (sm_end m) then map_option snd (it_get found) else None)"

text \<open>
  A range-based loop over a pair of iterators collects the entries from the first up to the second. It fails when
  it increments past the end, so a result says that the loop ends and stays inside the map.
\<close>

partial_function (option) collect :: "('k, 'v) SortedMapIterator \<Rightarrow> ('k, 'v) SortedMapIterator \<Rightarrow> ('k \<times> 'v) list option" where
  "collect it stop =
     (if it_eq it stop then Some []
      else
        do {
          e \<leftarrow> it_get it;
          next_it \<leftarrow> it_inc it;
          es \<leftarrow> collect next_it stop;
          Some (e # es)
        })"

definition KeysView :: "('k, 'v) SortedMap \<Rightarrow> 'k list option" where
  "KeysView m = map_option (map fst) (collect (sm_begin m) (sm_end m))"

definition KeysViewFrom :: "('k \<Rightarrow> 'k \<Rightarrow> ComparisonResult) \<Rightarrow> ('k, 'v) SortedMap \<Rightarrow> 'k \<Rightarrow> 'k list option" where
  "KeysViewFrom compare m key = map_option (map fst) (collect (sm_lower_bound compare m key) (sm_end m))"

definition KeysViewIn :: "('k \<Rightarrow> 'k \<Rightarrow> ComparisonResult) \<Rightarrow> ('k, 'v) SortedMap \<Rightarrow> 'k \<Rightarrow> 'k \<Rightarrow> 'k list option" where
  "KeysViewIn compare m start_key end_key =
     (if compare start_key end_key \<noteq> Ascending then map_option (map fst) (collect (sm_end m) (sm_end m))
      else map_option (map fst) (collect (sm_lower_bound compare m start_key) (sm_lower_bound compare m end_key)))"

section \<open>The interface of an ordered map\<close>

text \<open>
  What both representations promise: the entries are sorted by key, insertion and removal succeed while the map is
  below its capacity and act on the entries as on a sorted association list.
\<close>

datatype ('k, 'v) map_op = Insert 'k 'v | Erase 'k

fun run_ops :: "('k \<Rightarrow> 'v \<Rightarrow> 'm \<Rightarrow> 'm option) \<Rightarrow> ('k \<Rightarrow> 'm \<Rightarrow> 'm option) \<Rightarrow> ('k, 'v) map_op list \<Rightarrow> 'm \<Rightarrow> 'm option" where
  "run_ops ins del [] m = Some m"
| "run_ops ins del (Insert k v # ops) m = Option.bind (ins k v m) (run_ops ins del ops)"
| "run_ops ins del (Erase k # ops) m = Option.bind (del k m) (run_ops ins del ops)"

fun map_ops :: "('k, 'v) map_op list \<Rightarrow> ('k \<rightharpoonup> 'v) \<Rightarrow> ('k \<rightharpoonup> 'v)" where
  "map_ops [] m = m"
| "map_ops (Insert k v # ops) m = map_ops ops (m(k \<mapsto> v))"
| "map_ops (Erase k # ops) m = map_ops ops (m(k := None))"

locale ordered_map =
  fixes inv :: "'m \<Rightarrow> bool" and entries :: "'m \<Rightarrow> ('k::linorder \<times> 'v) list"
    and ins :: "'k \<Rightarrow> 'v \<Rightarrow> 'm \<Rightarrow> 'm option" and del :: "'k \<Rightarrow> 'm \<Rightarrow> 'm option" and cap :: nat
  assumes inv_sorted: "inv m \<Longrightarrow> sorted_keys (entries m)"
    and ins_entries: "inv m \<Longrightarrow> length (entries m) < cap \<Longrightarrow>
      \<exists>m'. ins k v m = Some m' \<and> inv m' \<and> entries m' = put_assoc k v (entries m)"
    and del_entries: "inv m \<Longrightarrow> \<exists>m'. del k m = Some m' \<and> inv m' \<and> entries m' = drop_assoc k (entries m)"
begin

lemma run_refines:
  assumes "inv m" and "length (entries m) + length ops \<le> cap"
  shows "\<exists>m'. run_ops ins del ops m = Some m' \<and> inv m' \<and> map_of (entries m') = map_ops ops (map_of (entries m)) \<and>
    length (entries m') \<le> length (entries m) + length ops"
  using assms
proof (induction ops arbitrary: m)
  case (Cons oper ops)
  note s = inv_sorted [OF Cons.prems(1)]
  show ?case
  proof (cases oper)
    case (Insert k v)
    obtain m' where m': "ins k v m = Some m'" "inv m'" "entries m' = put_assoc k v (entries m)"
      using ins_entries [OF Cons.prems(1)] Cons.prems(2) by fastforce
    have "length (entries m') + length ops \<le> cap" using Cons.prems(2) length_put_assoc(1) [of k v "entries m"] m'(3) by simp
    from Cons.IH [OF m'(2) this] obtain m2 where "run_ops ins del ops m' = Some m2" "inv m2"
        "map_of (entries m2) = map_ops ops (map_of (entries m'))" "length (entries m2) \<le> length (entries m') + length ops"
      by blast
    with m' Insert map_of_put_assoc [OF s, of k v] length_put_assoc(1) [of k v "entries m"] show ?thesis
      by (intro exI [of _ m2]) simp
  next
    case (Erase k)
    obtain m' where m': "del k m = Some m'" "inv m'" "entries m' = drop_assoc k (entries m)"
      using del_entries [OF Cons.prems(1)] by blast
    have "length (entries m') + length ops \<le> cap" using Cons.prems(2) length_drop_assoc [of k "entries m"] m'(3) by simp
    from Cons.IH [OF m'(2) this] obtain m2 where "run_ops ins del ops m' = Some m2" "inv m2"
        "map_of (entries m2) = map_ops ops (map_of (entries m'))" "length (entries m2) \<le> length (entries m') + length ops"
      by blast
    with m' Erase map_of_drop_assoc [OF s, of k] length_drop_assoc [of k "entries m"] show ?thesis
      by (intro exI [of _ m2]) simp
  qed
qed simp

end

section \<open>The tree is an ordered map\<close>

locale linear_comparator =
  fixes compare :: "'k::linorder \<Rightarrow> 'k \<Rightarrow> ComparisonResult"
  assumes compare: "comparator compare"
begin

lemma compare_cases:
  "(case compare a b of Ascending \<Rightarrow> x | Same \<Rightarrow> y | Descending \<Rightarrow> z) = (if a < b then x else if a = b then y else z)"
  using compare by (simp add: comparator_def)

lemma compare_iff [simp]:
  "compare a b = Ascending \<longleftrightarrow> a < b" "compare a b = Same \<longleftrightarrow> a = b" "compare a b = Descending \<longleftrightarrow> b < a"
  using compare by (auto simp: comparator_def)

lemma tree_insert_step:
  assumes "llrb n \<and> sorted_keys (inorder n)" and "length (inorder n) < 2 ^ 31 - 1"
  shows "\<exists>n'. Some (insert_node compare k v n) = Some n' \<and> (llrb n' \<and> sorted_keys (inorder n')) \<and> inorder n' = put_assoc k v (inorder n)"
proof -
  have "node_size n = length (inorder n)" using assms by (auto simp: llrb_def ok_size)
  with insert_correct [OF compare, of n k v] assms sorted_put_assoc [of "inorder n" k v] show ?thesis by simp
qed

lemma tree_erase_step:
  assumes "llrb n \<and> sorted_keys (inorder n)"
  shows "\<exists>n'. Some (erase_node compare k n) = Some n' \<and> (llrb n' \<and> sorted_keys (inorder n')) \<and> inorder n' = drop_assoc k (inorder n)"
  using erase_correct [OF compare, of n k] assms sorted_drop_assoc [of "inorder n" k] by simp

end

sublocale linear_comparator \<subseteq> tree: ordered_map "\<lambda>n. llrb n \<and> sorted_keys (inorder n)" inorder
  "\<lambda>k v n. Some (insert_node compare k v n)" "\<lambda>k n. Some (erase_node compare k n)" "2 ^ 31 - 1"
  by (unfold_locales; (rule tree_insert_step tree_erase_step)?) auto

interpretation default_comparator: linear_comparator DefaultCompare
  by unfold_locales (auto simp: comparator_def DefaultCompare_def)

section \<open>The array is an ordered map\<close>

lemma lower_bound_range:
  assumes "sorted_wrt (\<lambda>x y. before y \<longrightarrow> before x) xs" and "first + count \<le> length xs"
    and "\<And>i. i < first \<Longrightarrow> before (xs ! i)" and "\<And>i. first + count \<le> i \<Longrightarrow> i < length xs \<Longrightarrow> \<not> before (xs ! i)"
  shows "std_lower_bound before xs first count \<le> length xs \<and>
    (\<forall>i < length xs. before (xs ! i) \<longleftrightarrow> i < std_lower_bound before xs first count)"
  using assms
proof (induction before xs first count rule: std_lower_bound.induct)
  case (1 before xs first count)
  define half where "half = count div 2"
  have mono: "before (xs ! i)" if "i \<le> j" "j < length xs" "before (xs ! j)" for i j
    using 1(3) that unfolding sorted_wrt_iff_nth_less by (metis le_neq_implies_less)
  show ?case
  proof (cases "count = 0")
    case True
    then have "std_lower_bound before xs first count = first" by (simp add: std_lower_bound.simps)
    then show ?thesis using 1(4-6) True by (metis add_0_right not_le)
  next
    case False
    then have half: "half < count" "first + half < length xs" using 1(4) by (auto simp: half_def)
    show ?thesis
    proof (cases "before (xs ! (first + half))")
      case True
      then have "std_lower_bound before xs first count = std_lower_bound before xs (first + half + 1) (count - (half + 1))"
        using False by (subst std_lower_bound.simps) (simp add: half_def Let_def)
      moreover have "before (xs ! i)" if "i < first + half + 1" for i
        using mono [of i "first + half"] that True half(2) by simp
      moreover have "first + half + 1 + (count - (half + 1)) = first + count" using half(1) by simp
      ultimately show ?thesis using 1(1) [OF False half_def True 1(3)] 1(4,6) by simp
    next
      case nb: False
      then have "std_lower_bound before xs first count = std_lower_bound before xs first half"
        using False by (subst std_lower_bound.simps) (simp add: half_def Let_def)
      moreover have "\<not> before (xs ! i)" if "first + half \<le> i" "i < length xs" for i
        using mono [of "first + half" i] that nb by blast
      note 1(2) [OF False half_def nb 1(3) less_imp_le [OF half(2)] 1(5) this]
      ultimately show ?thesis by simp
    qed
  qed
qed

lemma lower_bound_takeWhile:
  assumes "sorted_wrt (\<lambda>x y. before y \<longrightarrow> before x) xs"
  shows "std_lower_bound before xs 0 (length xs) = length (takeWhile before xs)"
proof -
  let ?p = "std_lower_bound before xs 0 (length xs)"
  have "?p \<le> length xs" and "\<forall>i < length xs. before (xs ! i) \<longleftrightarrow> i < ?p"
    using lower_bound_range [OF assms, of 0 "length xs"] by auto
  then have "takeWhile before xs = take ?p xs" by (intro takeWhile_eq_take_P_nth) auto
  then show ?thesis using \<open>?p \<le> length xs\<close> by simp
qed

lemma put_assoc_split:
  "sorted_keys xs \<Longrightarrow> put_assoc k v xs =
     (let pos = length (takeWhile (\<lambda>e. fst e < k) xs)
      in take pos xs @ (k, v) # drop (if pos \<noteq> length xs \<and> k = fst (xs ! pos) then pos + 1 else pos) xs)"
  by (induction xs) (auto simp: Let_def)

lemma put_assoc_same: "sorted_keys xs \<Longrightarrow> (k, v) \<in> set xs \<Longrightarrow> put_assoc k v xs = xs"
  by (induction xs) fastforce+

lemma find_if_drop_assoc:
  "drop_assoc k xs = (let pos = std_find_if (\<lambda>kv. k = fst kv) xs in take pos xs @ drop (pos + 1) xs)"
  "std_find_if (\<lambda>kv. k = fst kv) xs \<le> length xs"
  "std_find_if (\<lambda>kv. k = fst kv) xs = length xs \<longleftrightarrow> k \<notin> fst ` set xs"
  "std_find_if (\<lambda>kv. k = fst kv) xs < length xs \<Longrightarrow> fst (xs ! std_find_if (\<lambda>kv. k = fst kv) xs) = k"
  by (induction xs) (auto simp: Let_def)

context linear_comparator
begin

lemma array_lower_bound_eq:
  assumes "sorted_keys xs"
  shows "array_lower_bound compare xs key = length (takeWhile (\<lambda>e. fst e < key) xs)"
proof -
  have "sorted_wrt (\<lambda>x y. fst y < key \<longrightarrow> fst x < key) xs"
    using assms unfolding sorted_keys_def sorted_wrt_map by (rule sorted_wrt_mono_rel [rotated]) auto
  then show ?thesis unfolding array_lower_bound_def by (simp add: lower_bound_takeWhile)
qed

lemma array_find_eq: "array_find compare xs key = std_find_if (\<lambda>kv. key = fst kv) xs"
  by (simp add: array_find_def)

lemma array_insert_step:
  assumes "sorted_keys xs \<and> length xs \<le> kFixedSize" and "length xs < kFixedSize"
  shows "\<exists>ys. array_insert compare k v xs = Some ys \<and> (sorted_keys ys \<and> length ys \<le> kFixedSize) \<and> ys = put_assoc k v xs"
proof -
  define pos where "pos = length (takeWhile (\<lambda>e. fst e < k) xs)"
  have so: "sorted_keys xs" using assms by simp
  have le: "pos \<le> length xs" by (simp add: pos_def length_takeWhile_le)
  note upd = put_assoc_split [OF so, of k v, unfolded Let_def, folded pos_def]
  have lb: "array_lower_bound compare xs k = pos" by (simp add: array_lower_bound_eq [OF so] pos_def)
  have "array_insert compare k v xs = Some (put_assoc k v xs)"
  proof (cases "pos \<noteq> length xs \<and> k = fst (xs ! pos) \<and> v = snd (xs ! pos)")
    case True
    then have "(k, v) \<in> set xs" using le nth_mem [of pos xs] by simp
    from True put_assoc_same [OF so this] show ?thesis unfolding array_insert_def lb by simp
  next
    case False
    then show ?thesis unfolding upd using le assms
      by (auto simp: array_insert_def lb fixed_append_def)
  qed
  then show ?thesis using sorted_put_assoc [OF so] length_put_assoc(1) [of k v xs] assms(2) by simp
qed

lemma array_erase_step:
  assumes "sorted_keys xs \<and> length xs \<le> kFixedSize"
  shows "\<exists>ys. array_erase compare k xs = Some ys \<and> (sorted_keys ys \<and> length ys \<le> kFixedSize) \<and> ys = drop_assoc k xs"
proof -
  note pos = find_if_drop_assoc [of k xs]
  have "array_erase compare k xs = Some (drop_assoc k xs)"
    using assms pos(1,2) by (cases xs) (auto simp: array_erase_def array_find_eq fixed_append_def Let_def)
  then show ?thesis using assms sorted_drop_assoc [of xs k] length_drop_assoc [of k xs] by simp
qed

end

sublocale linear_comparator \<subseteq> array: ordered_map "\<lambda>xs. sorted_keys xs \<and> length xs \<le> kFixedSize" "\<lambda>xs. xs"
  "array_insert compare" "array_erase compare" kFixedSize
  by (unfold_locales; (rule array_insert_step array_erase_step)?) auto

section \<open>The sorted map is an ordered map\<close>

fun sm_entries :: "('k, 'v) SortedMap \<Rightarrow> ('k \<times> 'v) list" where
  "sm_entries (ArrayMap xs) = xs"
| "sm_entries (TreeMap n) = inorder n"

fun sm_ok :: "('k::linorder, 'v) SortedMap \<Rightarrow> bool" where
  "sm_ok (ArrayMap xs) \<longleftrightarrow> sorted_keys xs \<and> length xs \<le> kFixedSize"
| "sm_ok (TreeMap n) \<longleftrightarrow> llrb n \<and> sorted_keys (inorder n) \<and> inorder n \<noteq> []"

lemma sm_ok_sorted: "sm_ok m \<Longrightarrow> sorted_keys (sm_entries m)"
  by (cases m) auto

lemma put_assoc_last: "\<forall>x \<in> set ys. fst x < k \<Longrightarrow> put_assoc k v ys = ys @ [(k, v)]"
  by (induction ys) auto

lemma put_assoc_nonempty: "put_assoc k v xs \<noteq> []"
  by (cases xs) auto

lemma llrb_empty: "llrb n \<Longrightarrow> node_empty n \<longleftrightarrow> inorder n = []"
  by (cases n) (auto simp: llrb_def node_empty_def)

lemma sm_ok_size: "sm_ok m \<Longrightarrow> sm_size m = length (sm_entries m)"
  by (cases m) (auto simp: llrb_def ok_size)

context linear_comparator
begin

lemma create_fold:
  assumes "llrb n" and "sorted_keys (inorder n @ xs)" and "length (inorder n @ xs) < 2 ^ 31"
  shows "llrb (foldl (\<lambda>node e. insert_node compare (fst e) (snd e) node) n xs) \<and>
    inorder (foldl (\<lambda>node e. insert_node compare (fst e) (snd e) node) n xs) = inorder n @ xs"
  using assms
proof (induction xs arbitrary: n)
  case (Cons e xs)
  have "llrb (insert_node compare (fst e) (snd e) n)" "inorder (insert_node compare (fst e) (snd e) n) = inorder n @ [e]"
    using tree_insert_step [of n "fst e" "snd e"] Cons.prems put_assoc_last [of "inorder n" "fst e" "snd e"] by auto
  with Cons.IH [of "insert_node compare (fst e) (snd e) n"] Cons.prems show ?case by simp
qed simp

lemma create_correct:
  assumes "sorted_keys xs" and "length xs \<le> kFixedSize"
  shows "llrb (tree_Create compare xs)" and "inorder (tree_Create compare xs) = xs"
  using create_fold [of "Leaf Black" xs] assms by (auto simp: tree_Create_def llrb_def)

lemma sm_insert_step:
  assumes "sm_ok m" and "length (sm_entries m) < 2 ^ 31 - 1"
  shows "\<exists>m'. sm_insert compare k v m = Some m' \<and> sm_ok m' \<and> sm_entries m' = put_assoc k v (sm_entries m)"
proof (cases m)
  case (ArrayMap xs)
  then have xs: "sorted_keys xs" "length xs \<le> kFixedSize" using assms by auto
  show ?thesis
  proof (cases "length xs < kFixedSize")
    case True
    with array_insert_step [of xs k v] xs ArrayMap show ?thesis by auto
  next
    case False
    with create_correct [OF xs] tree_insert_step [of "tree_Create compare xs" k v] xs ArrayMap put_assoc_nonempty [of k v xs]
    show ?thesis by auto
  qed
next
  case (TreeMap n)
  with tree_insert_step [of n k v] assms put_assoc_nonempty [of k v "inorder n"] show ?thesis by auto
qed

lemma sm_erase_step:
  assumes "sm_ok m"
  shows "\<exists>m'. sm_erase compare k m = Some m' \<and> sm_ok m' \<and> sm_entries m' = drop_assoc k (sm_entries m)"
proof (cases m)
  case (ArrayMap xs)
  with array_erase_step [of xs k] assms show ?thesis by auto
next
  case (TreeMap n)
  with tree_erase_step [of n k] assms llrb_empty [of "erase_node compare k n"] show ?thesis
    by (auto simp: sm_empty_def Let_def)
qed

end

sublocale linear_comparator \<subseteq> sm: ordered_map sm_ok sm_entries "sm_insert compare" "sm_erase compare" "2 ^ 31 - 1"
  by (unfold_locales; (rule sm_insert_step sm_erase_step sm_ok_sorted)?)

section \<open>Lookup and iteration\<close>

text \<open>The entries an iterator has still to visit.\<close>

definition stack_list :: "('k, 'v) LlrbNodeIterator \<Rightarrow> ('k \<times> 'v) list" where
  "stack_list st = concat (map (\<lambda>n. entry n # inorder (right n)) st)"

definition stack_ok :: "('k, 'v) LlrbNodeIterator \<Rightarrow> bool" where
  "stack_ok st \<longleftrightarrow> (\<forall>n \<in> set st. n \<noteq> Leaf Black \<and> (\<exists>h. ok h n))"

lemma stack_list_simps [simp]: "stack_list [] = []" "stack_list (n # st) = entry n # inorder (right n) @ stack_list st"
  by (simp_all add: stack_list_def)

lemma stack_list_empty: "stack_list st = [] \<longleftrightarrow> st = []"
  by (cases st) simp_all

lemma stack_ok_simps [simp]: "stack_ok []" "stack_ok (n # st) \<longleftrightarrow> n \<noteq> Leaf Black \<and> (\<exists>h. ok h n) \<and> stack_ok st"
  by (auto simp: stack_ok_def)

lemma ok_children: "ok h (Node e c s l r) \<Longrightarrow> (\<exists>g. ok g l) \<and> (\<exists>g. ok g r)"
  by (auto split: Color.splits nat.splits)

lemma accumulate_left:
  "ok h n \<Longrightarrow> stack_ok st \<Longrightarrow> stack_list (AccumulateLeft n st) = inorder n @ stack_list st \<and> stack_ok (AccumulateLeft n st)"
proof (induction n st arbitrary: h rule: AccumulateLeft.induct)
  case (2 e c s l r st)
  have ne: "\<not> node_empty (Node e c s l r)" using 2(2) by (simp add: node_empty_def)
  obtain g where "ok g l" using ok_children [OF 2(2)] by blast
  from 2(1) [OF ne this] 2(2,3) have "stack_list (AccumulateLeft l (Node e c s l r # st)) = inorder l @ stack_list (Node e c s l r # st)"
    "stack_ok (AccumulateLeft l (Node e c s l r # st))" by (auto simp del: stack_list_simps)
  then show ?case using ne by simp
qed simp

lemma iter_inc_rest:
  assumes "stack_ok st" and "st \<noteq> []"
  shows "\<exists>st'. iter_inc st = Some st' \<and> stack_ok st' \<and> stack_list st = entry (hd st) # stack_list st'"
proof -
  obtain n rest where st: "st = n # rest" using assms(2) by (cases st) auto
  then obtain h where h: "ok h n" "n \<noteq> Leaf Black" "stack_ok rest" using assms(1) by auto
  then obtain e c s l r where n: "n = Node e c s l r" by (cases n) auto
  then obtain g where "ok g r" using ok_children h(1) by blast
  from accumulate_left [OF this h(3)] st n show ?thesis by simp
qed

fun it_rest :: "('k, 'v) SortedMapIterator \<Rightarrow> ('k \<times> 'v) list" where
  "it_rest (ArrayIter xs i) = drop i xs"
| "it_rest (TreeIter st) = stack_list st"

text \<open>Two iterators into the same map.\<close>

fun same_map :: "('k, 'v) SortedMapIterator \<Rightarrow> ('k, 'v) SortedMapIterator \<Rightarrow> bool" where
  "same_map (ArrayIter xs i) (ArrayIter ys j) \<longleftrightarrow> xs = ys \<and> i \<le> length xs \<and> j \<le> length xs"
| "same_map (TreeIter a) (TreeIter b) \<longleftrightarrow> stack_ok a \<and> stack_ok b"
| "same_map a b \<longleftrightarrow> False"

lemma it_eq_rest:
  assumes "same_map a b" and "it_rest a = es @ it_rest b" and "sorted_keys (it_rest a)"
  shows "it_eq a b \<longleftrightarrow> es = []"
proof (cases a)
  case (ArrayIter xs i)
  with assms(1) obtain j where b: "b = ArrayIter xs j" "i \<le> length xs" "j \<le> length xs" by (cases b) auto
  then have "length xs - i = length es + (length xs - j)" using assms(2) ArrayIter by (metis it_rest.simps(1) length_append length_drop)
  then have "i = j \<longleftrightarrow> length es = 0" using b by linarith
  with b ArrayIter show ?thesis by simp
next
  case (TreeIter p)
  with assms(1) obtain q where b: "b = TreeIter q" by (cases b) auto
  show ?thesis using assms(2,3) TreeIter b
    by (cases p; cases q; cases es) (auto simp: iter_eq_def is_end_def)
qed

lemma it_step_rest:
  assumes "same_map a b" and "it_rest a = e # es"
  shows "it_get a = Some e \<and> (\<exists>a'. it_inc a = Some a' \<and> same_map a' b \<and> it_rest a' = es)"
proof (cases a)
  case (ArrayIter xs i)
  with assms(2) have "i < length xs" by (cases "i < length xs") auto
  with assms ArrayIter show ?thesis by (cases b) (auto simp: Cons_nth_drop_Suc [symmetric])
next
  case (TreeIter p)
  with assms(2) obtain n rest where p: "p = n # rest" by (cases p) auto
  from assms(1) TreeIter obtain q where b: "b = TreeIter q" "stack_ok p" "stack_ok q" by (cases b) auto
  from iter_inc_rest [OF b(2)] p assms(2) TreeIter b show ?thesis by auto
qed

lemma collect_between:
  assumes "same_map a b" and "it_rest a = es @ it_rest b" and "sorted_keys (it_rest a)"
  shows "collect a b = Some es"
  using assms
proof (induction es arbitrary: a)
  case Nil
  with it_eq_rest [OF Nil] show ?case by (simp add: collect.simps)
next
  case (Cons e es)
  from it_step_rest [OF Cons.prems(1)] Cons.prems(2) obtain a' where
    a': "it_get a = Some e" "it_inc a = Some a'" "same_map a' b" "it_rest a' = es @ it_rest b" by auto
  have "collect a' b = Some es" using Cons.IH [OF a'(3,4)] Cons.prems(2,3) a'(4) by simp
  with a' it_eq_rest [OF Cons.prems] show ?case by (simp add: collect.simps [of a])
qed

lemma sorted_filter_bound:
  "sorted_keys xs \<Longrightarrow> drop (length (takeWhile (\<lambda>e. fst e < k) xs)) xs = filter (\<lambda>e. k \<le> fst e) xs"
proof (induction xs)
  case (Cons e xs)
  then have "filter (\<lambda>e. k \<le> fst e) xs = xs" if "\<not> fst e < k" using that by (auto simp: filter_id_conv) 
  with Cons show ?case by auto
qed simp

lemma map_of_bound:
  "sorted_keys xs \<Longrightarrow> map_of xs k =
     (case filter (\<lambda>e. k \<le> fst e) xs of [] \<Rightarrow> None | e # es \<Rightarrow> if k = fst e then Some (snd e) else None)"
proof (induction xs)
  case (Cons e xs)
  show ?case
  proof (cases "k < fst e")
    case True
    with Cons.prems have "map_of xs k = None" by (auto simp: map_of_eq_None_iff)
    with True show ?thesis by auto
  next
    case False
    with Cons show ?thesis by (auto simp: not_less)
  qed
qed simp

lemma compat_common: "same_map a c \<Longrightarrow> same_map b c \<Longrightarrow> same_map a b"
  by (cases a; cases b; cases c) auto

lemma begin_rest:
  assumes "sm_ok m"
  shows "same_map (sm_begin m) (sm_end m)" and "it_rest (sm_begin m) = sm_entries m"
proof -
  have "stack_ok (iter_Begin n) \<and> stack_list (iter_Begin n) = inorder n" if "llrb n" for n :: "('a, 'b) LlrbNode"
    using that accumulate_left [of _ n "[]"] by (auto simp: llrb_def iter_Begin_def)
  with assms show "same_map (sm_begin m) (sm_end m)" "it_rest (sm_begin m) = sm_entries m"
    by (cases m; simp add: iter_End_def)+
qed

lemma end_rest: "same_map (sm_end m) (sm_end m)" "it_rest (sm_end m) = []"
  by (cases m; simp add: iter_End_def)+

context linear_comparator
begin

lemma lower_bound_stack:
  "ok h n \<Longrightarrow> sorted_keys (inorder n) \<Longrightarrow> stack_ok st \<Longrightarrow>
     stack_list (LowerBound_loop compare key n st) = filter (\<lambda>e. key \<le> fst e) (inorder n) @ stack_list st \<and>
     stack_ok (LowerBound_loop compare key n st)"
proof (induction n arbitrary: h st)
  case (Node e c s l r)
  have ne: "\<not> node_empty (Node e c s l r)" using Node.prems(1) by (simp add: node_empty_def)
  obtain g g' where g: "ok g l" "ok g' r" using ok_children [OF Node.prems(1)] by blast
  have so: "sorted_keys (inorder l)" "sorted_keys (inorder r)" using Node.prems(2) by auto
  have st: "stack_ok (Node e c s l r # st)" using Node.prems by auto
  have lo: "fst e \<le> key \<Longrightarrow> filter (\<lambda>e. key \<le> fst e) (inorder l) = []"
    using Node.prems(2) by (fastforce simp: filter_empty_conv)
  have hi: "key \<le> fst e \<Longrightarrow> filter (\<lambda>e. key \<le> fst e) (inorder r) = inorder r"
    using Node.prems(2) by (fastforce simp: filter_id_conv)
  consider (lt) "key < fst e" | (eq) "key = fst e" | (gt) "fst e < key" by fastforce
  then show ?case
  proof cases
    case lt
    with Node.IH(1) [OF g(1) so(1) st] hi ne show ?thesis by (simp add: compare_cases)
  next
    case eq
    with lo hi ne st show ?thesis by (simp add: compare_cases)
  next
    case gt
    then have "\<not> key < fst e" "key \<noteq> fst e" "\<not> key \<le> fst e" "fst e \<le> key" by auto
    with Node.IH(2) [OF g(2) so(2) Node.prems(3)] lo ne show ?thesis by (simp add: compare_cases)
  qed
qed simp

lemma lower_bound_tree:
  assumes "llrb n" "sorted_keys (inorder n)"
  shows "stack_ok (LowerBound compare n key)" and "stack_list (LowerBound compare n key) = filter (\<lambda>e. key \<le> fst e) (inorder n)"
  using assms lower_bound_stack [of _ n "[]" key] by (auto simp: llrb_def LowerBound_def)

lemma lower_bound_rest:
  assumes "sm_ok m"
  shows "same_map (sm_lower_bound compare m key) (sm_end m)"
    and "it_rest (sm_lower_bound compare m key) = filter (\<lambda>e. key \<le> fst e) (sm_entries m)"
  using assms by (cases m; simp add: iter_End_def array_lower_bound_eq length_takeWhile_le sorted_filter_bound lower_bound_tree)+

lemma sm_get_map_of:
  assumes "sm_ok m"
  shows "sm_get compare m key = map_of (sm_entries m) key"
proof (cases m)
  case (ArrayMap xs)
  then have xs: "sorted_keys xs" using assms by simp
  let ?p = "std_find_if (\<lambda>kv. key = fst kv) xs"
  show ?thesis
  proof (cases "?p = length xs")
    case True
    then have "map_of xs key = None" using find_if_drop_assoc(3) [of key xs] by (simp add: map_of_eq_None_iff)
    with True ArrayMap show ?thesis by (simp add: sm_get_def array_find_eq)
  next
    case False
    then have p: "?p < length xs" using find_if_drop_assoc(2) [of key xs] by simp
    have "distinct (map fst xs)" using xs by (simp add: sorted_keys_def strict_sorted_iff)
    then have "map_of xs key = Some (snd (xs ! ?p))"
      using p find_if_drop_assoc(4) [OF p] nth_mem [OF p] by (metis map_of_eq_Some_iff prod.collapse)
    with p ArrayMap show ?thesis by (simp add: sm_get_def array_find_eq)
  qed
next
  case (TreeMap n)
  note rest = lower_bound_rest(2) [OF assms, of key]
  show ?thesis
  proof (cases "LowerBound compare n key")
    case Nil
    with rest TreeMap assms map_of_bound [of "inorder n" key] show ?thesis
      by (simp add: sm_get_def tree_find_def is_end_def iter_End_def iter_eq_def Let_def)
  next
    case (Cons t st)
    with rest TreeMap have "filter (\<lambda>e. key \<le> fst e) (inorder n) = entry t # inorder (right t) @ stack_list st" by simp
    with map_of_bound [of "inorder n" key] assms TreeMap Cons show ?thesis
      by (auto simp: sm_get_def tree_find_def is_end_def iter_End_def iter_eq_def Let_def)
  qed
qed

lemma tree_contains_iff:
  "ok h n \<Longrightarrow> sorted_keys (inorder n) \<Longrightarrow> tree_contains compare n key \<longleftrightarrow> key \<in> fst ` set (inorder n)"
proof (induction n arbitrary: h)
  case (Node e c s l r)
  obtain g g' where g: "ok g l" "ok g' r" using ok_children [OF Node.prems(1)] by blast
  have ne: "\<not> node_empty (Node e c s l r)" using Node.prems(1) by (simp add: node_empty_def)
  have IH: "tree_contains compare l key \<longleftrightarrow> key \<in> fst ` set (inorder l)" "tree_contains compare r key \<longleftrightarrow> key \<in> fst ` set (inorder r)"
    using Node.IH(1) [OF g(1)] Node.IH(2) [OF g(2)] Node.prems(2) by simp_all
  have "fst e \<le> key \<Longrightarrow> key \<notin> fst ` set (inorder l)" "key \<le> fst e \<Longrightarrow> key \<notin> fst ` set (inorder r)"
    using Node.prems(2) by fastforce+
  with ne IH show ?case by (cases key "fst e" rule: linorder_cases) (auto simp: compare_cases image_Un dest: less_imp_le)
qed simp

lemma sm_contains_iff:
  assumes "sm_ok m"
  shows "sm_contains compare m key \<longleftrightarrow> key \<in> fst ` set (sm_entries m)"
proof (cases m)
  case (ArrayMap xs)
  with find_if_drop_assoc(3) [of key xs] show ?thesis by (simp add: array_contains_def array_find_eq)
next
  case (TreeMap n)
  with assms tree_contains_iff [of _ n key] show ?thesis by (auto simp: llrb_def)
qed

end

abbreviation keys_below :: "'k::linorder \<Rightarrow> ('k \<times> 'v) list \<Rightarrow> nat" where
  "keys_below k xs \<equiv> length (filter (\<lambda>e. fst e < k) xs)"

lemma find_if_below:
  "sorted_keys xs \<Longrightarrow> k \<in> fst ` set xs \<Longrightarrow> std_find_if (\<lambda>kv. k = fst kv) xs = keys_below k xs"
proof (induction xs)
  case (Cons e xs)
  then have "k = fst e \<Longrightarrow> filter (\<lambda>e. fst e < k) xs = []" by (auto simp: filter_empty_conv)
  with Cons show ?case by auto
qed simp

context linear_comparator
begin

lemma tree_find_index_eq:
  "ok h n \<Longrightarrow> sorted_keys (inorder n) \<Longrightarrow> tree_find_index compare n key p =
     (if key \<in> fst ` set (inorder n) then p + of_nat (keys_below key (inorder n)) else npos)"
proof (induction n arbitrary: h p)
  case (Node e c s l r)
  obtain g g' where g: "ok g l" "ok g' r" using ok_children [OF Node.prems(1)] by blast
  have ne: "\<not> node_empty (Node e c s l r)" using Node.prems(1) by (simp add: node_empty_def)
  have so: "sorted_keys (inorder l)" "sorted_keys (inorder r)" using Node.prems(2) by auto
  note IH = Node.IH(1) [OF g(1) so(1)] Node.IH(2) [OF g(2) so(2)]
  have lo: "fst e \<le> key \<Longrightarrow> key \<notin> fst ` set (inorder l)" "fst e \<le> key \<Longrightarrow> filter (\<lambda>e. fst e < key) (inorder l) = inorder l"
    using Node.prems(2) by (fastforce simp: filter_id_conv)+
  have hi: "key \<le> fst e \<Longrightarrow> key \<notin> fst ` set (inorder r)" "key \<le> fst e \<Longrightarrow> filter (\<lambda>e. fst e < key) (inorder r) = []"
    using Node.prems(2) by (fastforce simp: filter_empty_conv)+
  show ?case
  proof (cases key "fst e" rule: linorder_cases)
    case less
    with hi ne IH(1) [of p] show ?thesis by (auto simp: compare_cases image_Un)
  next
    case equal
    with lo hi ne ok_size [OF g(1)] show ?thesis by (simp add: compare_cases)
  next
    case greater
    then have "fst e \<le> key" "\<not> key < fst e" "key \<noteq> fst e" by auto
    with greater lo ne IH(2) ok_size [OF g(1)] show ?thesis by (auto simp: compare_cases image_Un ac_simps)
  qed
qed simp

lemma sm_find_index_eq:
  assumes "sm_ok m"
  shows "sm_find_index compare m key =
    (if key \<in> fst ` set (sm_entries m) then of_nat (keys_below key (sm_entries m)) else npos)"
proof (cases m)
  case (ArrayMap xs)
  with assms find_if_below [of xs key] find_if_drop_assoc(3) [of key xs] show ?thesis
    by (auto simp: array_find_index_def array_find_eq Let_def simp del: find_if_drop_assoc)
next
  case (TreeMap n)
  then obtain h where "ok h n" "sorted_keys (inorder n)" using assms by (auto simp: llrb_def)
  from tree_find_index_eq [OF this, of key 0] TreeMap show ?thesis by simp
qed

lemma keys_view_in:
  assumes "sm_ok m"
  shows "KeysViewIn compare m a b = Some (filter (\<lambda>k. a \<le> k \<and> k < b) (map fst (sm_entries m)))"
proof (cases "a < b")
  case True
  let ?es = "sm_entries m"
  note lb = lower_bound_rest [OF assms]
  have so: "sorted_keys (filter (\<lambda>e. a \<le> fst e) ?es)"
    using sm_ok_sorted [OF assms] by (induction ?es) (auto simp: sorted_keys_def sorted_wrt_map sorted_wrt_filter)
  have "filter (\<lambda>e. a \<le> fst e) xs = filter (\<lambda>e. a \<le> fst e \<and> fst e < b) xs @ filter (\<lambda>e. b \<le> fst e) xs"
    if "sorted_keys xs" for xs :: "('k \<times> 'b) list"
    using that
  proof (induction xs)
    case (Cons e xs)
    have "b \<le> fst e \<Longrightarrow> filter (\<lambda>e. a \<le> fst e \<and> fst e < b) xs = []"
      using Cons.prems by (fastforce simp: filter_empty_conv)
    with Cons True show ?case by (auto simp: not_le)
  qed simp
  from this [OF sm_ok_sorted [OF assms]]
  have "collect (sm_lower_bound compare m a) (sm_lower_bound compare m b) = Some (filter (\<lambda>e. a \<le> fst e \<and> fst e < b) ?es)"
    using so compat_common [OF lb(1) lb(1)] by (intro collect_between) (simp_all only: lb(2))
  with True show ?thesis by (simp add: KeysViewIn_def filter_map o_def)
next
  case False
  have "collect (sm_end m) (sm_end m) = Some []" by (rule collect_between) (simp_all add: end_rest)
  moreover have "filter (\<lambda>k. a \<le> k \<and> k < b) (map fst (sm_entries m)) = []" using False by (fastforce simp: filter_empty_conv)
  ultimately show ?thesis using False by (simp add: KeysViewIn_def)
qed

end

lemma collect_all:
  assumes "sm_ok m"
  shows "collect (sm_begin m) (sm_end m) = Some (sm_entries m)"
  using begin_rest [OF assms] end_rest [of m] sm_ok_sorted [OF assms] by (intro collect_between) auto

section \<open>Every map the operations build\<close>

lemma comparator_locale: "comparator compare \<Longrightarrow> linear_comparator compare"
  by (rule linear_comparator.intro)

context linear_comparator
begin

lemma run_tree:
  assumes "length ops < 2 ^ 31"
  shows "\<exists>n. run_ops (\<lambda>k v n. Some (insert_node compare k v n)) (\<lambda>k n. Some (erase_node compare k n)) ops (Leaf Black) = Some n \<and>
    llrb n \<and> sorted_keys (inorder n) \<and> map_of (inorder n) = map_ops ops Map.empty"
  using tree.run_refines [of "Leaf Black" ops] assms by (auto simp: llrb_def)

lemma run_sm:
  assumes "length ops < 2 ^ 31"
  shows "\<exists>m. run_ops (sm_insert compare) (sm_erase compare) ops sm_empty = Some m \<and> sm_ok m \<and>
    map_of (sm_entries m) = map_ops ops Map.empty"
  using sm.run_refines [of sm_empty ops] assms by (auto simp: sm_empty_def)

lemma run_sm_ok:
  assumes "length ops < 2 ^ 31" and "run_ops (sm_insert compare) (sm_erase compare) ops sm_empty = Some m"
  shows "sm_ok m" and "map_of (sm_entries m) = map_ops ops Map.empty"
  using run_sm [OF assms(1)] assms(2) by auto

end

lemma sorted_keys_dom:
  assumes "sorted_keys xs" and "map_of xs = m"
  shows "map fst xs = sorted_list_of_set (dom m)" and "length xs = card (dom m)"
proof -
  have d: "sorted (map fst xs)" "distinct (map fst xs)" using assms(1) by (simp_all add: sorted_keys_def strict_sorted_iff)
  have s: "dom m = set (map fst xs)" using dom_map_of_conv_image_fst [of xs] assms(2) by simp
  show "map fst xs = sorted_list_of_set (dom m)" unfolding s by (rule sorted_list_of_set.idem_if_sorted_distinct [OF d, symmetric])
  show "length xs = card (dom m)" unfolding s using d(2) by (metis distinct_card length_map)
qed

text \<open>
  C5. The tree stays balanced. Any sequence of fewer than \<open>2 ^ 31\<close> insertions and removals from the empty tree, for
  a comparator of a linear order, ends in a tree that obeys the left-leaning red-black rules with a black root and
  exact sizes, that holds exactly the entries of the abstract map, in order, and whose height is at most twice the
  binary logarithm of its size plus one.
\<close>

theorem llrb_balanced:
  assumes "comparator compare" and "length ops < 2 ^ 31"
  shows "\<exists>n. run_ops (\<lambda>k v n. Some (insert_node compare k v n)) (\<lambda>k n. Some (erase_node compare k n)) ops (Leaf Black) = Some n \<and>
    llrb n \<and> sorted_keys (inorder n) \<and> map_of (inorder n) = map_ops ops Map.empty \<and>
    node_size n = card (dom (map_ops ops Map.empty)) \<and> 2 ^ (height n div 2) \<le> node_size n + 1"
proof -
  obtain n h where n: "run_ops (\<lambda>k v n. Some (insert_node compare k v n)) (\<lambda>k n. Some (erase_node compare k n)) ops (Leaf Black) = Some n"
      "llrb n" "sorted_keys (inorder n)" "map_of (inorder n) = map_ops ops Map.empty" "ok h n" "\<not> red n"
    using linear_comparator.run_tree [OF comparator_locale [OF assms(1)] assms(2)] by (auto simp: llrb_def)
  have "height n div 2 \<le> h" using ok_height [OF n(5)] n(6) by simp
  then have "(2::nat) ^ (height n div 2) \<le> 2 ^ h" by (rule power_increasing) simp
  also have "\<dots> \<le> node_size n + 1" using ok_count [OF n(5)] ok_size [OF n(5)] by simp
  finally have "2 ^ (height n div 2) \<le> node_size n + 1" .
  with n sorted_keys_dom(2) [OF n(3,4)] ok_size [OF n(5)] show ?thesis by (intro exI [of _ n]) simp
qed

theorem llrb_balanced_witness:
  "\<exists>n. run_ops (\<lambda>k v n. Some (insert_node DefaultCompare k v n)) (\<lambda>k n. Some (erase_node DefaultCompare k n))
       [Insert (1::nat) True, Insert 2 False, Insert 3 True, Erase 2] (Leaf Black) = Some n \<and>
     node_size n = 2 \<and> inorder n = [(1, True), (3, True)]"
proof -
  have c: "comparator (DefaultCompare :: nat \<Rightarrow> nat \<Rightarrow> ComparisonResult)" by (rule default_comparator.compare)
  have d: "map_ops [Insert (1::nat) True, Insert 2 False, Insert 3 True, Erase 2] Map.empty = [1 \<mapsto> True, 3 \<mapsto> True]" by auto
  have dd: "dom [1::nat \<mapsto> True, 3 \<mapsto> True] = {1, 3}" by auto
  obtain n where n: "run_ops (\<lambda>k v n. Some (insert_node DefaultCompare k v n)) (\<lambda>k n. Some (erase_node DefaultCompare k n))
       [Insert (1::nat) True, Insert 2 False, Insert 3 True, Erase 2] (Leaf Black) = Some n"
     "sorted_keys (inorder n)" "map_of (inorder n) = [1 \<mapsto> True, 3 \<mapsto> True]" "node_size n = 2"
    using llrb_balanced [OF c, of "[Insert 1 True, Insert 2 False, Insert 3 True, Erase 2]"] unfolding d by (auto simp: dd)
  have "map fst (inorder n) = [1, 3]" using sorted_keys_dom(1) [OF n(2,3)] by (simp add: dd)
  then have "inorder n = [(1, True), (3, True)]" using n(3) by (auto simp: map_eq_Cons_conv fun_upd_def fun_eq_iff split: if_splits)
  with n show ?thesis by blast
qed

text \<open>
  C4. The sorted map implements a map. After any sequence of fewer than \<open>2 ^ 31\<close> insertions and removals from the
  empty map, no assertion has failed, whatever representation the map is in; lookup, membership, size and
  emptiness are those of the abstract map that the same sequence builds.
\<close>

theorem sorted_map_refines:
  assumes "comparator compare" and "length ops < 2 ^ 31"
  shows "\<exists>m. run_ops (sm_insert compare) (sm_erase compare) ops sm_empty = Some m \<and>
    sm_get compare m = map_ops ops Map.empty \<and>
    sm_contains compare m = (\<lambda>k. k \<in> dom (map_ops ops Map.empty)) \<and>
    sm_size m = card (dom (map_ops ops Map.empty)) \<and>
    (sm_is_empty m \<longleftrightarrow> map_ops ops Map.empty = Map.empty)"
proof -
  note L = comparator_locale [OF assms(1)]
  obtain m where m: "run_ops (sm_insert compare) (sm_erase compare) ops sm_empty = Some m" "sm_ok m"
      "map_of (sm_entries m) = map_ops ops Map.empty"
    using linear_comparator.run_sm [OF L assms(2)] by blast
  have sz: "sm_size m = card (dom (map_ops ops Map.empty))"
    using sm_ok_size [OF m(2)] sorted_keys_dom(2) [OF sm_ok_sorted [OF m(2)] m(3)] by simp
  have "sm_is_empty m \<longleftrightarrow> sm_entries m = []" using m(2) by (cases m) (auto simp: llrb_empty)
  then have "sm_is_empty m \<longleftrightarrow> map_ops ops Map.empty = Map.empty" using m(3) by (metis map_of_eq_empty_iff)
  moreover have "sm_get compare m = map_ops ops Map.empty"
    using linear_comparator.sm_get_map_of [OF L m(2)] m(3) by (simp add: fun_eq_iff)
  moreover have "sm_contains compare m = (\<lambda>k. k \<in> dom (map_ops ops Map.empty))"
    using linear_comparator.sm_contains_iff [OF L m(2)] m(3) by (metis dom_map_of_conv_image_fst)
  ultimately show ?thesis using m(1) sz by blast
qed

theorem sorted_map_refines_witness:
  "\<exists>m. run_ops (sm_insert DefaultCompare) (sm_erase DefaultCompare) (map (\<lambda>i. Insert i (i + 1)) [0 ..< 40]) sm_empty = Some m \<and>
    sm_get DefaultCompare m = map_ops (map (\<lambda>i. Insert i (i + 1)) [0 ..< 40]) Map.empty"
  using sorted_map_refines [OF default_comparator.compare, of "map (\<lambda>i. Insert i (i + 1)) [0 ..< 40]"] by auto

text \<open>
  C37. Loops over a map end. A range-based loop from the first to the past-the-end iterator of any map that
  insertions and removals build visits every entry of the map exactly once, in ascending order of the keys, and
  never increments or reads an iterator at the end.
\<close>

theorem sorted_map_loop:
  assumes "comparator compare" and "length ops < 2 ^ 31"
    and "run_ops (sm_insert compare) (sm_erase compare) ops sm_empty = Some m"
  shows "\<exists>es. collect (sm_begin m) (sm_end m) = Some es \<and> map_of es = map_ops ops Map.empty \<and>
    map fst es = sorted_list_of_set (dom (map_ops ops Map.empty)) \<and>
    KeysView m = Some (sorted_list_of_set (dom (map_ops ops Map.empty)))"
proof -
  note m = linear_comparator.run_sm_ok [OF comparator_locale [OF assms(1)] assms(2,3)]
  from collect_all [OF m(1)] sorted_keys_dom(1) [OF sm_ok_sorted [OF m(1)] m(2)] m(2)
  show ?thesis by (intro exI [of _ "sm_entries m"]) (simp add: KeysView_def)
qed

theorem sorted_map_loop_witness:
  "\<exists>m. run_ops (sm_insert DefaultCompare) (sm_erase DefaultCompare) [Insert (2::nat) True, Insert 1 False] sm_empty = Some m \<and>
    KeysView m = Some [1, 2]"
proof -
  let ?ops = "[Insert (2::nat) True, Insert 1 False]"
  obtain m where m: "run_ops (sm_insert DefaultCompare) (sm_erase DefaultCompare) ?ops sm_empty = Some m"
    using default_comparator.run_sm [of ?ops] by auto
  have "dom (map_ops ?ops Map.empty) = {1, 2}" by auto
  with sorted_map_loop [OF default_comparator.compare _ m] m show ?thesis by auto
qed

text \<open>
  C38. Key ranges and positions. On any map that insertions and removals build, the keys in a range are the keys
  from the first bound up to the second, none when the bounds are out of order, and the index of a key is its
  position among the keys, or the sentinel when the key is absent.
\<close>

theorem sorted_map_ranges:
  assumes "comparator compare" and "length ops < 2 ^ 31"
    and "run_ops (sm_insert compare) (sm_erase compare) ops sm_empty = Some m" and "D = dom (map_ops ops Map.empty)"
  shows "KeysViewIn compare m a b = Some (filter (\<lambda>k. a \<le> k \<and> k < b) (sorted_list_of_set D)) \<and>
    sm_find_index compare m a = (if a \<in> D then of_nat (card {k \<in> D. k < a}) else npos)"
proof -
  note L = comparator_locale [OF assms(1)]
  note m = linear_comparator.run_sm_ok [OF L assms(2,3)]
  note keys = sorted_keys_dom(1) [OF sm_ok_sorted [OF m(1)] m(2)]
  have D: "D = fst ` set (sm_entries m)" using m(2) assms(4) by (metis dom_map_of_conv_image_fst)
  have "distinct (map fst (sm_entries m))" using sm_ok_sorted [OF m(1)] by (simp add: sorted_keys_def strict_sorted_iff)
  then have "distinct (map fst (filter (\<lambda>e. fst e < a) (sm_entries m)))" by (simp add: distinct_map_filter)
  note distinct_card [OF this]
  moreover have "{k \<in> D. k < a} = set (map fst (filter (\<lambda>e. fst e < a) (sm_entries m)))" unfolding D by auto
  ultimately have "card {k \<in> D. k < a} = keys_below a (sm_entries m)" by simp
  then show ?thesis
    using linear_comparator.keys_view_in [OF L m(1), of a b] linear_comparator.sm_find_index_eq [OF L m(1), of a] keys D assms(4)
    by simp
qed

theorem sorted_map_ranges_witness:
  "\<exists>m. run_ops (sm_insert DefaultCompare) (sm_erase DefaultCompare) [Insert (2::nat) True, Insert 1 False, Insert 5 True] sm_empty = Some m \<and>
    KeysViewIn DefaultCompare m 2 5 = Some [2]"
proof -
  let ?ops = "[Insert (2::nat) True, Insert 1 False, Insert 5 True]"
  obtain m where m: "run_ops (sm_insert DefaultCompare) (sm_erase DefaultCompare) ?ops sm_empty = Some m"
    using default_comparator.run_sm [of ?ops] by auto
  have "{1, 2, 5} = dom (map_ops ?ops Map.empty)" by auto
  from sorted_map_ranges [OF default_comparator.compare _ m this, of 2 5] m show ?thesis by auto
qed

text \<open>The equality of tree iterators reads the keys: iterators into different trees, at different nodes, are equal.\<close>

lemma iter_eq_by_key:
  "iter_eq (iter_Begin (insert_node DefaultCompare (1::nat) True (Leaf Black))) (iter_Begin (insert_node DefaultCompare 1 False (Leaf Black)))"
  by (simp add: iter_eq_def iter_Begin_def is_end_def insert_node_def Rep_def FixRootColor_def node_empty_def)

end
