(* ===== verification/OrderedCode.thy ===== *)
theory OrderedCode
  imports Prelude "HOL-Library.Monad_Syntax"
begin

text \<open>
  The order-preserving key encoding of Firestore's local store (Firestore/core/src/util/ordered\_code.cc,
  ordered\_code.h and bits.h): strings, unsigned and signed 64-bit numbers, doubles and the infinite string, each in
  increasing and in decreasing order. Strings are byte lists and a pointer into one is an index. A writer returns
  the destination with the item appended. \<open>None\<close> is a failed \<open>HARD_ASSERT\<close>, which is never compiled out; a reader
  that does not fail returns \<open>None\<close> for \<open>false\<close>, or the item and the rest of the source. Readers are modelled with a
  non-null result. The template parameter \<open>INVERT\<close> is a boolean argument.
\<close>

type_synonym bytes = "u8 list"

type_synonym 'a reading = "('a \<times> bytes) option option"

section \<open>Bytes and words\<close>

definition Convert8 :: "bool \<Rightarrow> u8 \<Rightarrow> u8" where
  "Convert8 invert x = (if invert then NOT x else x)"

definition Convert16 :: "bool \<Rightarrow> u16 \<Rightarrow> u16" where
  "Convert16 invert x = (if invert then NOT x else x)"

definition Convert32 :: "bool \<Rightarrow> u32 \<Rightarrow> u32" where
  "Convert32 invert x = (if invert then NOT x else x)"

definition Convert64 :: "bool \<Rightarrow> u64 \<Rightarrow> u64" where
  "Convert64 invert x = (if invert then NOT x else x)"

definition Convert_pair :: "bool \<Rightarrow> u8 \<Rightarrow> u8 \<Rightarrow> u16" where
  "Convert_pair invert a b = Convert16 invert (ucast a OR push_bit 8 (ucast b))"

text \<open>Unaligned little-endian loads and stores at an offset.\<close>

definition LOAD16 :: "bytes \<Rightarrow> nat \<Rightarrow> u16" where
  "LOAD16 s p = of_nat (le_nat (take 2 (drop p s)))"

definition LOAD32 :: "bytes \<Rightarrow> nat \<Rightarrow> u32" where
  "LOAD32 s p = of_nat (le_nat (take 4 (drop p s)))"

definition LOAD64 :: "bytes \<Rightarrow> nat \<Rightarrow> u64" where
  "LOAD64 s p = of_nat (le_nat (take 8 (drop p s)))"

definition put_at :: "bytes \<Rightarrow> nat \<Rightarrow> bytes \<Rightarrow> bytes" where
  "put_at dst p bs = take p dst @ bs @ drop (p + length bs) dst"

definition STORE16 :: "bytes \<Rightarrow> nat \<Rightarrow> u16 \<Rightarrow> bytes" where
  "STORE16 dst p v = put_at dst p (le_bytes 2 (unat v))"

definition STORE32 :: "bytes \<Rightarrow> nat \<Rightarrow> u32 \<Rightarrow> bytes" where
  "STORE32 dst p v = put_at dst p (le_bytes 4 (unat v))"

definition STORE64 :: "bytes \<Rightarrow> nat \<Rightarrow> u64 \<Rightarrow> bytes" where
  "STORE64 dst p v = put_at dst p (le_bytes 8 (unat v))"

text \<open>\<open>ghtonll\<close> followed by a store, and a load followed by \<open>gntohll\<close>: big-endian order.\<close>

definition be64 :: "u64 \<Rightarrow> bytes" where
  "be64 v = rev (le_bytes 8 (unat v))"

definition of_be64 :: "bytes \<Rightarrow> u64" where
  "of_be64 bs = of_nat (le_nat (rev bs))"

section \<open>Copying with inversion\<close>

function invert_loop :: "bool \<Rightarrow> bytes \<Rightarrow> bytes \<Rightarrow> nat \<Rightarrow> bytes" where
  "invert_loop invert dst src copied =
     (if copied < length src - 8 then invert_loop invert (STORE64 dst copied (Convert64 invert (LOAD64 src copied))) src (copied + 8)
      else dst)"
  by pat_completeness auto
termination by (relation "measure (\<lambda>(invert, dst, src, d). length src - d)") auto

declare invert_loop.simps [simp del]

definition CopyInvertedBytes :: "bool \<Rightarrow> bytes \<Rightarrow> bytes \<Rightarrow> bytes" where
  "CopyInvertedBytes invert dst src =
     (let len = length src;
          copy2 = (\<lambda>dst. STORE16 dst 0 (Convert16 invert (LOAD16 src 0)));
          copy4 = (\<lambda>dst. STORE32 dst 0 (Convert32 invert (LOAD32 src 0)))
      in if len = 0 then dst
         else if len = 1 then dst[0 := Convert8 invert (src ! 0)]
         else if len = 3 then copy2 (dst[2 := Convert8 invert (src ! 2)])
         else if len = 2 then copy2 dst
         else if len = 5 \<or> len = 6 \<or> len = 7 then
           copy4 (STORE32 dst (len - 4) (Convert32 invert (LOAD32 src (len - 4))))
         else if len = 4 then copy4 dst
         else STORE64 (invert_loop invert dst src 0) (len - 8) (Convert64 invert (LOAD64 src (len - 8))))"

text \<open>The resized part of the destination is not initialised by the source; the copy overwrites all of it.\<close>

definition AppendBytes :: "bool \<Rightarrow> bytes \<Rightarrow> bytes \<Rightarrow> bytes" where
  "AppendBytes invert dest src = dest @ CopyInvertedBytes invert (replicate (length src) 0) src"

section \<open>The search for special bytes\<close>

definition IsSpecialByte :: "u8 \<Rightarrow> bool" where
  "IsSpecialByte c \<longleftrightarrow> c + 1 < 2"

definition AdvanceIfNoSpecialBytes :: "u32 \<Rightarrow> bytes \<Rightarrow> nat \<Rightarrow> nat option" where
  "AdvanceIfNoSpecialBytes v_32 s p =
     (if LOAD32 s p \<noteq> v_32 then None
      else if (v_32 - 0x01010101) AND NOT (v_32 + 0x01010101) AND 0x80808080 \<noteq> 0 then
        if IsSpecialByte (s ! p) \<or> IsSpecialByte (s ! (p + 1)) \<or> IsSpecialByte (s ! (p + 2)) \<or> IsSpecialByte (s ! (p + 3))
        then Some 0 else None
      else
        if \<not> IsSpecialByte (s ! p) \<and> \<not> IsSpecialByte (s ! (p + 1)) \<and> \<not> IsSpecialByte (s ! (p + 2)) \<and> \<not> IsSpecialByte (s ! (p + 3))
        then Some 4 else None)"

definition special_in_8 :: "bytes \<Rightarrow> nat \<Rightarrow> nat option" where
  "special_in_8 s p =
     do {
       d \<leftarrow> AdvanceIfNoSpecialBytes (ucast (LOAD64 s p)) s p;
       let p = p + d in
       if IsSpecialByte (s ! p) then Some p
       else if IsSpecialByte (s ! (p + 1)) then Some (p + 1)
       else if IsSpecialByte (s ! (p + 2)) then Some (p + 2)
       else if IsSpecialByte (s ! (p + 3)) then Some (p + 3)
       else None
     }"

function skip_bytes :: "bytes \<Rightarrow> nat \<Rightarrow> nat \<Rightarrow> nat" where
  "skip_bytes s p limit = (if p < limit \<and> \<not> IsSpecialByte (s ! p) then skip_bytes s (p + 1) limit else p)"
  by pat_completeness auto
termination by (relation "measure (\<lambda>(s, p, limit). limit - p)") auto

declare skip_bytes.simps [simp del]

function SkipToNextSpecialByte :: "bytes \<Rightarrow> nat \<Rightarrow> nat \<Rightarrow> nat option" where
  "SkipToNextSpecialByte s p limit =
     (if p + 8 \<le> limit then
        let v = LOAD64 s p in
        if (v - 0x0101010101010101) AND NOT (v + 0x0101010101010101) AND 0x8080808080808080 = 0
        then SkipToNextSpecialByte s (p + 8) limit
        else special_in_8 s p
      else
        do {
          d \<leftarrow> (if p + 4 \<le> limit then AdvanceIfNoSpecialBytes (LOAD32 s p) s p else Some 0);
          Some (skip_bytes s (p + d) limit)
        })"
  by pat_completeness auto
termination by (relation "measure (\<lambda>(s, p, limit). limit - p)") auto

declare SkipToNextSpecialByte.simps [simp del]

section \<open>Strings\<close>

definition kEscape1 :: u8 where "kEscape1 = 0"

definition kNullCharacter :: u8 where "kNullCharacter = 0xff"

definition kSeparator :: u8 where "kSeparator = 1"

definition kEscape2 :: u8 where "kEscape2 = 0xff"

definition kInfinity :: u8 where "kInfinity = 0xff"

definition kFFCharacter :: u8 where "kFFCharacter = 0"

partial_function (option) encode_loop :: "bool \<Rightarrow> bytes \<Rightarrow> bytes \<Rightarrow> nat \<Rightarrow> nat \<Rightarrow> bytes option" where
  "encode_loop invert dest s p copy_start =
     do {
       p \<leftarrow> SkipToNextSpecialByte s p (length s);
       if p \<ge> length s then
         Some (if p > copy_start then AppendBytes invert dest (take (p - copy_start) (drop copy_start s)) else dest)
       else if \<not> IsSpecialByte (s ! p) then None
       else
         encode_loop invert
           (AppendBytes invert dest (take (p - copy_start) (drop copy_start s)) @ [Convert8 invert (s ! p), Convert8 (\<not> invert) (s ! p)])
           s (p + 1) (p + 1)
     }"

declare encode_loop.simps [code]

definition EncodeStringFragment :: "bool \<Rightarrow> bytes \<Rightarrow> bytes \<Rightarrow> bytes option" where
  "EncodeStringFragment invert dest s = (if s = [] then Some dest else encode_loop invert dest s 0 0)"

definition WriteString :: "bytes \<Rightarrow> bytes \<Rightarrow> bytes option" where
  "WriteString dest s = map_option (\<lambda>dest. AppendBytes False dest [kEscape1, kSeparator]) (EncodeStringFragment False dest s)"

definition WriteStringDecreasing :: "bytes \<Rightarrow> bytes \<Rightarrow> bytes option" where
  "WriteStringDecreasing dest s = map_option (\<lambda>dest. AppendBytes True dest [kEscape1, kSeparator]) (EncodeStringFragment True dest s)"

text \<open>
  The scan ends one byte before the end of the source; for an empty source the natural number \<open>length src - 1\<close> is
  zero where the pointer is one before the start, and both loops stop at once.
\<close>

partial_function (option) read_loop :: "bool \<Rightarrow> bytes \<Rightarrow> bytes \<Rightarrow> nat \<Rightarrow> nat \<Rightarrow> bytes reading" where
  "read_loop invert src result p copy_start =
     do {
       p \<leftarrow> SkipToNextSpecialByte src p (length src - 1);
       if p \<ge> length src - 1 then Some None
       else if \<not> IsSpecialByte (src ! p) then None
       else
         let result = AppendBytes invert result (take (p - copy_start) (drop copy_start src));
             seq = LOAD16 src p in
         if seq = Convert_pair invert kEscape1 kSeparator then Some (Some (result, drop (p + 2) src))
         else if seq = Convert_pair invert kEscape1 kNullCharacter then read_loop invert src (result @ [0]) (p + 2) (p + 2)
         else if seq = Convert_pair invert kEscape2 kFFCharacter then read_loop invert src (result @ [0xff]) (p + 2) (p + 2)
         else Some None
     }"

declare read_loop.simps [code]

definition ReadStringInternal :: "bool \<Rightarrow> bytes \<Rightarrow> bytes \<Rightarrow> bytes reading" where
  "ReadStringInternal invert src result = read_loop invert src result 0 0"

definition ReadString :: "bytes \<Rightarrow> bytes \<Rightarrow> bytes reading" where
  "ReadString src result = ReadStringInternal False src result"

definition ReadStringDecreasing :: "bytes \<Rightarrow> bytes \<Rightarrow> bytes reading" where
  "ReadStringDecreasing src result = ReadStringInternal True src result"

section \<open>The infinite string and trailing strings\<close>

definition WriteInfinityInternal :: "bool \<Rightarrow> bytes \<Rightarrow> bytes" where
  "WriteInfinityInternal invert dest = dest @ [Convert8 invert kEscape2, Convert8 invert kInfinity]"

definition WriteInfinity :: "bytes \<Rightarrow> bytes" where
  "WriteInfinity dest = WriteInfinityInternal False dest"

definition WriteInfinityDecreasing :: "bytes \<Rightarrow> bytes" where
  "WriteInfinityDecreasing dest = WriteInfinityInternal True dest"

definition WriteTrailingString :: "bytes \<Rightarrow> bytes \<Rightarrow> bytes" where
  "WriteTrailingString dest str = dest @ str"

definition ReadInfinityInternal :: "bool \<Rightarrow> bytes \<Rightarrow> bytes option" where
  "ReadInfinityInternal invert src =
     (if length src \<ge> 2 \<and> src ! 0 = Convert8 invert kEscape2 \<and> src ! 1 = Convert8 invert kInfinity
      then Some (drop 2 src) else None)"

definition ReadInfinity :: "bytes \<Rightarrow> bytes option" where
  "ReadInfinity src = ReadInfinityInternal False src"

definition ReadInfinityDecreasing :: "bytes \<Rightarrow> bytes option" where
  "ReadInfinityDecreasing src = ReadInfinityInternal True src"

text \<open>The item read is \<open>None\<close> for the infinite string, which sets \<open>*inf\<close>.\<close>

definition ReadStringOrInfinityInternal :: "bool \<Rightarrow> bytes \<Rightarrow> bytes \<Rightarrow> bytes option reading" where
  "ReadStringOrInfinityInternal invert src result =
     (case ReadInfinityInternal invert src of
        Some rest \<Rightarrow> Some (Some (None, rest))
      | None \<Rightarrow>
          map_option (map_option (\<lambda>(result, rest). (Some result, rest)))
            (if invert then ReadStringDecreasing src result else ReadString src result))"

definition ReadStringOrInfinity :: "bytes \<Rightarrow> bytes \<Rightarrow> bytes option reading" where
  "ReadStringOrInfinity src result = ReadStringOrInfinityInternal False src result"

definition ReadStringOrInfinityDecreasing :: "bytes \<Rightarrow> bytes \<Rightarrow> bytes option reading" where
  "ReadStringOrInfinityDecreasing src result = ReadStringOrInfinityInternal True src result"

definition ReadTrailingString :: "bytes \<Rightarrow> bytes \<times> bytes" where
  "ReadTrailingString src = (src, drop (length src) src)"

section \<open>Unsigned numbers\<close>

text \<open>\<open>__builtin_clzll\<close> and \<open>__builtin_clz\<close>: the number of leading zeros.\<close>

definition leading_zeros :: "nat \<Rightarrow> (nat \<Rightarrow> bool) \<Rightarrow> nat" where
  "leading_zeros w b = length (takeWhile (\<lambda>i. \<not> b i) (rev [0..<w]))"

definition Log2FloorNonZero64 :: "u64 \<Rightarrow> nat" where
  "Log2FloorNonZero64 n = 63 XOR leading_zeros 64 (bit n)"

definition Log2Floor64 :: "u64 \<Rightarrow> int" where
  "Log2Floor64 n = (if n = 0 then - 1 else int (63 XOR leading_zeros 64 (bit n)))"

definition Log2FloorNonZero :: "u32 \<Rightarrow> nat" where
  "Log2FloorNonZero n = 31 XOR leading_zeros 32 (bit n)"

definition OrderedNumLength :: "u64 \<Rightarrow> nat" where
  "OrderedNumLength val = nat (Log2Floor64 val + 1 + 7) div 8"

definition AppendUpto9 :: "bytes \<Rightarrow> bytes \<Rightarrow> nat \<Rightarrow> bytes" where
  "AppendUpto9 dst src n = take (length dst + n) (dst @ take 9 src)"

definition WriteNumIncreasing :: "bytes \<Rightarrow> u64 \<Rightarrow> bytes" where
  "WriteNumIncreasing dest num =
     (let buf = put_at (replicate 17 0) 1 (be64 num);
          len = OrderedNumLength num;
          start = 9 - len - 1
      in AppendUpto9 dest (drop start (buf[start := of_nat len])) (len + 1))"

definition WriteNumDecreasing :: "bytes \<Rightarrow> u64 \<Rightarrow> bytes" where
  "WriteNumDecreasing dest num =
     (let buf = put_at (replicate 17 0) 1 (be64 (NOT num));
          len = OrderedNumLength num;
          start = 9 - len - 1
      in AppendUpto9 dest (drop start (buf[start := NOT (of_nat len)])) (len + 1))"

text \<open>\<open>char\<close> is signed on the target, so the length byte is sign-extended.\<close>

definition ReadNumIncreasing :: "bytes \<Rightarrow> u64 reading" where
  "ReadNumIncreasing src =
     (if src = [] then Some None
      else
        let len = scast (src ! 0) :: u64 in
        if \<not> (len = 0 \<or> length src = 1 \<or> src ! 1 \<noteq> 0) then None
        else if len + 1 > of_nat (length src) \<or> len > 8 then Some None
        else
          let tmp = fold (\<lambda>i tmp. push_bit 8 tmp OR ucast (src ! (1 + i))) [0..<unat len] 0
          in Some (Some (tmp, drop (unat len + 1) src)))"

definition ReadNumDecreasing :: "bytes \<Rightarrow> u64 reading" where
  "ReadNumDecreasing src =
     (if src = [] then Some None
      else
        let len = NOT (scast (src ! 0)) :: u64 in
        if \<not> (len = 0 \<or> length src = 1 \<or> src ! 1 \<noteq> 0xff) then None
        else if len + 1 > of_nat (length src) \<or> len > 8 then Some None
        else
          let tmp = (if len \<noteq> 0 then NOT (fold (\<lambda>i tmp. push_bit 8 tmp OR ucast (src ! (i + 1))) [0..<unat len] (- 1)) else 0)
          in Some (Some (tmp, drop (unat len + 1) src)))"

section \<open>Signed numbers\<close>

definition kLengthToHeaderBits :: "(u8 \<times> u8) list" where
  "kLengthToHeaderBits =
     [(0, 0), (0x80, 0), (0xc0, 0), (0xe0, 0), (0xf0, 0), (0xf8, 0), (0xfc, 0), (0xfe, 0), (0xff, 0), (0xff, 0x80), (0xff, 0xc0)]"

definition kLengthToMask :: "u64 list" where
  "kLengthToMask =
     [0, 0x80, 0xc000, 0xe00000, 0xf0000000, 0xf800000000, 0xfc0000000000, 0xfe000000000000, 0xff00000000000000,
      0x8000000000000000, 0]"

definition kBitsToLength :: "nat list" where
  "kBitsToLength =
     [1, 1, 1, 1, 1, 1, 1, 2, 2, 2, 2, 2, 2, 2, 3, 3, 3, 3, 3, 3, 3, 4,
      4, 4, 4, 4, 4, 4, 5, 5, 5, 5, 5, 5, 5, 6, 6, 6, 6, 6, 6, 6, 7, 7,
      7, 7, 7, 7, 7, 8, 8, 8, 8, 8, 8, 8, 9, 9, 9, 9, 9, 9, 9, 10]"

text \<open>A signed number is its two's complement word; it is negative when its top bit is set.\<close>

definition SignedEncodingLength :: "u64 \<Rightarrow> nat" where
  "SignedEncodingLength n = kBitsToLength ! nat (Log2Floor64 (if bit n 63 then NOT n else n) + 1)"

definition SignedEncodingLengthPositive :: "u64 \<Rightarrow> nat" where
  "SignedEncodingLengthPositive n = kBitsToLength ! (Log2FloorNonZero64 n + 1)"

definition WriteSignedNumIncreasing :: "bytes \<Rightarrow> u64 \<Rightarrow> bytes option" where
  "WriteSignedNumIncreasing dest num =
     (let x = (if bit num 63 then NOT num else num) in
      if x < 64 then Some (dest @ [fst (kLengthToHeaderBits ! 1) XOR ucast num])
      else
        let sign_byte = (if bit num 63 then 0xff else 0);
            buf = [sign_byte, sign_byte] @ be64 num;
            len = SignedEncodingLengthPositive x in
        if \<not> len \<ge> 2 then None
        else
          let begin = 10 - len;
              buf = buf[begin := buf ! begin XOR fst (kLengthToHeaderBits ! len)];
              buf = buf[begin + 1 := buf ! (begin + 1) XOR snd (kLengthToHeaderBits ! len)]
          in Some (dest @ drop begin buf))"

definition WriteSignedNumDecreasing :: "bytes \<Rightarrow> u64 \<Rightarrow> bytes option" where
  "WriteSignedNumDecreasing dest num = WriteSignedNumIncreasing dest (NOT num)"

definition signed_result :: "bytes \<Rightarrow> nat \<Rightarrow> u64 \<Rightarrow> u64 reading" where
  "signed_result src len x =
     (let x = x XOR kLengthToMask ! len
      in if len \<noteq> SignedEncodingLength x then None else Some (Some (x, drop len src)))"

definition ReadSignedNumIncreasing :: "bytes \<Rightarrow> u64 reading" where
  "ReadSignedNumIncreasing src =
     (if src = [] then Some None
      else
        let xor_mask = (if (src ! 0) AND 0x80 = 0 then - 1 else 0) :: u64;
            first_byte = (src ! 0) XOR ucast (xor_mask AND 0xff) in
        if first_byte \<noteq> 0xff then
          let len = 7 - Log2FloorNonZero (ucast (first_byte XOR 0xff)) in
          if length src < len then Some None
          else signed_result src len (fold (\<lambda>i x. push_bit 8 x OR ucast (src ! i)) [0..<len] xor_mask)
        else if length src < 8 then Some None
        else
          let second_byte = (src ! 1) XOR ucast (xor_mask AND 0xff);
              third_byte = (src ! 2) XOR ucast (xor_mask AND 0xff);
              finish = (\<lambda>len. if length src < len then Some None
                              else signed_result src len (of_be64 (take 8 (drop (len - 8) src)))) in
          if second_byte \<ge> 0x80 then
            if second_byte < 0xc0 then finish 9
            else if second_byte = 0xc0 \<and> third_byte < 0x80 then finish 10
            else Some None
          else finish 8)"

definition ReadSignedNumDecreasing :: "bytes \<Rightarrow> u64 reading" where
  "ReadSignedNumDecreasing src = map_option (map_option (\<lambda>(result, rest). (NOT result, rest))) (ReadSignedNumIncreasing src)"

section \<open>Doubles\<close>

text \<open>A double is its IEEE 754 bit pattern; \<open>0x8000000000000000\<close> is the smallest signed number.\<close>

definition EncodeDoubleAsInt64 :: "u64 \<Rightarrow> u64" where
  "EncodeDoubleAsInt64 enc = (if bit enc 63 then 0x8000000000000000 - enc else enc)"

definition DecodeDoubleFromInt64 :: "u64 \<Rightarrow> u64" where
  "DecodeDoubleFromInt64 enc = (if bit enc 63 then 0x8000000000000000 - enc else enc)"

definition WriteDoubleIncreasing :: "bytes \<Rightarrow> u64 \<Rightarrow> bytes option" where
  "WriteDoubleIncreasing dest num = WriteSignedNumIncreasing dest (EncodeDoubleAsInt64 num)"

definition WriteDoubleDecreasing :: "bytes \<Rightarrow> u64 \<Rightarrow> bytes option" where
  "WriteDoubleDecreasing dest num = WriteSignedNumDecreasing dest (EncodeDoubleAsInt64 num)"

definition ReadDoubleIncreasing :: "bytes \<Rightarrow> u64 reading" where
  "ReadDoubleIncreasing src = map_option (map_option (\<lambda>(enc, rest). (DecodeDoubleFromInt64 enc, rest))) (ReadSignedNumIncreasing src)"

definition ReadDoubleDecreasing :: "bytes \<Rightarrow> u64 reading" where
  "ReadDoubleDecreasing src = map_option (map_option (\<lambda>(enc, rest). (DecodeDoubleFromInt64 enc, rest))) (ReadSignedNumDecreasing src)"

end
