(* ===== verification/OrderedBytes.thy ===== *)
theory OrderedBytes
  imports OrderedCode
begin

text \<open>
  The low-level routines of the order-preserving encoding against their specifications: the copy with inversion by
  overlapping word stores inverts byte by byte, and the search for special bytes eight at a time finds the first
  one and passes all its assertions.
\<close>

section \<open>Special bytes in a word\<close>

text \<open>
  On unbounded integers the test splits off the low byte, as long as that byte is not special: neither the
  subtraction borrows from nor the addition carries into the next byte.
\<close>

fun ones :: "nat \<Rightarrow> int" where
  "ones 0 = 0"
| "ones (Suc n) = 1 + 256 * ones n"

fun le_int :: "u8 list \<Rightarrow> int" where
  "le_int [] = 0"
| "le_int (b # bs) = uint b + 256 * le_int bs"

definition swar :: "int \<Rightarrow> nat \<Rightarrow> int" where
  "swar v n = (v - ones n) AND NOT (v + ones n) AND (128 * ones n)"

lemma bit_byte_split:
  fixes a A :: int
  assumes "0 \<le> a" "a < 256"
  shows "bit (a + 256 * A) n = (if n < 8 then bit a n else bit A (n - 8))"
proof -
  have a: "take_bit 8 a = a" using assms by (simp add: take_bit_eq_mod)
  have "take_bit 8 a AND push_bit 8 A = 0" by (auto simp: bit_eq_iff bit_simps)
  then have "a + push_bit 8 A = take_bit 8 a OR push_bit 8 A" using a by (simp add: disjunctive_add_eq_or)
  then have "a + 256 * A = take_bit 8 a OR push_bit 8 A" by (simp add: push_bit_eq_mult mult.commute)
  then have "bit (a + 256 * A) n = (n < 8 \<and> bit a n \<or> 8 \<le> n \<and> bit A (n - 8))" by (auto simp: bit_simps)
  then show ?thesis by auto
qed

lemma bit_7_byte:
  fixes a :: int
  assumes "0 \<le> a" "a < 256"
  shows "bit a 7 \<longleftrightarrow> 128 \<le> a"
proof -
  have "a div 128 = (if 128 \<le> a then 1 else 0)" using assms by (auto simp: div_pos_pos_trivial intro: int_div_pos_eq)
  then show ?thesis by (simp add: bit_iff_odd)
qed

lemma uint_byte: "0 \<le> uint (b :: u8)" "uint (b :: u8) < 256"
  using uint_lt2p [of b] by simp_all

lemma special_iff: "IsSpecialByte b \<longleftrightarrow> uint b = 0 \<or> uint b = 255"
proof -
  have "IsSpecialByte b \<longleftrightarrow> uint (b + 1) < 2" by (simp add: IsSpecialByte_def word_less_def)
  also have "uint (b + 1) = (uint b + 1) mod 256" by (simp add: uint_word_ariths)
  finally have "IsSpecialByte b \<longleftrightarrow> (uint b + 1) mod 256 < 2" .
  moreover have "(k + 1) mod 256 < 2 \<longleftrightarrow> k = 0 \<or> k = 255" if "0 \<le> k" "k < 256" for k :: int
    using that by (cases "k = 255") auto
  ultimately show ?thesis using uint_byte by simp
qed

lemma bit_128: "bit (128 :: int) i \<longleftrightarrow> i = 7"
proof -
  have "(128 :: int) = 2 ^ 7" by simp
  then show ?thesis by (simp only: bit_exp_iff) auto
qed

lemma swar_step:
  assumes "\<not> IsSpecialByte b"
  shows "swar (uint b + 256 * v) (Suc n) = 256 * swar v n"
proof -
  have b: "1 \<le> uint b" "uint b \<le> 254" using assms uint_byte [of b] unfolding special_iff by linarith+
  have s: "uint b + 256 * v - ones (Suc n) = (uint b - 1) + 256 * (v - ones n)" by simp
  have p: "uint b + 256 * v + ones (Suc n) = (uint b + 1) + 256 * (v + ones n)" by simp
  have m: "128 * ones (Suc n) = 128 + 256 * (128 * ones n)" by simp
  have z: "bit (256 * swar v n) i = (8 \<le> i \<and> bit (swar v n) (i - 8))" for i
    using bit_byte_split [of 0 "swar v n" i] by auto
  note bits = bit_128
  have low: "\<not> (bit (uint b - 1) 7 \<and> \<not> bit (uint b + 1) 7)"
    using b bit_7_byte [of "uint b - 1"] bit_7_byte [of "uint b + 1"] by auto
  show ?thesis
  proof (rule bit_eqI)
    fix i
    have split: "bit (uint b - 1 + 256 * (v - ones n)) i = (if i < 8 then bit (uint b - 1) i else bit (v - ones n) (i - 8))"
      "bit (uint b + 1 + 256 * (v + ones n)) i = (if i < 8 then bit (uint b + 1) i else bit (v + ones n) (i - 8))"
      "bit (128 + 256 * (128 * ones n)) i = (if i < 8 then bit (128 :: int) i else bit (128 * ones n) (i - 8))"
      by (rule bit_byte_split; use b in linarith)+
    have "bit (swar (uint b + 256 * v) (Suc n)) i \<longleftrightarrow> 8 \<le> i \<and> bit (swar v n) (i - 8)"
      using low unfolding swar_def s p m bit_and_iff bit_not_iff split bits by auto
    then show "bit (swar (uint b + 256 * v) (Suc n)) i = bit (256 * swar v n) i" by (simp add: z)
  qed
qed

lemma swar_special:
  assumes "IsSpecialByte b"
  shows "swar (uint b + 256 * v) (Suc n) \<noteq> 0"
proof -
  have m: "128 * ones (Suc n) = 128 + 256 * (128 * ones n)" by simp
  have "bit (swar (uint b + 256 * v) (Suc n)) 7"
  proof (cases "uint b = 0")
    case True
    then have s: "uint b + 256 * v - ones (Suc n) = 255 + 256 * (v - ones n - 1)"
      and p: "uint b + 256 * v + ones (Suc n) = 1 + 256 * (v + ones n)" by simp_all
    show ?thesis by (simp only: swar_def s p m bit_and_iff bit_not_iff bit_byte_split) (simp add: bit_7_byte bit_128)
  next
    case False
    then have b: "uint b = 255" using assms by (simp add: special_iff)
    then have s: "uint b + 256 * v - ones (Suc n) = 254 + 256 * (v - ones n)"
      and p: "uint b + 256 * v + ones (Suc n) = 0 + 256 * (v + ones n + 1)" by simp_all
    show ?thesis by (simp only: swar_def s p m bit_and_iff bit_not_iff bit_byte_split) (simp add: bit_7_byte bit_128 bit_byte_split [of 0, simplified])
  qed
  then show ?thesis by auto
qed

lemma swar_iff: "swar (le_int bs) (length bs) = 0 \<longleftrightarrow> \<not> (\<exists>b \<in> set bs. IsSpecialByte b)"
proof (induction bs)
  case Nil
  then show ?case by (simp add: swar_def)
next
  case (Cons b bs)
  then show ?case
    using swar_step [of b "le_int bs" "length bs"] swar_special [of b "le_int bs" "length bs"]
    by (cases "IsSpecialByte b") auto
qed

lemma ones_nonneg: "0 \<le> ones n"
  by (induction n) simp_all

lemma swar_bounds: "0 \<le> swar v n" "swar v n \<le> 128 * ones n"
  unfolding swar_def using ones_nonneg [of n] by (simp_all add: AND_upper2)

lemma swar_word:
  "(word_of_int v - word_of_int c) AND NOT (word_of_int v + word_of_int c) AND word_of_int m =
     (word_of_int ((v - c) AND NOT (v + c) AND m) :: 'a::len word)"
  by (rule bit_word_eqI) (simp add: bit_and_iff bit_not_iff bit_word_of_int_iff flip: of_int_diff of_int_add)

lemma le_int_nat: "le_int bs = int (le_nat bs)"
  by (induction bs) simp_all

lemma swar_64:
  assumes "length bs = 8" and v: "v = (of_nat (le_nat bs) :: u64)"
  shows "(v - 0x0101010101010101) AND NOT (v + 0x0101010101010101) AND 0x8080808080808080 = 0 \<longleftrightarrow> \<not> (\<exists>b \<in> set bs. IsSpecialByte b)"
proof -
  have o: "ones 8 = 0x0101010101010101" by (simp add: eval_nat_numeral)
  have "(v - 0x0101010101010101) AND NOT (v + 0x0101010101010101) AND 0x8080808080808080 = word_of_int (swar (le_int bs) 8)"
    using swar_word [of "le_int bs" "ones 8" "128 * ones 8", where ?'a = 64] by (simp add: v le_int_nat swar_def o)
  also have "\<dots> = 0 \<longleftrightarrow> swar (le_int bs) 8 = 0"
    using swar_bounds [of "le_int bs" 8] zdvd_imp_le [of 18446744073709551616 "swar (le_int bs) 8"]
    by (auto simp: o word_of_int_eq_0_iff)
  finally show ?thesis using swar_iff [of bs] assms(1) by simp
qed

lemma swar_32:
  assumes "length bs = 4" and v: "v = (of_nat (le_nat bs) :: u32)"
  shows "(v - 0x01010101) AND NOT (v + 0x01010101) AND 0x80808080 = 0 \<longleftrightarrow> \<not> (\<exists>b \<in> set bs. IsSpecialByte b)"
proof -
  have o: "ones 4 = 0x01010101" by (simp add: eval_nat_numeral)
  have "(v - 0x01010101) AND NOT (v + 0x01010101) AND 0x80808080 = word_of_int (swar (le_int bs) 4)"
    using swar_word [of "le_int bs" "ones 4" "128 * ones 4", where ?'a = 32] by (simp add: v le_int_nat swar_def o)
  also have "\<dots> = 0 \<longleftrightarrow> swar (le_int bs) 4 = 0"
    using swar_bounds [of "le_int bs" 4] zdvd_imp_le [of 4294967296 "swar (le_int bs) 4"]
    by (auto simp: o word_of_int_eq_0_iff)
  finally show ?thesis using swar_iff [of bs] assms(1) by simp
qed

section \<open>The search\<close>

text \<open>The specification: the first special byte from \<open>p\<close> on, or the limit.\<close>

definition first_special :: "bytes \<Rightarrow> nat \<Rightarrow> nat \<Rightarrow> nat" where
  "first_special s p limit = p + length (takeWhile (\<lambda>b. \<not> IsSpecialByte b) (take (limit - p) (drop p s)))"

lemma first_special_step:
  assumes "p < limit" "limit \<le> length s"
  shows "first_special s p limit = (if IsSpecialByte (s ! p) then p else first_special s (p + 1) limit)"
proof -
  have "take (limit - p) (drop p s) = s ! p # take (limit - (p + 1)) (drop (p + 1) s)"
    using assms by (metis Cons_nth_drop_Suc Suc_diff_Suc Suc_eq_plus1 less_le_trans take_Suc_Cons)
  then show ?thesis by (simp add: first_special_def)
qed

lemma first_special_end: "limit \<le> p \<Longrightarrow> first_special s p limit = p"
  by (simp add: first_special_def)

lemma skip_bytes_first: "limit \<le> length s \<Longrightarrow> skip_bytes s p limit = first_special s p limit"
proof (induction s p limit rule: skip_bytes.induct)
  case (1 s p limit)
  then show ?case using first_special_step [of p limit s] first_special_end [of limit p s]
    by (cases "p < limit") (auto simp: skip_bytes.simps [of s p limit])
qed

lemma first_special_skip:
  assumes "p + n \<le> limit" "limit \<le> length s" "\<forall>i < n. \<not> IsSpecialByte (s ! (p + i))"
  shows "first_special s p limit = first_special s (p + n) limit"
  using assms
proof (induction n)
  case (Suc n)
  have "first_special s p limit = first_special s (p + n) limit" using Suc by simp
  also have "\<dots> = first_special s (p + n + 1) limit" using Suc.prems by (subst first_special_step) auto
  finally show ?case by simp
qed simp

lemma take_drop_map: "p + n \<le> length s \<Longrightarrow> take n (drop p s) = map (\<lambda>i. s ! (p + i)) [0..<n]"
  by (rule nth_equalityI) auto

lemma ex_less_4: "(\<exists>i < 4. P i) \<longleftrightarrow> P 0 \<or> P 1 \<or> P 2 \<or> P (3 :: nat)"
proof -
  have "(\<exists>i < 4. P i) \<longleftrightarrow> (\<exists>i \<in> {..<4}. P i)" by auto
  moreover have "{..<4} = {0, 1, 2, 3 :: nat}" by auto
  ultimately show ?thesis by simp
qed

lemma advance_spec:
  assumes "p + 4 \<le> length s" and "v = LOAD32 s p"
  shows "AdvanceIfNoSpecialBytes v s p = Some (if \<exists>i < 4. IsSpecialByte (s ! (p + i)) then 0 else 4)"
proof -
  have "(v - 0x01010101) AND NOT (v + 0x01010101) AND 0x80808080 = 0 \<longleftrightarrow> \<not> (\<exists>b \<in> set (take 4 (drop p s)). IsSpecialByte b)"
    using assms by (intro swar_32) (auto simp: LOAD32_def)
  also have "(\<exists>b \<in> set (take 4 (drop p s)). IsSpecialByte b) \<longleftrightarrow> (\<exists>i < 4. IsSpecialByte (s ! (p + i)))"
    unfolding take_drop_map [OF assms(1)] by auto
  finally have t: "(v - 0x01010101) AND NOT (v + 0x01010101) AND 0x80808080 \<noteq> 0 \<longleftrightarrow> (\<exists>i < 4. IsSpecialByte (s ! (p + i)))"
    by blast
  show ?thesis using assms(2) unfolding AdvanceIfNoSpecialBytes_def t ex_less_4 by simp
qed

lemma le_nat_app: "le_nat (xs @ ys) = le_nat xs + 256 ^ length xs * le_nat ys"
  by (induction xs) (simp_all add: algebra_simps)

lemma low_half:
  assumes "p + 8 \<le> length s"
  shows "ucast (LOAD64 s p) = LOAD32 s p"
proof -
  have "take 8 (drop p s) = take 4 (drop p s) @ take 4 (drop (p + 4) s)"
    using take_add [of 4 4 "drop p s"] by (simp add: add.commute)
  moreover have "le_nat (take 4 (drop p s)) < 256 ^ 4" using le_nat_less [of "take 4 (drop p s)"] assms by simp
  ultimately show ?thesis using assms
    by (intro word_eq_unatI)
      (simp add: LOAD64_def LOAD32_def unsigned_ucast_eq unat_of_nat_mod le_nat_app mod_mod_cancel take_bit_eq_mod del: of_nat_add of_nat_mult)
qed

lemma special_in_8_spec:
  assumes "p + 8 \<le> limit" "limit \<le> length s" and ex: "\<exists>i < 8. IsSpecialByte (s ! (p + i))"
  shows "special_in_8 s p = Some (first_special s p limit)"
proof -
  have first4: "(if IsSpecialByte (s ! q) then Some q else if IsSpecialByte (s ! (q + 1)) then Some (q + 1)
      else if IsSpecialByte (s ! (q + 2)) then Some (q + 2) else if IsSpecialByte (s ! (q + 3)) then Some (q + 3) else None) =
      Some (first_special s q limit)" if "q + 4 \<le> limit" "\<exists>i < 4. IsSpecialByte (s ! (q + i))" for q
    using that assms(2) unfolding ex_less_4
    by (auto simp: first_special_step numeral_2_eq_2 numeral_3_eq_3)
  note v = low_half [of p s]
  have adv: "AdvanceIfNoSpecialBytes (ucast (LOAD64 s p)) s p = Some (if \<exists>i < 4. IsSpecialByte (s ! (p + i)) then 0 else 4)"
    using assms v by (intro advance_spec) auto
  show ?thesis
  proof (cases "\<exists>i < 4. IsSpecialByte (s ! (p + i))")
    case True
    then show ?thesis using first4 [of p] assms unfolding special_in_8_def adv by (simp del: One_nat_def)
  next
    case False
    have "\<exists>i < 4. IsSpecialByte (s ! (p + 4 + i))"
    proof -
      obtain i where "i < 8" "IsSpecialByte (s ! (p + i))" using ex by blast
      with False show ?thesis by (intro exI [of _ "i - 4"]) (cases "i < 4", auto)
    qed
    note q = first4 [OF _ this]
    have "AdvanceIfNoSpecialBytes (ucast (LOAD64 s p)) s p = Some 4" using adv False by (simp only: if_False)
    then have "special_in_8 s p = Some (first_special s (p + 4) limit)"
      using q assms(1) unfolding special_in_8_def by (simp del: One_nat_def)
    then show ?thesis using False assms first_special_skip [of p 4 limit s] by auto
  qed
qed

lemma skip_first:
  "limit \<le> length s \<Longrightarrow> SkipToNextSpecialByte s p limit = Some (first_special s p limit)"
proof (induction s p limit rule: SkipToNextSpecialByte.induct)
  case (1 s p limit)
  show ?case
  proof (cases "p + 8 \<le> limit")
    case True
    let ?v = "LOAD64 s p"
    have "(?v - 0x0101010101010101) AND NOT (?v + 0x0101010101010101) AND 0x8080808080808080 = 0 \<longleftrightarrow>
        \<not> (\<exists>b \<in> set (take 8 (drop p s)). IsSpecialByte b)"
      using True 1(2) by (intro swar_64) (auto simp: LOAD64_def)
    also have "(\<exists>b \<in> set (take 8 (drop p s)). IsSpecialByte b) \<longleftrightarrow> (\<exists>i < 8. IsSpecialByte (s ! (p + i)))"
      using True 1(2) by (subst take_drop_map) auto
    finally have t: "(?v - 0x0101010101010101) AND NOT (?v + 0x0101010101010101) AND 0x8080808080808080 = 0 \<longleftrightarrow>
        \<not> (\<exists>i < 8. IsSpecialByte (s ! (p + i)))" .
    show ?thesis
    proof (cases "\<exists>i < 8. IsSpecialByte (s ! (p + i))")
      case ex: True
      with True t special_in_8_spec [OF True 1(2) ex] show ?thesis
        unfolding SkipToNextSpecialByte.simps [of s p limit] by (simp only: Let_def if_True if_False not_True_eq_False)
    next
      case False
      with True t 1(1) [OF True refl] 1(2) first_special_skip [of p 8 limit s] show ?thesis
        unfolding SkipToNextSpecialByte.simps [of s p limit] by (simp only: Let_def if_True not_False_eq_True) auto
    qed
  next
    case False
    have "first_special s p limit = first_special s (p + 4) limit" if "p + 4 \<le> limit" "\<not> (\<exists>i < 4. IsSpecialByte (s ! (p + i)))"
      using that 1(2) by (intro first_special_skip) auto
    with False 1(2) show ?thesis
      unfolding SkipToNextSpecialByte.simps [of s p limit] by (auto simp: advance_spec skip_bytes_first)
  qed
qed

section \<open>The copy with inversion\<close>

lemma unat_not_word: "unat (NOT w :: 'a::len word) = 2 ^ LENGTH('a) - 1 - unat w"
proof -
  have "NOT w = - 1 - w" by (simp add: not_eq_complement)
  moreover have "unat (- 1 - w) = unat (- 1 :: 'a word) - unat w" by (rule unat_sub) (simp add: word_order.extremum)
  moreover have "unat (- 1 :: 'a word) = 2 ^ LENGTH('a) - 1" by (simp add: unsigned_minus_1_eq_mask mask_eq_exp_minus_1)
  ultimately show ?thesis by simp
qed

lemma le_nat_not: "le_nat (map NOT bs) = 256 ^ length bs - 1 - le_nat bs"
proof (induction bs)
  case (Cons b bs)
  have b: "unat (NOT b) = 255 - unat b" using unat_not_word [of b] by simp
  have "256 * (256 ^ length bs - 1 - le_nat bs) = 256 ^ Suc (length bs) - 256 - 256 * le_nat bs"
    by (simp add: diff_mult_distrib2)
  moreover have "256 * le_nat bs + 256 \<le> 256 ^ Suc (length bs)" using le_nat_less [of bs] by simp
  ultimately show ?case using Cons b unat_u8_lt [of b] by simp
qed simp

lemma not_bytes:
  assumes "LENGTH('a) = 8 * length bs"
  shows "le_bytes (length bs) (unat (NOT (of_nat (le_nat bs) :: 'a::len word))) = map NOT bs"
proof -
  have e: "(2 :: nat) ^ LENGTH('a) = 256 ^ length bs" using assms by (simp add: power_mult)
  have "unat (of_nat (le_nat bs) :: 'a word) = le_nat bs" using le_nat_less [of bs] by (simp add: unat_of_nat_mod e)
  then have "unat (NOT (of_nat (le_nat bs) :: 'a word)) = le_nat (map NOT bs)"
    by (simp add: unat_not_word le_nat_not e)
  then show ?thesis using le_bytes_le_nat [of "map NOT bs"] by simp
qed

lemma same_bytes:
  assumes "LENGTH('a) = 8 * length bs"
  shows "le_bytes (length bs) (unat (of_nat (le_nat bs) :: 'a::len word)) = bs"
proof -
  have e: "(2 :: nat) ^ LENGTH('a) = 256 ^ length bs" using assms by (simp add: power_mult)
  have "unat (of_nat (le_nat bs) :: 'a word) = le_nat bs" using le_nat_less [of bs] by (simp add: unat_of_nat_mod e)
  then show ?thesis by simp
qed

lemma store_converted:
  "p + 2 \<le> length src \<Longrightarrow> STORE16 dst q (Convert16 invert (LOAD16 src p)) = put_at dst q (map (Convert8 invert) (take 2 (drop p src)))"
  "p + 4 \<le> length src \<Longrightarrow> STORE32 dst q (Convert32 invert (LOAD32 src p)) = put_at dst q (map (Convert8 invert) (take 4 (drop p src)))"
  "p + 8 \<le> length src \<Longrightarrow> STORE64 dst q (Convert64 invert (LOAD64 src p)) = put_at dst q (map (Convert8 invert) (take 8 (drop p src)))"
  using not_bytes [of "take 2 (drop p src)", where ?'a = 16] same_bytes [of "take 2 (drop p src)", where ?'a = 16]
    not_bytes [of "take 4 (drop p src)", where ?'a = 32] same_bytes [of "take 4 (drop p src)", where ?'a = 32]
    not_bytes [of "take 8 (drop p src)", where ?'a = 64] same_bytes [of "take 8 (drop p src)", where ?'a = 64]
  by (simp_all add: STORE16_def STORE32_def STORE64_def LOAD16_def LOAD32_def LOAD64_def Convert16_def Convert32_def
      Convert64_def Convert8_def [abs_def])

text \<open>The bytes whose index satisfies \<open>P\<close> have been copied.\<close>

definition copied_on :: "bool \<Rightarrow> bytes \<Rightarrow> (nat \<Rightarrow> bool) \<Rightarrow> bytes \<Rightarrow> bool" where
  "copied_on invert src P dst \<longleftrightarrow> length dst = length src \<and> (\<forall>i < length src. P i \<longrightarrow> dst ! i = Convert8 invert (src ! i))"

lemma copied_put:
  assumes "copied_on invert src P dst" and "p + n \<le> length src"
  shows "copied_on invert src (\<lambda>i. P i \<or> p \<le> i \<and> i < p + n) (put_at dst p (map (Convert8 invert) (take n (drop p src))))"
  using assms by (auto simp: copied_on_def put_at_def nth_append)

lemma copied_all: "copied_on invert src P dst \<Longrightarrow> \<forall>i < length src. P i \<Longrightarrow> dst = map (Convert8 invert) src"
  by (auto simp: copied_on_def intro: nth_equalityI)

lemma copied_loop:
  assumes "8 \<le> length src" and "copied_on invert src (\<lambda>i. i < d) dst" and "d \<le> length src"
  shows "copied_on invert src (\<lambda>i. i < length src - 8) (invert_loop invert dst src d)"
  using assms
proof (induction invert dst src d rule: invert_loop.induct)
  case (1 invert dst src d)
  show ?case
  proof (cases "d < length src - 8")
    case True
    have "copied_on invert src (\<lambda>i. i < d + 8) (STORE64 dst d (Convert64 invert (LOAD64 src d)))"
    proof -
      have "(\<lambda>i. i < d \<or> d \<le> i \<and> i < d + 8) = (\<lambda>i. i < d + 8)" by auto
      with copied_put [OF 1(3), of d 8] True show ?thesis by (simp add: store_converted)
    qed
    with 1(1) [OF True] True show ?thesis by (simp add: invert_loop.simps [of invert dst])
  next
    case False
    with 1(3) show ?thesis by (auto simp: invert_loop.simps [of invert dst] copied_on_def)
  qed
qed

lemma copy_inverted:
  assumes "length dst = length src"
  shows "CopyInvertedBytes invert dst src = map (Convert8 invert) src"
proof -
  have none: "copied_on invert src (\<lambda>i. False) dst" using assms by (simp add: copied_on_def)
  have one: "copied_on invert src (\<lambda>i. i = k) (dst[k := Convert8 invert (src ! k)])" if "k < length src" for k
    using assms that by (auto simp: copied_on_def)
  have "length src = 0 \<or> length src = 1 \<or> length src = 2 \<or> length src = 3 \<or> length src = 4 \<or>
      length src = 5 \<or> length src = 6 \<or> length src = 7 \<or> 8 \<le> length src" by linarith
  then consider "length src = 0" | "length src = 1" | "length src = 2" | "length src = 3" | "length src = 4"
    | (mid) "length src \<in> {5, 6, 7}" | (long) "8 \<le> length src" by blast
  then show ?thesis
  proof cases
    case 3
    with copied_put [OF none, of 0 2] show ?thesis
      by (intro copied_all) (auto simp: CopyInvertedBytes_def store_converted)
  next
    case 4
    with copied_put [OF one [of 2], of 0 2] show ?thesis
      by (intro copied_all) (auto simp: CopyInvertedBytes_def store_converted)
  next
    case 5
    with copied_put [OF none, of 0 4] show ?thesis
      by (intro copied_all) (auto simp: CopyInvertedBytes_def store_converted)
  next
    case mid
    then have "length src - 4 + 4 \<le> length src" "0 + 4 \<le> length src" "\<forall>i < length src. length src - 4 \<le> i \<and> i < length src - 4 + 4 \<or> i < 4" by auto
    with copied_all [OF copied_put [OF copied_put [OF none, of "length src - 4" 4], of 0 4]] mid show ?thesis
      by (auto simp: CopyInvertedBytes_def store_converted)
  next
    case long
    have "copied_on invert src (\<lambda>i. i < length src - 8) (invert_loop invert dst src 0)"
      using long assms by (intro copied_loop) (auto simp: copied_on_def)
    moreover have "\<forall>i < length src. i < length src - 8 \<or> length src - 8 \<le> i \<and> i < length src - 8 + 8" using long by linarith
    ultimately have "put_at (invert_loop invert dst src 0) (length src - 8) (map (Convert8 invert) (take 8 (drop (length src - 8) src))) =
        map (Convert8 invert) src" using long by (intro copied_all [OF copied_put]) auto
    moreover have "CopyInvertedBytes invert dst src =
        STORE64 (invert_loop invert dst src 0) (length src - 8) (Convert64 invert (LOAD64 src (length src - 8)))"
      using long by (auto simp: CopyInvertedBytes_def Let_def)
    ultimately show ?thesis using long by (simp add: store_converted)
  qed (use assms in \<open>auto simp: CopyInvertedBytes_def length_Suc_conv\<close>)
qed

lemma append_bytes [simp]: "AppendBytes invert dest src = dest @ map (Convert8 invert) src"
  by (simp add: AppendBytes_def copy_inverted)

end
