(* ===== verification/OrderedCorrect.thy ===== *)
theory OrderedCorrect
  imports OrderedBytes
begin

text \<open>
  Correctness of the order-preserving encoding: every writer appends its reference encoding, the encodings of two
  items differ at a byte that orders them as the items are ordered, and every reader gives back what the writer of
  the same kind appended and leaves the rest of the source.
\<close>

section \<open>The order of byte strings\<close>

text \<open>\<open>std::string\<close> compares as \<open>memcmp\<close> does, and a proper prefix is smaller.\<close>

fun bytes_less :: "bytes \<Rightarrow> bytes \<Rightarrow> bool" where
  "bytes_less xs [] \<longleftrightarrow> False"
| "bytes_less [] (y # ys) \<longleftrightarrow> True"
| "bytes_less (x # xs) (y # ys) \<longleftrightarrow> x < y \<or> x = y \<and> bytes_less xs ys"

text \<open>Smaller at the first byte where the two differ, neither being a prefix of the other.\<close>

fun diverges :: "bytes \<Rightarrow> bytes \<Rightarrow> bool" where
  "diverges (x # xs) (y # ys) \<longleftrightarrow> x < y \<or> x = y \<and> diverges xs ys"
| "diverges xs ys \<longleftrightarrow> False"

lemma diverges_append: "diverges xs ys \<Longrightarrow> diverges (xs @ us) (ys @ vs)"
  by (induction xs ys rule: diverges.induct) auto

lemma diverges_common: "diverges (us @ xs) (us @ ys) \<longleftrightarrow> diverges xs ys"
  by (induction us) auto

lemma diverges_less: "diverges xs ys \<Longrightarrow> bytes_less (xs @ us) (ys @ vs)"
  by (induction xs ys rule: diverges.induct) auto

lemma bytes_less_common: "bytes_less (us @ xs) (us @ ys) \<longleftrightarrow> bytes_less xs ys"
  by (induction us) auto

lemma bytes_less_antisym: "bytes_less xs ys \<Longrightarrow> \<not> bytes_less ys xs"
  by (induction xs ys rule: bytes_less.induct) auto

lemma bytes_less_linear: "xs \<noteq> ys \<Longrightarrow> bytes_less xs ys \<or> bytes_less ys xs"
  by (induction xs ys rule: bytes_less.induct) (auto simp: neq_Nil_conv not_less_iff_gr_or_eq)

lemma not_less_iff: "NOT (a :: u8) < NOT b \<longleftrightarrow> b < a"
  by (simp add: word_less_nat_alt unat_not_word) (use unat_u8_lt [of a] unat_u8_lt [of b] in linarith)

lemma diverges_not: "diverges (map NOT xs) (map NOT ys) \<longleftrightarrow> diverges ys xs"
  by (induction ys xs rule: diverges.induct) (auto simp: not_less_iff)

definition converts :: "bool \<Rightarrow> bytes \<Rightarrow> bytes" where
  "converts invert = map (Convert8 invert)"

lemma converts_simps [simp]:
  "converts False xs = xs" "converts True xs = map NOT xs" "length (converts invert xs) = length xs"
  "converts invert (xs @ ys) = converts invert xs @ converts invert ys"
  "converts invert [] = []" "converts invert (x # xs) = Convert8 invert x # converts invert xs"
  by (auto simp: converts_def Convert8_def [abs_def])

lemma diverges_converts: "diverges xs ys \<Longrightarrow> if invert then diverges (converts invert ys) (converts invert xs) else diverges (converts invert xs) (converts invert ys)"
  by (simp add: diverges_not)

section \<open>The interface of an item\<close>

text \<open>
  What the routines of one kind of item promise: the writer appends the code of the item, the codes of ordered items
  diverge in that order, and the reader inverts the writer. Items that are equal to the reader have one normal form.
\<close>

locale item_code =
  fixes lt :: "'a \<Rightarrow> 'a \<Rightarrow> bool" and norm :: "'a \<Rightarrow> 'a" and code :: "'a \<Rightarrow> bytes"
    and wr :: "bytes \<Rightarrow> 'a \<Rightarrow> bytes option" and rd :: "bytes \<Rightarrow> 'a reading"
  assumes linear: "norm a \<noteq> norm b \<Longrightarrow> lt a b \<or> lt b a"
    and canonical: "norm a = norm b \<Longrightarrow> code a = code b"
    and order: "lt a b \<Longrightarrow> diverges (code a) (code b)"
    and appends: "wr dest a = Some (dest @ code a)"
    and roundtrip: "length (code a @ rest) < 2 ^ 64 \<Longrightarrow> rd (code a @ rest) = Some (Some (norm a, rest))"
begin

lemma irreflexive: "norm a = norm b \<Longrightarrow> \<not> lt a b"
  using order [of a b] canonical [of a b] diverges_less [of "code b" "code b" "[]" "[]"] bytes_less_antisym by fastforce

lemma connected: "lt a b \<or> lt b a \<longleftrightarrow> norm a \<noteq> norm b"
  using linear [of a b] irreflexive [of a b] irreflexive [of b a] by metis

lemma less_append:
  "bytes_less (code a @ us) (code b @ vs) \<longleftrightarrow> lt a b \<or> norm a = norm b \<and> bytes_less us vs"
proof (cases "norm a = norm b")
  case True
  with irreflexive canonical [OF True] show ?thesis by (simp add: bytes_less_common)
next
  case False
  with linear [of a b] order [of a b] order [of b a] diverges_less bytes_less_antisym show ?thesis by blast
qed

end

section \<open>Strings\<close>

definition escaped :: "u8 \<Rightarrow> bytes" where
  "escaped b = (if b = 0 then [0, 0xff] else if b = 0xff then [0xff, 0] else [b])"

definition string_code :: "bytes \<Rightarrow> bytes" where
  "string_code s = concat (map escaped s) @ [0, 1]"

lemma special_cases: "IsSpecialByte b \<longleftrightarrow> b = 0 \<or> b = 0xff"
proof -
  have "uint b = 255 \<longleftrightarrow> b = 0xff" using word_uint_eq_iff [of b "0xff"] by simp
  then show ?thesis unfolding special_iff by (simp add: uint_0_iff)
qed

lemma escaped_plain: "\<forall>b \<in> set bs. \<not> IsSpecialByte b \<Longrightarrow> concat (map escaped bs) = bs"
  by (induction bs) (auto simp: escaped_def special_cases)

lemma first_special_split:
  assumes "p \<le> length s" and q: "q = first_special s p (length s)"
  shows "p \<le> q" "q \<le> length s" "drop p s = take (q - p) (drop p s) @ drop q s"
    "\<forall>b \<in> set (take (q - p) (drop p s)). \<not> IsSpecialByte b" "q < length s \<Longrightarrow> IsSpecialByte (s ! q)"
proof -
  let ?t = "takeWhile (\<lambda>b. \<not> IsSpecialByte b) (drop p s)"
  have qp: "q = p + length ?t" using q by (simp add: first_special_def)
  have le: "length ?t \<le> length s - p" using length_takeWhile_le [of "\<lambda>b. \<not> IsSpecialByte b" "drop p s"] by simp
  have t: "take (q - p) (drop p s) = ?t" using qp by (simp flip: takeWhile_eq_take)
  show "p \<le> q" "q \<le> length s" using qp le assms(1) by simp_all
  have "drop q s = drop (q - p) (drop p s)" using qp by (simp only: drop_drop le_add_diff_inverse2 le_add1)
  then show "drop p s = take (q - p) (drop p s) @ drop q s" by (simp only: append_take_drop_id)
  show "\<forall>b \<in> set (take (q - p) (drop p s)). \<not> IsSpecialByte b" unfolding t using set_takeWhileD by fastforce
  show "IsSpecialByte (s ! q)" if "q < length s"
    using nth_length_takeWhile [of "\<lambda>b. \<not> IsSpecialByte b" "drop p s"] that qp assms(1) by simp
qed

lemma escape_pair: "IsSpecialByte b \<Longrightarrow> [Convert8 invert b, Convert8 (\<not> invert) b] = converts invert (escaped b)"
  by (cases invert) (auto simp: special_cases escaped_def Convert8_def)

lemma encode_loop_spec:
  "p \<le> length s \<Longrightarrow> encode_loop invert dest s p p = Some (dest @ converts invert (concat (map escaped (drop p s))))"
proof (induction "length s - p" arbitrary: p dest rule: less_induct)
  case less
  define q where "q = first_special s p (length s)"
  note sp = first_special_split [OF less.prems q_def]
  have run: "concat (map escaped (take (q - p) (drop p s))) = take (q - p) (drop p s)" using escaped_plain sp(4) by blast
  have sk: "SkipToNextSpecialByte s p (length s) = Some q" by (simp add: skip_first q_def)
  show ?case
  proof (cases "q < length s")
    case True
    have d: "drop p s = take (q - p) (drop p s) @ s ! q # drop (q + 1) s"
      using sp(3) True by (simp add: Cons_nth_drop_Suc)
    have "length s - (q + 1) < length s - p" using True sp(1) by simp
    note IH = less.hyps [OF this]
    have "encode_loop invert dest s p p = encode_loop invert
        (dest @ converts invert (take (q - p) (drop p s)) @ [Convert8 invert (s ! q), Convert8 (\<not> invert) (s ! q)]) s (q + 1) (q + 1)"
      using True sp(5) by (subst encode_loop.simps) (simp add: sk converts_def)
    also have "\<dots> = Some (dest @ converts invert (take (q - p) (drop p s)) @ converts invert (escaped (s ! q)) @ converts invert (concat (map escaped (drop (q + 1) s))))"
      using IH True by (simp add: escape_pair [OF sp(5) [OF True]])
    also have "\<dots> = Some (dest @ converts invert (concat (map escaped (drop p s))))"
    proof -
      have "concat (map escaped (drop p s)) = take (q - p) (drop p s) @ escaped (s ! q) @ concat (map escaped (drop (q + 1) s))"
        using arg_cong [OF d, of "\<lambda>x. concat (map escaped x)"] run by simp
      then show ?thesis by simp
    qed
    finally show ?thesis .
  next
    case False
    then have "drop p s = take (q - p) (drop p s)" using sp(2,3) by simp
    then show ?thesis using False run sp(1,2) by (subst encode_loop.simps) (auto simp: sk converts_def)
  qed
qed

lemma write_string: "WriteString dest s = Some (dest @ string_code s)"
  using encode_loop_spec [of 0 s False dest]
  by (auto simp: WriteString_def EncodeStringFragment_def string_code_def kEscape1_def kSeparator_def Convert8_def)

lemma write_string_decreasing: "WriteStringDecreasing dest s = Some (dest @ map NOT (string_code s))"
  using encode_loop_spec [of 0 s True dest]
  by (auto simp: WriteStringDecreasing_def EncodeStringFragment_def string_code_def kEscape1_def kSeparator_def Convert8_def)

lemma pair_load:
  "p + 2 \<le> length src \<Longrightarrow> LOAD16 src p = ucast (src ! p) OR push_bit 8 (ucast (src ! (p + 1)))"
proof -
  assume "p + 2 \<le> length src"
  then have t: "take 2 (drop p src) = [src ! p, src ! (p + 1)]"
    by (simp add: take_drop_map numeral_2_eq_2)
  have "(ucast (src ! p) :: u16) AND push_bit 8 (ucast (src ! (p + 1))) = 0"
    by (rule bit_word_eqI) (auto simp: bit_simps dest: bit_imp_le_length)
  then have "ucast (src ! p) OR push_bit 8 (ucast (src ! (p + 1))) = (ucast (src ! p) + push_bit 8 (ucast (src ! (p + 1))) :: u16)"
    by (rule or_eq_plus_word)
  moreover have "(of_nat (unat b) :: u16) = ucast b" for b :: u8 by simp
  ultimately show ?thesis unfolding LOAD16_def t by (simp add: push_bit_eq_mult mult.commute)
qed

lemma pair_inject:
  "(ucast a OR push_bit 8 (ucast b) :: u16) = ucast c OR push_bit 8 (ucast d) \<longleftrightarrow> (a :: u8) = c \<and> (b :: u8) = d"
proof
  assume eq: "(ucast a OR push_bit 8 (ucast b) :: u16) = ucast c OR push_bit 8 (ucast d)"
  have "a = c"
  proof (rule bit_word_eqI)
    fix i assume "i < LENGTH(8)"
    with arg_cong [OF eq, of "\<lambda>w. bit w i"] show "bit a i = bit c i" by (simp add: bit_simps)
  qed
  moreover have "b = d"
  proof (rule bit_word_eqI)
    fix i assume "i < LENGTH(8)"
    with arg_cong [OF eq, of "\<lambda>w. bit w (i + 8)"] bit_imp_le_length [of a "i + 8"] bit_imp_le_length [of c "i + 8"]
    show "bit b i = bit d i" by (auto simp: bit_simps)
  qed
  ultimately show "a = c \<and> b = d" by simp
qed simp

lemma convert_pair:
  "Convert_pair invert a b = ucast (Convert8 invert a) OR push_bit 8 (ucast (Convert8 invert b))"
  by (rule bit_word_eqI) (auto simp: Convert_pair_def Convert16_def Convert8_def bit_simps dest: bit_imp_le_length)

lemma convert8_inject [simp]: "Convert8 invert a = Convert8 invert b \<longleftrightarrow> a = b"
  by (cases invert) (simp_all add: Convert8_def)

lemma convert8_twice [simp]: "Convert8 invert (Convert8 invert b) = b"
  by (cases invert) (simp_all add: Convert8_def)

lemma converts_twice [simp]: "map (Convert8 invert) (converts invert xs) = xs"
  by (simp add: converts_def o_def)

lemma special_convert [simp]: "IsSpecialByte (Convert8 invert b) \<longleftrightarrow> IsSpecialByte b"
proof -
  have ones_0: "NOT (0xff :: u8) = 0" by simp
  have "NOT b = 0 \<longleftrightarrow> b = 0xff" "NOT b = 0xff \<longleftrightarrow> b = 0"
    by (metis bit.double_compl ones_0)+
  then show ?thesis by (auto simp: special_cases Convert8_def)
qed

lemma first_special_found:
  assumes "src = pre @ xs @ b # post" and "\<forall>x \<in> set xs. \<not> IsSpecialByte x" and "IsSpecialByte b" and "post \<noteq> []"
  shows "first_special src (length pre) (length src - 1) = length pre + length xs"
proof -
  have "take (length src - 1 - length pre) (drop (length pre) src) = xs @ b # take (length post - 1) post"
    using assms(1,4) by (cases post) auto
  with assms(2,3) show ?thesis by (simp add: first_special_def takeWhile_append2)
qed

lemma read_loop_spec:
  assumes "src = pre @ converts invert (concat (map escaped xs) @ [0, 1]) @ rest" and "p = length pre"
  shows "read_loop invert src result p p = Some (Some (result @ xs, rest))"
  using assms
proof (induction "length xs" arbitrary: xs pre p result rule: less_induct)
  case less
  define run where "run = takeWhile (\<lambda>b. \<not> IsSpecialByte b) xs"
  have plain: "\<forall>b \<in> set run. \<not> IsSpecialByte b" using set_takeWhileD by (fastforce simp: run_def)
  have plain': "\<forall>b \<in> set (converts invert run). \<not> IsSpecialByte b" using plain by (auto simp: converts_def)
  have xs: "xs = run @ dropWhile (\<lambda>b. \<not> IsSpecialByte b) xs" by (simp add: run_def)
  have found: "read_loop invert src result p p =
      (let seq = LOAD16 src q in
       if seq = Convert_pair invert kEscape1 kSeparator then Some (Some (result @ run, drop (q + 2) src))
       else if seq = Convert_pair invert kEscape1 kNullCharacter then read_loop invert src ((result @ run) @ [0]) (q + 2) (q + 2)
       else if seq = Convert_pair invert kEscape2 kFFCharacter then read_loop invert src ((result @ run) @ [0xff]) (q + 2) (q + 2)
       else Some None)"
    if s: "src = pre @ converts invert run @ b # post" "IsSpecialByte b" "post \<noteq> []" and q: "q = length pre + length run" for b post q
  proof -
    have "SkipToNextSpecialByte src p (length src - 1) = Some q"
      using first_special_found [OF s(1) plain' s(2,3)] less.prems(2) q by (simp add: skip_first)
    moreover have "q < length src - 1" "src ! q = b" "take (q - p) (drop p src) = converts invert run"
      using s(1,3) q less.prems(2) by (auto simp: nth_append)
    ultimately show ?thesis using s(2) by (subst read_loop.simps) (simp add: Let_def)
  qed
  show ?case
  proof (cases "dropWhile (\<lambda>b. \<not> IsSpecialByte b) xs")
    case Nil
    then have run: "xs = run" using xs unfolding Nil by simp
    have s: "src = pre @ converts invert run @ Convert8 invert 0 # Convert8 invert 1 # rest"
      using less.prems(1) escaped_plain [OF plain] by (subst (asm) run) simp
    have "LOAD16 src (length pre + length run) = Convert_pair invert kEscape1 kSeparator"
      by (subst pair_load) (simp_all add: s nth_append convert_pair kEscape1_def kSeparator_def)
    moreover have "IsSpecialByte (Convert8 invert 0)" unfolding special_convert by (simp add: special_cases)
    ultimately show ?thesis using found [OF s _ _ refl] run by (simp add: s)
  next
    case (Cons b ys)
    have b: "IsSpecialByte b" using Cons by (metis hd_dropWhile list.distinct(1) list.sel(1))
    have xs': "xs = run @ b # ys" using xs Cons by simp
    obtain c where esc: "escaped b = [b, c]" "b = 0 \<and> c = 0xff \<or> b = 0xff \<and> c = 0"
      using b by (auto simp: special_cases escaped_def)
    let ?tail = "converts invert (concat (map escaped ys) @ [0, 1]) @ rest"
    have s: "src = pre @ converts invert run @ Convert8 invert b # Convert8 invert c # ?tail"
      using less.prems(1) escaped_plain [OF plain] unfolding xs' by (simp add: esc(1))
    define q where "q = length pre + length run"
    have ld: "LOAD16 src q = ucast (Convert8 invert b) OR push_bit 8 (ucast (Convert8 invert c))"
      by (subst pair_load) (simp_all add: s q_def nth_append)
    have step: "read_loop invert src result p p = read_loop invert src ((result @ run) @ [b]) (q + 2) (q + 2)"
      using found [OF s _ _ q_def] b esc(2) unfolding ld convert_pair Let_def pair_inject
      by (auto simp: kEscape1_def kEscape2_def kSeparator_def kNullCharacter_def kFFCharacter_def)
    have "read_loop invert src ((result @ run) @ [b]) (q + 2) (q + 2) = Some (Some (((result @ run) @ [b]) @ ys, rest))"
      by (rule less.hyps [of ys "pre @ converts invert run @ [Convert8 invert b, Convert8 invert c]"])
        (simp_all add: xs' s q_def)
    then show ?thesis using step xs' by simp
  qed
qed

lemma read_string: "ReadString (string_code s @ rest) result = Some (Some (result @ s, rest))"
  using read_loop_spec [of "string_code s @ rest" "[]" False s rest 0 result]
  by (simp add: ReadString_def ReadStringInternal_def string_code_def Convert8_def)

lemma read_string_decreasing: "ReadStringDecreasing (map NOT (string_code s) @ rest) result = Some (Some (result @ s, rest))"
  using read_loop_spec [of "map NOT (string_code s) @ rest" "[]" True s rest 0 result]
  by (simp add: ReadStringDecreasing_def ReadStringInternal_def string_code_def Convert8_def)

text \<open>The order of two escaped strings is decided at the escapes of the first bytes that differ.\<close>

lemma byte_bounds: "(0 :: u8) \<le> b" "b \<le> 0xff" "b \<noteq> 0 \<Longrightarrow> 0 < b" "b \<noteq> 0xff \<Longrightarrow> b < 0xff"
  using unat_u8_lt [of b] by (auto simp: word_le_nat_alt word_less_nat_alt word_unat_eq_iff)

lemma escaped_diverges: "a < b \<Longrightarrow> diverges (escaped a @ us) (escaped b @ vs)"
  using byte_bounds [of a] byte_bounds [of b] by (auto simp: escaped_def)

lemma string_code_order: "bytes_less s t \<Longrightarrow> diverges (string_code s) (string_code t)"
proof (induction s t rule: bytes_less.induct)
  case (2 y ys)
  then show ?case using byte_bounds [of y] by (auto simp: string_code_def escaped_def)
next
  case (3 x xs y ys)
  then show ?case using escaped_diverges [of x y] by (auto simp: string_code_def diverges_common)
qed simp

definition infinity_code :: bytes where
  "infinity_code = [0xff, 0xff]"

lemma infinity_order: "diverges (string_code s) infinity_code"
  by (cases s) (auto simp: string_code_def infinity_code_def escaped_def byte_bounds)

text \<open>A string or the infinite string, which is \<open>None\<close>.\<close>

fun less_infinity :: "bytes option \<Rightarrow> bytes option \<Rightarrow> bool" where
  "less_infinity (Some s) (Some t) \<longleftrightarrow> bytes_less s t"
| "less_infinity (Some s) None \<longleftrightarrow> True"
| "less_infinity None t \<longleftrightarrow> False"

definition string_or_infinity :: "bytes option \<Rightarrow> bytes" where
  "string_or_infinity s = (case s of None \<Rightarrow> infinity_code | Some s \<Rightarrow> string_code s)"

lemma less_infinity_linear: "s \<noteq> t \<Longrightarrow> less_infinity s t \<or> less_infinity t s"
  by (cases s; cases t) (auto dest: bytes_less_linear)

lemma less_infinity_order: "less_infinity s t \<Longrightarrow> diverges (string_or_infinity s) (string_or_infinity t)"
  by (cases s; cases t) (auto simp: string_or_infinity_def string_code_order infinity_order)

lemma not_infinity:
  "ReadInfinityInternal invert (converts invert (string_code s) @ rest) = None"
proof -
  obtain a b us where "string_code s = a # b # us" "\<not> (a = 0xff \<and> b = 0xff)"
  proof (cases s)
    case Nil
    then show ?thesis using that by (simp add: string_code_def)
  next
    case (Cons c t)
    obtain d us where "concat (map escaped t) @ [0, 1] = d # us" by (cases "concat (map escaped t) @ [0, 1]") auto
    then have code: "string_code s = escaped c @ d # us" by (simp add: Cons string_code_def)
    consider "c = 0" | "c = 0xff" | "c \<noteq> 0" "c \<noteq> 0xff" by blast
    then show ?thesis
    proof cases
      case 1
      with that [of 0 "0xff" "d # us"] code show ?thesis by (simp add: escaped_def)
    next
      case 2
      with that [of "0xff" 0 "d # us"] code show ?thesis by (simp add: escaped_def)
    next
      case 3
      with that [of c d us] code show ?thesis by (simp add: escaped_def)
    qed
  qed
  then show ?thesis by (auto simp: ReadInfinityInternal_def kEscape2_def kInfinity_def)
qed

lemma read_string_or_infinity:
  "ReadStringOrInfinityInternal invert (converts invert (string_or_infinity s) @ rest) [] = Some (Some (s, rest))"
proof (cases s)
  case None
  then show ?thesis
    by (simp add: ReadStringOrInfinityInternal_def string_or_infinity_def infinity_code_def ReadInfinityInternal_def kEscape2_def kInfinity_def)
next
  case (Some t)
  then show ?thesis using not_infinity [of invert t rest] read_string [of t rest "[]"] read_string_decreasing [of t rest "[]"]
    by (cases invert) (simp_all add: ReadStringOrInfinityInternal_def string_or_infinity_def)
qed

end
