(* ===== verification/OrderedNumbers.thy ===== *)
theory OrderedNumbers
  imports OrderedCorrect
begin

text \<open>
  The numbers of the order-preserving encoding: logarithms, unsigned numbers with their length byte, and signed
  numbers, whose length is in the leading bits.
\<close>

section \<open>Logarithms\<close>

lemma leading_zeros_bounds:
  fixes v :: "'a::len word"
  assumes "v \<noteq> 0" and j: "j = leading_zeros LENGTH('a) (bit v)"
  shows "j < LENGTH('a)" and "2 ^ (LENGTH('a) - 1 - j) \<le> unat v" and "unat v < 2 ^ Suc (LENGTH('a) - 1 - j)"
proof -
  let ?is = "rev [0..<LENGTH('a)]"
  let ?t = "takeWhile (\<lambda>i. \<not> bit v i) ?is"
  have jt: "j = length ?t" using j by (simp add: leading_zeros_def)
  obtain i where i: "bit v i" "i < LENGTH('a)" using assms(1) by (metis bit_imp_le_length bit_word_eqI bit_0_eq bot_apply bot_bool_def)
  have "?t \<noteq> ?is" using i by (metis (mono_tags) in_set_conv_decomp set_rev set_takeWhileD set_upt atLeastLessThan_iff zero_le)
  then have lt: "length ?t < length ?is" by (metis length_takeWhile_le nat_less_le takeWhile_eq_take take_all_iff)
  then show j_lt: "j < LENGTH('a)" using jt by simp
  have "bit v (?is ! j)" using nth_length_takeWhile [OF lt] jt by simp
  then have hit: "bit v (LENGTH('a) - 1 - j)" using j_lt by (simp add: rev_nth)
  have miss: "\<not> bit v n" if "LENGTH('a) - j \<le> n" for n
  proof (cases "n < LENGTH('a)")
    case True
    define m where "m = LENGTH('a) - 1 - n"
    have "m < length ?t" using that True jt by (simp add: m_def)
    then have "\<not> bit v (?t ! m)" using nth_mem set_takeWhileD by fastforce
    moreover have "?t ! m = n" using \<open>m < length ?t\<close> True by (simp add: takeWhile_nth rev_nth m_def)
    ultimately show ?thesis by simp
  qed (auto dest: bit_imp_le_length)
  have "unat v div 2 ^ (LENGTH('a) - 1 - j) \<noteq> 0" using hit by (metis bit_unat_iff even_zero)
  then show "2 ^ (LENGTH('a) - 1 - j) \<le> unat v" by (simp add: div_eq_0_iff not_less)
  have "take_bit (LENGTH('a) - j) v = v" by (intro bit_word_eqI) (metis bit_take_bit_iff linorder_not_le miss)
  then have "unat v = take_bit (LENGTH('a) - j) (unat v)" by (metis unsigned_take_bit_eq)
  then have "unat v < 2 ^ (LENGTH('a) - j)" by (metis take_bit_nat_less_exp)
  then show "unat v < 2 ^ Suc (LENGTH('a) - 1 - j)" using j_lt by (simp add: Suc_diff_Suc)
qed

lemma xor_63: "j < 64 \<Longrightarrow> 63 XOR j = 63 - (j :: nat)"
proof -
  have "\<forall>j \<in> set [0..<64]. 63 XOR j = 63 - (j :: nat)" by code_simp
  then show "j < 64 \<Longrightarrow> 63 XOR j = 63 - j" by simp
qed

lemma xor_31: "j < 32 \<Longrightarrow> 31 XOR j = 31 - (j :: nat)"
proof -
  have "\<forall>j \<in> set [0..<32]. 31 XOR j = 31 - (j :: nat)" by code_simp
  then show "j < 32 \<Longrightarrow> 31 XOR j = 31 - j" by simp
qed

lemma log2_64:
  assumes "v \<noteq> 0"
  shows "2 ^ Log2FloorNonZero64 v \<le> unat v" and "unat v < 2 ^ (Log2FloorNonZero64 v + 1)" and "Log2FloorNonZero64 v < 64"
  using leading_zeros_bounds [OF assms refl] by (simp_all add: Log2FloorNonZero64_def xor_63)

lemma log2_32:
  assumes "v \<noteq> 0"
  shows "2 ^ Log2FloorNonZero v \<le> unat v" and "unat v < 2 ^ (Log2FloorNonZero v + 1)"
  using leading_zeros_bounds [OF assms refl] by (simp_all add: Log2FloorNonZero_def xor_31)

lemma log2_unique:
  assumes "2 ^ a \<le> n" "n < 2 ^ (a + 1)" "2 ^ b \<le> n" "n < (2 :: nat) ^ (b + 1)"
  shows "a = b"
proof -
  have "a < b + 1" using assms(1,4) by (metis le_less_trans power_less_imp_less_exp one_less_numeral_iff semiring_norm(76))
  moreover have "b < a + 1" using assms(3,2) by (metis le_less_trans power_less_imp_less_exp one_less_numeral_iff semiring_norm(76))
  ultimately show ?thesis by simp
qed

section \<open>Unsigned numbers\<close>

text \<open>The length byte and the minimal big-endian digits.\<close>

definition num_code :: "u64 \<Rightarrow> bytes" where
  "num_code n = of_nat (OrderedNumLength n) # rev (le_bytes (OrderedNumLength n) (unat n))"

lemma num_length:
  "unat n < 256 ^ OrderedNumLength n" "OrderedNumLength n \<le> 8"
  "OrderedNumLength n = Suc k \<Longrightarrow> 256 ^ k \<le> unat n"
proof -
  have e: "(256 :: nat) ^ k = 2 ^ (8 * k)" for k by (simp add: power_mult)
  have "unat n < 256 ^ OrderedNumLength n \<and> OrderedNumLength n \<le> 8 \<and> (OrderedNumLength n = Suc k \<longrightarrow> 256 ^ k \<le> unat n)" for k
  proof (cases "n = 0")
    case True
    then show ?thesis by (simp add: OrderedNumLength_def Log2Floor64_def)
  next
    case nz: False
    define g where "g = Log2FloorNonZero64 n"
    note lg = log2_64 [OF nz, folded g_def]
    have len: "OrderedNumLength n = (g + 8) div 8" using nz
      by (simp add: OrderedNumLength_def Log2Floor64_def g_def Log2FloorNonZero64_def nat_add_distrib)
    have "(2 :: nat) ^ (g + 1) \<le> 2 ^ (8 * OrderedNumLength n)"
      unfolding len by (rule power_increasing) (use div_mult_mod_eq [of "g + 8" 8] mod_less_divisor [of 8 "g + 8"] in linarith, simp)
    moreover have "256 ^ k \<le> unat n" if "OrderedNumLength n = Suc k"
    proof -
      have "(2 :: nat) ^ (8 * k) \<le> 2 ^ g" by (rule power_increasing) (use that len in simp_all)
      with lg(1) show ?thesis unfolding e by linarith
    qed
    moreover have "OrderedNumLength n \<le> 8" using lg(3) by (simp add: len)
    ultimately show ?thesis using lg(2) unfolding e by (meson less_le_trans)
  qed
  then show "unat n < 256 ^ OrderedNumLength n" "OrderedNumLength n \<le> 8" "OrderedNumLength n = Suc k \<Longrightarrow> 256 ^ k \<le> unat n"
    by blast+
qed

lemma le_bytes_take: "k \<le> n \<Longrightarrow> take k (le_bytes n v) = le_bytes k v"
  by (induction n arbitrary: k v) (auto simp: take_Cons split: nat.splits)

lemma be64_drop: "k \<le> 8 \<Longrightarrow> drop (8 - k) (be64 v) = rev (le_bytes k (unat v))"
  by (simp add: be64_def rev_take [symmetric] drop_rev le_bytes_take)

lemma be64_not: "be64 (NOT v) = map NOT (be64 v)"
proof -
  have "le_bytes 8 (unat (NOT v)) = map NOT (le_bytes 8 (unat v))"
  proof -
    have "le_nat (le_bytes 8 (unat v)) = unat v" using unat_u64_lt [of v] by (simp add: le_nat_le_bytes)
    then show ?thesis using not_bytes [of "le_bytes 8 (unat v)", where ?'a = 64] by simp
  qed
  then show ?thesis by (simp add: be64_def rev_map)
qed

lemma number_buffer:
  assumes "len \<le> 8"
  shows "AppendUpto9 dest (drop (9 - len - 1) ((put_at (replicate 17 0) 1 (be64 v))[9 - len - 1 := b])) (len + 1) =
    dest @ b # drop (8 - len) (be64 v)"
proof -
  have l: "length (be64 v) = 8" by (simp add: be64_def)
  have buf: "put_at (replicate 17 0) 1 (be64 v) = 0 # be64 v @ replicate 8 0"
    by (simp add: put_at_def l)
  have upd: "drop i (xs[i := b]) = b # drop (Suc i) xs" if "i < length xs" for i and xs :: bytes
    using that by (metis Cons_nth_drop_Suc drop_update_cancel length_list_update lessI nth_list_update_eq)
  define Y where "Y = 0 # be64 v @ replicate 8 0"
  have "drop (8 - len) (Y[8 - len := b]) = b # drop (8 - len) (be64 v) @ replicate 8 0"
    using assms l by (subst upd) (simp_all add: Y_def)
  then show ?thesis unfolding buf [folded Y_def] using assms l by (simp add: AppendUpto9_def)
qed

lemma write_num: "WriteNumIncreasing dest n = dest @ num_code n"
  using number_buffer [OF num_length(2), of dest n n "of_nat (OrderedNumLength n)"] num_length(2) [of n]
  by (simp add: WriteNumIncreasing_def Let_def num_code_def be64_drop)

lemma write_num_decreasing: "WriteNumDecreasing dest n = dest @ map NOT (num_code n)"
  using number_buffer [OF num_length(2), of dest n "NOT n" "NOT (of_nat (OrderedNumLength n))"] num_length(2) [of n]
  by (simp add: WriteNumDecreasing_def Let_def num_code_def be64_drop be64_not drop_map rev_map)

text \<open>Big-endian digits of one length diverge in the order of the numbers.\<close>

lemma digits_diverge:
  "m < n \<Longrightarrow> n < 256 ^ k \<Longrightarrow> diverges (rev (le_bytes k m)) (rev (le_bytes k n))"
proof (induction k arbitrary: m n)
  case (Suc k)
  have "n div 256 < 256 ^ k" using Suc.prems(2) by (simp add: less_mult_imp_div_less mult.commute)
  show ?case
  proof (cases "m div 256 < n div 256")
    case True
    with Suc.IH [OF True \<open>n div 256 < 256 ^ k\<close>] show ?thesis by (simp add: diverges_append)
  next
    case False
    with Suc.prems(1) have e: "m div 256 = n div 256" by (meson div_le_mono le_antisym less_imp_le not_less)
    then have "m mod 256 < n mod 256" using Suc.prems(1) by (metis add_less_cancel_left div_mult_mod_eq)
    then show ?thesis by (simp add: e diverges_common word_less_nat_alt)
  qed
qed simp

lemma num_order:
  assumes "m < n"
  shows "diverges (num_code m) (num_code n)"
proof -
  have mn: "unat m < unat n" using assms by (simp add: word_less_nat_alt)
  note m = num_length [of m] and n = num_length [of n]
  have "OrderedNumLength m \<le> OrderedNumLength n"
  proof (rule ccontr)
    assume "\<not> OrderedNumLength m \<le> OrderedNumLength n"
    then obtain k where k: "OrderedNumLength m = Suc k" "OrderedNumLength n \<le> k" by (cases "OrderedNumLength m") auto
    have "(256 :: nat) ^ OrderedNumLength n \<le> 256 ^ k" using k(2) by (rule power_increasing) simp
    with m(3) [OF k(1)] n(1) mn show False by linarith
  qed
  then consider "OrderedNumLength m = OrderedNumLength n" | "OrderedNumLength m < OrderedNumLength n" by linarith
  then show ?thesis
  proof cases
    case 1
    with digits_diverge [OF mn n(1)] show ?thesis by (simp add: num_code_def)
  next
    case 2
    with m(2) n(2) show ?thesis by (simp add: num_code_def word_less_nat_alt)
  qed
qed

text \<open>The accumulation of digits, from any start value.\<close>

definition push_byte :: "u8 \<Rightarrow> u64 \<Rightarrow> u64" where
  "push_byte b x = push_bit 8 x OR ucast b"

lemma push_byte_eq: "push_byte b x = x * 256 + of_nat (unat b)"
proof -
  have "push_bit 8 x AND (ucast b :: u64) = 0" by (rule bit_word_eqI) (auto simp: bit_simps dest: bit_imp_le_length)
  then show ?thesis by (simp add: push_byte_def or_eq_plus_word push_bit_eq_mult mult.commute)
qed

lemma fold_push: "fold push_byte bs x = x * of_nat (256 ^ length bs) + of_nat (le_nat (rev bs))"
  by (induction bs arbitrary: x) (simp_all add: push_byte_eq le_nat_app algebra_simps)

lemma fold_index:
  assumes "k + n \<le> length xs"
  shows "fold (\<lambda>i x. push_bit 8 x OR ucast (xs ! (k + i))) [0..<n] x = fold push_byte (take n (drop k xs)) x"
proof -
  have "fold (\<lambda>i x. push_bit 8 x OR ucast (xs ! (k + i))) [0..<n] x = fold (push_byte \<circ> (\<lambda>i. xs ! (k + i))) [0..<n] x"
    by (rule fold_cong) (simp_all add: push_byte_def [abs_def])
  then show ?thesis by (simp add: take_drop_map [OF assms] fold_map)
qed

lemma length_byte:
  assumes "k \<le> 8"
  shows "(scast (of_nat k :: u8) :: u64) = of_nat k"
proof -
  have "(scast (of_nat k :: u8) :: u64) = of_int (signed_take_bit 7 (int k))" by (simp add: signed_of_nat)
  also have "signed_take_bit 7 (int k) = int k" using assms by (simp add: signed_take_bit_int_eq_self)
  finally show ?thesis by simp
qed

lemma of_nat_len:
  assumes "k \<le> 8"
  shows "unat (of_nat k :: u64) = k" "(of_nat k :: u64) = 0 \<longleftrightarrow> k = 0" "\<not> (8 :: u64) < of_nat k"
proof -
  show u: "unat (of_nat k :: u64) = k" using assms by (intro unat_of_nat_u64_small) simp
  show "(of_nat k :: u64) = 0 \<longleftrightarrow> k = 0" by (simp add: word_unat_eq_iff u)
  show "\<not> (8 :: u64) < of_nat k" using u assms by (simp add: word_less_nat_alt)
qed

lemma fits_source:
  assumes "k \<le> 8" "k + 1 \<le> n" "n < 2 ^ 64"
  shows "\<not> of_nat n < (of_nat k + 1 :: u64)"
proof -
  have "(of_nat k + 1 :: u64) = of_nat (k + 1)" by simp
  also have "unat (of_nat (k + 1) :: u64) = k + 1" using assms by (intro unat_of_nat_u64_small) simp
  finally have "unat (of_nat k + 1 :: u64) = k + 1" .
  moreover have "unat (of_nat n :: u64) = n" using assms(3) by (rule unat_of_nat_u64_small)
  ultimately show ?thesis using assms(2) by (simp only: word_less_nat_alt)
qed

lemma leading_digit:
  assumes "OrderedNumLength n \<noteq> 0"
  shows "\<exists>b bs. rev (le_bytes (OrderedNumLength n) (unat n)) = b # bs \<and> b \<noteq> 0"
proof -
  obtain k where k: "OrderedNumLength n = Suc k" using assms by (cases "OrderedNumLength n") auto
  have "rev (le_bytes (Suc k) v) = of_nat (v div 256 ^ k) # rev (le_bytes k v)" for v
    by (induction k arbitrary: v) (simp_all add: div_mult2_eq)
  moreover have "(of_nat (unat n div 256 ^ k) :: u8) \<noteq> 0"
  proof -
    have "unat n div 256 ^ k < 256" using num_length(1) [of n] k by (simp add: div_less_iff_less_mult)
    moreover have "unat n div 256 ^ k \<noteq> 0" using num_length(3) [OF k] by (simp add: div_eq_0_iff not_less)
    ultimately show ?thesis by (metis mod_less of_nat_0 unat_0 unat_of_nat_u8)
  qed
  ultimately show ?thesis unfolding k by blast
qed

lemma read_num:
  assumes "length (num_code n @ rest) < 2 ^ 64"
  shows "ReadNumIncreasing (num_code n @ rest) = Some (Some (n, rest))"
proof -
  define k where "k = OrderedNumLength n"
  define ds where "ds = rev (le_bytes k (unat n))"
  have k8: "k \<le> 8" using num_length(2) by (simp add: k_def)
  have src: "num_code n @ rest = of_nat k # ds @ rest" "length ds = k" by (simp_all add: num_code_def k_def ds_def)
  have "ds ! 0 \<noteq> 0" if "k \<noteq> 0" using leading_digit [of n] that by (auto simp: ds_def k_def)
  then have lead: "k = 0 \<or> (ds @ rest) ! 0 \<noteq> 0" using src(2) by (auto simp: nth_append)
  have "\<not> of_nat (length (num_code n @ rest)) < (of_nat k + 1 :: u64)"
    using k8 src by (intro fits_source [OF _ _ assms]) simp_all
  moreover have "le_nat (rev ds) = unat n" using num_length(1) [of n] by (simp add: ds_def le_nat_le_bytes k_def)
  ultimately show ?thesis
    using fold_index [of 1 k "of_nat k # ds @ rest" 0] lead k8 src(2)
    by (auto simp: ReadNumIncreasing_def Let_def src(1) length_byte of_nat_len fold_push)
qed

lemma fold_push_not: "fold push_byte (map NOT bs) (- 1) = NOT (fold push_byte bs 0)"
proof -
  have "le_nat (rev (map NOT bs)) = 256 ^ length bs - 1 - le_nat (rev bs)" by (simp add: rev_map le_nat_not)
  moreover have "1 + le_nat (rev bs) \<le> 256 ^ length bs" using le_nat_less [of "rev bs"] by simp
  ultimately have "(of_nat (le_nat (rev (map NOT bs))) :: u64) = of_nat (256 ^ length bs) - (1 + of_nat (le_nat (rev bs)))"
    by (metis Suc_eq_plus1_left diff_diff_left of_nat_1 of_nat_add of_nat_diff)
  then show ?thesis by (simp add: fold_push not_eq_complement)
qed

lemma scast_not: "(scast (NOT b :: u8) :: u64) = NOT (scast b)"
  by (rule bit_word_eqI) (auto simp: bit_signed_iff bit_not_iff not_less dest: bit_imp_le_length)

lemma read_num_decreasing:
  assumes "length (num_code n @ rest) < 2 ^ 64"
  shows "ReadNumDecreasing (map NOT (num_code n) @ rest) = Some (Some (n, rest))"
proof -
  define k where "k = OrderedNumLength n"
  define ds where "ds = rev (le_bytes k (unat n))"
  have k8: "k \<le> 8" using num_length(2) by (simp add: k_def)
  have src: "map NOT (num_code n) @ rest = NOT (of_nat k) # map NOT ds @ rest" "length ds = k"
    by (simp_all add: num_code_def k_def ds_def)
  have full: "NOT (0xff :: u8) = 0" by simp
  have "ds ! 0 \<noteq> 0" if "k \<noteq> 0" using leading_digit [of n] that by (auto simp: ds_def k_def)
  then have "NOT (ds ! 0) \<noteq> 0xff" if "k \<noteq> 0" using that full by (metis bit.double_compl)
  then have lead: "k = 0 \<or> (map NOT ds @ rest) ! 0 \<noteq> 0xff" using src(2) by (auto simp: nth_append)
  have "length (num_code n) = k + 1" using k_def by (simp add: num_code_def)
  then have "\<not> of_nat (length (map NOT (num_code n) @ rest)) < (of_nat k + 1 :: u64)"
    using k8 assms by (intro fits_source) simp_all
  moreover have "le_nat (rev ds) = unat n" using num_length(1) [of n] by (simp add: ds_def le_nat_le_bytes k_def)
  moreover have "fold (\<lambda>i tmp. push_bit 8 tmp OR ucast ((NOT (of_nat k) # map NOT ds @ rest) ! (i + 1))) [0..<k] (- 1) = NOT (fold push_byte ds 0)"
    using fold_index [of 1 k "NOT (of_nat k) # map NOT ds @ rest" "- 1"] src(2) fold_push_not [of ds]
    by (simp add: add.commute)
  moreover have "n = 0" if "k = 0" using num_length(1) [of n] that by (simp add: k_def word_unat_eq_iff)
  ultimately show ?thesis
    using lead k8 src(2)
    by (auto simp: ReadNumDecreasing_def Let_def src(1) scast_not length_byte of_nat_len fold_push)
qed

section \<open>Signed numbers\<close>

text \<open>The magnitude of a signed number, and the bits of the length, which are on top of it.\<close>

definition magnitude :: "u64 \<Rightarrow> u64" where
  "magnitude n = (if bit n 63 then NOT n else n)"

definition header :: "nat \<Rightarrow> nat" where
  "header L = (2 ^ L - 1) * 2 ^ (7 * L)"

definition signed_digits :: "nat \<Rightarrow> nat \<Rightarrow> bytes" where
  "signed_digits L x = rev (le_bytes L (x + header L))"

definition signed_code :: "u64 \<Rightarrow> bytes" where
  "signed_code n = converts (bit n 63) (signed_digits (SignedEncodingLength n) (unat (magnitude n)))"

lemma magnitude_bound: "unat (magnitude n) < 2 ^ 63"
proof -
  have b: "\<not> bit (magnitude n) 63" by (simp add: magnitude_def bit_not_iff)
  have "take_bit 63 (magnitude n) = magnitude n"
  proof (rule bit_word_eqI)
    fix i assume "i < LENGTH(64)"
    then show "bit (take_bit 63 (magnitude n)) i = bit (magnitude n) i" using b by (cases "i = 63") (auto simp: bit_simps)
  qed
  then show ?thesis by (metis take_bit_nat_less_exp unsigned_take_bit_eq)
qed

lemma length_table: "k \<le> 63 \<Longrightarrow> kBitsToLength ! k = k div 7 + 1"
proof -
  have "\<forall>k \<in> set [0..<64]. kBitsToLength ! k = k div 7 + 1" by code_simp
  then show "k \<le> 63 \<Longrightarrow> kBitsToLength ! k = k div 7 + 1" by simp
qed

lemma signed_length:
  assumes "L = SignedEncodingLength n"
  shows "1 \<le> L" "L \<le> 10" "unat (magnitude n) < 2 ^ (7 * L - 1)" "2 \<le> L \<Longrightarrow> 2 ^ (7 * (L - 1) - 1) \<le> unat (magnitude n)"
proof -
  define x where "x = magnitude n"
  define k where "k = nat (Log2Floor64 x + 1)"
  have k: "unat x < 2 ^ k" "k \<noteq> 0 \<longrightarrow> 2 ^ (k - 1) \<le> unat x" "k \<le> 63"
  proof (atomize (full), cases "x = 0")
    case False
    then have kk: "k = Log2FloorNonZero64 x + 1" by (simp add: k_def Log2Floor64_def Log2FloorNonZero64_def nat_add_distrib)
    have "(2 :: nat) ^ Log2FloorNonZero64 x < 2 ^ 63" using log2_64(1) [OF False] magnitude_bound [of n] unfolding x_def by linarith
    then have "Log2FloorNonZero64 x < 63" by (rule power_less_imp_less_exp [rotated]) simp
    then show "unat x < 2 ^ k \<and> (k \<noteq> 0 \<longrightarrow> 2 ^ (k - 1) \<le> unat x) \<and> k \<le> 63" using log2_64(1,2) [OF False] by (simp add: kk)
  qed (simp add: k_def Log2Floor64_def)
  have L: "L = k div 7 + 1"
    using length_table [OF k(3)] assms by (simp add: SignedEncodingLength_def k_def x_def magnitude_def)
  show "1 \<le> L" "L \<le> 10" using L k(3) by auto
  have "(2 :: nat) ^ k \<le> 2 ^ (7 * L - 1)" by (rule power_increasing) (use L div_mult_mod_eq [of k 7] mod_less_divisor [of 7 k] in linarith, simp)
  with k(1) show "unat (magnitude n) < 2 ^ (7 * L - 1)" unfolding x_def by linarith
  assume "2 \<le> L"
  then have "7 * (L - 1) - 1 \<le> k - 1" "k \<noteq> 0" using L by auto
  then have "(2 :: nat) ^ (7 * (L - 1) - 1) \<le> 2 ^ (k - 1)" by (intro power_increasing) simp_all
  with k(2) \<open>k \<noteq> 0\<close> show "2 ^ (7 * (L - 1) - 1) \<le> unat (magnitude n)" unfolding x_def by linarith
qed

lemma le_bytes_add: "le_bytes (m + n) v = le_bytes m v @ le_bytes n (v div 256 ^ m)"
  by (induction m arbitrary: v) (simp_all add: div_mult2_eq)

lemma le_bytes_mod: "le_bytes m (v + 256 ^ m * w) = le_bytes m v"
proof (induction m arbitrary: v)
  case (Suc m)
  have "(v + 256 ^ Suc m * w) div 256 = v div 256 + 256 ^ m * w" by (simp add: mult.assoc)
  moreover have "(of_nat (v + 256 ^ Suc m * w) :: u8) = of_nat v"
    by (simp add: word_unat_eq_iff unat_of_nat_mod mult.assoc del: of_nat_add of_nat_mult)
  ultimately show ?case using Suc [of "v div 256"] by (simp del: of_nat_add of_nat_mult)
qed simp

lemma disjoint_xor: "a < 2 ^ k \<Longrightarrow> (of_nat (a + 2 ^ k * c) :: 'a::len word) = of_nat a XOR of_nat (2 ^ k * c)"
proof (rule bit_word_eqI)
  fix i assume a: "a < 2 ^ k" and i: "i < LENGTH('a)"
  have "a = take_bit k a" using a by (simp add: take_bit_nat_eq_self)
  then have lo: "bit a j \<longleftrightarrow> j < k \<and> bit a j" for j by (metis bit_take_bit_iff)
  have hi: "bit (2 ^ k * c) j \<longleftrightarrow> k \<le> j \<and> bit c (j - k)" for j
    using bit_push_bit_iff_nat [of k c j] by (simp add: push_bit_eq_mult mult.commute)
  have "\<not> (bit a j \<and> bit (2 ^ k * c) j)" for j using lo [of j] hi [of j] by auto
  then have "a AND 2 ^ k * c = 0" by (intro bit_eqI) (simp add: bit_and_iff)
  then have "a + 2 ^ k * c = a OR 2 ^ k * c" by (rule disjunctive_add_eq_or)
  then show "bit (of_nat (a + 2 ^ k * c) :: 'a word) i = bit (of_nat a XOR of_nat (2 ^ k * c) :: 'a word) i"
    using i lo [of i] hi [of i] by (auto simp: bit_of_nat_iff bit_xor_iff bit_or_iff simp del: of_nat_add of_nat_mult of_nat_power)
qed

text \<open>The two leading bytes, and the header bits the writer flips in them.\<close>

lemma top_bytes: "rev (le_bytes (m + 2) v) = of_nat (v div 256 ^ (m + 1)) # of_nat (v div 256 ^ m) # rev (le_bytes m v)"
proof -
  have "le_bytes 2 w = [of_nat w, of_nat (w div 256)]" for w by (simp add: numeral_2_eq_2)
  moreover have "v div 256 ^ Suc m = v div 256 ^ m div 256" by (simp add: div_mult2_eq [symmetric] mult.commute)
  ultimately show ?thesis unfolding le_bytes_add by (simp del: power_Suc)
qed

lemma header_high:
  assumes "y < 2 ^ (k + 8)" and "2 ^ k * c < 256" and "hh = 256 * (2 ^ k * c)"
  shows "(of_nat ((y + hh) div 256) :: u8) = of_nat (y div 256) XOR of_nat (2 ^ k * c)" and "(of_nat (y + hh) :: u8) = of_nat y"
proof -
  have "y div 256 < 2 ^ k" using assms(1) by (simp add: power_add less_mult_imp_div_less)
  then show "(of_nat ((y + hh) div 256) :: u8) = of_nat (y div 256) XOR of_nat (2 ^ k * c)"
    using disjoint_xor [of "y div 256" k c, where ?'a = 8] by (simp add: assms(3) add.commute del: of_nat_add of_nat_mult of_nat_power)
  show "(of_nat (y + hh) :: u8) = of_nat y"
    by (simp add: assms(3) word_unat_eq_iff unat_of_nat_mod del: of_nat_add of_nat_mult)
qed

lemma header_low:
  assumes "y < 2 ^ k" and "y + 2 ^ k * c < 256" and "hh = 256 * 255 + 2 ^ k * c"
  shows "(of_nat ((y + hh) div 256) :: u8) = 0xff" and "(of_nat (y + hh) :: u8) = of_nat y XOR of_nat (2 ^ k * c)" and "y div 256 = 0"
proof -
  have "(y + hh) div 256 = 255" using assms(2,3) by simp
  then show "(of_nat ((y + hh) div 256) :: u8) = 0xff" by simp
  have "(of_nat (y + hh) :: u8) = of_nat (y + 2 ^ k * c)"
  proof -
    have "(a + 65280) mod 256 = a mod (256 :: nat)" for a using mod_mult_self1 [of a 255 256] by simp
    from this [of "y + 2 ^ k * c"] show ?thesis
      by (simp add: assms(3) word_unat_eq_iff unat_of_nat_mod ac_simps del: of_nat_add of_nat_mult of_nat_power)
  qed
  then show "(of_nat (y + hh) :: u8) = of_nat y XOR of_nat (2 ^ k * c)" using disjoint_xor [OF assms(1), of c] by simp
  show "y div 256 = 0" using assms(2) by simp
qed

lemma header_bytes:
  assumes "m \<le> 8" and "y < 2 ^ (13 - m)" and h: "kLengthToHeaderBits ! (m + 2) = (h0, h1)" and hh: "hh = 256 * unat h0 + unat h1"
  shows "(of_nat ((y + hh) div 256) :: u8) = of_nat (y div 256) XOR h0 \<and> (of_nat (y + hh) :: u8) = of_nat y XOR h1 \<and>
    header (m + 2) = hh * 256 ^ m"
proof -
  consider "m = 0" | "m = 1" | "m = 2" | "m = 3" | "m = 4" | "m = 5" | "m = 6" | "m = 7" | "m = 8" using assms(1) by linarith
  then show ?thesis
  proof cases
    case 1 then show ?thesis using assms header_high [of y 5 6 hh] by (simp add: kLengthToHeaderBits_def header_def)
  next
    case 2 then show ?thesis using assms header_high [of y 4 14 hh] by (simp add: kLengthToHeaderBits_def header_def)
  next
    case 3 then show ?thesis using assms header_high [of y 3 30 hh] by (simp add: kLengthToHeaderBits_def header_def)
  next
    case 4 then show ?thesis using assms header_high [of y 2 62 hh] by (simp add: kLengthToHeaderBits_def header_def)
  next
    case 5 then show ?thesis using assms header_high [of y 1 126 hh] by (simp add: kLengthToHeaderBits_def header_def)
  next
    case 6 then show ?thesis using assms header_high [of y 0 254 hh] by (simp add: kLengthToHeaderBits_def header_def)
  next
    case 7 then show ?thesis using assms header_high [of y 0 255 hh] by (simp add: kLengthToHeaderBits_def header_def)
  next
    case 8 then show ?thesis using assms header_low [of y 6 2 hh] by (simp add: kLengthToHeaderBits_def header_def)
  next
    case 9 then show ?thesis using assms header_low [of y 5 6 hh] by (simp add: kLengthToHeaderBits_def header_def)
  qed
qed

lemma signed_digits_top:
  assumes "m \<le> 8" and x: "x < 2 ^ (7 * (m + 2) - 1)" and h: "kLengthToHeaderBits ! (m + 2) = (h0, h1)"
  shows "signed_digits (m + 2) x =
    (of_nat (x div 256 ^ (m + 1)) XOR h0) # (of_nat (x div 256 ^ m) XOR h1) # rev (le_bytes m x)"
proof -
  define y where "y = x div 256 ^ m"
  define hh where "hh = 256 * unat h0 + unat h1"
  have e: "7 * (m + 2) - 1 = 8 * m + (13 - m)" using assms(1) by simp
  have "(2 :: nat) ^ (7 * (m + 2) - 1) = 256 ^ m * 2 ^ (13 - m)" unfolding e power_add power_mult by simp
  with x have y: "y < 2 ^ (13 - m)" unfolding y_def by (simp add: less_mult_imp_div_less mult.commute)
  note hb = header_bytes [OF assms(1) y h hh_def]
  have v: "x + header (m + 2) = x + 256 ^ m * hh" using hb by (simp add: mult.commute)
  have d0: "(x + 256 ^ m * hh) div 256 ^ m = y + hh" by (simp add: y_def)
  have d1: "n div 256 ^ (m + 1) = n div 256 ^ m div 256" for n :: nat by (simp add: div_mult2_eq [symmetric] mult.commute)
  show ?thesis unfolding signed_digits_def v top_bytes d1 d0 using hb by (simp add: le_bytes_mod y_def)
qed

lemma update_two:
  assumes "drop i xs = a # b # rest"
  shows "drop i ((xs[i := c])[i + 1 := d]) = c # d # rest" and "xs ! i = a" and "xs ! (i + 1) = b"
proof -
  have i: "i + 1 < length xs" using assms by (metis Suc_eq_plus1 drop_all length_Cons length_drop less_diff_conv linorder_not_less list.distinct(1) not_less_eq_eq numeral_nat(7) One_nat_def Suc_less_eq2 zero_less_Suc add.commute add_Suc_right plus_1_eq_Suc)
  then have "xs = take i xs @ a # b # rest" "length (take i xs) = i" using assms by (metis append_take_drop_id, simp)
  then obtain us where us: "xs = us @ a # b # rest" "length us = i" by blast
  show "drop i ((xs[i := c])[i + 1 := d]) = c # d # rest" "xs ! i = a" "xs ! (i + 1) = b"
    using us by (auto simp: list_update_append nth_append)
qed

lemma xor_convert: "Convert8 invert a XOR b = Convert8 invert (a XOR b)"
  by (rule bit_word_eqI) (auto simp: Convert8_def bit_xor_iff bit_not_iff)

lemma signed_buffer: "[if bit n 63 then 0xff else 0, if bit n 63 then 0xff else 0] @ be64 n =
    converts (bit n 63) (rev (le_bytes 10 (unat (magnitude n))))"
proof -
  have "le_bytes (8 + 2) v = le_bytes 8 v @ [0, 0]" if "v < 2 ^ 64" for v
  proof -
    have "v div 256 ^ 8 = 0" using that by simp
    then show ?thesis unfolding le_bytes_add by (simp add: numeral_2_eq_2)
  qed
  moreover have "unat (magnitude n) < 2 ^ 64" using magnitude_bound [of n] by simp
  ultimately have "rev (le_bytes 10 (unat (magnitude n))) = [0, 0] @ be64 (magnitude n)" by (simp add: be64_def)
  then show ?thesis by (simp add: magnitude_def be64_not o_def Convert8_def)
qed

lemma small_magnitude: "magnitude n < 64 \<Longrightarrow> SignedEncodingLength n = 1"
proof -
  assume "magnitude n < 64"
  then have "unat (magnitude n) < 64" by (simp add: word_less_nat_alt)
  show ?thesis
  proof (rule ccontr)
    assume "SignedEncodingLength n \<noteq> 1"
    with signed_length(1) [OF refl, of n] have L: "2 \<le> SignedEncodingLength n" by linarith
    have "(2 :: nat) ^ 6 \<le> 2 ^ (7 * (SignedEncodingLength n - 1) - 1)" by (rule power_increasing) (use L in simp_all)
    with signed_length(4) [OF refl L] \<open>unat (magnitude n) < 64\<close> show False by simp
  qed
qed

lemma write_signed: "WriteSignedNumIncreasing dest n = Some (dest @ signed_code n)"
proof (cases "magnitude n < 64")
  case True
  then have L: "SignedEncodingLength n = 1" by (rule small_magnitude)
  have u: "unat (magnitude n) < 2 ^ 7" using True by (simp add: word_less_nat_alt)
  have "signed_code n = [Convert8 (bit n 63) (ucast (magnitude n) XOR 0x80)]"
    using disjoint_xor [OF u, of 1, where ?'a = 8] by (simp add: signed_code_def L signed_digits_def header_def)
  also have "\<dots> = [0x80 XOR ucast n]"
    by (simp, rule bit_word_eqI) (auto simp: Convert8_def magnitude_def bit_simps)
  finally show ?thesis using True by (simp add: WriteSignedNumIncreasing_def magnitude_def kLengthToHeaderBits_def)
next
  case False
  define L where "L = SignedEncodingLength n"
  note sl = signed_length [OF L_def]
  define m where "m = L - 2"
  have "L \<noteq> 1"
  proof
    assume "L = 1"
    then have "unat (magnitude n) < 64" using sl(3) by simp
    with False show False by (simp add: word_less_nat_alt)
  qed
  then have m: "L = m + 2" "m \<le> 8" using sl(1,2) by (simp_all add: m_def)
  obtain h0 h1 where h: "kLengthToHeaderBits ! L = (h0, h1)" by (cases "kLengthToHeaderBits ! L")
  let ?x = "unat (magnitude n)"
  have nz: "magnitude n \<noteq> 0" using False by auto
  have len: "SignedEncodingLengthPositive (magnitude n) = L"
    using nz by (simp add: L_def SignedEncodingLength_def SignedEncodingLengthPositive_def Log2Floor64_def Log2FloorNonZero64_def
        magnitude_def nat_add_distrib split: if_splits)
  have "drop (10 - L) (rev (le_bytes 10 ?x)) = rev (le_bytes L ?x)"
    using sl(2) by (simp add: drop_rev le_bytes_take)
  then have "drop (10 - L) (converts (bit n 63) (rev (le_bytes 10 ?x))) =
      Convert8 (bit n 63) (of_nat (?x div 256 ^ (m + 1))) # Convert8 (bit n 63) (of_nat (?x div 256 ^ m)) # converts (bit n 63) (rev (le_bytes m ?x))"
    using top_bytes [of m ?x] unfolding m(1) by (simp add: converts_def drop_map)
  note up = update_two [OF this]
  let ?B = "converts (bit n 63) (rev (le_bytes 10 ?x))"
  have "WriteSignedNumIncreasing dest n = Some (dest @ drop (10 - L) ((?B[10 - L := ?B ! (10 - L) XOR h0])[10 - L + 1 := ?B ! (10 - L + 1) XOR h1]))"
    using False m(1) unfolding WriteSignedNumIncreasing_def Let_def magnitude_def [symmetric] signed_buffer len h by simp
  also have "\<dots> = Some (dest @ signed_code n)"
  proof -
    have "signed_digits L ?x = (of_nat (?x div 256 ^ (m + 1)) XOR h0) # (of_nat (?x div 256 ^ m) XOR h1) # rev (le_bytes m ?x)"
      using signed_digits_top [OF m(2) sl(3) [unfolded m(1)] h [unfolded m(1)]] by (simp only: m(1))
    then show ?thesis unfolding up signed_code_def L_def [symmetric] xor_convert by (simp only: converts_simps)
  qed
  finally show ?thesis .
qed

end
