(* ===== verification/OrderedSigned.thy ===== *)
theory OrderedSigned
  imports OrderedNumbers
begin

text \<open>
  The order and the reading of signed numbers, and doubles.
\<close>

section \<open>The value of the digits\<close>

text \<open>A header is the first value above those of the digits of the length below it, one byte further.\<close>

lemma header_step: "1 \<le> L \<Longrightarrow> header (L + 1) = 256 * (header L + 2 ^ (7 * L - 1))"
proof -
  assume "1 \<le> L"
  then obtain k where k: "L = Suc k" by (cases L) auto
  define c where "c = (2 :: nat) ^ k"
  define e where "e = (2 :: nat) ^ (7 * k)"
  have "1 \<le> c" by (simp add: c_def)
  have p: "(2 :: nat) ^ (7 * L - 1) = 64 * e" "(2 :: nat) ^ (7 * L) = 128 * e" "(2 :: nat) ^ (7 * (L + 1)) = 16384 * e"
    by (simp_all add: k e_def power_add algebra_simps)
  have "header (L + 1) = (4 * c - 1) * (16384 * e)" "header L = (2 * c - 1) * (128 * e)"
    unfolding header_def p by (simp_all add: k c_def)
  with \<open>1 \<le> c\<close> show ?thesis unfolding p by (simp add: algebra_simps diff_mult_distrib)
qed

lemma header_above: "1 \<le> L \<Longrightarrow> 1 \<le> d \<Longrightarrow> 256 ^ d * (header L + 2 ^ (7 * L - 1)) \<le> header (L + d)"
proof (induction d)
  case (Suc d)
  show ?case
  proof (cases "d = 0")
    case True
    then show ?thesis using header_step [OF Suc.prems(1)] by simp
  next
    case False
    with Suc have IH: "256 ^ d * (header L + 2 ^ (7 * L - 1)) \<le> header (L + d)" by simp
    have "256 ^ Suc d * (header L + 2 ^ (7 * L - 1)) = 256 * (256 ^ d * (header L + 2 ^ (7 * L - 1)))" by simp
    also have "\<dots> \<le> 256 * (header (L + d) + 2 ^ (7 * (L + d) - 1))" using IH by simp
    also have "\<dots> = header (L + Suc d)" using header_step [of "L + d"] Suc.prems(1) by simp
    finally show ?thesis .
  qed
qed simp

lemma digits_value:
  assumes "1 \<le> L" and "x < 2 ^ (7 * L - 1)"
  shows "x + header L < 256 ^ L" and "128 * 256 ^ (L - 1) \<le> x + header L"
proof -
  obtain k where k: "L = Suc k" using assms(1) by (cases L) auto
  define c where "c = (2 :: nat) ^ k"
  define e where "e = (2 :: nat) ^ (7 * k)"
  have "1 \<le> c" "0 < e" by (simp_all add: c_def e_def)
  have "(2 :: nat) ^ (7 * L - 1) = 64 * e" "(2 :: nat) ^ (7 * L) = 128 * e" by (simp_all add: k e_def power_add algebra_simps)
  moreover from this have "header L = (2 * c - 1) * (128 * e)" unfolding header_def by (simp add: k c_def)
  moreover have q: "(256 :: nat) ^ k = c * e" by (simp add: c_def e_def power_mult power_mult_distrib [symmetric])
  ultimately have x: "x < 64 * e" and h: "header L + 128 * e = 256 * (c * e)"
    using assms(2) \<open>1 \<le> c\<close> by (simp_all add: diff_mult_distrib)
  show "x + header L < 256 ^ L" using x h by (simp add: k q)
  have "1 * e \<le> c * e" using \<open>1 \<le> c\<close> by (rule mult_le_mono1)
  then have "128 * (c * e) \<le> x + header L" using h by linarith
  then show "128 * 256 ^ (L - 1) \<le> x + header L" by (simp add: k q)
qed

lemma first_digit:
  assumes "1 \<le> L" and "x < 2 ^ (7 * L - 1)"
  shows "\<exists>b bs. signed_digits L x = b # bs \<and> 0x80 \<le> b \<and> unat b = (x + header L) div 256 ^ (L - 1)"
proof -
  define v where "v = x + header L"
  obtain k where k: "L = Suc k" using assms(1) by (cases L) auto
  note dv = digits_value [OF assms, folded v_def, unfolded k]
  have d: "rev (le_bytes (Suc k) v) = of_nat (v div 256 ^ k) # rev (le_bytes k v)" for v
    by (induction k arbitrary: v) (simp_all add: div_mult2_eq)
  have "v div 256 ^ k < 256" using dv(1) by (simp add: div_less_iff_less_mult)
  moreover have "128 \<le> v div 256 ^ k" using dv(2) by (simp add: less_eq_div_iff_mult_less_eq)
  ultimately have "(0x80 :: u8) \<le> of_nat (v div 256 ^ k) \<and> unat (of_nat (v div 256 ^ k) :: u8) = v div 256 ^ k"
    by (simp add: word_le_nat_alt)
  then show ?thesis unfolding signed_digits_def v_def [symmetric] unfolding k d by simp
qed

section \<open>Order\<close>

lemma signed_digits_order:
  assumes "1 \<le> L" "x < 2 ^ (7 * L - 1)" "1 \<le> M" "y < 2 ^ (7 * M - 1)" and "L < M \<or> L = M \<and> x < y"
  shows "diverges (signed_digits L x) (signed_digits M y)"
proof (cases "L = M")
  case True
  with assms show ?thesis using digits_value(1) [OF assms(3,4)] by (simp add: signed_digits_def digits_diverge)
next
  case False
  define d where "d = M - L"
  with False assms(5) have d: "M = d + L" "1 \<le> d" by simp_all
  have "256 ^ d * (header L + 2 ^ (7 * L - 1)) \<le> y + header M"
    using header_above [OF assms(1) d(2)] by (simp add: d(1) add.commute)
  then have "header L + 2 ^ (7 * L - 1) \<le> (y + header M) div 256 ^ d" by (simp add: less_eq_div_iff_mult_less_eq mult.commute)
  with assms(2) have lt: "x + header L < (y + header M) div 256 ^ d" by linarith
  have "y + header M < 256 ^ L * 256 ^ d" using digits_value(1) [OF assms(3,4)] unfolding d(1) power_add by (simp add: mult.commute)
  then have "(y + header M) div 256 ^ d < 256 ^ L" by (simp add: less_mult_imp_div_less)
  from diverges_append [OF digits_diverge [OF lt this], of "[]" "rev (le_bytes d (y + header M))"] show ?thesis
    by (simp add: signed_digits_def le_bytes_add d(1) [unfolded d(1)] flip: d(1)) (simp add: d(1) le_bytes_add)
qed

lemma sint_not: "sint (NOT n :: u64) = - sint n - 1"
proof -
  have "sint (NOT n) = NOT (sint n)"
    by (rule bit_eqI) (auto simp: bit_sint_iff bit_not_iff not_less min_def dest: bit_imp_le_length)
  then show ?thesis by (simp add: not_int_def)
qed

lemma sint_magnitude: "sint n = (if bit n 63 then - int (unat (magnitude n)) - 1 else int (unat (magnitude n)))"
proof -
  have nn: "sint m = int (unat m)" if "\<not> bit m 63" for m :: u64
  proof -
    have "\<not> bit m i" if "63 \<le> i" for i using that \<open>\<not> bit m 63\<close> bit_imp_le_length [of m i] by (cases "i = 63") auto
    then have "sint m = uint m" by (intro bit_eqI) (auto simp: bit_sint_iff bit_uint_iff min_def not_le dest: bit_imp_le_length)
    then show ?thesis by simp
  qed
  show ?thesis
  proof (cases "bit n 63")
    case True
    then have "sint (NOT n) = int (unat (NOT n))" by (intro nn) (simp add: bit_not_iff)
    with True show ?thesis by (simp add: sint_not magnitude_def)
  next
    case False
    then show ?thesis using nn by (simp add: magnitude_def)
  qed
qed


lemma signed_order:
  assumes "sint a < sint b"
  shows "diverges (signed_code a) (signed_code b)"
proof -
  define L where "L = SignedEncodingLength a"
  define M where "M = SignedEncodingLength b"
  note sa = signed_length [OF L_def] and sb = signed_length [OF M_def]
  have short: "L < M \<or> L = M" if "unat (magnitude a) \<le> unat (magnitude b)"
  proof (rule ccontr)
    assume "\<not> ?thesis"
    then have "M \<le> L - 1" "2 \<le> L" using sb(1) by linarith+
    then have "(2 :: nat) ^ (7 * M - 1) \<le> 2 ^ (7 * (L - 1) - 1)" by (intro power_increasing) auto
    with sa(4) [OF \<open>2 \<le> L\<close>] sb(3) that show False by linarith
  qed
  have long: "M < L \<or> L = M" if "unat (magnitude b) \<le> unat (magnitude a)"
  proof (rule ccontr)
    assume "\<not> ?thesis"
    then have "L \<le> M - 1" "2 \<le> M" using sa(1) by linarith+
    then have "(2 :: nat) ^ (7 * L - 1) \<le> 2 ^ (7 * (M - 1) - 1)" by (intro power_increasing) auto
    with sb(4) [OF \<open>2 \<le> M\<close>] sa(3) that show False by linarith
  qed
  note up = signed_digits_order [OF sa(1,3) sb(1,3)] and down = signed_digits_order [OF sb(1,3) sa(1,3)]
  show ?thesis
  proof (cases "bit a 63"; cases "bit b 63")
    assume s: "bit a 63" "bit b 63"
    then have "unat (magnitude b) < unat (magnitude a)" using assms unfolding sint_magnitude by (simp only: s if_True)
    with down long show ?thesis using s by (auto simp: signed_code_def L_def [symmetric] M_def [symmetric] diverges_not)
  next
    assume s: "\<not> bit a 63" "\<not> bit b 63"
    then have "unat (magnitude a) < unat (magnitude b)" using assms unfolding sint_magnitude by (simp only: s if_False)
    with up short show ?thesis using s by (auto simp: signed_code_def L_def [symmetric] M_def [symmetric])
  next
    assume s: "\<not> bit a 63" "bit b 63"
    then have "int (unat (magnitude a)) < - int (unat (magnitude b)) - 1" using assms unfolding sint_magnitude by (simp only: if_True if_False)
    then show ?thesis by linarith
  next
    assume s: "bit a 63" "\<not> bit b 63"
    obtain c cs d ds where d: "signed_digits L (unat (magnitude a)) = c # cs" "0x80 \<le> c" "signed_digits M (unat (magnitude b)) = d # ds" "0x80 \<le> d"
      using first_digit [OF sa(1,3)] first_digit [OF sb(1,3)] by blast
    have "NOT c < 0x80" using d(2) by (simp add: word_less_nat_alt word_le_nat_alt unat_not_word)
    with d(4) have "NOT c < d" by (rule less_le_trans [rotated])
    then show ?thesis using s d(1,3) by (simp add: Convert8_def signed_code_def L_def [symmetric] M_def [symmetric])
  qed
qed

section \<open>Reading\<close>

lemma unmask:
  "Convert8 invert b XOR ucast ((if invert then - 1 else 0 :: u64) AND 0xff) = b"
proof -
  have "(ucast ((- 1 :: u64) AND 0xff) :: u8) = - 1" by simp
  moreover have "NOT b XOR - 1 = b" by (metis bit.double_compl bit.xor_one_right)
  ultimately show ?thesis by (cases invert) (simp_all only: Convert8_def if_True if_False, simp)
qed

lemma fold_push_convert:
  "fold push_byte (converts invert bs) (if invert then - 1 else 0) = Convert64 invert (of_nat (le_nat (rev bs)))"
  using fold_push_not [of bs] by (cases invert) (simp_all add: Convert64_def fold_push)

lemma of_be64_fold: "length bs = 8 \<Longrightarrow> of_be64 bs = fold push_byte bs x"
proof -
  assume l: "length bs = 8"
  have "(of_nat (256 ^ 8) :: u64) = 0" by simp
  then show ?thesis unfolding of_be64_def fold_push l by (simp only: mult_zero_right add_0_left)
qed

lemma mask_table: "1 \<le> L \<Longrightarrow> L \<le> 10 \<Longrightarrow> kLengthToMask ! L = of_nat (header L)"
proof -
  assume L: "1 \<le> L" "L \<le> 10"
  have "[1..<11] = [1, 2, 3, 4, 5, 6, 7, 8, 9, 10]" by (simp add: upt_rec)
  with L have "L \<in> set [1, 2, 3, 4, 5, 6, 7, 8, 9, 10]" by (metis atLeastLessThan_iff le_imp_less_Suc eval_nat_numeral(3) semiring_norm(26,27,28) set_upt)
  moreover have "\<forall>L \<in> set [1, 2, 3, 4, 5, 6, 7, 8, 9, 10]. kLengthToMask ! L = of_nat (header L)"
    by (simp add: kLengthToMask_def header_def)
  ultimately show ?thesis by blast
qed

lemma strip_header:
  assumes "L = SignedEncodingLength n"
  shows "Convert64 (bit n 63) (of_nat (unat (magnitude n) + header L)) XOR kLengthToMask ! L = n"
proof -
  note sl = signed_length [OF assms]
  have "(2 :: nat) ^ (7 * L - 1) \<le> 2 ^ (7 * L)" by (rule power_increasing) simp_all
  with sl(3) have x: "unat (magnitude n) < 2 ^ (7 * L)" by linarith
  have "(of_nat (unat (magnitude n) + header L) :: u64) = magnitude n XOR of_nat (header L)"
    using disjoint_xor [OF x, of "2 ^ L - 1", where ?'a = 64] by (simp add: header_def mult.commute del: of_nat_add of_nat_mult)
  moreover have "Convert64 i (v XOR w) XOR w = Convert64 i v" for i and v w :: u64
    by (rule bit_word_eqI) (auto simp: Convert64_def bit_xor_iff bit_not_iff)
  ultimately have "Convert64 (bit n 63) (of_nat (unat (magnitude n) + header L)) XOR of_nat (header L) = Convert64 (bit n 63) (magnitude n)" by simp
  also have "\<dots> = n" by (simp add: Convert64_def magnitude_def)
  finally show ?thesis using mask_table [OF sl(1,2)] by simp
qed

lemma signed_result_ok:
  assumes "L = SignedEncodingLength n"
  shows "signed_result (signed_code n @ rest) L (Convert64 (bit n 63) (of_nat (unat (magnitude n) + header L))) = Some (Some (n, rest))"
  unfolding signed_result_def Let_def strip_header [OF assms] by (simp add: assms signed_code_def signed_digits_def)


lemma short_length:
  assumes "1 \<le> L" "L \<le> 7" "x < 2 ^ (7 * L - 1)" and b: "unat (b :: u8) = (x + header L) div 256 ^ (L - 1)"
  shows "b \<noteq> 0xff \<and> 7 - Log2FloorNonZero (ucast (b XOR 0xff)) = L"
proof -
  obtain k where k: "L = Suc k" using assms(1) by (cases L) auto
  define e where "e = (2 :: nat) ^ (6 - k)"
  have k6: "k \<le> 6" using assms(2) k by simp
  define y where "y = x div 256 ^ k"
  have ek: "e * 2 ^ k = 64" using k6 by (simp add: e_def power_add [symmetric])
  have "7 * L - 1 = 8 * k + (6 - k)" using k6 k by simp
  then have "(2 :: nat) ^ (7 * L - 1) = 256 ^ k * e" by (simp add: power_add power_mult e_def)
  with assms(3) have y: "y < e" unfolding y_def by (simp add: less_mult_imp_div_less mult.commute)
  have "header L = 256 ^ k * ((2 * 2 ^ k - 1) * (2 * e))"
  proof -
    have "(2 :: nat) ^ (7 * L) = 256 ^ k * (2 * e)"
    proof -
      have "7 * L = Suc (7 * L - 1)" using k by simp
      then have "(2 :: nat) ^ (7 * L) = 2 * 2 ^ (7 * L - 1)" by (metis power_Suc)
      then show ?thesis using \<open>(2 :: nat) ^ (7 * L - 1) = 256 ^ k * e\<close> by simp
    qed
    then show ?thesis by (simp add: header_def k)
  qed
  then have ub: "unat b = y + (2 * 2 ^ k - 1) * (2 * e)" unfolding b k y_def by simp
  have "(2 * 2 ^ k - 1) * (2 * e) = 256 - 2 * e" using ek by (simp add: diff_mult_distrib algebra_simps)
  with ub have ub: "unat b = y + (256 - 2 * e)" by simp
  have e: "1 \<le> e" "e \<le> 64" using ek by (simp_all add: e_def power_increasing [of _ 6 2, simplified])
  define c where "c = b XOR 0xff"
  have "c = NOT b"
  proof -
    have "(0xff :: u8) = - 1" by simp
    then show ?thesis unfolding c_def by (metis bit.xor_one_right)
  qed
  then have uc: "unat c = 255 - unat b" by (simp add: unat_not_word)
  with ub y e have c: "e \<le> unat c" "unat c < 2 * e" by linarith+
  define g where "g = (ucast c :: u32)"
  have ug: "unat g = unat c" using unat_of_nat_mod [of "unat c", where ?'a = 32] unat_u8_lt [of c] by (simp add: g_def)
  then have "g \<noteq> 0" using c e by auto
  note lg = log2_32 [OF this]
  have "Log2FloorNonZero g = 6 - k"
    by (rule log2_unique [OF lg]) (use c ug in \<open>simp_all add: e_def\<close>)
  moreover have "b \<noteq> 0xff" using uc c e by auto
  ultimately show ?thesis using k k6 by (simp add: g_def c_def)
qed

lemma three_digits:
  assumes h: "header (m + 3) = 256 ^ m * (255 * 65536 + h)" and s: "s = x div 256 ^ m + h" "s < 65536"
  shows "signed_digits (m + 3) x = 0xff # of_nat (s div 256) # of_nat s # rev (le_bytes m x)"
proof -
  define v where "v = x + header (m + 3)"
  have "le_bytes 3 w = [of_nat w, of_nat (w div 256), of_nat (w div 65536)]" for w
    by (simp add: numeral_3_eq_3 div_mult2_eq [symmetric])
  then have "signed_digits (m + 3) x =
      of_nat (v div 256 ^ m div 65536) # of_nat (v div 256 ^ m div 256) # of_nat (v div 256 ^ m) # rev (le_bytes m v)"
    by (simp only: signed_digits_def v_def [symmetric] le_bytes_add rev_append rev.simps append.simps append_Nil append_assoc)
  moreover have t: "v div 256 ^ m = s + 255 * 65536" unfolding v_def h s(1) by simp
  moreover have "(s + 255 * 65536) div 65536 = 255" using s(2) by simp
  moreover have "(of_nat ((s + 255 * 65536) div 256) :: u8) = of_nat (s div 256)"
  proof -
    have e: "(s + 255 * 65536) div 256 = s div 256 + 65280" by simp
    have "(a + 65280) mod 256 = a mod (256 :: nat)" for a using mod_mult_self1 [of a 255 256] by simp
    then show ?thesis unfolding e by (simp add: word_unat_eq_iff unat_of_nat_mod del: of_nat_add)
  qed
  moreover have "(of_nat (s + 255 * 65536) :: u8) = of_nat s"
  proof -
    have "(a + 255 * 65536) mod 256 = a mod (256 :: nat)" for a using mod_mult_self1 [of a 65280 256] by simp
    then show ?thesis by (simp only: word_unat_eq_iff unat_of_nat_u8)
  qed
  moreover have "le_bytes m v = le_bytes m x" unfolding v_def h by (rule le_bytes_mod)
  ultimately show ?thesis by simp
qed

lemma long_digits:
  assumes "L = SignedEncodingLength n" and "8 \<le> L"
  obtains b1 b2 bs where "signed_digits L (unat (magnitude n)) = 0xff # b1 # b2 # bs"
    "(L = 8 \<and> b1 < 0x80) \<or> (L = 9 \<and> 0x80 \<le> b1 \<and> b1 < 0xc0) \<or> (L = 10 \<and> b1 = 0xc0 \<and> b2 < 0x80)"
proof -
  note sl = signed_length [OF assms(1)]
  define x where "x = unat (magnitude n)"
  have x63: "x < 2 ^ 63" using magnitude_bound by (simp add: x_def)
  consider "L = 8" | "L = 9" | "L = 10" using assms(2) sl(2) by linarith
  then show thesis
  proof cases
    case 1
    define y where "y = x div 256 ^ 5"
    have y: "y < 2 ^ 15" using sl(3) by (simp add: 1 y_def x_def less_mult_imp_div_less)
    have "signed_digits (5 + 3) x = 0xff # of_nat (y div 256) # of_nat y # rev (le_bytes 5 x)"
      by (rule three_digits [where h = 0]) (use y in \<open>simp_all add: header_def y_def\<close>)
    moreover have "(of_nat (y div 256) :: u8) < 0x80"
      using y by (simp add: word_less_nat_alt less_mult_imp_div_less)
    ultimately show thesis using that 1 by (simp add: x_def)
  next
    case 2
    define y where "y = x div 256 ^ 6"
    have y: "y < 2 ^ 14" using sl(3) by (simp add: 2 y_def x_def less_mult_imp_div_less)
    have "signed_digits (6 + 3) x = 0xff # of_nat ((y + 32768) div 256) # of_nat (y + 32768) # rev (le_bytes 6 x)"
      by (rule three_digits [where h = 32768]) (use y in \<open>simp_all add: header_def y_def\<close>)
    moreover have "y div 256 < 64" using y by (simp add: less_mult_imp_div_less)
    then have u: "unat (of_nat ((y + 32768) div 256) :: u8) = y div 256 + 128" by simp
    have "(0x80 :: u8) \<le> of_nat ((y + 32768) div 256)" "(of_nat ((y + 32768) div 256) :: u8) < 0xc0"
      using \<open>y div 256 < 64\<close> unfolding word_le_nat_alt word_less_nat_alt u by simp_all
    ultimately show thesis using that 2 by (simp add: x_def)
  next
    case 3
    define y where "y = x div 256 ^ 7"
    have y: "y < 128" using x63 by (simp add: y_def less_mult_imp_div_less)
    have "signed_digits (7 + 3) x = 0xff # of_nat ((y + 49152) div 256) # of_nat (y + 49152) # rev (le_bytes 7 x)"
      by (rule three_digits [where h = 49152]) (use y in \<open>simp_all add: header_def y_def\<close>)
    moreover have "(y + 49152) div 256 = 192" using y by simp
    moreover have "(of_nat (y + 49152) :: u8) < 0x80"
    proof -
      have "(y + 49152) mod 256 = y mod (256 :: nat)" using mod_mult_self1 [of y 192 256] by simp
      then show ?thesis using y by (simp add: word_less_nat_alt del: of_nat_add)
    qed
    ultimately show thesis using that 3 by (simp add: x_def)
  qed
qed

lemma top_bit: "0x80 \<le> b \<Longrightarrow> (Convert8 invert b AND 0x80 = 0) = invert"
proof -
  assume b: "0x80 \<le> b"
  then have "unat b div 128 = 1" using unat_u8_lt [of b] by (simp add: word_le_nat_alt)
  moreover have "bit b 7 \<longleftrightarrow> odd (unat b div 128)" unfolding bit_unat_iff by simp
  ultimately have "bit b 7" by simp
  moreover have "w AND 0x80 = 0 \<longleftrightarrow> \<not> bit w 7" for w :: u8 using and_exp_eq_0_iff_not_bit [of w 7] by simp
  ultimately show ?thesis by (simp add: Convert8_def bit_not_iff)
qed

lemma digits_number: "1 \<le> L \<Longrightarrow> x < 2 ^ (7 * L - 1) \<Longrightarrow> le_nat (rev (signed_digits L x)) = x + header L"
  using digits_value(1) [of L x] by (simp add: signed_digits_def le_nat_le_bytes)

lemma last_eight:
  assumes "8 \<le> L"
  shows "of_be64 (converts invert (drop (L - 8) (signed_digits L x))) = Convert64 invert (of_nat (x + header L))"
proof -
  have "le_nat (rev (drop (L - 8) (signed_digits L x))) = (x + header L) mod 256 ^ 8"
    using assms by (simp add: signed_digits_def drop_rev le_bytes_take le_nat_le_bytes)
  moreover have "(of_nat (v mod 256 ^ 8) :: u64) = of_nat v" for v by (simp add: word_unat_eq_iff unat_of_nat_mod)
  ultimately have "Convert64 invert (of_nat (le_nat (rev (drop (L - 8) (signed_digits L x))))) = Convert64 invert (of_nat (x + header L))"
    by (simp only:)
  moreover have "length (converts invert (drop (L - 8) (signed_digits L x))) = 8" using assms by (simp add: signed_digits_def)
  ultimately show ?thesis using of_be64_fold fold_push_convert by metis
qed

lemma read_signed: "ReadSignedNumIncreasing (signed_code n @ rest) = Some (Some (n, rest))"
proof -
  define L where "L = SignedEncodingLength n"
  define x where "x = unat (magnitude n)"
  define i where "i = bit n 63"
  define src where "src = signed_code n @ rest"
  note sl = signed_length [OF L_def, folded x_def]
  have code: "signed_code n = converts i (signed_digits L x)" by (simp add: signed_code_def L_def x_def i_def)
  have len: "length (signed_digits L x) = L" by (simp add: signed_digits_def)
  note res = signed_result_ok [OF L_def, of rest, folded x_def i_def src_def]
  obtain b ds where b: "signed_digits L x = b # ds" "0x80 \<le> b" "unat b = (x + header L) div 256 ^ (L - 1)"
    using first_digit [OF sl(1,3)] by blast
  have src0: "src \<noteq> []" "src ! 0 = Convert8 i b" by (simp_all add: src_def code b(1))
  show ?thesis
  proof (cases "L \<le> 7")
    case True
    note sh = short_length [OF sl(1) True sl(3) b(3)]
    have "fold (\<lambda>k x. push_bit 8 x OR ucast (src ! k)) [0..<L] (if i then - 1 else 0) = fold push_byte (converts i (signed_digits L x)) (if i then - 1 else 0)"
      using fold_index [of 0 L src] len by (simp add: src_def code)
    also have "\<dots> = Convert64 i (of_nat (x + header L))" by (simp only: fold_push_convert digits_number [OF sl(1,3)])
    finally show ?thesis using sh res len src0
      by (simp only: ReadSignedNumIncreasing_def src_def [symmetric] Let_def top_bit [OF b(2)] unmask if_False if_True not_False_eq_True) (simp add: src_def code)
  next
    case False
    then have "8 \<le> L" by simp
    then obtain b1 b2 bs where d: "signed_digits L x = 0xff # b1 # b2 # bs"
      "(L = 8 \<and> b1 < 0x80) \<or> (L = 9 \<and> 0x80 \<le> b1 \<and> b1 < 0xc0) \<or> (L = 10 \<and> b1 = 0xc0 \<and> b2 < 0x80)"
      using long_digits [OF L_def] unfolding x_def by metis
    have sb: "src ! 1 = Convert8 i b1" "src ! 2 = Convert8 i b2" unfolding src_def code d(1) by simp_all
    have "b = 0xff" using b(1) d(1) by simp
    then have tb: "(Convert8 i 0xff AND 0x80 = 0) = i" using top_bit [OF b(2)] by blast
    have "take 8 (drop (L - 8) src) = converts i (drop (L - 8) (signed_digits L x))"
      using \<open>8 \<le> L\<close> len by (simp add: src_def code converts_def drop_map)
    then have tail: "of_be64 (take 8 (drop (L - 8) src)) = Convert64 i (of_nat (x + header L))" using last_eight [OF \<open>8 \<le> L\<close>] by simp
    have "L \<le> length src" "8 \<le> length src" using len \<open>8 \<le> L\<close> by (simp_all add: src_def code)
    define fin where "fin k = (if length src < k then Some None
      else signed_result src k (of_be64 (take 8 (drop (k - 8) src))))" for k
    have "fin L = Some (Some (n, rest))" using \<open>L \<le> length src\<close> tail res by (simp only: fin_def not_less [symmetric] if_False)
    moreover have "ReadSignedNumIncreasing src = (if 0x80 \<le> b1 then if b1 < 0xc0 then fin 9
        else if b1 = 0xc0 \<and> b2 < 0x80 then fin 10 else Some None else fin 8)"
      using \<open>8 \<le> length src\<close>
      by (simp only: ReadSignedNumIncreasing_def Let_def tb unmask src0 sb \<open>b = 0xff\<close> not_less [symmetric] fin_def [symmetric] if_False if_True simp_thms)
    ultimately show ?thesis using d(2) unfolding src_def [symmetric] by (elim disjE conjE) (auto simp: not_le)
  qed
qed

end
