(* ===== verification/OrderedItems.thy ===== *)
theory OrderedItems
  imports OrderedSigned
begin

text \<open>
  Keys made of items of several kinds: the four kinds of item satisfy the interface \<open>item_code\<close> in both directions,
  so a key of items written one after another sorts as its items do and is read back item by item.
\<close>

section \<open>Doubles\<close>

text \<open>
  The bit pattern of a double read as a sign and a magnitude, which orders the doubles that are numbers. The two zeros
  have one value; the reader gives back the positive one.
\<close>

definition double_value :: "u64 \<Rightarrow> int" where
  "double_value x = (if bit x 63 then - int (unat (x - 0x8000000000000000)) else int (unat x))"

definition positive_zero :: "u64 \<Rightarrow> u64" where
  "positive_zero x = (if x = 0x8000000000000000 then 0 else x)"

lemma top_bit_64: "bit (x :: u64) 63 \<longleftrightarrow> 2 ^ 63 \<le> unat x"
proof -
  have "unat x div 2 ^ 63 = 0 \<or> unat x div 2 ^ 63 = 1" using unat_u64_lt [of x] by (auto simp: div_eq_0_iff not_less)
  then show ?thesis unfolding bit_unat_iff by (auto simp: div_eq_0_iff)
qed

lemma min_minus:
  assumes "bit (x :: u64) 63"
  shows "unat (x - 0x8000000000000000) = unat x - 2 ^ 63"
    and "unat (0x8000000000000000 - x) = (if unat x = 2 ^ 63 then 0 else 3 * 2 ^ 63 - unat x)"
proof -
  have le: "(0x8000000000000000 :: u64) \<le> x" using assms by (simp add: top_bit_64 word_le_nat_alt)
  then show "unat (x - 0x8000000000000000) = unat x - 2 ^ 63" by (simp add: unat_sub)
  show "unat (0x8000000000000000 - x) = (if unat x = 2 ^ 63 then 0 else 3 * 2 ^ 63 - unat x)"
  proof (cases "unat x = 2 ^ 63")
    case True
    then have "x = 0x8000000000000000" by (simp add: word_unat_eq_iff)
    then show ?thesis by simp
  next
    case False
    with assms have gt: "2 ^ 63 < unat x" by (simp add: top_bit_64)
    have "x = of_nat (unat x)" by simp
    then have "0x8000000000000000 - x = (of_nat (2 ^ 63 + 2 ^ 64 - unat x) :: u64)"
      using unat_u64_lt [of x] by (subst of_nat_diff) simp_all
    then have "unat (0x8000000000000000 - x) = (2 ^ 63 + 2 ^ 64 - unat x) mod 2 ^ 64"
      using unat_of_nat_mod [of "2 ^ 63 + 2 ^ 64 - unat x", where ?'a = 64] by (simp only: len_num1 len_bit0 len_bit1) simp
    also have "\<dots> = 3 * 2 ^ 63 - unat x" using gt unat_u64_lt [of x] by simp
    finally show ?thesis using False by simp
  qed
qed

lemma sint_cases: "sint w = (if bit w 63 then int (unat w) - 2 ^ 64 else int (unat w))" for w :: u64
proof (cases "bit w 63")
  case True
  have "int (unat (NOT w)) = 2 ^ 64 - 1 - int (unat w)" using unat_u64_lt [of w] by (simp add: unat_not_word of_nat_diff)
  with True show ?thesis unfolding sint_magnitude magnitude_def by (simp only: if_True)
next
  case False
  then show ?thesis unfolding sint_magnitude magnitude_def by (simp only: if_False)
qed

lemma double_encode: "sint (EncodeDoubleAsInt64 x) = double_value x"
proof (cases "bit x 63")
  case True
  note m = min_minus [OF this]
  have ge: "2 ^ 63 \<le> unat x" using True by (simp only: top_bit_64)
  have "sint (0x8000000000000000 - x) = - int (unat (x - 0x8000000000000000))"
  proof (cases "unat x = 2 ^ 63")
    case False
    have "bit (0x8000000000000000 - x) 63" unfolding top_bit_64 m(2) using False unat_u64_lt [of x] by simp
    then show ?thesis unfolding sint_cases m using False ge unat_u64_lt [of x] by (simp add: of_nat_diff)
  next
    case eq: True
    then have "0x8000000000000000 - x = 0" using m(2) by (simp add: unat_eq_0)
    then show ?thesis using eq by (simp add: m(1))
  qed
  with True show ?thesis by (simp only: EncodeDoubleAsInt64_def double_value_def if_True)
next
  case False
  then show ?thesis by (simp only: EncodeDoubleAsInt64_def double_value_def if_False sint_cases)
qed

lemma double_decode: "DecodeDoubleFromInt64 (EncodeDoubleAsInt64 x) = positive_zero x"
proof (cases "bit x 63")
  case True
  show ?thesis
  proof (cases "unat x = 2 ^ 63")
    case eq: True
    then have "x = 0x8000000000000000" by (simp add: word_unat_eq_iff)
    then show ?thesis by (simp add: DecodeDoubleFromInt64_def EncodeDoubleAsInt64_def positive_zero_def)
  next
    case False
    then have "bit (0x8000000000000000 - x) 63" unfolding top_bit_64 min_minus(2) [OF True] using unat_u64_lt [of x] by simp
    moreover have "x \<noteq> 0x8000000000000000" using False by auto
    ultimately show ?thesis using True by (simp add: DecodeDoubleFromInt64_def EncodeDoubleAsInt64_def positive_zero_def)
  qed
next
  case False
  then have "x \<noteq> 0x8000000000000000" by auto
  with False show ?thesis by (simp add: DecodeDoubleFromInt64_def EncodeDoubleAsInt64_def positive_zero_def)
qed

lemma double_value_eq: "double_value x = double_value y \<longleftrightarrow> positive_zero x = positive_zero y"
proof
  assume "double_value x = double_value y"
  then have "sint (EncodeDoubleAsInt64 x) = sint (EncodeDoubleAsInt64 y)" by (simp only: double_encode)
  then have "EncodeDoubleAsInt64 x = EncodeDoubleAsInt64 y" by (simp only: signed_word_eqI)
  then show "positive_zero x = positive_zero y" by (metis double_decode)
next
  have z: "double_value (positive_zero x) = double_value x" for x
    by (cases "x = 0x8000000000000000") (simp_all add: positive_zero_def double_value_def)
  assume "positive_zero x = positive_zero y"
  then show "double_value x = double_value y" by (metis z)
qed

section \<open>The kinds of item\<close>

text \<open>An item has an increasing and a decreasing encoding; the second complements every byte of the first.\<close>

locale dual_code = item_code lt norm code wr rd
  for lt :: "'a \<Rightarrow> 'a \<Rightarrow> bool" and norm and code and wr and rd +
  fixes wr_down :: "bytes \<Rightarrow> 'a \<Rightarrow> bytes option" and rd_down :: "bytes \<Rightarrow> 'a reading"
  assumes appends_down: "wr_down dest a = Some (dest @ map NOT (code a))"
    and roundtrip_down: "length (code a @ rest) < 2 ^ 64 \<Longrightarrow> rd_down (map NOT (code a) @ rest) = Some (Some (norm a, rest))"

sublocale dual_code \<subseteq> down: item_code "\<lambda>a b. lt b a" norm "\<lambda>a. map NOT (code a)" wr_down rd_down
  by unfold_locales (use linear in blast, use canonical in metis, use order in \<open>simp add: diverges_not\<close>, simp add: appends_down, simp add: roundtrip_down)

definition write_string_item :: "bytes \<Rightarrow> bytes option \<Rightarrow> bytes option" where
  "write_string_item dest s = (case s of None \<Rightarrow> Some (WriteInfinity dest) | Some s \<Rightarrow> WriteString dest s)"

definition write_string_item_decreasing :: "bytes \<Rightarrow> bytes option \<Rightarrow> bytes option" where
  "write_string_item_decreasing dest s = (case s of None \<Rightarrow> Some (WriteInfinityDecreasing dest) | Some s \<Rightarrow> WriteStringDecreasing dest s)"

interpretation strings: dual_code less_infinity "\<lambda>s. s" string_or_infinity write_string_item "\<lambda>src. ReadStringOrInfinity src []"
  write_string_item_decreasing "\<lambda>src. ReadStringOrInfinityDecreasing src []"
proof unfold_locales
  show "write_string_item dest s = Some (dest @ string_or_infinity s)" for dest s
    by (cases s) (simp_all add: write_string_item_def string_or_infinity_def write_string infinity_code_def WriteInfinity_def
        WriteInfinityInternal_def Convert8_def kEscape2_def kInfinity_def)
  show "write_string_item_decreasing dest s = Some (dest @ map NOT (string_or_infinity s))" for dest s
    by (cases s) (simp_all add: write_string_item_decreasing_def string_or_infinity_def write_string_decreasing infinity_code_def
        WriteInfinityDecreasing_def WriteInfinityInternal_def Convert8_def kEscape2_def kInfinity_def)
qed (use less_infinity_linear less_infinity_order read_string_or_infinity [of False] read_string_or_infinity [of True]
    in \<open>auto simp: ReadStringOrInfinity_def ReadStringOrInfinityDecreasing_def\<close>)

interpretation numbers: dual_code "(<)" "\<lambda>n. n" num_code "\<lambda>dest n. Some (WriteNumIncreasing dest n)" ReadNumIncreasing
  "\<lambda>dest n. Some (WriteNumDecreasing dest n)" ReadNumDecreasing
  by unfold_locales (simp_all add: neq_iff num_order write_num write_num_decreasing read_num read_num_decreasing)

lemma signed_code_not: "signed_code (NOT n) = map NOT (signed_code n)"
proof -
  have "magnitude (NOT n) = magnitude n" by (simp add: magnitude_def bit_not_iff)
  moreover from this have "SignedEncodingLength (NOT n) = SignedEncodingLength n"
    by (simp add: SignedEncodingLength_def magnitude_def)
  moreover have "bit (NOT n) 63 \<longleftrightarrow> \<not> bit n 63" by (simp add: bit_not_iff)
  ultimately show ?thesis by (cases "bit n 63") (simp_all add: signed_code_def o_def)
qed

lemma signed_linear: "a \<noteq> b \<Longrightarrow> sint a < sint b \<or> sint b < sint a" for a b :: u64
  by (metis linorder_neqE signed_word_eqI)

interpretation signed_numbers: dual_code "\<lambda>a b. sint a < sint b" "\<lambda>n. n" signed_code WriteSignedNumIncreasing ReadSignedNumIncreasing
  WriteSignedNumDecreasing ReadSignedNumDecreasing
  by unfold_locales (use signed_linear in \<open>simp_all add: signed_order write_signed read_signed WriteSignedNumDecreasing_def
      ReadSignedNumDecreasing_def flip: signed_code_not\<close>)

interpretation doubles: dual_code "\<lambda>a b. double_value a < double_value b" positive_zero "\<lambda>x. signed_code (EncodeDoubleAsInt64 x)"
  WriteDoubleIncreasing ReadDoubleIncreasing WriteDoubleDecreasing ReadDoubleDecreasing
proof unfold_locales
  show "positive_zero a = positive_zero b \<Longrightarrow> signed_code (EncodeDoubleAsInt64 a) = signed_code (EncodeDoubleAsInt64 b)" for a b
    by (metis double_encode double_value_eq signed_word_eqI)
  show "positive_zero a \<noteq> positive_zero b \<Longrightarrow> double_value a < double_value b \<or> double_value b < double_value a" for a b
    by (simp add: double_value_eq [symmetric] neq_iff)
qed (simp_all add: signed_order double_encode WriteDoubleIncreasing_def WriteDoubleDecreasing_def ReadDoubleIncreasing_def
    ReadDoubleDecreasing_def signed_numbers.appends signed_numbers.appends_down signed_numbers.roundtrip
    signed_numbers.roundtrip_down double_decode)

section \<open>Keys\<close>

text \<open>The items of a key, each with the direction it is written in: \<open>True\<close> for decreasing.\<close>

datatype item = Str bool "bytes option" | Num bool u64 | Signed bool u64 | Double bool u64

datatype key_kind = Strings bool | Numbers bool | Signeds bool | Doubles bool

fun item_kind :: "item \<Rightarrow> key_kind" where
  "item_kind (Str d s) = Strings d"
| "item_kind (Num d n) = Numbers d"
| "item_kind (Signed d n) = Signeds d"
| "item_kind (Double d x) = Doubles d"

fun write_item :: "bytes \<Rightarrow> item \<Rightarrow> bytes option" where
  "write_item dest (Str d s) = (if d then write_string_item_decreasing dest s else write_string_item dest s)"
| "write_item dest (Num d n) = Some (if d then WriteNumDecreasing dest n else WriteNumIncreasing dest n)"
| "write_item dest (Signed d n) = (if d then WriteSignedNumDecreasing dest n else WriteSignedNumIncreasing dest n)"
| "write_item dest (Double d x) = (if d then WriteDoubleDecreasing dest x else WriteDoubleIncreasing dest x)"

fun write_items :: "bytes \<Rightarrow> item list \<Rightarrow> bytes option" where
  "write_items dest [] = Some dest"
| "write_items dest (i # is) = do { dest \<leftarrow> write_item dest i; write_items dest is }"

definition reading_map :: "('a \<Rightarrow> 'b) \<Rightarrow> 'a reading \<Rightarrow> 'b reading" where
  "reading_map f = map_option (map_option (\<lambda>(a, rest). (f a, rest)))"

fun read_item :: "key_kind \<Rightarrow> bytes \<Rightarrow> item reading" where
  "read_item (Strings d) src = reading_map (Str d) (if d then ReadStringOrInfinityDecreasing src [] else ReadStringOrInfinity src [])"
| "read_item (Numbers d) src = reading_map (Num d) (if d then ReadNumDecreasing src else ReadNumIncreasing src)"
| "read_item (Signeds d) src = reading_map (Signed d) (if d then ReadSignedNumDecreasing src else ReadSignedNumIncreasing src)"
| "read_item (Doubles d) src = reading_map (Double d) (if d then ReadDoubleDecreasing src else ReadDoubleIncreasing src)"

fun read_items :: "key_kind list \<Rightarrow> bytes \<Rightarrow> item list reading" where
  "read_items [] src = Some (Some ([], src))"
| "read_items (k # ks) src =
     (case read_item k src of
        None \<Rightarrow> None
      | Some None \<Rightarrow> Some None
      | Some (Some (i, rest)) \<Rightarrow> reading_map ((#) i) (read_items ks rest))"

text \<open>The order of two items of one kind, and the normal form an item is read back in.\<close>

fun item_less :: "item \<Rightarrow> item \<Rightarrow> bool" where
  "item_less (Str d s) (Str _ t) = (if d then less_infinity t s else less_infinity s t)"
| "item_less (Num d m) (Num _ n) = (if d then n < m else m < n)"
| "item_less (Signed d m) (Signed _ n) = (if d then sint n < sint m else sint m < sint n)"
| "item_less (Double d x) (Double _ y) = (if d then double_value y < double_value x else double_value x < double_value y)"
| "item_less i j = False"

fun items_less :: "item list \<Rightarrow> item list \<Rightarrow> bool" where
  "items_less (i # is) (j # js) \<longleftrightarrow> item_less i j \<or> \<not> item_less j i \<and> items_less is js"
| "items_less is js \<longleftrightarrow> False"

fun item_normal :: "item \<Rightarrow> item" where
  "item_normal (Double d x) = Double d (positive_zero x)"
| "item_normal i = i"

fun item_bytes :: "item \<Rightarrow> bytes" where
  "item_bytes (Str d s) = converts d (string_or_infinity s)"
| "item_bytes (Num d n) = converts d (num_code n)"
| "item_bytes (Signed d n) = converts d (signed_code n)"
| "item_bytes (Double d x) = converts d (signed_code (EncodeDoubleAsInt64 x))"

lemma write_item_bytes: "write_item dest i = Some (dest @ item_bytes i)"
  by (cases i) (simp_all add: strings.appends strings.appends_down signed_numbers.appends signed_numbers.appends_down
      doubles.appends doubles.appends_down write_num write_num_decreasing)

lemma write_items_bytes: "write_items dest is = Some (dest @ concat (map item_bytes is))"
  by (induction "is" arbitrary: dest) (simp_all add: write_item_bytes)

lemma encode_eq: "EncodeDoubleAsInt64 x = EncodeDoubleAsInt64 y \<longleftrightarrow> positive_zero x = positive_zero y"
  by (metis double_decode double_encode double_value_eq signed_word_eqI)

lemma item_less_append:
  "item_kind i = item_kind j \<Longrightarrow>
    bytes_less (item_bytes i @ us) (item_bytes j @ vs) \<longleftrightarrow> item_less i j \<or> item_normal i = item_normal j \<and> bytes_less us vs"
  by (cases i; cases j)
    (auto simp: strings.less_append strings.down.less_append numbers.less_append numbers.down.less_append
      signed_numbers.less_append signed_numbers.down.less_append double_encode encode_eq)

lemma item_less_normal:
  assumes "item_kind i = item_kind j"
  shows "item_less i j \<or> item_less j i \<longleftrightarrow> item_normal i \<noteq> item_normal j"
proof (cases i)
  case (Str d a)
  with assms obtain b where "j = Str d b" by (cases j) auto
  with Str show ?thesis using strings.connected [of a b] by auto
next
  case (Num d a)
  with assms obtain b where "j = Num d b" by (cases j) auto
  with Num show ?thesis using numbers.connected [of a b] by auto
next
  case (Signed d a)
  with assms obtain b where "j = Signed d b" by (cases j) auto
  with Signed show ?thesis using signed_numbers.connected [of a b] by auto
next
  case (Double d a)
  with assms obtain b where "j = Double d b" by (cases j) auto
  with Double show ?thesis using doubles.connected [of a b] by auto
qed

lemma read_item_bytes:
  "length (item_bytes i @ rest) < 2 ^ 64 \<Longrightarrow> read_item (item_kind i) (item_bytes i @ rest) = Some (Some (item_normal i, rest))"
  by (cases i) (simp_all add: reading_map_def strings.roundtrip strings.roundtrip_down numbers.roundtrip numbers.roundtrip_down
      signed_numbers.roundtrip signed_numbers.roundtrip_down doubles.roundtrip doubles.roundtrip_down)

lemma items_less_append:
  "map item_kind is = map item_kind js \<Longrightarrow>
    bytes_less (concat (map item_bytes is) @ us) (concat (map item_bytes js) @ vs) \<longleftrightarrow>
      items_less is js \<or> map item_normal is = map item_normal js \<and> bytes_less us vs"
proof (induction "is" js rule: items_less.induct)
  case (1 i "is" j js)
  then have k: "item_kind i = item_kind j" by simp
  have "bytes_less (concat (map item_bytes (i # is)) @ us) (concat (map item_bytes (j # js)) @ vs) \<longleftrightarrow>
      item_less i j \<or> item_normal i = item_normal j \<and> (items_less is js \<or> map item_normal is = map item_normal js \<and> bytes_less us vs)"
    using 1 item_less_append [OF k] by simp
  then show ?case using item_less_normal [OF k] by auto
qed auto

lemma read_items_bytes:
  "length (concat (map item_bytes is) @ rest) < 2 ^ 64 \<Longrightarrow>
    read_items (map item_kind is) (concat (map item_bytes is) @ rest) = Some (Some (map item_normal is, rest))"
proof (induction "is")
  case (Cons i "is")
  have "length (item_bytes i @ concat (map item_bytes is) @ rest) < 2 ^ 64" using Cons.prems by simp
  from read_item_bytes [OF this] Cons show ?case by (simp add: reading_map_def)
qed simp

section \<open>Claims\<close>

text \<open>C8. The word-at-a-time search of SkipToNextSpecialByte returns for every region of a string, and the position is
  that of the first byte 0 or 255, or the end of the region when there is none.\<close>

theorem skip_finds_special:
  assumes "p \<le> limit" and "limit \<le> length s"
  shows "\<exists>q. SkipToNextSpecialByte s p limit = Some q \<and> p \<le> q \<and> q \<le> limit \<and>
    (\<forall>b \<in> set (take (q - p) (drop p s)). b \<noteq> 0 \<and> b \<noteq> 0xff) \<and> (q < limit \<longrightarrow> s ! q = 0 \<or> s ! q = 0xff)"
proof -
  define q where "q = first_special s p limit"
  have "first_special (take limit s) p (length (take limit s)) = q"
    using assms by (simp add: q_def first_special_def take_drop)
  note sp = first_special_split [of p "take limit s" q, OF _ this [symmetric]]
  have "p \<le> q" "q \<le> limit" using sp(1,2) assms by auto
  then have "take (q - p) (drop p (take limit s)) = take (q - p) (drop p s)"
    by (simp add: drop_take min_def diff_le_mono)
  with sp assms show ?thesis using skip_first [OF assms(2), of p] by (auto simp: q_def [symmetric] special_cases)
qed

theorem skip_finds_special_witness:
  "\<exists>q. SkipToNextSpecialByte [7, 8, 9, 10, 11, 12, 13, 14, 15, 0xff, 3] 0 11 = Some q \<and> q \<le> 11"
  using skip_finds_special [of 0 11 "[7, 8, 9, 10, 11, 12, 13, 14, 15, 0xff, 3]"] by auto

text \<open>C6. Keys are ordered as their items: two keys of items of the same kinds and directions, whatever is appended to
  them, compare at the first pair of items that differ, in the order of that kind and direction (strings by bytes with
  the infinite string last, numbers by value, doubles by sign and magnitude); no assertion of a writer fails.\<close>

theorem keys_ordered:
  assumes "map item_kind A = map item_kind B"
  shows "\<exists>a b. write_items [] A = Some a \<and> write_items [] B = Some b \<and>
    (\<forall>u v. bytes_less (a @ u) (b @ v) \<longleftrightarrow> items_less A B \<or> map item_normal A = map item_normal B \<and> bytes_less u v)"
  using items_less_append [OF assms] by (simp add: write_items_bytes)

theorem keys_ordered_witness:
  "\<exists>a b. write_items [] [Str False (Some [1, 0]), Signed True (- 300)] = Some a \<and>
    write_items [] [Str False (Some [1, 0]), Signed True 7] = Some b \<and> bytes_less b a"
proof -
  let ?A = "[Str False (Some [1, 0]), Signed True (- 300)]" and ?B = "[Str False (Some [1, 0]), Signed True 7]"
  have "map item_kind ?B = map item_kind ?A" by simp
  from keys_ordered [OF this] obtain b a where ab: "write_items [] ?B = Some b" "write_items [] ?A = Some a"
    "\<forall>u v. bytes_less (b @ u) (a @ v) \<longleftrightarrow> items_less ?B ?A \<or> map item_normal ?B = map item_normal ?A \<and> bytes_less u v"
    by blast
  have "items_less ?B ?A" by simp
  with ab(3) have "bytes_less (b @ []) (a @ [])" by blast
  then have "bytes_less b a" by simp
  with ab(1,2) show ?thesis by blast
qed

text \<open>C7. A key is read back item by item: the readers return the items the writers appended, with a negative zero
  turned into zero, and leave what follows the key; no assertion of a reader fails.\<close>

theorem keys_roundtrip:
  assumes "write_items [] items = Some key" and "length (key @ rest) < 2 ^ 64"
  shows "read_items (map item_kind items) (key @ rest) = Some (Some (map item_normal items, rest))"
  using assms read_items_bytes [of items rest] by (simp add: write_items_bytes)

theorem keys_roundtrip_witness:
  "read_items [Numbers True, Strings False, Signeds False, Doubles True]
     (the (write_items [] [Num True 700, Str False None, Signed False (- 9000), Double True 0x8000000000000000]) @ [5]) =
   Some (Some ([Num True 700, Str False None, Signed False (- 9000), Double True 0], [5]))"
proof -
  have "SignedEncodingLength n \<le> 10" for n using signed_length(2) [OF refl] .
  then have l: "length (signed_code n) \<le> 10" for n by (simp add: signed_code_def signed_digits_def)
  have "length (num_code 700) \<le> 9" using num_length(2) [of 700] by (simp add: num_code_def)
  then have "length (concat (map item_bytes [Num True 700, Str False None, Signed False (- 9000), Double True 0x8000000000000000]) @ [5]) < 2 ^ 64"
    using l [of "- 9000"] l [of "EncodeDoubleAsInt64 0x8000000000000000"] by (simp add: string_or_infinity_def infinity_code_def)
  with keys_roundtrip [of "[Num True 700, Str False None, Signed False (- 9000), Double True 0x8000000000000000]", OF write_items_bytes, of "[5]"]
  show ?thesis by (simp add: write_items_bytes positive_zero_def)
qed

text \<open>C39. A number whose encoding is not minimal is not rejected: the readers of unsigned numbers fail an assertion,
  which every build keeps, on any source that starts with a length other than zero and a zero digit.\<close>

theorem minimal_encoding_asserted:
  assumes "len \<noteq> 0"
  shows "ReadNumIncreasing (len # 0 # rest) = None \<and> ReadNumDecreasing (NOT len # 0xff # rest) = None"
proof -
  have "(scast len :: u64) \<noteq> 0"
  proof
    assume z: "(scast len :: u64) = 0"
    have "len = 0"
    proof (rule bit_word_eqI)
      fix n assume "n < LENGTH(8)"
      then show "bit len n = bit 0 n" using arg_cong [OF z, of "\<lambda>w. bit w n"] by (cases "n = 7") (simp_all add: bit_signed_iff min_def split: if_splits)
    qed
    with assms show False by simp
  qed
  then show ?thesis
    by (simp add: ReadNumIncreasing_def ReadNumDecreasing_def scast_not)
qed

theorem minimal_encoding_asserted_witness: "ReadNumIncreasing [2, 0, 1] = None"
  using minimal_encoding_asserted [of 2 "[1]"] by simp

end
