(* ===== verification/LevelDbKey.thy ===== *)
theory LevelDbKey
  imports OrderedItems "HOL-Library.Sublist"
begin

text \<open>
  The row keys of Firestore's local store (Firestore/core/src/local/leveldb\_key.cc): the reader and the writer of
  labelled components, on top of the order-preserving encoding, and the keys and key prefixes of every table. A
  resource path is the list of its segments and a document key its path. A reader fails by clearing \<open>r_ok\<close>; \<open>None\<close> is a
  failed \<open>HARD_ASSERT\<close>, here, in the encoding or in the constructors of document keys and timestamps. Objects of the
  key classes are the values of their members. \<open>DescribeKey\<close>, which formats a key for messages, is not modelled.
\<close>

type_synonym path = "bytes list"

section \<open>Paths, document keys and timestamps\<close>

definition IsDocumentKey :: "path \<Rightarrow> bool" where
  "IsDocumentKey path \<longleftrightarrow> length path mod 2 = 0"

definition new_DocumentKey :: "path \<Rightarrow> path option" where
  "new_DocumentKey path = (if IsDocumentKey path then Some path else None)"

definition GetCollectionGroup :: "path \<Rightarrow> bytes option" where
  "GetCollectionGroup path = (if length path < 2 then None else Some (path ! (length path - 2)))"

definition PopLast :: "path \<Rightarrow> path option" where
  "PopLast path = (if path = [] then None else Some (butlast path))"

definition last_segment :: "path \<Rightarrow> bytes option" where
  "last_segment path = (if path = [] then None else Some (path ! (length path - 1)))"

record Timestamp =
  ts_seconds :: u64
  ts_nanoseconds :: u32

definition ValidateBounds :: "Timestamp \<Rightarrow> bool" where
  "ValidateBounds t \<longleftrightarrow> 0 \<le> sint (ts_nanoseconds t) \<and> sint (ts_nanoseconds t) < 1000000000 \<and>
     - 62135596800 \<le> sint (ts_seconds t) \<and> sint (ts_seconds t) < 253402300800"

definition new_Timestamp :: "u64 \<Rightarrow> u32 \<Rightarrow> Timestamp option" where
  "new_Timestamp seconds nanoseconds =
     (let t = \<lparr>ts_seconds = seconds, ts_nanoseconds = nanoseconds\<rparr> in if ValidateBounds t then Some t else None)"

section \<open>Tables and labels\<close>

definition ascii :: "string \<Rightarrow> bytes" where
  "ascii s = map of_char s"

definition kVersionGlobalTable :: bytes where "kVersionGlobalTable = ascii ''version''"

definition kMutationsTable :: bytes where "kMutationsTable = ascii ''mutation''"

definition kDocumentMutationsTable :: bytes where "kDocumentMutationsTable = ascii ''document_mutation''"

definition kMutationQueuesTable :: bytes where "kMutationQueuesTable = ascii ''mutation_queue''"

definition kTargetGlobalTable :: bytes where "kTargetGlobalTable = ascii ''target_global''"

definition kTargetsTable :: bytes where "kTargetsTable = ascii ''target''"

definition kQueryTargetsTable :: bytes where "kQueryTargetsTable = ascii ''query_target''"

definition kTargetDocumentsTable :: bytes where "kTargetDocumentsTable = ascii ''target_document''"

definition kDocumentTargetsTable :: bytes where "kDocumentTargetsTable = ascii ''document_target''"

definition kRemoteDocumentsTable :: bytes where "kRemoteDocumentsTable = ascii ''remote_document''"

definition kCollectionParentsTable :: bytes where "kCollectionParentsTable = ascii ''collection_parent''"

definition kRemoteDocumentReadTimeTable :: bytes where "kRemoteDocumentReadTimeTable = ascii ''remote_document_read_time''"

definition kBundlesTable :: bytes where "kBundlesTable = ascii ''bundles''"

definition kNamedQueriesTable :: bytes where "kNamedQueriesTable = ascii ''named_queries''"

definition kIndexConfigurationTable :: bytes where "kIndexConfigurationTable = ascii ''index_configuration''"

definition kIndexStateTable :: bytes where "kIndexStateTable = ascii ''index_state''"

definition kIndexEntriesTable :: bytes where "kIndexEntriesTable = ascii ''index_entries''"

definition kIndexEntriesDocumentKeyIndexTable :: bytes where "kIndexEntriesDocumentKeyIndexTable = ascii ''index_entries_document_key_index''"

definition kDocumentOverlaysTable :: bytes where "kDocumentOverlaysTable = ascii ''document_overlays''"

definition kDocumentOverlaysLargestBatchIdIndexTable :: bytes where "kDocumentOverlaysLargestBatchIdIndexTable = ascii ''document_overlays_largest_batch_id_index''"

definition kDocumentOverlaysCollectionIndexTable :: bytes where "kDocumentOverlaysCollectionIndexTable = ascii ''document_overlays_collection_index''"

definition kDocumentOverlaysCollectionGroupIndexTable :: bytes where "kDocumentOverlaysCollectionGroupIndexTable = ascii ''document_overlays_collection_group_index''"

definition kDataMigrationTable :: bytes where "kDataMigrationTable = ascii ''data_migration''"

datatype ComponentLabel =
  Terminator | TableName | BatchId | CanonicalId | TargetId | UserId | CollectionId | DocumentId
  | SnapshotVersion | BundleId | QueryName | IndexId | IndexArrayValue | IndexDirectionalValue | CollectionGroup | SequenceNumber
  | OrderedDocumentKey | DataMigrationName | PathSegment | Unknown

fun label_value :: "ComponentLabel \<Rightarrow> u64" where
  "label_value Terminator = 0"
| "label_value TableName = 5"
| "label_value BatchId = 10"
| "label_value CanonicalId = 11"
| "label_value TargetId = 12"
| "label_value UserId = 13"
| "label_value CollectionId = 14"
| "label_value DocumentId = 15"
| "label_value SnapshotVersion = 16"
| "label_value BundleId = 17"
| "label_value QueryName = 18"
| "label_value IndexId = 19"
| "label_value IndexArrayValue = 20"
| "label_value IndexDirectionalValue = 21"
| "label_value CollectionGroup = 22"
| "label_value SequenceNumber = 23"
| "label_value OrderedDocumentKey = 24"
| "label_value DataMigrationName = 25"
| "label_value PathSegment = 62"
| "label_value Unknown = 63"

section \<open>The writer\<close>

definition WriteComponentLabel :: "bytes \<Rightarrow> ComponentLabel \<Rightarrow> bytes option" where
  "WriteComponentLabel w label = WriteSignedNumIncreasing w (label_value label)"

definition WriteLabeledInt32 :: "bytes \<Rightarrow> ComponentLabel \<Rightarrow> u32 \<Rightarrow> bytes option" where
  "WriteLabeledInt32 w label v = do { w \<leftarrow> WriteComponentLabel w label; WriteSignedNumIncreasing w (scast v) }"

definition WriteLabeledInt64 :: "bytes \<Rightarrow> ComponentLabel \<Rightarrow> u64 \<Rightarrow> bytes option" where
  "WriteLabeledInt64 w label v = do { w \<leftarrow> WriteComponentLabel w label; WriteSignedNumIncreasing w v }"

definition WriteLabeledString :: "bytes \<Rightarrow> ComponentLabel \<Rightarrow> bytes \<Rightarrow> bytes option" where
  "WriteLabeledString w label v = do { w \<leftarrow> WriteComponentLabel w label; WriteString w v }"

definition WriteTerminator :: "bytes \<Rightarrow> bytes option" where
  "WriteTerminator w = WriteSignedNumIncreasing w (label_value Terminator)"

definition WriteSnapshotVersion :: "bytes \<Rightarrow> Timestamp \<Rightarrow> bytes option" where
  "WriteSnapshotVersion w t =
     do {
       w \<leftarrow> WriteComponentLabel w SnapshotVersion;
       w \<leftarrow> WriteSignedNumIncreasing w (ts_seconds t);
       WriteSignedNumIncreasing w (scast (ts_nanoseconds t))
     }"

fun WriteResourcePath :: "bytes \<Rightarrow> path \<Rightarrow> bytes option" where
  "WriteResourcePath w [] = Some w"
| "WriteResourcePath w (segment # path) =
     do { w \<leftarrow> WriteComponentLabel w PathSegment; w \<leftarrow> WriteString w segment; WriteResourcePath w path }"

definition WriteTableName :: "bytes \<Rightarrow> bytes \<Rightarrow> bytes option" where
  "WriteTableName w v = WriteLabeledString w TableName v"

definition WriteBatchId :: "bytes \<Rightarrow> u32 \<Rightarrow> bytes option" where
  "WriteBatchId w v = WriteLabeledInt32 w BatchId v"

definition WriteCanonicalId :: "bytes \<Rightarrow> bytes \<Rightarrow> bytes option" where
  "WriteCanonicalId w v = WriteLabeledString w CanonicalId v"

definition WriteTargetId :: "bytes \<Rightarrow> u32 \<Rightarrow> bytes option" where
  "WriteTargetId w v = WriteLabeledInt32 w TargetId v"

definition WriteUserId :: "bytes \<Rightarrow> bytes \<Rightarrow> bytes option" where
  "WriteUserId w v = WriteLabeledString w UserId v"

definition WriteCollectionId :: "bytes \<Rightarrow> bytes \<Rightarrow> bytes option" where
  "WriteCollectionId w v = WriteLabeledString w CollectionId v"

definition WriteDocumentId :: "bytes \<Rightarrow> bytes \<Rightarrow> bytes option" where
  "WriteDocumentId w v = WriteLabeledString w DocumentId v"

definition WriteOrderedDocumentKey :: "bytes \<Rightarrow> bytes \<Rightarrow> bytes option" where
  "WriteOrderedDocumentKey w v = WriteLabeledString w OrderedDocumentKey v"

definition WriteBundleId :: "bytes \<Rightarrow> bytes \<Rightarrow> bytes option" where
  "WriteBundleId w v = WriteLabeledString w BundleId v"

definition WriteQueryName :: "bytes \<Rightarrow> bytes \<Rightarrow> bytes option" where
  "WriteQueryName w v = WriteLabeledString w QueryName v"

definition WriteIndexId :: "bytes \<Rightarrow> u32 \<Rightarrow> bytes option" where
  "WriteIndexId w v = WriteLabeledInt32 w IndexId v"

definition WriteCollectionGroup :: "bytes \<Rightarrow> bytes \<Rightarrow> bytes option" where
  "WriteCollectionGroup w v = WriteLabeledString w CollectionGroup v"

definition WriteIndexArrayValue :: "bytes \<Rightarrow> bytes \<Rightarrow> bytes option" where
  "WriteIndexArrayValue w v = WriteLabeledString w IndexArrayValue v"

definition WriteIndexDirectionalValue :: "bytes \<Rightarrow> bytes \<Rightarrow> bytes option" where
  "WriteIndexDirectionalValue w v = WriteLabeledString w IndexDirectionalValue v"

definition WriteSequenceNumber :: "bytes \<Rightarrow> u64 \<Rightarrow> bytes option" where
  "WriteSequenceNumber w v = WriteLabeledInt64 w SequenceNumber v"

definition WriteDataMigrationName :: "bytes \<Rightarrow> bytes \<Rightarrow> bytes option" where
  "WriteDataMigrationName w v = WriteLabeledString w DataMigrationName v"

section \<open>The reader\<close>

record Reader =
  r_src :: bytes
  r_ok :: bool

definition new_reader :: "bytes \<Rightarrow> Reader" where
  "new_reader src = \<lparr>r_src = src, r_ok = True\<rparr>"

definition reader_empty :: "Reader \<Rightarrow> bool" where
  "reader_empty r \<longleftrightarrow> \<not> r_ok r \<or> r_src r = []"

definition Fail :: "Reader \<Rightarrow> Reader" where
  "Fail r = r\<lparr>r_ok := False\<rparr>"

definition Reader_ReadSignedNumIncreasing :: "Reader \<Rightarrow> (u64 \<times> Reader) option" where
  "Reader_ReadSignedNumIncreasing r =
     (if r_ok r then
        do {
          read \<leftarrow> ReadSignedNumIncreasing (r_src r);
          case read of Some (result, tmp) \<Rightarrow> Some (result, r\<lparr>r_src := tmp\<rparr>) | None \<Rightarrow> Some (0, Fail r)
        }
      else Some (0, Fail r))"

definition Reader_ReadString :: "Reader \<Rightarrow> (bytes \<times> Reader) option" where
  "Reader_ReadString r =
     (if r_ok r then
        do {
          read \<leftarrow> ReadString (r_src r) [];
          case read of Some (result, tmp) \<Rightarrow> Some (result, r\<lparr>r_src := tmp\<rparr>) | None \<Rightarrow> Some ([], Fail r)
        }
      else Some ([], Fail r))"

definition ReadComponentLabelMatching :: "Reader \<Rightarrow> ComponentLabel \<Rightarrow> (bool \<times> Reader) option" where
  "ReadComponentLabelMatching r expected_label =
     (if r_ok r then
        do {
          (raw_result, r) \<leftarrow> Reader_ReadSignedNumIncreasing r;
          if r_ok r then Some (raw_result = label_value expected_label, r) else Some (False, Fail r)
        }
      else Some (False, Fail r))"

definition ReadInt32 :: "Reader \<Rightarrow> (u32 \<times> Reader) option" where
  "ReadInt32 r =
     (if r_ok r then
        do {
          (raw_result, r) \<leftarrow> Reader_ReadSignedNumIncreasing r;
          if r_ok r \<and> - (2 ^ 31) \<le> sint raw_result \<and> sint raw_result \<le> 2 ^ 31 - 1 then Some (ucast raw_result, r)
          else Some (0, Fail r)
        }
      else Some (0, Fail r))"

definition ReadInt64 :: "Reader \<Rightarrow> (u64 \<times> Reader) option" where
  "ReadInt64 r = Reader_ReadSignedNumIncreasing r"

text \<open>The test that fails the reader when the label did not match.\<close>

definition expect_label :: "Reader \<Rightarrow> ComponentLabel \<Rightarrow> Reader option" where
  "expect_label r expected_label =
     do { (matching, r) \<leftarrow> ReadComponentLabelMatching r expected_label; Some (if \<not> matching then Fail r else r) }"

definition ReadLabeledInt32 :: "Reader \<Rightarrow> ComponentLabel \<Rightarrow> (u32 \<times> Reader) option" where
  "ReadLabeledInt32 r expected_label = do { r \<leftarrow> expect_label r expected_label; ReadInt32 r }"

definition ReadLabeledInt64 :: "Reader \<Rightarrow> ComponentLabel \<Rightarrow> (u64 \<times> Reader) option" where
  "ReadLabeledInt64 r expected_label = do { r \<leftarrow> expect_label r expected_label; ReadInt64 r }"

definition ReadLabeledString :: "Reader \<Rightarrow> ComponentLabel \<Rightarrow> (bytes \<times> Reader) option" where
  "ReadLabeledString r expected_label = do { r \<leftarrow> expect_label r expected_label; Reader_ReadString r }"

definition ReadLabeledStringMatching :: "Reader \<Rightarrow> ComponentLabel \<Rightarrow> bytes \<Rightarrow> (bool \<times> Reader) option" where
  "ReadLabeledStringMatching r expected_label expected_value =
     do {
       (v, r) \<leftarrow> ReadLabeledString r expected_label;
       if r_ok r then Some (v = expected_value, r) else Some (False, Fail r)
     }"

definition ReadTableNameMatching :: "Reader \<Rightarrow> bytes \<Rightarrow> Reader option" where
  "ReadTableNameMatching r expected_table_name =
     do { (matching, r) \<leftarrow> ReadLabeledStringMatching r TableName expected_table_name; Some (if \<not> matching then Fail r else r) }"

definition ReadTerminator :: "Reader \<Rightarrow> Reader option" where
  "ReadTerminator r = expect_label r Terminator"

partial_function (option) read_path_loop :: "path \<Rightarrow> Reader \<Rightarrow> (path \<times> Reader) option" where
  "read_path_loop path_segments r =
     (if reader_empty r then Some (path_segments, r)
      else
        do {
          (matching, r') \<leftarrow> ReadComponentLabelMatching r PathSegment;
          if \<not> matching then Some (path_segments, r'\<lparr>r_src := r_src r\<rparr>)
          else
            do {
              (segment, r'') \<leftarrow> Reader_ReadString r';
              if \<not> r_ok r'' then Some (path_segments, r'') else read_path_loop (path_segments @ [segment]) r''
            }
        })"

declare read_path_loop.simps [code]

definition ReadResourcePath :: "Reader \<Rightarrow> (path \<times> Reader) option" where
  "ReadResourcePath r = read_path_loop [] r"

definition ReadDocumentKey :: "Reader \<Rightarrow> (path \<times> Reader) option" where
  "ReadDocumentKey r =
     do {
       (path, r) \<leftarrow> ReadResourcePath r;
       if r_ok r \<and> path \<noteq> [] \<and> IsDocumentKey path then do { path \<leftarrow> new_DocumentKey path; Some (path, r) }
       else Some ([], Fail r)
     }"

definition ReadSnapshotVersion :: "Reader \<Rightarrow> (Timestamp \<times> Reader) option" where
  "ReadSnapshotVersion r =
     do {
       r \<leftarrow> expect_label r SnapshotVersion;
       (seconds, r) \<leftarrow> ReadInt64 r;
       (nanos, r) \<leftarrow> ReadInt32 r;
       t \<leftarrow> new_Timestamp seconds nanos;
       Some (t, r)
     }"

definition ReadBatchId :: "Reader \<Rightarrow> (u32 \<times> Reader) option" where
  "ReadBatchId r = ReadLabeledInt32 r BatchId"

definition ReadCanonicalId :: "Reader \<Rightarrow> (bytes \<times> Reader) option" where
  "ReadCanonicalId r = ReadLabeledString r CanonicalId"

definition ReadTargetId :: "Reader \<Rightarrow> (u32 \<times> Reader) option" where
  "ReadTargetId r = ReadLabeledInt32 r TargetId"

definition ReadUserId :: "Reader \<Rightarrow> (bytes \<times> Reader) option" where
  "ReadUserId r = ReadLabeledString r UserId"

definition ReadCollectionId :: "Reader \<Rightarrow> (bytes \<times> Reader) option" where
  "ReadCollectionId r = ReadLabeledString r CollectionId"

definition ReadDocumentId :: "Reader \<Rightarrow> (bytes \<times> Reader) option" where
  "ReadDocumentId r = ReadLabeledString r DocumentId"

definition ReadOrderedDocumentKey :: "Reader \<Rightarrow> (bytes \<times> Reader) option" where
  "ReadOrderedDocumentKey r = ReadLabeledString r OrderedDocumentKey"

definition ReadBundleId :: "Reader \<Rightarrow> (bytes \<times> Reader) option" where
  "ReadBundleId r = ReadLabeledString r BundleId"

definition ReadQueryName :: "Reader \<Rightarrow> (bytes \<times> Reader) option" where
  "ReadQueryName r = ReadLabeledString r QueryName"

definition ReadIndexId :: "Reader \<Rightarrow> (u32 \<times> Reader) option" where
  "ReadIndexId r = ReadLabeledInt32 r IndexId"

definition ReadCollectionGroup :: "Reader \<Rightarrow> (bytes \<times> Reader) option" where
  "ReadCollectionGroup r = ReadLabeledString r CollectionGroup"

definition ReadIndexArrayValue :: "Reader \<Rightarrow> (bytes \<times> Reader) option" where
  "ReadIndexArrayValue r = ReadLabeledString r IndexArrayValue"

definition ReadIndexDirectionalValue :: "Reader \<Rightarrow> (bytes \<times> Reader) option" where
  "ReadIndexDirectionalValue r = ReadLabeledString r IndexDirectionalValue"

definition ReadSequenceNumber :: "Reader \<Rightarrow> (u64 \<times> Reader) option" where
  "ReadSequenceNumber r = ReadLabeledInt64 r SequenceNumber"

definition ReadDataMigrationName :: "Reader \<Rightarrow> (bytes \<times> Reader) option" where
  "ReadDataMigrationName r = ReadLabeledString r DataMigrationName"

section \<open>The keys of the tables\<close>

text \<open>\<^verbatim>\<open>LevelDbVersionKey\<close>.\<close>

definition LevelDbVersionKey_Key :: "bytes option" where
  "LevelDbVersionKey_Key = do { w \<leftarrow> WriteTableName [] kVersionGlobalTable; WriteTerminator w }"

text \<open>\<^verbatim>\<open>LevelDbMutationKey\<close>.\<close>

definition LevelDbMutationKey_KeyPrefix :: "bytes option" where
  "LevelDbMutationKey_KeyPrefix = WriteTableName [] kMutationsTable"

definition LevelDbMutationKey_KeyPrefix_user_id :: "bytes \<Rightarrow> bytes option" where
  "LevelDbMutationKey_KeyPrefix_user_id user_id =
     do { w \<leftarrow> WriteTableName [] kMutationsTable; WriteUserId w user_id }"

definition LevelDbMutationKey_Key :: "bytes \<Rightarrow> u32 \<Rightarrow> bytes option" where
  "LevelDbMutationKey_Key user_id batch_id =
     do {
       w \<leftarrow> WriteTableName [] kMutationsTable;
       w \<leftarrow> WriteUserId w user_id;
       w \<leftarrow> WriteBatchId w batch_id;
       WriteTerminator w
     }"

definition LevelDbMutationKey_Decode :: "bytes \<Rightarrow> (bool \<times> bytes \<times> u32) option" where
  "LevelDbMutationKey_Decode key =
     do {
       r \<leftarrow> ReadTableNameMatching (new_reader key) kMutationsTable;
       (user_id, r) \<leftarrow> ReadUserId r;
       (batch_id, r) \<leftarrow> ReadBatchId r;
       r \<leftarrow> ReadTerminator r;
       Some (r_ok r, user_id, batch_id)
     }"

text \<open>\<^verbatim>\<open>LevelDbDocumentMutationKey\<close>.\<close>

definition LevelDbDocumentMutationKey_KeyPrefix :: "bytes option" where
  "LevelDbDocumentMutationKey_KeyPrefix = WriteTableName [] kDocumentMutationsTable"

definition LevelDbDocumentMutationKey_KeyPrefix_user_id :: "bytes \<Rightarrow> bytes option" where
  "LevelDbDocumentMutationKey_KeyPrefix_user_id user_id =
     do { w \<leftarrow> WriteTableName [] kDocumentMutationsTable; WriteUserId w user_id }"

definition LevelDbDocumentMutationKey_KeyPrefix_path :: "bytes \<Rightarrow> path \<Rightarrow> bytes option" where
  "LevelDbDocumentMutationKey_KeyPrefix_path user_id resource_path =
     do {
       w \<leftarrow> WriteTableName [] kDocumentMutationsTable;
       w \<leftarrow> WriteUserId w user_id;
       WriteResourcePath w resource_path
     }"

definition LevelDbDocumentMutationKey_Key :: "bytes \<Rightarrow> path \<Rightarrow> u32 \<Rightarrow> bytes option" where
  "LevelDbDocumentMutationKey_Key user_id document_key batch_id =
     do {
       w \<leftarrow> WriteTableName [] kDocumentMutationsTable;
       w \<leftarrow> WriteUserId w user_id;
       w \<leftarrow> WriteResourcePath w document_key;
       w \<leftarrow> WriteBatchId w batch_id;
       WriteTerminator w
     }"

definition LevelDbDocumentMutationKey_Decode :: "bytes \<Rightarrow> (bool \<times> bytes \<times> path \<times> u32) option" where
  "LevelDbDocumentMutationKey_Decode key =
     do {
       r \<leftarrow> ReadTableNameMatching (new_reader key) kDocumentMutationsTable;
       (user_id, r) \<leftarrow> ReadUserId r;
       (document_key, r) \<leftarrow> ReadDocumentKey r;
       (batch_id, r) \<leftarrow> ReadBatchId r;
       r \<leftarrow> ReadTerminator r;
       Some (r_ok r, user_id, document_key, batch_id)
     }"

text \<open>\<^verbatim>\<open>LevelDbMutationQueueKey\<close>.\<close>

definition LevelDbMutationQueueKey_KeyPrefix :: "bytes option" where
  "LevelDbMutationQueueKey_KeyPrefix = WriteTableName [] kMutationQueuesTable"

definition LevelDbMutationQueueKey_Key :: "bytes \<Rightarrow> bytes option" where
  "LevelDbMutationQueueKey_Key user_id =
     do {
       w \<leftarrow> WriteTableName [] kMutationQueuesTable;
       w \<leftarrow> WriteUserId w user_id;
       WriteTerminator w
     }"

definition LevelDbMutationQueueKey_Decode :: "bytes \<Rightarrow> (bool \<times> bytes) option" where
  "LevelDbMutationQueueKey_Decode key =
     do {
       r \<leftarrow> ReadTableNameMatching (new_reader key) kMutationQueuesTable;
       (user_id, r) \<leftarrow> ReadUserId r;
       r \<leftarrow> ReadTerminator r;
       Some (r_ok r, user_id)
     }"

text \<open>\<^verbatim>\<open>LevelDbTargetGlobalKey\<close>.\<close>

definition LevelDbTargetGlobalKey_Key :: "bytes option" where
  "LevelDbTargetGlobalKey_Key =
     do { w \<leftarrow> WriteTableName [] kTargetGlobalTable; WriteTerminator w }"

definition LevelDbTargetGlobalKey_Decode :: "bytes \<Rightarrow> bool option" where
  "LevelDbTargetGlobalKey_Decode key =
     do {
       r \<leftarrow> ReadTableNameMatching (new_reader key) kTargetGlobalTable;
       r \<leftarrow> ReadTerminator r;
       Some (r_ok r)
     }"

text \<open>\<^verbatim>\<open>LevelDbTargetKey\<close>.\<close>

definition LevelDbTargetKey_KeyPrefix :: "bytes option" where
  "LevelDbTargetKey_KeyPrefix = WriteTableName [] kTargetsTable"

definition LevelDbTargetKey_Key :: "u32 \<Rightarrow> bytes option" where
  "LevelDbTargetKey_Key target_id =
     do {
       w \<leftarrow> WriteTableName [] kTargetsTable;
       w \<leftarrow> WriteTargetId w target_id;
       WriteTerminator w
     }"

definition LevelDbTargetKey_Decode :: "bytes \<Rightarrow> (bool \<times> u32) option" where
  "LevelDbTargetKey_Decode key =
     do {
       r \<leftarrow> ReadTableNameMatching (new_reader key) kTargetsTable;
       (target_id, r) \<leftarrow> ReadTargetId r;
       r \<leftarrow> ReadTerminator r;
       Some (r_ok r, target_id)
     }"

text \<open>\<^verbatim>\<open>LevelDbQueryTargetKey\<close>.\<close>

definition LevelDbQueryTargetKey_KeyPrefix :: "bytes option" where
  "LevelDbQueryTargetKey_KeyPrefix = WriteTableName [] kQueryTargetsTable"

definition LevelDbQueryTargetKey_KeyPrefix_canonical_id :: "bytes \<Rightarrow> bytes option" where
  "LevelDbQueryTargetKey_KeyPrefix_canonical_id canonical_id =
     do { w \<leftarrow> WriteTableName [] kQueryTargetsTable; WriteCanonicalId w canonical_id }"

definition LevelDbQueryTargetKey_Key :: "bytes \<Rightarrow> u32 \<Rightarrow> bytes option" where
  "LevelDbQueryTargetKey_Key canonical_id target_id =
     do {
       w \<leftarrow> WriteTableName [] kQueryTargetsTable;
       w \<leftarrow> WriteCanonicalId w canonical_id;
       w \<leftarrow> WriteTargetId w target_id;
       WriteTerminator w
     }"

definition LevelDbQueryTargetKey_Decode :: "bytes \<Rightarrow> (bool \<times> bytes \<times> u32) option" where
  "LevelDbQueryTargetKey_Decode key =
     do {
       r \<leftarrow> ReadTableNameMatching (new_reader key) kQueryTargetsTable;
       (canonical_id, r) \<leftarrow> ReadCanonicalId r;
       (target_id, r) \<leftarrow> ReadTargetId r;
       r \<leftarrow> ReadTerminator r;
       Some (r_ok r, canonical_id, target_id)
     }"

text \<open>\<^verbatim>\<open>LevelDbTargetDocumentKey\<close>.\<close>

definition LevelDbTargetDocumentKey_KeyPrefix :: "bytes option" where
  "LevelDbTargetDocumentKey_KeyPrefix = WriteTableName [] kTargetDocumentsTable"

definition LevelDbTargetDocumentKey_KeyPrefix_target_id :: "u32 \<Rightarrow> bytes option" where
  "LevelDbTargetDocumentKey_KeyPrefix_target_id target_id =
     do { w \<leftarrow> WriteTableName [] kTargetDocumentsTable; WriteTargetId w target_id }"

definition LevelDbTargetDocumentKey_Key :: "u32 \<Rightarrow> path \<Rightarrow> bytes option" where
  "LevelDbTargetDocumentKey_Key target_id document_key =
     do {
       w \<leftarrow> WriteTableName [] kTargetDocumentsTable;
       w \<leftarrow> WriteTargetId w target_id;
       w \<leftarrow> WriteResourcePath w document_key;
       WriteTerminator w
     }"

definition LevelDbTargetDocumentKey_Decode :: "bytes \<Rightarrow> (bool \<times> u32 \<times> path) option" where
  "LevelDbTargetDocumentKey_Decode key =
     do {
       r \<leftarrow> ReadTableNameMatching (new_reader key) kTargetDocumentsTable;
       (target_id, r) \<leftarrow> ReadTargetId r;
       (document_key, r) \<leftarrow> ReadDocumentKey r;
       r \<leftarrow> ReadTerminator r;
       Some (r_ok r, target_id, document_key)
     }"

text \<open>\<^verbatim>\<open>LevelDbDocumentTargetKey\<close>.\<close>

definition LevelDbDocumentTargetKey_KeyPrefix :: "bytes option" where
  "LevelDbDocumentTargetKey_KeyPrefix = WriteTableName [] kDocumentTargetsTable"

definition LevelDbDocumentTargetKey_KeyPrefix_path :: "path \<Rightarrow> bytes option" where
  "LevelDbDocumentTargetKey_KeyPrefix_path resource_path =
     do { w \<leftarrow> WriteTableName [] kDocumentTargetsTable; WriteResourcePath w resource_path }"

definition LevelDbDocumentTargetKey_Key :: "path \<Rightarrow> u32 \<Rightarrow> bytes option" where
  "LevelDbDocumentTargetKey_Key document_key target_id =
     do {
       w \<leftarrow> WriteTableName [] kDocumentTargetsTable;
       w \<leftarrow> WriteResourcePath w document_key;
       w \<leftarrow> WriteTargetId w target_id;
       WriteTerminator w
     }"

definition LevelDbDocumentTargetKey_Decode :: "bytes \<Rightarrow> (bool \<times> path \<times> u32) option" where
  "LevelDbDocumentTargetKey_Decode key =
     do {
       r \<leftarrow> ReadTableNameMatching (new_reader key) kDocumentTargetsTable;
       (document_key, r) \<leftarrow> ReadDocumentKey r;
       (target_id, r) \<leftarrow> ReadTargetId r;
       r \<leftarrow> ReadTerminator r;
       Some (r_ok r, document_key, target_id)
     }"

text \<open>\<^verbatim>\<open>LevelDbRemoteDocumentKey\<close>.\<close>

definition LevelDbRemoteDocumentKey_KeyPrefix :: "bytes option" where
  "LevelDbRemoteDocumentKey_KeyPrefix = WriteTableName [] kRemoteDocumentsTable"

definition LevelDbRemoteDocumentKey_KeyPrefix_path :: "path \<Rightarrow> bytes option" where
  "LevelDbRemoteDocumentKey_KeyPrefix_path resource_path =
     do { w \<leftarrow> WriteTableName [] kRemoteDocumentsTable; WriteResourcePath w resource_path }"

definition LevelDbRemoteDocumentKey_Key :: "path \<Rightarrow> bytes option" where
  "LevelDbRemoteDocumentKey_Key key =
     do {
       w \<leftarrow> WriteTableName [] kRemoteDocumentsTable;
       w \<leftarrow> WriteResourcePath w key;
       WriteTerminator w
     }"

definition LevelDbRemoteDocumentKey_Decode :: "bytes \<Rightarrow> (bool \<times> path) option" where
  "LevelDbRemoteDocumentKey_Decode key =
     do {
       r \<leftarrow> ReadTableNameMatching (new_reader key) kRemoteDocumentsTable;
       (document_key, r) \<leftarrow> ReadDocumentKey r;
       r \<leftarrow> ReadTerminator r;
       Some (r_ok r, document_key)
     }"

text \<open>\<^verbatim>\<open>LevelDbCollectionParentKey\<close>.\<close>

definition LevelDbCollectionParentKey_KeyPrefix :: "bytes option" where
  "LevelDbCollectionParentKey_KeyPrefix = WriteTableName [] kCollectionParentsTable"

definition LevelDbCollectionParentKey_KeyPrefix_collection_id :: "bytes \<Rightarrow> bytes option" where
  "LevelDbCollectionParentKey_KeyPrefix_collection_id collection_id =
     do { w \<leftarrow> WriteTableName [] kCollectionParentsTable; WriteCollectionId w collection_id }"

definition LevelDbCollectionParentKey_Key :: "bytes \<Rightarrow> path \<Rightarrow> bytes option" where
  "LevelDbCollectionParentKey_Key collection_id parent =
     do {
       w \<leftarrow> WriteTableName [] kCollectionParentsTable;
       w \<leftarrow> WriteCollectionId w collection_id;
       w \<leftarrow> WriteResourcePath w parent;
       WriteTerminator w
     }"

definition LevelDbCollectionParentKey_Decode :: "bytes \<Rightarrow> (bool \<times> bytes \<times> path) option" where
  "LevelDbCollectionParentKey_Decode key =
     do {
       r \<leftarrow> ReadTableNameMatching (new_reader key) kCollectionParentsTable;
       (collection_id, r) \<leftarrow> ReadCollectionId r;
       (parent, r) \<leftarrow> ReadResourcePath r;
       r \<leftarrow> ReadTerminator r;
       Some (r_ok r, collection_id, parent)
     }"

text \<open>\<^verbatim>\<open>LevelDbRemoteDocumentReadTimeKey\<close>.\<close>

definition LevelDbRemoteDocumentReadTimeKey_KeyPrefix_read_time :: "path \<Rightarrow> Timestamp \<Rightarrow> bytes option" where
  "LevelDbRemoteDocumentReadTimeKey_KeyPrefix_read_time collection_path read_time =
     do {
       w \<leftarrow> WriteTableName [] kRemoteDocumentReadTimeTable;
       w \<leftarrow> WriteResourcePath w collection_path;
       WriteSnapshotVersion w read_time
     }"

definition LevelDbRemoteDocumentReadTimeKey_Key :: "path \<Rightarrow> Timestamp \<Rightarrow> bytes \<Rightarrow> bytes option" where
  "LevelDbRemoteDocumentReadTimeKey_Key collection_path read_time document_id =
     do {
       w \<leftarrow> WriteTableName [] kRemoteDocumentReadTimeTable;
       w \<leftarrow> WriteResourcePath w collection_path;
       w \<leftarrow> WriteSnapshotVersion w read_time;
       w \<leftarrow> WriteDocumentId w document_id;
       WriteTerminator w
     }"

definition LevelDbRemoteDocumentReadTimeKey_Decode :: "bytes \<Rightarrow> (bool \<times> path \<times> Timestamp \<times> bytes) option" where
  "LevelDbRemoteDocumentReadTimeKey_Decode key =
     do {
       r \<leftarrow> ReadTableNameMatching (new_reader key) kRemoteDocumentReadTimeTable;
       (collection_path, r) \<leftarrow> ReadResourcePath r;
       (read_time, r) \<leftarrow> ReadSnapshotVersion r;
       (document_id, r) \<leftarrow> ReadDocumentId r;
       r \<leftarrow> ReadTerminator r;
       Some (r_ok r, collection_path, read_time, document_id)
     }"

text \<open>\<^verbatim>\<open>LevelDbBundleKey\<close>.\<close>

definition LevelDbBundleKey_KeyPrefix :: "bytes option" where
  "LevelDbBundleKey_KeyPrefix = WriteTableName [] kBundlesTable"

definition LevelDbBundleKey_Key :: "bytes \<Rightarrow> bytes option" where
  "LevelDbBundleKey_Key bundle_id =
     do {
       w \<leftarrow> WriteTableName [] kBundlesTable;
       w \<leftarrow> WriteBundleId w bundle_id;
       WriteTerminator w
     }"

definition LevelDbBundleKey_Decode :: "bytes \<Rightarrow> (bool \<times> bytes) option" where
  "LevelDbBundleKey_Decode key =
     do {
       r \<leftarrow> ReadTableNameMatching (new_reader key) kBundlesTable;
       (bundle_id, r) \<leftarrow> ReadBundleId r;
       r \<leftarrow> ReadTerminator r;
       Some (r_ok r, bundle_id)
     }"

text \<open>\<^verbatim>\<open>LevelDbNamedQueryKey\<close>.\<close>

definition LevelDbNamedQueryKey_KeyPrefix :: "bytes option" where
  "LevelDbNamedQueryKey_KeyPrefix = WriteTableName [] kNamedQueriesTable"

definition LevelDbNamedQueryKey_Key :: "bytes \<Rightarrow> bytes option" where
  "LevelDbNamedQueryKey_Key query_name =
     do {
       w \<leftarrow> WriteTableName [] kNamedQueriesTable;
       w \<leftarrow> WriteQueryName w query_name;
       WriteTerminator w
     }"

definition LevelDbNamedQueryKey_Decode :: "bytes \<Rightarrow> (bool \<times> bytes) option" where
  "LevelDbNamedQueryKey_Decode key =
     do {
       r \<leftarrow> ReadTableNameMatching (new_reader key) kNamedQueriesTable;
       (name, r) \<leftarrow> ReadQueryName r;
       r \<leftarrow> ReadTerminator r;
       Some (r_ok r, name)
     }"

text \<open>\<^verbatim>\<open>LevelDbIndexConfigurationKey\<close>.\<close>

definition LevelDbIndexConfigurationKey_KeyPrefix :: "bytes option" where
  "LevelDbIndexConfigurationKey_KeyPrefix = WriteTableName [] kIndexConfigurationTable"

definition LevelDbIndexConfigurationKey_Key :: "u32 \<Rightarrow> bytes \<Rightarrow> bytes option" where
  "LevelDbIndexConfigurationKey_Key index_id collection_group =
     do {
       w \<leftarrow> WriteTableName [] kIndexConfigurationTable;
       w \<leftarrow> WriteIndexId w index_id;
       w \<leftarrow> WriteCollectionGroup w collection_group;
       WriteTerminator w
     }"

definition LevelDbIndexConfigurationKey_Decode :: "bytes \<Rightarrow> (bool \<times> u32 \<times> bytes) option" where
  "LevelDbIndexConfigurationKey_Decode key =
     do {
       r \<leftarrow> ReadTableNameMatching (new_reader key) kIndexConfigurationTable;
       (index_id, r) \<leftarrow> ReadIndexId r;
       (collection_group, r) \<leftarrow> ReadCollectionGroup r;
       r \<leftarrow> ReadTerminator r;
       Some (r_ok r, index_id, collection_group)
     }"

text \<open>\<^verbatim>\<open>LevelDbIndexStateKey\<close>.\<close>

definition LevelDbIndexStateKey_KeyPrefix :: "bytes option" where
  "LevelDbIndexStateKey_KeyPrefix = WriteTableName [] kIndexStateTable"

definition LevelDbIndexStateKey_KeyPrefix_user_id :: "bytes \<Rightarrow> bytes option" where
  "LevelDbIndexStateKey_KeyPrefix_user_id user_id =
     do { w \<leftarrow> WriteTableName [] kIndexStateTable; WriteUserId w user_id }"

definition LevelDbIndexStateKey_Key :: "bytes \<Rightarrow> u32 \<Rightarrow> bytes option" where
  "LevelDbIndexStateKey_Key user_id index_id =
     do {
       w \<leftarrow> WriteTableName [] kIndexStateTable;
       w \<leftarrow> WriteUserId w user_id;
       w \<leftarrow> WriteIndexId w index_id;
       WriteTerminator w
     }"

definition LevelDbIndexStateKey_Decode :: "bytes \<Rightarrow> (bool \<times> bytes \<times> u32) option" where
  "LevelDbIndexStateKey_Decode key =
     do {
       r \<leftarrow> ReadTableNameMatching (new_reader key) kIndexStateTable;
       (user_id, r) \<leftarrow> ReadUserId r;
       (index_id, r) \<leftarrow> ReadIndexId r;
       r \<leftarrow> ReadTerminator r;
       Some (r_ok r, user_id, index_id)
     }"

text \<open>\<^verbatim>\<open>LevelDbIndexEntryKey\<close>.\<close>

definition LevelDbIndexEntryKey_KeyPrefix :: "bytes option" where
  "LevelDbIndexEntryKey_KeyPrefix = WriteTableName [] kIndexEntriesTable"

definition LevelDbIndexEntryKey_KeyPrefix_index_id :: "u32 \<Rightarrow> bytes option" where
  "LevelDbIndexEntryKey_KeyPrefix_index_id index_id =
     do { w \<leftarrow> WriteTableName [] kIndexEntriesTable; WriteIndexId w index_id }"

definition LevelDbIndexEntryKey_KeyPrefix_directional_value :: "u32 \<Rightarrow> bytes \<Rightarrow> bytes \<Rightarrow> bytes \<Rightarrow> bytes option" where
  "LevelDbIndexEntryKey_KeyPrefix_directional_value index_id user_id array_value directional_value =
     do {
       w \<leftarrow> WriteTableName [] kIndexEntriesTable;
       w \<leftarrow> WriteIndexId w index_id;
       w \<leftarrow> WriteUserId w user_id;
       w \<leftarrow> WriteIndexArrayValue w array_value;
       WriteIndexDirectionalValue w directional_value
     }"

definition LevelDbIndexEntryKey_Key :: "u32 \<Rightarrow> bytes \<Rightarrow> bytes \<Rightarrow> bytes \<Rightarrow> bytes \<Rightarrow> bytes \<Rightarrow> bytes option" where
  "LevelDbIndexEntryKey_Key index_id user_id array_value directional_value ordered_document_key document_key =
     do {
       w \<leftarrow> WriteTableName [] kIndexEntriesTable;
       w \<leftarrow> WriteIndexId w index_id;
       w \<leftarrow> WriteUserId w user_id;
       w \<leftarrow> WriteIndexArrayValue w array_value;
       w \<leftarrow> WriteIndexDirectionalValue w directional_value;
       w \<leftarrow> WriteOrderedDocumentKey w ordered_document_key;
       w \<leftarrow> WriteDocumentId w document_key;
       WriteTerminator w
     }"

definition LevelDbIndexEntryKey_Decode :: "bytes \<Rightarrow> (bool \<times> u32 \<times> bytes \<times> bytes \<times> bytes \<times> bytes \<times> bytes) option" where
  "LevelDbIndexEntryKey_Decode key =
     do {
       r \<leftarrow> ReadTableNameMatching (new_reader key) kIndexEntriesTable;
       (index_id, r) \<leftarrow> ReadIndexId r;
       (user_id, r) \<leftarrow> ReadUserId r;
       (array_value, r) \<leftarrow> ReadIndexArrayValue r;
       (directional_value, r) \<leftarrow> ReadIndexDirectionalValue r;
       (ordered_document_key, r) \<leftarrow> ReadOrderedDocumentKey r;
       (document_key, r) \<leftarrow> ReadDocumentId r;
       r \<leftarrow> ReadTerminator r;
       Some (r_ok r, index_id, user_id, array_value, directional_value, ordered_document_key, document_key)
     }"

text \<open>\<^verbatim>\<open>LevelDbIndexEntryDocumentKeyIndexKey\<close>.\<close>

definition LevelDbIndexEntryDocumentKeyIndexKey_Key :: "u32 \<Rightarrow> bytes \<Rightarrow> bytes \<Rightarrow> u64 \<Rightarrow> bytes option" where
  "LevelDbIndexEntryDocumentKeyIndexKey_Key index_id user_id document_key seq_number =
     do {
       w \<leftarrow> WriteTableName [] kIndexEntriesDocumentKeyIndexTable;
       w \<leftarrow> WriteIndexId w index_id;
       w \<leftarrow> WriteUserId w user_id;
       w \<leftarrow> WriteDocumentId w document_key;
       w \<leftarrow> WriteSequenceNumber w seq_number;
       WriteTerminator w
     }"

definition LevelDbIndexEntryDocumentKeyIndexKey_KeyPrefix_document_name :: "u32 \<Rightarrow> bytes \<Rightarrow> bytes \<Rightarrow> bytes option" where
  "LevelDbIndexEntryDocumentKeyIndexKey_KeyPrefix_document_name index_id user_id document_name =
     do {
       w \<leftarrow> WriteTableName [] kIndexEntriesDocumentKeyIndexTable;
       w \<leftarrow> WriteIndexId w index_id;
       w \<leftarrow> WriteUserId w user_id;
       WriteDocumentId w document_name
     }"

definition LevelDbIndexEntryDocumentKeyIndexKey_Decode :: "bytes \<Rightarrow> (bool \<times> u32 \<times> bytes \<times> bytes \<times> u64) option" where
  "LevelDbIndexEntryDocumentKeyIndexKey_Decode key =
     do {
       r \<leftarrow> ReadTableNameMatching (new_reader key) kIndexEntriesDocumentKeyIndexTable;
       (index_id, r) \<leftarrow> ReadIndexId r;
       (user_id, r) \<leftarrow> ReadUserId r;
       (document_key, r) \<leftarrow> ReadDocumentId r;
       (seq_number, r) \<leftarrow> ReadSequenceNumber r;
       r \<leftarrow> ReadTerminator r;
       Some (r_ok r, index_id, user_id, document_key, seq_number)
     }"

text \<open>\<^verbatim>\<open>LevelDbDocumentOverlayKey\<close>.\<close>

definition LevelDbDocumentOverlayKey_KeyPrefix_user_id :: "bytes \<Rightarrow> bytes option" where
  "LevelDbDocumentOverlayKey_KeyPrefix_user_id user_id =
     do { w \<leftarrow> WriteTableName [] kDocumentOverlaysTable; WriteUserId w user_id }"

definition LevelDbDocumentOverlayKey_KeyPrefix_document_key :: "bytes \<Rightarrow> path \<Rightarrow> bytes option" where
  "LevelDbDocumentOverlayKey_KeyPrefix_document_key user_id document_key =
     do {
       w \<leftarrow> WriteTableName [] kDocumentOverlaysTable;
       w \<leftarrow> WriteUserId w user_id;
       WriteResourcePath w document_key
     }"

definition LevelDbDocumentOverlayKey_Key :: "bytes \<Rightarrow> path \<Rightarrow> u32 \<Rightarrow> bytes option" where
  "LevelDbDocumentOverlayKey_Key user_id document_key largest_batch_id =
     do {
       w \<leftarrow> WriteTableName [] kDocumentOverlaysTable;
       w \<leftarrow> WriteUserId w user_id;
       w \<leftarrow> WriteResourcePath w document_key;
       w \<leftarrow> WriteBatchId w largest_batch_id;
       WriteTerminator w
     }"

definition LevelDbDocumentOverlayKey_Decode :: "bytes \<Rightarrow> (bool \<times> bytes \<times> path \<times> u32) option" where
  "LevelDbDocumentOverlayKey_Decode key =
     do {
       r \<leftarrow> ReadTableNameMatching (new_reader key) kDocumentOverlaysTable;
       (user_id, r) \<leftarrow> ReadUserId r;
       (document_key, r) \<leftarrow> ReadDocumentKey r;
       (largest_batch_id, r) \<leftarrow> ReadBatchId r;
       r \<leftarrow> ReadTerminator r;
       Some (r_ok r, user_id, document_key, largest_batch_id)
     }"

text \<open>\<^verbatim>\<open>LevelDbDocumentOverlayLargestBatchIdIndexKey\<close>.\<close>

definition LevelDbDocumentOverlayLargestBatchIdIndexKey_KeyPrefix_user_id :: "bytes \<Rightarrow> bytes option" where
  "LevelDbDocumentOverlayLargestBatchIdIndexKey_KeyPrefix_user_id user_id =
     do { w \<leftarrow> WriteTableName [] kDocumentOverlaysLargestBatchIdIndexTable; WriteUserId w user_id }"

definition LevelDbDocumentOverlayLargestBatchIdIndexKey_KeyPrefix_largest_batch_id :: "bytes \<Rightarrow> u32 \<Rightarrow> bytes option" where
  "LevelDbDocumentOverlayLargestBatchIdIndexKey_KeyPrefix_largest_batch_id user_id largest_batch_id =
     do {
       w \<leftarrow> WriteTableName [] kDocumentOverlaysLargestBatchIdIndexTable;
       w \<leftarrow> WriteUserId w user_id;
       WriteBatchId w largest_batch_id
     }"

definition LevelDbDocumentOverlayLargestBatchIdIndexKey_Key :: "bytes \<Rightarrow> u32 \<Rightarrow> path \<Rightarrow> bytes option" where
  "LevelDbDocumentOverlayLargestBatchIdIndexKey_Key user_id largest_batch_id document_key =
     do {
       w \<leftarrow> WriteTableName [] kDocumentOverlaysLargestBatchIdIndexTable;
       w \<leftarrow> WriteUserId w user_id;
       w \<leftarrow> WriteBatchId w largest_batch_id;
       w \<leftarrow> WriteResourcePath w document_key;
       WriteTerminator w
     }"

definition LevelDbDocumentOverlayLargestBatchIdIndexKey_Decode :: "bytes \<Rightarrow> (bool \<times> bytes \<times> u32 \<times> path) option" where
  "LevelDbDocumentOverlayLargestBatchIdIndexKey_Decode key =
     do {
       r \<leftarrow> ReadTableNameMatching (new_reader key) kDocumentOverlaysLargestBatchIdIndexTable;
       (user_id, r) \<leftarrow> ReadUserId r;
       (largest_batch_id, r) \<leftarrow> ReadBatchId r;
       (document_key, r) \<leftarrow> ReadDocumentKey r;
       r \<leftarrow> ReadTerminator r;
       Some (r_ok r, user_id, largest_batch_id, document_key)
     }"

text \<open>\<^verbatim>\<open>LevelDbDocumentOverlayCollectionIndexKey\<close>.\<close>

definition LevelDbDocumentOverlayCollectionIndexKey_KeyPrefix_user_id :: "bytes \<Rightarrow> bytes option" where
  "LevelDbDocumentOverlayCollectionIndexKey_KeyPrefix_user_id user_id =
     do { w \<leftarrow> WriteTableName [] kDocumentOverlaysCollectionIndexTable; WriteUserId w user_id }"

definition LevelDbDocumentOverlayCollectionIndexKey_KeyPrefix_collection :: "bytes \<Rightarrow> path \<Rightarrow> bytes option" where
  "LevelDbDocumentOverlayCollectionIndexKey_KeyPrefix_collection user_id collection =
     do {
       w \<leftarrow> WriteTableName [] kDocumentOverlaysCollectionIndexTable;
       w \<leftarrow> WriteUserId w user_id;
       WriteResourcePath w collection
     }"

definition LevelDbDocumentOverlayCollectionIndexKey_KeyPrefix_largest_batch_id :: "bytes \<Rightarrow> path \<Rightarrow> u32 \<Rightarrow> bytes option" where
  "LevelDbDocumentOverlayCollectionIndexKey_KeyPrefix_largest_batch_id user_id collection largest_batch_id =
     do {
       w \<leftarrow> WriteTableName [] kDocumentOverlaysCollectionIndexTable;
       w \<leftarrow> WriteUserId w user_id;
       w \<leftarrow> WriteResourcePath w collection;
       WriteBatchId w largest_batch_id
     }"

definition LevelDbDocumentOverlayCollectionIndexKey_Key :: "bytes \<Rightarrow> path \<Rightarrow> u32 \<Rightarrow> bytes \<Rightarrow> bytes option" where
  "LevelDbDocumentOverlayCollectionIndexKey_Key user_id collection largest_batch_id document_id =
     do {
       w \<leftarrow> WriteTableName [] kDocumentOverlaysCollectionIndexTable;
       w \<leftarrow> WriteUserId w user_id;
       w \<leftarrow> WriteResourcePath w collection;
       w \<leftarrow> WriteBatchId w largest_batch_id;
       w \<leftarrow> WriteDocumentId w document_id;
       WriteTerminator w
     }"

definition LevelDbDocumentOverlayCollectionIndexKey_Decode :: "bytes \<Rightarrow> (bool \<times> bytes \<times> u32 \<times> path) option" where
  "LevelDbDocumentOverlayCollectionIndexKey_Decode key =
     do {
       r \<leftarrow> ReadTableNameMatching (new_reader key) kDocumentOverlaysCollectionIndexTable;
       (user_id, r) \<leftarrow> ReadUserId r;
       (collection, r) \<leftarrow> ReadResourcePath r;
       (largest_batch_id, r) \<leftarrow> ReadBatchId r;
       (document_id, r) \<leftarrow> ReadDocumentId r;
       r \<leftarrow> ReadTerminator r;
       document_key \<leftarrow> new_DocumentKey (collection @ [document_id]);
       Some (r_ok r, user_id, largest_batch_id, document_key)
     }"

text \<open>\<^verbatim>\<open>LevelDbDocumentOverlayCollectionGroupIndexKey\<close>.\<close>

definition LevelDbDocumentOverlayCollectionGroupIndexKey_KeyPrefix_user_id :: "bytes \<Rightarrow> bytes option" where
  "LevelDbDocumentOverlayCollectionGroupIndexKey_KeyPrefix_user_id user_id =
     do { w \<leftarrow> WriteTableName [] kDocumentOverlaysCollectionGroupIndexTable; WriteUserId w user_id }"

definition LevelDbDocumentOverlayCollectionGroupIndexKey_KeyPrefix_collection_group :: "bytes \<Rightarrow> bytes \<Rightarrow> bytes option" where
  "LevelDbDocumentOverlayCollectionGroupIndexKey_KeyPrefix_collection_group user_id collection_group =
     do {
       w \<leftarrow> WriteTableName [] kDocumentOverlaysCollectionGroupIndexTable;
       w \<leftarrow> WriteUserId w user_id;
       WriteCollectionGroup w collection_group
     }"

definition LevelDbDocumentOverlayCollectionGroupIndexKey_KeyPrefix_largest_batch_id :: "bytes \<Rightarrow> bytes \<Rightarrow> u32 \<Rightarrow> bytes option" where
  "LevelDbDocumentOverlayCollectionGroupIndexKey_KeyPrefix_largest_batch_id user_id collection_group largest_batch_id =
     do {
       w \<leftarrow> WriteTableName [] kDocumentOverlaysCollectionGroupIndexTable;
       w \<leftarrow> WriteUserId w user_id;
       w \<leftarrow> WriteCollectionGroup w collection_group;
       WriteBatchId w largest_batch_id
     }"

definition LevelDbDocumentOverlayCollectionGroupIndexKey_Key :: "bytes \<Rightarrow> bytes \<Rightarrow> u32 \<Rightarrow> path \<Rightarrow> bytes option" where
  "LevelDbDocumentOverlayCollectionGroupIndexKey_Key user_id collection_group largest_batch_id document_key =
     do {
       w \<leftarrow> WriteTableName [] kDocumentOverlaysCollectionGroupIndexTable;
       w \<leftarrow> WriteUserId w user_id;
       w \<leftarrow> WriteCollectionGroup w collection_group;
       w \<leftarrow> WriteBatchId w largest_batch_id;
       w \<leftarrow> WriteResourcePath w document_key;
       WriteTerminator w
     }"

definition LevelDbDocumentOverlayCollectionGroupIndexKey_Decode :: "bytes \<Rightarrow> (bool \<times> bytes \<times> bytes \<times> u32 \<times> path) option" where
  "LevelDbDocumentOverlayCollectionGroupIndexKey_Decode key =
     do {
       r \<leftarrow> ReadTableNameMatching (new_reader key) kDocumentOverlaysCollectionGroupIndexTable;
       (user_id, r) \<leftarrow> ReadUserId r;
       (collection_group, r) \<leftarrow> ReadCollectionGroup r;
       (largest_batch_id, r) \<leftarrow> ReadBatchId r;
       (document_key, r) \<leftarrow> ReadDocumentKey r;
       r \<leftarrow> ReadTerminator r;
       Some (r_ok r, user_id, collection_group, largest_batch_id, document_key)
     }"

text \<open>\<^verbatim>\<open>LevelDbDataMigrationKey\<close>.\<close>

definition LevelDbDataMigrationKey_Key :: "bytes \<Rightarrow> bytes option" where
  "LevelDbDataMigrationKey_Key migration_name =
     do {
       w \<leftarrow> WriteTableName [] kDataMigrationTable;
       w \<leftarrow> WriteDataMigrationName w migration_name;
       WriteTerminator w
     }"

definition LevelDbDataMigrationKey_Decode :: "bytes \<Rightarrow> (bool \<times> bytes) option" where
  "LevelDbDataMigrationKey_Decode key =
     do {
       r \<leftarrow> ReadTableNameMatching (new_reader key) kDataMigrationTable;
       (migration_name, r) \<leftarrow> ReadDataMigrationName r;
       r \<leftarrow> ReadTerminator r;
       Some (r_ok r, migration_name)
     }"

text \<open>The sentinel rows of the document-target table.\<close>

definition kInvalidTargetId :: u32 where
  "kInvalidTargetId = 0"

definition LevelDbDocumentTargetKey_SentinelKey :: "path \<Rightarrow> bytes option" where
  "LevelDbDocumentTargetKey_SentinelKey document_key = LevelDbDocumentTargetKey_Key document_key kInvalidTargetId"

definition LevelDbDocumentTargetKey_EncodeSentinelValue :: "u64 \<Rightarrow> bytes option" where
  "LevelDbDocumentTargetKey_EncodeSentinelValue sequence_number = WriteSignedNumIncreasing [] sequence_number"

definition LevelDbDocumentTargetKey_DecodeSentinelValue :: "bytes \<Rightarrow> u64 option" where
  "LevelDbDocumentTargetKey_DecodeSentinelValue encoded =
     do {
       read \<leftarrow> ReadSignedNumIncreasing encoded;
       case read of Some (decoded, _) \<Rightarrow> Some decoded | None \<Rightarrow> None
     }"

text \<open>The three index keys of a key of the document overlays.\<close>

record LevelDbDocumentOverlayKey =
  ov_user_id :: bytes
  ov_document_key :: path
  ov_largest_batch_id :: u32

definition LevelDbDocumentOverlayKey_Encode :: "LevelDbDocumentOverlayKey \<Rightarrow> bytes option" where
  "LevelDbDocumentOverlayKey_Encode key = LevelDbDocumentOverlayKey_Key (ov_user_id key) (ov_document_key key) (ov_largest_batch_id key)"

definition largest_batch_id_index_key :: "LevelDbDocumentOverlayKey \<Rightarrow> bytes option" where
  "largest_batch_id_index_key key =
     LevelDbDocumentOverlayLargestBatchIdIndexKey_Key (ov_user_id key) (ov_largest_batch_id key) (ov_document_key key)"

definition collection_index_key :: "LevelDbDocumentOverlayKey \<Rightarrow> bytes option" where
  "collection_index_key key =
     do {
       collection \<leftarrow> PopLast (ov_document_key key);
       document_id \<leftarrow> last_segment (ov_document_key key);
       LevelDbDocumentOverlayCollectionIndexKey_Key (ov_user_id key) collection (ov_largest_batch_id key) document_id
     }"

definition collection_group_index_key :: "LevelDbDocumentOverlayKey \<Rightarrow> bytes option" where
  "collection_group_index_key key =
     do {
       collection_group \<leftarrow> GetCollectionGroup (ov_document_key key);
       LevelDbDocumentOverlayCollectionGroupIndexKey_Key (ov_user_id key) collection_group (ov_largest_batch_id key) (ov_document_key key)
     }"

end
