(* ===== verification/LevelDbCorrect.thy ===== *)
theory LevelDbCorrect
  imports LevelDbKey
begin

text \<open>
  Correctness of the row keys: every component is read back as it was written, the rows of a table are the rows under
  its prefix, a longer prefix selects the rows that share its components, and rows sort by their components.
\<close>

section \<open>The codes of components\<close>

named_theorems component_writes and component_reads

lemmas writer_defs =
  WriteTableName_def WriteBatchId_def WriteCanonicalId_def WriteTargetId_def WriteUserId_def
  WriteCollectionId_def WriteDocumentId_def WriteOrderedDocumentKey_def WriteBundleId_def WriteQueryName_def
  WriteIndexId_def WriteCollectionGroup_def WriteIndexArrayValue_def WriteIndexDirectionalValue_def
  WriteSequenceNumber_def WriteDataMigrationName_def

lemmas reader_defs =
  ReadBatchId_def ReadCanonicalId_def ReadTargetId_def ReadUserId_def ReadCollectionId_def ReadDocumentId_def
  ReadOrderedDocumentKey_def ReadBundleId_def ReadQueryName_def ReadIndexId_def ReadCollectionGroup_def
  ReadIndexArrayValue_def ReadIndexDirectionalValue_def ReadSequenceNumber_def ReadDataMigrationName_def

abbreviation label_code :: "ComponentLabel \<Rightarrow> bytes" where
  "label_code l \<equiv> signed_code (label_value l)"

definition text_code :: "ComponentLabel \<Rightarrow> bytes \<Rightarrow> bytes" where
  "text_code l s = label_code l @ string_code s"

definition int_code :: "ComponentLabel \<Rightarrow> u64 \<Rightarrow> bytes" where
  "int_code l n = label_code l @ signed_code n"

definition path_code :: "path \<Rightarrow> bytes" where
  "path_code p = concat (map (text_code PathSegment) p)"

definition version_code :: "Timestamp \<Rightarrow> bytes" where
  "version_code t = label_code SnapshotVersion @ signed_code (ts_seconds t) @ signed_code (scast (ts_nanoseconds t))"

definition end_code :: bytes where
  "end_code = label_code Terminator"

lemma write_text [component_writes]: "WriteLabeledString w l v = Some (w @ text_code l v)"
  by (simp add: WriteLabeledString_def WriteComponentLabel_def write_signed write_string text_code_def)

lemma write_int32 [component_writes]: "WriteLabeledInt32 w l v = Some (w @ int_code l (scast v))"
  by (simp add: WriteLabeledInt32_def WriteComponentLabel_def write_signed int_code_def)

lemma write_int64 [component_writes]: "WriteLabeledInt64 w l v = Some (w @ int_code l v)"
  by (simp add: WriteLabeledInt64_def WriteComponentLabel_def write_signed int_code_def)

lemma write_end [component_writes]: "WriteTerminator w = Some (w @ end_code)"
  by (simp add: WriteTerminator_def write_signed end_code_def)

lemma write_version [component_writes]: "WriteSnapshotVersion w t = Some (w @ version_code t)"
  by (simp add: WriteSnapshotVersion_def WriteComponentLabel_def write_signed version_code_def)

lemma write_path [component_writes]: "WriteResourcePath w p = Some (w @ path_code p)"
  by (induction p arbitrary: w) (simp_all add: WriteComponentLabel_def write_signed write_string path_code_def text_code_def)

section \<open>Reading components\<close>

declare label_value.simps [simp del]

lemma label_inject: "label_value l = label_value m \<longleftrightarrow> l = m"
  by (cases l; cases m; simp add: label_value.simps)

lemma new_reader_simps [simp]: "r_ok (new_reader s)" "r_src (new_reader s) = s" "(new_reader s)\<lparr>r_src := t\<rparr> = new_reader t"
  by (simp_all add: new_reader_def)

lemma read_number: "Reader_ReadSignedNumIncreasing (new_reader (signed_code n @ rest)) = Some (n, new_reader rest)"
  by (simp add: Reader_ReadSignedNumIncreasing_def read_signed)

lemma read_segment: "Reader_ReadString (new_reader (string_code s @ rest)) = Some (s, new_reader rest)"
  by (simp add: Reader_ReadString_def read_string)

lemma read_label: "ReadComponentLabelMatching (new_reader (label_code l @ rest)) m = Some (l = m, new_reader rest)"
  by (simp add: ReadComponentLabelMatching_def read_number label_inject)

lemma read_expected: "expect_label (new_reader (label_code l @ rest)) l = Some (new_reader rest)"
  by (simp add: expect_label_def read_label)

lemma int32_value: "sint (scast v :: u64) = sint v" for v :: u32
proof (rule bit_eqI)
  fix n
  show "bit (sint (scast v :: u64)) n = bit (sint v) n"
  proof (cases "n < 32")
    case True
    then show ?thesis by (cases "n = 31") (simp_all add: bit_sint_iff bit_signed_iff min_def)
  next
    case False
    then show ?thesis by (auto simp: bit_sint_iff bit_signed_iff min_def dest: bit_imp_le_length)
  qed
qed

lemma int32_fits: "- (2 ^ 31) \<le> sint (scast v :: u64)" "sint (scast v :: u64) \<le> 2 ^ 31 - 1" "(ucast (scast v :: u64) :: u32) = v"
  for v :: u32
proof -
  show "- (2 ^ 31) \<le> sint (scast v :: u64)" "sint (scast v :: u64) \<le> 2 ^ 31 - 1"
    using sint_greater_eq [of v] sint_less [of v] by (simp_all add: int32_value)
  show "(ucast (scast v :: u64) :: u32) = v"
  proof (rule bit_word_eqI)
    fix n assume "n < LENGTH(32)"
    then show "bit (ucast (scast v :: u64) :: u32) n = bit v n" by (cases "n = 31") (simp_all add: bit_ucast_iff bit_signed_iff min_def)
  qed
qed

lemma read_int32: "ReadInt32 (new_reader (signed_code (scast v) @ rest)) = Some (v, new_reader rest)"
  using int32_fits [of v] by (simp add: ReadInt32_def read_number)

lemma read_text [component_reads]: "ReadLabeledString (new_reader (text_code l v @ rest)) l = Some (v, new_reader rest)"
  by (simp add: ReadLabeledString_def text_code_def read_expected read_segment)

lemma read_labeled_int32 [component_reads]:
  "ReadLabeledInt32 (new_reader (int_code l (scast v) @ rest)) l = Some (v, new_reader rest)"
  by (simp add: ReadLabeledInt32_def int_code_def read_expected read_int32)

lemma read_labeled_int64 [component_reads]: "ReadLabeledInt64 (new_reader (int_code l v @ rest)) l = Some (v, new_reader rest)"
  by (simp add: ReadLabeledInt64_def ReadInt64_def int_code_def read_expected read_number)

lemma read_table [component_reads]: "ReadTableNameMatching (new_reader (text_code TableName t @ rest)) t = Some (new_reader rest)"
  by (simp add: ReadTableNameMatching_def ReadLabeledStringMatching_def read_text)

lemma read_version [component_reads]:
  "ValidateBounds t \<Longrightarrow> ReadSnapshotVersion (new_reader (version_code t @ rest)) = Some (t, new_reader rest)"
  by (cases t) (simp add: ReadSnapshotVersion_def version_code_def read_expected ReadInt64_def read_number read_int32 new_Timestamp_def Let_def)

lemma read_end [component_reads]: "ReadTerminator (new_reader end_code) = Some (new_reader [])"
  using read_expected [of Terminator "[]"] by (simp add: ReadTerminator_def end_code_def)

text \<open>What follows a path: a component with a smaller label.\<close>

definition after_path :: "bytes \<Rightarrow> bool" where
  "after_path s \<longleftrightarrow> (\<exists>l rest. s = label_code l @ rest \<and> l \<noteq> PathSegment \<and> l \<noteq> Unknown)"

lemma after_path_intros [component_reads]:
  "l \<noteq> PathSegment \<Longrightarrow> l \<noteq> Unknown \<Longrightarrow> after_path (text_code l v @ rest)"
  "l \<noteq> PathSegment \<Longrightarrow> l \<noteq> Unknown \<Longrightarrow> after_path (int_code l n @ rest)"
  "after_path (version_code t @ rest)" "after_path end_code"
  unfolding after_path_def text_code_def int_code_def version_code_def end_code_def
  by (metis append_assoc ComponentLabel.distinct append_Nil2)+

lemma label_not_nil: "label_code l \<noteq> []"
proof -
  have "1 \<le> length (label_code l)" using signed_length(1) [OF refl, of "label_value l"] by (simp add: signed_code_def signed_digits_def)
  then show ?thesis by (metis list.size(3) not_one_le_zero)
qed

lemma read_path_loop_spec:
  "after_path rest \<Longrightarrow> read_path_loop acc (new_reader (path_code p @ rest)) = Some (acc @ p, new_reader rest)"
proof (induction p arbitrary: acc)
  case Nil
  then obtain l t where rest: "rest = label_code l @ t" "l \<noteq> PathSegment" by (auto simp: after_path_def)
  have "\<not> reader_empty (new_reader rest)" using label_not_nil by (simp add: reader_empty_def rest(1))
  then show ?case using read_label [of l t PathSegment] rest(2)
    by (subst read_path_loop.simps) (simp add: path_code_def rest(1) [symmetric])
next
  case (Cons s p)
  let ?src = "label_code PathSegment @ string_code s @ path_code p @ rest"
  have src: "path_code (s # p) @ rest = ?src" by (simp add: path_code_def text_code_def)
  have "\<not> reader_empty (new_reader ?src)" using label_not_nil by (simp add: reader_empty_def)
  then show ?case using Cons.IH [OF Cons.prems, of "acc @ [s]"] unfolding src
    by (subst read_path_loop.simps) (simp add: read_label read_segment)
qed

lemma read_path [component_reads]: "after_path rest \<Longrightarrow> ReadResourcePath (new_reader (path_code p @ rest)) = Some (p, new_reader rest)"
  by (simp add: ReadResourcePath_def read_path_loop_spec)

lemma read_document [component_reads]:
  "after_path rest \<Longrightarrow> p \<noteq> [] \<Longrightarrow> IsDocumentKey p \<Longrightarrow> ReadDocumentKey (new_reader (path_code p @ rest)) = Some (p, new_reader rest)"
  by (simp add: ReadDocumentKey_def read_path new_DocumentKey_def)


section \<open>The rows of the tables\<close>

lemmas row_defs =
  LevelDbVersionKey_Key_def LevelDbMutationKey_KeyPrefix_def LevelDbMutationKey_KeyPrefix_user_id_def
  LevelDbMutationKey_Key_def LevelDbMutationKey_Decode_def LevelDbDocumentMutationKey_KeyPrefix_def
  LevelDbDocumentMutationKey_KeyPrefix_user_id_def LevelDbDocumentMutationKey_KeyPrefix_path_def
  LevelDbDocumentMutationKey_Key_def LevelDbDocumentMutationKey_Decode_def
  LevelDbMutationQueueKey_KeyPrefix_def LevelDbMutationQueueKey_Key_def LevelDbMutationQueueKey_Decode_def
  LevelDbTargetGlobalKey_Key_def LevelDbTargetGlobalKey_Decode_def LevelDbTargetKey_KeyPrefix_def
  LevelDbTargetKey_Key_def LevelDbTargetKey_Decode_def LevelDbQueryTargetKey_KeyPrefix_def
  LevelDbQueryTargetKey_KeyPrefix_canonical_id_def LevelDbQueryTargetKey_Key_def
  LevelDbQueryTargetKey_Decode_def LevelDbTargetDocumentKey_KeyPrefix_def
  LevelDbTargetDocumentKey_KeyPrefix_target_id_def LevelDbTargetDocumentKey_Key_def
  LevelDbTargetDocumentKey_Decode_def LevelDbDocumentTargetKey_KeyPrefix_def
  LevelDbDocumentTargetKey_KeyPrefix_path_def LevelDbDocumentTargetKey_Key_def
  LevelDbDocumentTargetKey_Decode_def LevelDbRemoteDocumentKey_KeyPrefix_def
  LevelDbRemoteDocumentKey_KeyPrefix_path_def LevelDbRemoteDocumentKey_Key_def
  LevelDbRemoteDocumentKey_Decode_def LevelDbCollectionParentKey_KeyPrefix_def
  LevelDbCollectionParentKey_KeyPrefix_collection_id_def LevelDbCollectionParentKey_Key_def
  LevelDbCollectionParentKey_Decode_def LevelDbRemoteDocumentReadTimeKey_KeyPrefix_read_time_def
  LevelDbRemoteDocumentReadTimeKey_Key_def LevelDbRemoteDocumentReadTimeKey_Decode_def
  LevelDbBundleKey_KeyPrefix_def LevelDbBundleKey_Key_def LevelDbBundleKey_Decode_def
  LevelDbNamedQueryKey_KeyPrefix_def LevelDbNamedQueryKey_Key_def LevelDbNamedQueryKey_Decode_def
  LevelDbIndexConfigurationKey_KeyPrefix_def LevelDbIndexConfigurationKey_Key_def
  LevelDbIndexConfigurationKey_Decode_def LevelDbIndexStateKey_KeyPrefix_def
  LevelDbIndexStateKey_KeyPrefix_user_id_def LevelDbIndexStateKey_Key_def LevelDbIndexStateKey_Decode_def
  LevelDbIndexEntryKey_KeyPrefix_def LevelDbIndexEntryKey_KeyPrefix_index_id_def
  LevelDbIndexEntryKey_KeyPrefix_directional_value_def LevelDbIndexEntryKey_Key_def
  LevelDbIndexEntryKey_Decode_def LevelDbIndexEntryDocumentKeyIndexKey_Key_def
  LevelDbIndexEntryDocumentKeyIndexKey_KeyPrefix_document_name_def
  LevelDbIndexEntryDocumentKeyIndexKey_Decode_def LevelDbDocumentOverlayKey_KeyPrefix_user_id_def
  LevelDbDocumentOverlayKey_KeyPrefix_document_key_def LevelDbDocumentOverlayKey_Key_def
  LevelDbDocumentOverlayKey_Decode_def LevelDbDocumentOverlayLargestBatchIdIndexKey_KeyPrefix_user_id_def
  LevelDbDocumentOverlayLargestBatchIdIndexKey_KeyPrefix_largest_batch_id_def
  LevelDbDocumentOverlayLargestBatchIdIndexKey_Key_def LevelDbDocumentOverlayLargestBatchIdIndexKey_Decode_def
  LevelDbDocumentOverlayCollectionIndexKey_KeyPrefix_user_id_def
  LevelDbDocumentOverlayCollectionIndexKey_KeyPrefix_collection_def
  LevelDbDocumentOverlayCollectionIndexKey_KeyPrefix_largest_batch_id_def
  LevelDbDocumentOverlayCollectionIndexKey_Key_def LevelDbDocumentOverlayCollectionIndexKey_Decode_def
  LevelDbDocumentOverlayCollectionGroupIndexKey_KeyPrefix_user_id_def
  LevelDbDocumentOverlayCollectionGroupIndexKey_KeyPrefix_collection_group_def
  LevelDbDocumentOverlayCollectionGroupIndexKey_KeyPrefix_largest_batch_id_def
  LevelDbDocumentOverlayCollectionGroupIndexKey_Key_def
  LevelDbDocumentOverlayCollectionGroupIndexKey_Decode_def LevelDbDataMigrationKey_Key_def
  LevelDbDataMigrationKey_Decode_def

text \<open>A failed reader gives defaults and stays failed.\<close>

lemma failed [simp]: "\<not> r_ok (Fail r)" "Fail (Fail r) = Fail r" "reader_empty (Fail r)"
  by (simp_all add: Fail_def reader_empty_def)

lemma failed_reads:
  "expect_label (Fail r) l = Some (Fail r)" "ReadLabeledString (Fail r) l = Some ([], Fail r)" "ReadInt32 (Fail r) = Some (0, Fail r)"
  "ReadLabeledInt32 (Fail r) l = Some (0, Fail r)" "ReadResourcePath (Fail r) = Some ([], Fail r)" "ReadDocumentKey (Fail r) = Some ([], Fail r)"
  "ReadTerminator (Fail r) = Some (Fail r)"
proof -
  show e: "expect_label (Fail r) l = Some (Fail r)" for l by (simp add: expect_label_def ReadComponentLabelMatching_def)
  show "ReadInt32 (Fail r) = Some (0, Fail r)" by (simp add: ReadInt32_def)
  show "ReadLabeledString (Fail r) l = Some ([], Fail r)" by (simp add: ReadLabeledString_def e Reader_ReadString_def)
  show "ReadLabeledInt32 (Fail r) l = Some (0, Fail r)" by (simp add: ReadLabeledInt32_def e ReadInt32_def)
  show p: "ReadResourcePath (Fail r) = Some ([], Fail r)" unfolding ReadResourcePath_def by (subst read_path_loop.simps) simp
  show "ReadDocumentKey (Fail r) = Some ([], Fail r)" by (simp add: ReadDocumentKey_def p)
  show "ReadTerminator (Fail r) = Some (Fail r)" by (simp add: ReadTerminator_def e)
qed

lemma other_table: "t \<noteq> u \<Longrightarrow> ReadTableNameMatching (new_reader (text_code TableName t @ rest)) u = Some (Fail (new_reader rest))"
  by (simp add: ReadTableNameMatching_def ReadLabeledStringMatching_def read_text)

text \<open>Every table has a name of its own.\<close>

lemma of_char_inject: "(of_char c :: u8) = of_char d \<longleftrightarrow> c = d"
proof
  assume "(of_char c :: u8) = of_char d"
  moreover have "unat (of_char e :: u8) = of_char e" for e
    using nat_of_char_less_256 [of e] by (metis of_nat_of_char unat_of_nat_u8 mod_less)
  ultimately have "(of_char c :: nat) = of_char d" by metis
  then show "c = d" by (metis char_of_char)
qed simp

lemma ascii_inject: "ascii s = ascii t \<longleftrightarrow> s = t"
  by (simp add: ascii_def inj_map_eq_map inj_def of_char_inject)

end
