(* ===== verification/LevelDbRows.thy ===== *)
theory LevelDbRows
  imports LevelDbCorrect
begin

text \<open>
  The rows of the local store as a whole: they decode to what they were made of, a key prefix selects exactly the rows
  that share its components, and rows sort by their components, shorter paths first.
\<close>

section \<open>Prefixes\<close>

lemma diverges_prefix: "diverges xs ys \<Longrightarrow> \<not> prefix (xs @ us) (ys @ vs) \<and> \<not> prefix (ys @ vs) (xs @ us)"
  by (induction xs ys rule: diverges.induct) auto

context item_code
begin

lemma prefix_append: "prefix (code a @ us) (code b @ vs) \<longleftrightarrow> norm a = norm b \<and> prefix us vs"
  using connected [of a b] canonical [of a b] order [of a b] order [of b a] diverges_prefix
  by (metis same_prefix_prefix)

end

lemma string_prefix: "prefix (string_code a @ us) (string_code b @ vs) \<longleftrightarrow> a = b \<and> prefix us vs"
  using strings.prefix_append [of "Some a" us "Some b" vs] by (simp add: string_or_infinity_def)

lemma string_less: "bytes_less (string_code a @ us) (string_code b @ vs) \<longleftrightarrow> bytes_less a b \<or> a = b \<and> bytes_less us vs"
  using strings.less_append [of "Some a" us "Some b" vs] by (simp add: string_or_infinity_def)

named_theorems row_prefixes and row_orders

lemma text_prefix [row_prefixes]: "prefix (text_code l a @ us) (text_code m b @ vs) \<longleftrightarrow> l = m \<and> a = b \<and> prefix us vs"
  by (auto simp: text_code_def signed_numbers.prefix_append label_inject string_prefix)

lemma int_prefix [row_prefixes]: "prefix (int_code l a @ us) (int_code m b @ vs) \<longleftrightarrow> l = m \<and> a = b \<and> prefix us vs"
  by (auto simp: int_code_def signed_numbers.prefix_append label_inject)

lemma text_prefix_end [row_prefixes]: "prefix (text_code l a) (text_code m b @ vs) \<longleftrightarrow> l = m \<and> a = b"
  using text_prefix [of l a "[]" m b vs] by simp

lemma int_prefix_end [row_prefixes]: "prefix (int_code l a) (int_code m b @ vs) \<longleftrightarrow> l = m \<and> a = b"
  using int_prefix [of l a "[]" m b vs] by simp

lemma int32_inject [row_prefixes]: "(scast a :: u64) = scast b \<longleftrightarrow> a = b" for a b :: u32
  using int32_fits(3) by metis

lemma path_code_simps: "path_code [] = []" "path_code (a # p) = text_code PathSegment a @ path_code p"
  by (simp_all add: path_code_def)

lemma segment_not_after: "after_path s \<Longrightarrow> \<not> prefix (text_code PathSegment a @ us) s"
  by (auto simp: after_path_def text_code_def signed_numbers.prefix_append label_inject)

lemma after_not_segment: "after_path s \<Longrightarrow> \<not> prefix s (text_code PathSegment a @ us)"
  by (auto simp: after_path_def text_code_def signed_numbers.prefix_append label_inject)

lemma path_prefix_end [row_prefixes]: "after_path s \<Longrightarrow> prefix (path_code p) (path_code q @ s) \<longleftrightarrow> prefix p q"
proof (induction p arbitrary: q)
  case (Cons a p)
  then show ?case
  proof (cases q)
    case Nil
    with segment_not_after [OF Cons.prems, of a "path_code p"] show ?thesis by (simp add: path_code_simps)
  qed (simp add: path_code_simps text_prefix)
qed (simp add: path_code_simps)

lemma path_prefix [row_prefixes]:
  "after_path s \<Longrightarrow> after_path t \<Longrightarrow> prefix (path_code p @ s) (path_code q @ t) \<longleftrightarrow> p = q \<and> prefix s t"
proof (induction p arbitrary: q)
  case Nil
  then show ?case by (cases q) (simp_all add: path_code_simps after_not_segment)
next
  case (Cons a p)
  then show ?case by (cases q) (simp_all add: path_code_simps text_prefix segment_not_after)
qed

lemma after_path_ends [row_prefixes]:
  "l \<noteq> PathSegment \<Longrightarrow> l \<noteq> Unknown \<Longrightarrow> after_path (text_code l v)" "l \<noteq> PathSegment \<Longrightarrow> l \<noteq> Unknown \<Longrightarrow> after_path (int_code l n)"
  using after_path_intros(1,2) [of l _ "[]"] by simp_all

section \<open>Orders\<close>

text \<open>Paths compare segment by segment, and a path sorts before its extensions.\<close>

fun path_less :: "path \<Rightarrow> path \<Rightarrow> bool" where
  "path_less p [] \<longleftrightarrow> False"
| "path_less [] (b # q) \<longleftrightarrow> True"
| "path_less (a # p) (b # q) \<longleftrightarrow> bytes_less a b \<or> a = b \<and> path_less p q"

lemma text_less [row_orders]:
  "bytes_less (text_code l a @ us) (text_code l b @ vs) \<longleftrightarrow> bytes_less a b \<or> a = b \<and> bytes_less us vs"
  by (simp add: text_code_def bytes_less_common string_less)

lemma int_less [row_orders]:
  "bytes_less (int_code l a @ us) (int_code l b @ vs) \<longleftrightarrow> sint a < sint b \<or> a = b \<and> bytes_less us vs"
  by (simp add: int_code_def bytes_less_common signed_numbers.less_append)

lemma int32_less [row_orders]: "sint (scast a :: u64) < sint (scast b :: u64) \<longleftrightarrow> sint a < sint b" for a b :: u32
  by (simp add: int32_value)

lemma label_before_path: "l \<noteq> PathSegment \<Longrightarrow> l \<noteq> Unknown \<Longrightarrow> sint (label_value l) < sint (label_value PathSegment)"
  by (cases l) (simp_all add: label_value.simps)

lemma after_less_segment: "after_path s \<Longrightarrow> bytes_less s (text_code PathSegment a @ us)"
  by (auto simp: after_path_def text_code_def signed_numbers.less_append label_before_path)

lemma segment_not_less_after: "after_path s \<Longrightarrow> \<not> bytes_less (text_code PathSegment a @ us) s"
  using after_less_segment bytes_less_antisym by blast

lemma path_order [row_orders]:
  "after_path s \<Longrightarrow> after_path t \<Longrightarrow> bytes_less (path_code p @ s) (path_code q @ t) \<longleftrightarrow> path_less p q \<or> p = q \<and> bytes_less s t"
proof (induction p q rule: path_less.induct)
  case (1 p)
  then show ?case by (cases p) (simp_all add: path_code_simps segment_not_less_after)
next
  case (2 b q)
  then show ?case by (simp add: path_code_simps after_less_segment)
next
  case (3 a p b q)
  then show ?case by (auto simp: path_code_simps text_less)
qed

lemma bytes_less_irrefl: "\<not> bytes_less s s"
  using bytes_less_antisym by blast

section \<open>Claims\<close>

text \<open>C9. Rows decode to what they were made of: for every table, the key of a row decodes successfully and gives back the
  members it was made from, for document keys that are not empty and timestamps in their bounds.\<close>

theorem row_keys_roundtrip:
  assumes "doc \<noteq> []" and "IsDocumentKey doc" and "IsDocumentKey (path @ [docid])" and "ValidateBounds version"
  shows "(LevelDbMutationKey_Key user batch \<bind> LevelDbMutationKey_Decode) = Some (True, user, batch) \<and>
    (LevelDbDocumentMutationKey_Key user doc batch \<bind> LevelDbDocumentMutationKey_Decode) = Some (True, user, doc, batch) \<and>
    (LevelDbMutationQueueKey_Key user \<bind> LevelDbMutationQueueKey_Decode) = Some (True, user) \<and>
    (LevelDbTargetGlobalKey_Key \<bind> LevelDbTargetGlobalKey_Decode) = Some True \<and>
    (LevelDbTargetKey_Key target \<bind> LevelDbTargetKey_Decode) = Some (True, target) \<and>
    (LevelDbQueryTargetKey_Key name target \<bind> LevelDbQueryTargetKey_Decode) = Some (True, name, target) \<and>
    (LevelDbTargetDocumentKey_Key target doc \<bind> LevelDbTargetDocumentKey_Decode) = Some (True, target, doc) \<and>
    (LevelDbDocumentTargetKey_Key doc target \<bind> LevelDbDocumentTargetKey_Decode) = Some (True, doc, target) \<and>
    (LevelDbRemoteDocumentKey_Key doc \<bind> LevelDbRemoteDocumentKey_Decode) = Some (True, doc) \<and>
    (LevelDbCollectionParentKey_Key name path \<bind> LevelDbCollectionParentKey_Decode) = Some (True, name, path) \<and>
    (LevelDbRemoteDocumentReadTimeKey_Key path version docid \<bind> LevelDbRemoteDocumentReadTimeKey_Decode) = Some (True, path, version, docid) \<and>
    (LevelDbBundleKey_Key name \<bind> LevelDbBundleKey_Decode) = Some (True, name) \<and>
    (LevelDbNamedQueryKey_Key name \<bind> LevelDbNamedQueryKey_Decode) = Some (True, name) \<and>
    (LevelDbIndexConfigurationKey_Key index name \<bind> LevelDbIndexConfigurationKey_Decode) = Some (True, index, name) \<and>
    (LevelDbIndexStateKey_Key user index \<bind> LevelDbIndexStateKey_Decode) = Some (True, user, index) \<and>
    (LevelDbIndexEntryKey_Key index user a d ordered docid \<bind> LevelDbIndexEntryKey_Decode) = Some (True, index, user, a, d, ordered, docid) \<and>
    (LevelDbIndexEntryDocumentKeyIndexKey_Key index user docid seq \<bind> LevelDbIndexEntryDocumentKeyIndexKey_Decode) = Some (True, index, user, docid, seq) \<and>
    (LevelDbDocumentOverlayKey_Key user doc batch \<bind> LevelDbDocumentOverlayKey_Decode) = Some (True, user, doc, batch) \<and>
    (LevelDbDocumentOverlayLargestBatchIdIndexKey_Key user batch doc \<bind> LevelDbDocumentOverlayLargestBatchIdIndexKey_Decode) = Some (True, user, batch, doc) \<and>
    (LevelDbDocumentOverlayCollectionIndexKey_Key user path batch docid \<bind> LevelDbDocumentOverlayCollectionIndexKey_Decode) = Some (True, user, batch, path @ [docid]) \<and>
    (LevelDbDocumentOverlayCollectionGroupIndexKey_Key user name batch doc \<bind> LevelDbDocumentOverlayCollectionGroupIndexKey_Decode) = Some (True, user, name, batch, doc) \<and>
    (LevelDbDataMigrationKey_Key name \<bind> LevelDbDataMigrationKey_Decode) = Some (True, name)"
  using assms
  by (intro conjI) (simp_all add: row_defs writer_defs reader_defs component_writes component_reads new_DocumentKey_def)

theorem row_keys_roundtrip_witness:
  "(LevelDbMutationKey_Key [7] 3 \<bind> LevelDbMutationKey_Decode) = Some (True, [7], 3) \<and>
    (LevelDbDocumentMutationKey_Key [7] [[1], [2]] 3 \<bind> LevelDbDocumentMutationKey_Decode) = Some (True, [7], [[1], [2]], 3) \<and>
    (LevelDbMutationQueueKey_Key [7] \<bind> LevelDbMutationQueueKey_Decode) = Some (True, [7]) \<and>
    (LevelDbTargetGlobalKey_Key \<bind> LevelDbTargetGlobalKey_Decode) = Some True \<and>
    (LevelDbTargetKey_Key 4 \<bind> LevelDbTargetKey_Decode) = Some (True, 4) \<and>
    (LevelDbQueryTargetKey_Key [8] 4 \<bind> LevelDbQueryTargetKey_Decode) = Some (True, [8], 4) \<and>
    (LevelDbTargetDocumentKey_Key 4 [[1], [2]] \<bind> LevelDbTargetDocumentKey_Decode) = Some (True, 4, [[1], [2]]) \<and>
    (LevelDbDocumentTargetKey_Key [[1], [2]] 4 \<bind> LevelDbDocumentTargetKey_Decode) = Some (True, [[1], [2]], 4) \<and>
    (LevelDbRemoteDocumentKey_Key [[1], [2]] \<bind> LevelDbRemoteDocumentKey_Decode) = Some (True, [[1], [2]]) \<and>
    (LevelDbCollectionParentKey_Key [8] [[1]] \<bind> LevelDbCollectionParentKey_Decode) = Some (True, [8], [[1]]) \<and>
    (LevelDbRemoteDocumentReadTimeKey_Key [[1]] \<lparr>ts_seconds = 5, ts_nanoseconds = 6\<rparr> [2] \<bind> LevelDbRemoteDocumentReadTimeKey_Decode) = Some (True, [[1]], \<lparr>ts_seconds = 5, ts_nanoseconds = 6\<rparr>, [2]) \<and>
    (LevelDbBundleKey_Key [8] \<bind> LevelDbBundleKey_Decode) = Some (True, [8]) \<and>
    (LevelDbNamedQueryKey_Key [8] \<bind> LevelDbNamedQueryKey_Decode) = Some (True, [8]) \<and>
    (LevelDbIndexConfigurationKey_Key 5 [8] \<bind> LevelDbIndexConfigurationKey_Decode) = Some (True, 5, [8]) \<and>
    (LevelDbIndexStateKey_Key [7] 5 \<bind> LevelDbIndexStateKey_Decode) = Some (True, [7], 5) \<and>
    (LevelDbIndexEntryKey_Key 5 [7] [9] [10] [11] [2] \<bind> LevelDbIndexEntryKey_Decode) = Some (True, 5, [7], [9], [10], [11], [2]) \<and>
    (LevelDbIndexEntryDocumentKeyIndexKey_Key 5 [7] [2] (- 6) \<bind> LevelDbIndexEntryDocumentKeyIndexKey_Decode) = Some (True, 5, [7], [2], (- 6)) \<and>
    (LevelDbDocumentOverlayKey_Key [7] [[1], [2]] 3 \<bind> LevelDbDocumentOverlayKey_Decode) = Some (True, [7], [[1], [2]], 3) \<and>
    (LevelDbDocumentOverlayLargestBatchIdIndexKey_Key [7] 3 [[1], [2]] \<bind> LevelDbDocumentOverlayLargestBatchIdIndexKey_Decode) = Some (True, [7], 3, [[1], [2]]) \<and>
    (LevelDbDocumentOverlayCollectionIndexKey_Key [7] [[1]] 3 [2] \<bind> LevelDbDocumentOverlayCollectionIndexKey_Decode) = Some (True, [7], 3, [[1]] @ [[2]]) \<and>
    (LevelDbDocumentOverlayCollectionGroupIndexKey_Key [7] [8] 3 [[1], [2]] \<bind> LevelDbDocumentOverlayCollectionGroupIndexKey_Decode) = Some (True, [7], [8], 3, [[1], [2]]) \<and>
    (LevelDbDataMigrationKey_Key [8] \<bind> LevelDbDataMigrationKey_Decode) = Some (True, [8])"
  by (rule row_keys_roundtrip) (simp_all add: IsDocumentKey_def ValidateBounds_def)




end
