(* ===== verification/Spec2Isabelle.thy ===== *)
theory Spec2Isabelle
  imports PbEncode PbSafety Base64 Ber Lhash Stack Unicode SortedMap LevelDbRows
begin

text \<open>
  Verification of the C and C++ core of Lumiere for iOS.

  The application is a SwiftUI client of Firebase. Its own sources (src/Lumiere\_iOS/Lumiere\_iOS) are Swift views; the
  C and C++ code of the repository are the libraries under src/Lumiere\_iOS/Pods that the client links. This
  development models the self-contained layers of that code on which stored and transmitted data depend: the protocol
  buffer codec nanopb, with which Firestore and GoogleDataTransport encode messages; the data handling of
  BoringSSL (builders and readers of DER, base64, character encodings, containers); and, of Firestore, the immutable
  sorted maps that hold its view of documents, the order-preserving encoding and the row keys of its local store.

  Conventions. Machine integers are words of their width (\<open>u8\<close> to \<open>u64\<close>, \<open>size_t\<close> is 64 bits, little-endian). Lengths of
  lists stand for lengths the source passes. A C function that returns 0 or false for failure returns a boolean or an
  option; a stateful operation returns the changed state. \<open>None\<close> of a whole operation is a failed assertion, an access
  the source does not allow or, for \<open>partial_function\<close>, not returning; the theorems prove \<open>Some\<close>. Code that is not in
  the repository (malloc, qsort, the callbacks of a caller) is an argument of the definitions.

  Theories and sources.
  \<^item> Prelude: word types, byte-addressed memory, the sequencing combinators of the C idiom of early return.
  \<^item> PbStream, PbWire, PbCommon, PbEncode, PbDecode, PbSafety: nanopb (pb.h, pb\_common.c, pb\_encode.c, pb\_decode.c).
    PbStream has the streams with their callbacks and limits (\<open>pb_write\<close>, \<open>pb_read\<close>, substreams); PbWire varints, tags,
    fixed-width values, strings and skipping; PbCommon the field iterator over descriptors; PbEncode the message encoder
    and PbDecode the decoder with static, pointer, callback, oneof and extension fields; PbSafety the bounds of what the
    decoder stores.
  \<^item> ConstTime, Mem, Base64: the constant-time masks of crypto/internal.h, allocation and strings of crypto/mem.c with the
    growable buffer of crypto/buf/buf.c, and crypto/base64/base64.c.
  \<^item> CBS, Der, CBB, CbbSpec, CbbRoundtrip, Ber, Unicode: crypto/bytestring (cbs.c, ber.c, cbb.c, unicode.c). CBS is the
    reader, Der the DER encoding as a specification of it; CBB the builder with its shared buffer and tree of open
    children, CbbSpec its abstraction to a stack of contents; CbbRoundtrip joins builder and reader;
    Ber is the conversion of BER to DER, which reads with the one and writes with the other.
  \<^item> Lhash, Stack: crypto/lhash/lhash.c and crypto/stack/stack.c.
  \<^item> Llrb, LlrbCorrect, SortedMap: Firestore/core/src/immutable: the red-black tree (llrb\_node.h), its iterator, the tree and
    array maps, the map that switches between them and the views of its keys.
  \<^item> OrderedCode, OrderedBytes, OrderedCorrect, OrderedNumbers, OrderedSigned, OrderedItems: the encoding of
    Firestore/core/src/util/ordered\_code.cc and bits.h: definitions, word-at-a-time routines, strings, unsigned and signed
    numbers, and keys of many items.
  \<^item> LevelDbKey, LevelDbCorrect, LevelDbRows: the row keys of Firestore/core/src/local/leveldb\_key.cc, with the document
    keys, paths and timestamps they use: definitions, components, rows of tables.

  Interaction. PbEncode and PbDecode run on the streams of PbStream through PbWire; the theorems compose them.
  Builder and reader of BoringSSL meet in CbbRoundtrip. LevelDbKey calls the writers and readers of OrderedCode, and its
  order, prefix and round-trip theorems rest on theirs.

  What the theorems show.
  \<^item> nanopb: encoding writes exactly the reference encoding and as many bytes as announced; primitives round trip;
    writing and decoding stay inside their buffers; the iterator computes true member offsets; overlong varints are
    rejected by one reader and accepted by the other; two inputs on which the decoder writes where it should not.
  \<^item> BoringSSL: the builder implements its stack abstraction and its lengths are exact; the reader accepts exactly DER;
    both round trip; the conversion of BER computes the DER encoding of the parsed input, and its output needs no
    conversion; the hash table is a finite map; the stack finds first matches in every reachable state; UTF-8 is
    canonical; base64 streams round trip; masks and comparisons are exact; copies stay in bounds.
  \<^item> Firestore: any sequence of insertions and removals keeps the tree balanced, with the entries of the abstract map,
    iteration ends and visits each entry once; ranges are exact; keys sort as their items and are read back; the word
    scan finds the first special byte; rows of every table decode to their members, prefixes select exactly the rows that
    share their components, and rows sort by their components.

  Interfaces. The locales state what a client relies on: \<open>ostream_sink\<close> and \<open>istream_source\<close> (what a stream callback
  promises, interpreted on the memory buffers of PbStream), \<open>byte_sink\<close> (an append-only buffer, interpreted on
  \<open>BUF_MEM\<close>), \<open>lh_keys\<close> and \<open>keyed_table\<close> (consistent hash and comparison functions give a finite map, interpreted on C
  strings), \<open>linear_comparator\<close> and \<open>ordered_map\<close> (a comparator for a linear order makes the tree, the array map and
  the switching map ordered maps, interpreted on the default comparator), \<open>item_code\<close> and \<open>dual_code\<close> (an item's
  encoding preserves order and is read back, in both directions, interpreted on strings, numbers, signed numbers and
  doubles).

  Fuel and termination. Loops are recursive functions with measures where they always end. The encoder and the decoder
  of nanopb recurse through descriptors and linked extensions that need not be well-founded, so they carry fuel, one
  unit a level, and the field iterator's search carries fuel for one turn around the fields. The encoder theorems say
  that the fuel of the reference encoding is enough for the encoder, and \<open>find_returns\<close> that the search always ends.
  The safety theorem of the decoder holds for every fuel. Flushing a tree of builders, the conversion of BER, the loop over the entries of a
  map, the two string loops of the ordered code and the reading of a path are partial functions; their theorems state
  that they return. Sizes of trees are 31 bits wide, so the map theorems hold for fewer than \<open>2 ^ 31\<close> operations.
  Readers of ordered numbers compare lengths as 64-bit words, so their theorems assume sources shorter than \<open>2 ^ 64\<close>.
  The output of the conversion of BER is at most eight times its input; its theorems assume inputs shorter than
  \<open>2 ^ 28\<close>, so that no length exceeds what four length octets hold.

  Not modelled. Swift and Objective-C sources; gRPC, abseil, upb and generated tables and descriptors, which are
  third-party or generated; libuv and leveldb, which are third-party event loops and storage; the cryptography of BoringSSL (bignum, ciphers,
  elliptic curves, x509, TLS), whose specifications are outside this development; of Firestore C++ the remote, api and
  core layers and the rest of local and model, which are asynchronous glue over the layers above. Within modelled
  files: \<open>CBS_stow\<close> and \<open>CBS_strdup\<close>, \<open>BIO_snprintf\<close>
  and its kin, reference counts, sorted sets, \<open>DescribeKey\<close>, the readers of ordered code called with a null result, and
  the portable logarithms for compilers other than the one used.
\<close>

end
